(* ===== verification/Prelude.thy ===== *)
theory Prelude
  imports Main "HOL-Library.Word" "HOL-Library.Monad_Syntax"
begin

text \<open>
  Shared types and lemmas: bytes as 8-bit words, Go strings as byte sequences, big-endian
  numbers, in-place updates of a byte buffer, and the lemma collections the component
  theories extend.
\<close>

unbundle bit_operations_syntax

named_theorems byte_simps \<open>rewriting on bytes, strings and buffers\<close>
named_theorems conn_simps \<open>frame rules and projections of the connection's operations\<close>

type_synonym byte = "8 word"
type_synonym bytes = "byte list"

text \<open>A Go \<open>int64\<close>: the width matters where the code tests for a negative sum.\<close>

type_synonym int64 = "64 word"

section \<open>Strings and bytes\<close>

text \<open>
  A Go string is a sequence of bytes. Texts and headers are written as \<open>string\<close> (whose
  characters are bytes too); the conversions \<open>[]byte(s)\<close> and \<open>string(b)\<close> are the two
  functions below.
\<close>

definition bytes_of_string :: "string \<Rightarrow> bytes" where
  "bytes_of_string s = map of_char s"

definition string_of_bytes :: "bytes \<Rightarrow> string" where
  "string_of_bytes bs = map (\<lambda>b. char_of (unat b)) bs"

lemma unat_byte_lt [simp]: "unat (b :: byte) < 256"
  using unsigned_less [of b, where 'a = nat] by simp

lemma unat_byte_of_nat [simp]: "unat (of_nat n :: byte) = n mod 256"
  by (simp add: unat_of_nat)

lemma unat_of_char_byte [simp]: "unat (of_char c :: byte) = of_char c"
proof -
  have "(of_char c :: nat) < 256" by (rule nat_of_char_less_256)
  moreover have "(of_char c :: byte) = of_nat (of_char c)" by (rule of_nat_of_char [symmetric])
  ultimately show ?thesis by (simp only: unat_byte_of_nat mod_less)
qed

lemma char_of_of_char_byte [simp]: "char_of (unat (of_char c :: byte)) = c"
  by simp

lemma of_char_char_of_byte [simp]: "of_char (char_of (unat b)) = (b :: byte)"
  by (rule unsigned_word_eqI [where 'a = nat]) simp

lemma string_bytes_inverse [byte_simps, simp]: "string_of_bytes (bytes_of_string s) = s"
  by (simp add: string_of_bytes_def bytes_of_string_def comp_def)

lemma bytes_string_inverse [byte_simps, simp]: "bytes_of_string (string_of_bytes b) = b"
  by (simp add: string_of_bytes_def bytes_of_string_def comp_def)

lemma length_bytes_of_string [byte_simps, simp]: "length (bytes_of_string s) = length s"
  by (simp add: bytes_of_string_def)

lemma length_string_of_bytes [byte_simps, simp]: "length (string_of_bytes s) = length s"
  by (simp add: string_of_bytes_def)

section \<open>Big-endian numbers (encoding/binary)\<close>

definition be_bytes :: "nat \<Rightarrow> nat \<Rightarrow> bytes" where
  "be_bytes k n = map (\<lambda>i. of_nat (n div 256 ^ i)) (rev [0..<k])"

fun be_val :: "bytes \<Rightarrow> nat" where
  "be_val [] = 0"
| "be_val (b # bs) = unat b * 256 ^ length bs + be_val bs"

lemma length_be_bytes [byte_simps, simp]: "length (be_bytes k n) = k"
  by (simp add: be_bytes_def)

lemma be_bytes_Suc: "be_bytes (Suc k) n = of_nat (n div 256 ^ k) # be_bytes k n"
  by (simp add: be_bytes_def)

lemma be_val_be_bytes: "be_val (be_bytes k n) = n mod 256 ^ k"
proof (induction k)
  case 0
  show ?case by (simp add: be_bytes_def)
next
  case (Suc k)
  have "n mod (256 ^ k * 256) = 256 ^ k * (n div 256 ^ k mod 256) + n mod 256 ^ k"
    by (rule mod_mult2_eq)
  with Suc show ?case by (simp add: be_bytes_Suc mult.commute)
qed

lemma be_val_lt: "be_val bs < 256 ^ length bs"
proof (induction bs)
  case Nil
  show ?case by simp
next
  case (Cons b bs)
  have "unat b \<le> 255" using unat_byte_lt [of b] by linarith
  then have "unat b * 256 ^ length bs \<le> 255 * 256 ^ length bs" by (rule mult_le_mono1)
  moreover have "256 ^ length (b # bs) = 255 * 256 ^ length bs + (256 ^ length bs :: nat)" by simp
  ultimately show ?case using Cons by (simp only: be_val.simps)
qed

section \<open>In-place updates of a buffer\<close>

text \<open>
  \<open>copy(buf[i:], src)\<close>: as many bytes of the source as fit are written from index i on.
  An index past the end is a panic in Go; the theories that use it show that the index is
  in range (\<open>i \<le> length buf\<close>).
\<close>

definition copy_at :: "nat \<Rightarrow> bytes \<Rightarrow> bytes \<Rightarrow> bytes" where
  "copy_at i src buf =
     take i buf @ take (length buf - i) src @ drop (i + length src) buf"

text \<open>The slice \<open>buf[lo:hi]\<close>.\<close>

definition slice :: "nat \<Rightarrow> nat \<Rightarrow> 'a list \<Rightarrow> 'a list" where
  "slice lo hi buf = take (hi - lo) (drop lo buf)"

lemma length_copy_at [byte_simps, simp]: "i \<le> length buf \<Longrightarrow> length (copy_at i src buf) = length buf"
  by (simp add: copy_at_def min_def)

lemma length_slice [byte_simps, simp]: "hi \<le> length b \<Longrightarrow> length (slice lo hi b) = hi - lo"
  by (simp add: slice_def)

lemma copy_at_Nil [byte_simps, simp]: "i \<le> length buf \<Longrightarrow> copy_at i [] buf = buf"
  by (simp add: copy_at_def)

text \<open>What a slice of an updated buffer holds: before, across and after the update.\<close>

lemma slice_copy_before:
  "hi \<le> i \<Longrightarrow> i \<le> length buf \<Longrightarrow> slice lo hi (copy_at i src buf) = slice lo hi buf"
  by (simp add: slice_def copy_at_def take_drop min_def)

lemma slice_copy_exact:
  "i + length src \<le> length buf \<Longrightarrow> slice i (i + length src) (copy_at i src buf) = src"
  by (simp add: slice_def copy_at_def)

lemma slice_split:
  "lo \<le> mid \<Longrightarrow> mid \<le> hi \<Longrightarrow> slice lo hi b = slice lo mid b @ slice mid hi b"
proof -
  assume le: "lo \<le> mid" "mid \<le> hi"
  then have "hi - lo = (mid - lo) + (hi - mid)" by simp
  then have "take (hi - lo) (drop lo b) = take (mid - lo) (drop lo b) @ take (hi - mid) (drop (mid - lo) (drop lo b))"
    by (simp only: take_add)
  with le show ?thesis by (simp add: slice_def)
qed

lemma slice_copy_append:
  assumes "lo \<le> i" and "i + length src \<le> length buf"
  shows "slice lo (i + length src) (copy_at i src buf) = slice lo i buf @ src"
proof -
  have "slice lo (i + length src) (copy_at i src buf)
      = slice lo i (copy_at i src buf) @ slice i (i + length src) (copy_at i src buf)"
    by (rule slice_split) (use assms in simp_all)
  then show ?thesis using assms by (simp add: slice_copy_before slice_copy_exact)
qed

lemma slice_copy_after:
  "i + length src \<le> lo \<Longrightarrow> i + length src \<le> length buf \<Longrightarrow>
   slice lo hi (copy_at i src buf) = slice lo hi buf"
  by (simp add: slice_def copy_at_def min_def)

lemma slice_empty [simp]: "slice lo lo b = []"
  by (simp add: slice_def)

end
