(* ===== verification/Mask.thy ===== *)
theory Mask
  imports Prelude
begin

text \<open>
  The frame mask (mask.go). maskBytes works one machine word at a time on the aligned middle of
  a large buffer and one byte at a time elsewhere. The alignment of the buffer's first byte and
  the machine's byte order are parameters of the model; the result does not depend on either.
\<close>

section \<open>Model\<close>

text \<open>The type \<open>[4]byte\<close> of a mask key.\<close>

type_synonym mask_key = "byte \<times> byte \<times> byte \<times> byte"

fun key_bytes :: "mask_key \<Rightarrow> bytes" where
  "key_bytes (k0, k1, k2, k3) = [k0, k1, k2, k3]"

definition key_at :: "mask_key \<Rightarrow> nat \<Rightarrow> byte" where
  "key_at key i = key_bytes key ! i"

definition wordSize :: nat where
  "wordSize = 8"

text \<open>\<open>for i := range b { b[i] ^= key[pos\&3]; pos++ }\<close>\<close>

fun maskLoop :: "mask_key \<Rightarrow> nat \<Rightarrow> bytes \<Rightarrow> bytes \<times> nat" where
  "maskLoop key pos [] = ([], pos)"
| "maskLoop key pos (b # bs) =
     (let (r, pos') = maskLoop key (pos + 1) bs in ((b XOR key_at key (pos AND 3)) # r, pos'))"

text \<open>A machine word read from and written to memory, in either byte order.\<close>

fun load_le :: "bytes \<Rightarrow> 64 word" where
  "load_le [] = 0"
| "load_le (b # bs) = ucast b OR push_bit 8 (load_le bs)"

fun store_le :: "nat \<Rightarrow> 64 word \<Rightarrow> bytes" where
  "store_le 0 w = []"
| "store_le (Suc n) w = ucast w # store_le n (drop_bit 8 w)"

definition load_word :: "bool \<Rightarrow> bytes \<Rightarrow> 64 word" where
  "load_word le bs = (if le then load_le bs else load_le (rev bs))"

definition store_word :: "bool \<Rightarrow> 64 word \<Rightarrow> bytes" where
  "store_word le w = (if le then store_le wordSize w else rev (store_le wordSize w))"

text \<open>\<open>for i := 0; i < n; i += wordSize { word at b[i] ^= kw }\<close>, for \<open>m\<close> words.\<close>

fun maskWords :: "bool \<Rightarrow> nat \<Rightarrow> 64 word \<Rightarrow> bytes \<Rightarrow> bytes" where
  "maskWords le 0 kw b = b"
| "maskWords le (Suc m) kw b =
     store_word le (load_word le (take wordSize b) XOR kw) @ maskWords le m kw (drop wordSize b)"

definition maskBytes :: "bool \<Rightarrow> nat \<Rightarrow> mask_key \<Rightarrow> nat \<Rightarrow> bytes \<Rightarrow> bytes \<times> nat" where
  "maskBytes le addr key pos b =
     (if length b < 2 * wordSize then
        let (r, pos') = maskLoop key pos b in (r, pos' AND 3)
      else
        let n = addr mod wordSize;
            k = (if n \<noteq> 0 then wordSize - n else 0);
            (r0, pos1) = maskLoop key pos (take k b);
            b1 = drop k b;
            kw = load_word le (map (\<lambda>i. key_at key ((pos1 + i) AND 3)) [0..<wordSize]);
            m = length b1 div wordSize;
            r1 = maskWords le m kw (take (m * wordSize) b1);
            (r2, pos2) = maskLoop key pos1 (drop (m * wordSize) b1)
        in (r0 @ r1 @ r2, pos2 AND 3))"

section \<open>Reference: the mask of RFC 6455, section 5.3\<close>

definition xor_mask :: "mask_key \<Rightarrow> nat \<Rightarrow> bytes \<Rightarrow> bytes" where
  "xor_mask key pos b = map (\<lambda>i. (b ! i) XOR key_at key ((pos + i) mod 4)) [0..<length b]"

lemma and_3_eq_mod_4: "(n::nat) AND 3 = n mod 4"
proof -
  have three: "mask 2 = (3::nat)" by (simp add: mask_eq_exp_minus_1)
  have "n AND 3 = take_bit 2 n" by (subst three [symmetric]) (rule take_bit_eq_mask [symmetric])
  also have "\<dots> = n mod 2 ^ 2" by (rule take_bit_eq_mod)
  finally show ?thesis by simp
qed

lemma mod_4_add_words: "a + m * 8 = b \<Longrightarrow> a mod 4 = (b::nat) mod 4"
proof -
  assume "a + m * 8 = b"
  then have "b = a + 4 * (m * 2)" by simp
  then show ?thesis by (simp only: mod_mult_self2)
qed

lemma length_xor_mask [byte_simps, simp]: "length (xor_mask key pos b) = length b"
  by (simp add: xor_mask_def)

lemma xor_mask_nth [simp]:
  "i < length b \<Longrightarrow> xor_mask key pos b ! i = (b ! i) XOR key_at key ((pos + i) mod 4)"
  by (simp add: xor_mask_def)

lemma xor_mask_Nil [simp]: "xor_mask key pos [] = []"
  by (simp add: xor_mask_def)

lemma xor_mask_append:
  "xor_mask key pos (a @ b) = xor_mask key pos a @ xor_mask key (pos + length a) b"
  by (rule nth_equalityI) (auto simp: nth_append add.assoc)

lemma xor_mask_cong: "p mod 4 = q mod 4 \<Longrightarrow> xor_mask key p b = xor_mask key q b"
proof (rule nth_equalityI)
  assume eq: "p mod 4 = q mod 4"
  fix i assume "i < length (xor_mask key p b)"
  moreover have "(p + i) mod 4 = (q + i) mod 4" by (rule mod_add_cong [OF eq refl])
  ultimately show "xor_mask key p b ! i = xor_mask key q b ! i" by simp
qed simp

lemma xor_mask_Cons:
  "xor_mask key pos (x # b) = (x XOR key_at key (pos mod 4)) # xor_mask key (pos + 1) b"
  using xor_mask_append [of key pos "[x]" b] by (simp add: xor_mask_def)

lemma xor_mask_twice [byte_simps, simp]: "xor_mask key pos (xor_mask key pos b) = b"
  by (rule nth_equalityI) (simp_all add: xor.assoc)

section \<open>The code computes the reference\<close>

lemma maskLoop_eq: "maskLoop key pos b = (xor_mask key pos b, pos + length b)"
proof (induction b arbitrary: pos)
  case Nil
  show ?case by simp
next
  case (Cons x b)
  from Cons.IH [of "pos + 1"] show ?case
    by (simp only: maskLoop.simps xor_mask_Cons and_3_eq_mod_4 Let_def split_conv list.size) simp
qed

lemma length_store_le [simp]: "length (store_le n w) = n"
  by (induction n arbitrary: w) simp_all

lemma bit_load_le:
  "bit (load_le bs) k \<longleftrightarrow> k < 64 \<and> k div 8 < length bs \<and> bit (bs ! (k div 8)) (k mod 8)"
proof (induction bs arbitrary: k)
  case Nil
  show ?case by simp
next
  case (Cons b bs)
  show ?case
  proof (cases "k < 8")
    case True
    then show ?thesis by (simp add: bit_or_iff bit_ucast_iff bit_push_bit_iff)
  next
    case False
    then obtain j where k: "k = 8 + j" by (metis le_Suc_ex not_less)
    have step: "(8 + j) div 8 = Suc (j div 8)" "(8 + j) mod 8 = j mod 8" by simp_all
    have "\<not> bit b (8 + j)" using bit_imp_le_length [of b "8 + j"] by auto
    then show ?thesis
      by (auto simp: k bit_or_iff bit_ucast_iff bit_push_bit_iff Cons.IH step nth_Cons_Suc
          simp del: div_add_self1 mod_add_self1)
  qed
qed

lemma bit_store_le: "i < n \<Longrightarrow> bit (store_le n w ! i) j \<longleftrightarrow> j < 8 \<and> bit w (8 * i + j)"
proof (induction n arbitrary: w i)
  case 0
  then show ?case by simp
next
  case (Suc n)
  show ?case
  proof (cases i)
    case 0
    then show ?thesis by (auto simp: bit_ucast_iff)
  next
    case (Suc i')
    with Suc.IH [of i' "drop_bit 8 w"] Suc.prems show ?thesis
      by (simp add: bit_drop_bit_eq add.commute add.left_commute)
  qed
qed

lemma store_le_xor:
  assumes "length a = 8" and "length c = 8"
  shows "store_le 8 (load_le a XOR load_le c) = map2 (XOR) a c"
proof (rule nth_equalityI)
  show "length (store_le 8 (load_le a XOR load_le c)) = length (map2 (XOR) a c)"
    using assms by simp
  fix i assume "i < length (store_le 8 (load_le a XOR load_le c))"
  then have i: "i < 8" by simp
  show "store_le 8 (load_le a XOR load_le c) ! i = map2 (XOR) a c ! i"
  proof (rule bit_word_eqI)
    fix j assume "j < LENGTH(8)"
    then have j: "j < 8" by simp
    then have "(8 * i + j) div 8 = i" and "(8 * i + j) mod 8 = j" by simp_all
    with i j assms show "bit (store_le 8 (load_le a XOR load_le c) ! i) j = bit (map2 (XOR) a c ! i) j"
      by (simp add: bit_store_le bit_xor_iff bit_load_le)
  qed
qed

lemma store_load_xor:
  assumes "length a = 8" and "length c = 8"
  shows "store_word le (load_word le a XOR load_word le c) = map2 (XOR) a c"
proof (cases le)
  case True
  with store_le_xor [OF assms] show ?thesis
    by (simp add: store_word_def load_word_def wordSize_def)
next
  case False
  with store_le_xor [of "rev a" "rev c"] assms show ?thesis
    by (simp add: store_word_def load_word_def wordSize_def zip_rev rev_map)
qed

lemma map2_xor_key:
  assumes "length b = 8"
  shows "map2 (XOR) b (map (\<lambda>i. key_at key ((pos + i) AND 3)) [0..<8]) = xor_mask key pos b"
  by (rule nth_equalityI) (simp_all add: assms and_3_eq_mod_4)

lemma maskWords_eq:
  "length b = m * 8 \<Longrightarrow>
   maskWords le m (load_word le (map (\<lambda>i. key_at key ((pos + i) AND 3)) [0..<wordSize])) b
     = xor_mask key pos b"
proof (induction m arbitrary: b)
  case 0
  then show ?case by simp
next
  case (Suc m)
  let ?kw = "load_word le (map (\<lambda>i. key_at key ((pos + i) AND 3)) [0..<wordSize])"
  have b: "b = take 8 b @ drop 8 b" by simp
  from Suc.prems have len: "length (take 8 b) = 8" "length (drop 8 b) = m * 8" by simp_all
  have head: "store_word le (load_word le (take 8 b) XOR ?kw) = xor_mask key pos (take 8 b)"
    using len by (simp only: wordSize_def store_load_xor length_map length_upt diff_zero map2_xor_key)
  have shift: "xor_mask key (pos + 8) (drop 8 b) = xor_mask key pos (drop 8 b)"
    by (rule xor_mask_cong) presburger
  have "maskWords le (Suc m) ?kw b = xor_mask key pos (take 8 b) @ xor_mask key pos (drop 8 b)"
    using head Suc.IH [OF len(2)] by (simp add: wordSize_def)
  also have "\<dots> = xor_mask key pos (take 8 b @ drop 8 b)"
    using len(1) shift by (simp only: xor_mask_append)
  finally show ?case by simp
qed

lemma maskBytes_eq: "maskBytes le addr key pos b = (xor_mask key pos b, (pos + length b) mod 4)"
proof (cases "length b < 2 * wordSize")
  case True
  then show ?thesis by (simp add: maskBytes_def maskLoop_eq and_3_eq_mod_4)
next
  case False
  define k where "k = (if addr mod wordSize \<noteq> 0 then wordSize - addr mod wordSize else 0)"
  define b1 where "b1 = drop k b"
  define m where "m = length b1 div wordSize"
  have k: "k \<le> length b" using False by (auto simp: k_def wordSize_def)
  have m8: "m * 8 \<le> length b1" by (simp add: m_def wordSize_def)
  let ?p = "pos + k"
  have words: "maskWords le m (load_word le (map (\<lambda>i. key_at key ((?p + i) AND 3)) [0..<wordSize]))
      (take (m * wordSize) b1) = xor_mask key ?p (take (m * 8) b1)"
    using m8 maskWords_eq [of "take (m * 8) b1" m le key ?p] by (simp add: wordSize_def)
  have tail: "xor_mask key ?p (drop (m * 8) b1) = xor_mask key (?p + m * 8) (drop (m * 8) b1)"
    by (rule xor_mask_cong) presburger
  have "xor_mask key pos b = xor_mask key pos (take k b @ take (m * 8) b1 @ drop (m * 8) b1)"
    by (simp only: b1_def append_take_drop_id)
  also have "\<dots> = xor_mask key pos (take k b) @ xor_mask key ?p (take (m * 8) b1)
      @ xor_mask key (?p + m * 8) (drop (m * 8) b1)"
    using k m8 by (simp only: xor_mask_append length_take min_absorb2)
  finally have whole: "xor_mask key pos b = xor_mask key pos (take k b)
      @ xor_mask key ?p (take (m * 8) b1) @ xor_mask key ?p (drop (m * 8) b1)"
    by (simp only: tail)
  have pos2: "(?p + (length b1 - m * 8)) mod 4 = (pos + length b) mod 4"
  proof -
    have "?p + (length b1 - m * 8) + m * 8 = pos + length b" using k m8 by (simp add: b1_def)
    then show ?thesis by (rule mod_4_add_words)
  qed
  have mw: "m * wordSize = m * 8" by (simp add: wordSize_def)
  have len_k: "length (take k b) = k" using k by simp
  have len_m: "length (drop (m * 8) b1) = length b1 - m * 8" by simp
  have unfold: "maskBytes le addr key pos b
      = (xor_mask key pos (take k b)
         @ maskWords le m (load_word le (map (\<lambda>i. key_at key ((?p + i) AND 3)) [0..<wordSize]))
             (take (m * wordSize) b1)
         @ xor_mask key ?p (drop (m * 8) b1), (?p + (length b1 - m * 8)) mod 4)"
    unfolding maskBytes_def Let_def maskLoop_eq split_conv k_def [symmetric] b1_def [symmetric]
      m_def [symmetric] if_not_P [OF False] len_k mw len_m
    by (simp only: and_3_eq_mod_4)
  show ?thesis by (simp only: unfold words pos2 whole)
qed

section \<open>The mask as an interface\<close>

text \<open>
  What the reader and the writer rely on: masking keeps the length, advances the position modulo
  4, works piecewise with each piece at any address, and undoes itself.
\<close>

locale frame_mask =
  fixes msk :: "nat \<Rightarrow> mask_key \<Rightarrow> nat \<Rightarrow> bytes \<Rightarrow> bytes \<times> nat"
  assumes mask_pos: "snd (msk a key pos x) = (pos + length x) mod 4"
    and mask_append: "fst (msk a key pos (x @ y)) =
      fst (msk a1 key pos x) @ fst (msk a2 key ((pos + length x) mod 4) y)"
    and mask_undo: "fst (msk a key pos (fst (msk a1 key pos x))) = x"

text \<open>A masked stream taken in pieces, each with the address of its buffer.\<close>

fun mask_pieces ::
  "(nat \<Rightarrow> mask_key \<Rightarrow> nat \<Rightarrow> bytes \<Rightarrow> bytes \<times> nat) \<Rightarrow> mask_key \<Rightarrow> nat \<Rightarrow> (nat \<times> bytes) list \<Rightarrow> bytes" where
  "mask_pieces msk key pos [] = []"
| "mask_pieces msk key pos ((a, b) # cs) =
     (let (r, pos') = msk a key pos b in r @ mask_pieces msk key pos' cs)"

context frame_mask
begin

lemma mask_Nil: "fst (msk a key pos []) = []"
proof -
  define y where "y = fst (msk a key pos [])"
  have "[] = fst (msk a key pos y)" unfolding y_def by (rule mask_undo [symmetric])
  also have "\<dots> = y @ fst (msk a key (pos mod 4) y)"
    using mask_append [of a key pos "[]" y a a] by (simp add: y_def)
  finally show ?thesis by (simp add: y_def)
qed

lemma pieces_whole: "mask_pieces msk key pos cs = fst (msk a key pos (concat (map snd cs)))"
proof (induction cs arbitrary: pos)
  case Nil
  show ?case by (simp add: mask_Nil)
next
  case (Cons c cs)
  obtain a1 b where c: "c = (a1, b)" by fastforce
  have "mask_pieces msk key pos (c # cs) =
      fst (msk a1 key pos b) @ mask_pieces msk key ((pos + length b) mod 4) cs"
    using mask_pos [of a1 key pos b] by (simp add: c split_beta)
  also have "\<dots> = fst (msk a key pos (b @ concat (map snd cs)))"
    by (simp only: Cons.IH mask_append [of a key pos b "concat (map snd cs)" a1 a])
  finally show ?case by (simp add: c)
qed

lemma pieces_undo:
  assumes "concat (map snd cs) = fst (msk a key pos x)"
  shows "mask_pieces msk key pos cs = x"
  using pieces_whole [of key pos cs a] assms by (simp add: mask_undo)

end

interpretation fm: frame_mask "maskBytes le" for le
proof unfold_locales
  fix a a1 a2 pos :: nat and key :: mask_key and x y :: bytes
  show "snd (maskBytes le a key pos x) = (pos + length x) mod 4" by (simp add: maskBytes_eq)
  show "fst (maskBytes le a key pos (x @ y)) =
      fst (maskBytes le a1 key pos x) @ fst (maskBytes le a2 key ((pos + length x) mod 4) y)"
    using xor_mask_cong [of "pos + length x" "(pos + length x) mod 4" key y]
    by (simp add: maskBytes_eq xor_mask_append)
  show "fst (maskBytes le a key pos (fst (maskBytes le a1 key pos x))) = x"
    by (simp add: maskBytes_eq)
qed

section \<open>Properties\<close>

text \<open>C27: for every buffer, start position, address of the buffer and byte order of the machine, the
  word-at-a-time maskBytes computes the mask of RFC 6455: byte i is xored with byte (pos + i) mod 4
  of the key, and the returned position is that of the byte after the buffer.\<close>

theorem maskBytes_rfc:
  "maskBytes le addr key pos b =
     (map (\<lambda>i. (b ! i) XOR key_at key ((pos + i) mod 4)) [0..<length b], (pos + length b) mod 4)"
  by (simp add: maskBytes_eq xor_mask_def)

text \<open>A payload masked in one call and unmasked in any number of pieces, each in a buffer at any
  address, with the position threaded from call to call, is the payload again.\<close>

lemma unmask_in_pieces:
  assumes "concat (map snd cs) = fst (maskBytes le addr key pos data)"
  shows "mask_pieces (maskBytes le) key pos cs = data"
  by (rule fm.pieces_undo [OF assms])

lemma unmask_in_pieces_witness:
  "mask_pieces (maskBytes True) (1, 2, 3, 4) 0 [(5, [0xFF, 2]), (0, []), (3, [0])] = [0xFE, 0, 3]"
  by (rule unmask_in_pieces [of _ True 0]) (simp add: maskBytes_eq xor_mask_Cons key_at_def)

end
