(* ===== verification/Utf8Dfa.thy ===== *)
theory Utf8Dfa
  imports Prelude
begin

text \<open>
  The streaming UTF-8 validator (utf8_dfa.go): the table, the step function and the whole-buffer
  validator, shown to accept exactly the concatenations of encoded Unicode scalar values and to
  land on the code point it has just read. The decoder of unicode/utf8, which other parts of the
  library call, is modelled here too and accepts the same strings.
\<close>

section \<open>Model\<close>

definition utf8dfaTable :: "byte list" where
  "utf8dfaTable = [
    0, 0, 0, 0, 0, 0, 0, 0, 0, 0, 0, 0, 0, 0, 0, 0, 0, 0, 0, 0, 0, 0, 0, 0, 0, 0, 0, 0, 0, 0, 0, 0,
    0, 0, 0, 0, 0, 0, 0, 0, 0, 0, 0, 0, 0, 0, 0, 0, 0, 0, 0, 0, 0, 0, 0, 0, 0, 0, 0, 0, 0, 0, 0, 0,
    0, 0, 0, 0, 0, 0, 0, 0, 0, 0, 0, 0, 0, 0, 0, 0, 0, 0, 0, 0, 0, 0, 0, 0, 0, 0, 0, 0, 0, 0, 0, 0,
    0, 0, 0, 0, 0, 0, 0, 0, 0, 0, 0, 0, 0, 0, 0, 0, 0, 0, 0, 0, 0, 0, 0, 0, 0, 0, 0, 0, 0, 0, 0, 0,
    1, 1, 1, 1, 1, 1, 1, 1, 1, 1, 1, 1, 1, 1, 1, 1, 9, 9, 9, 9, 9, 9, 9, 9, 9, 9, 9, 9, 9, 9, 9, 9,
    7, 7, 7, 7, 7, 7, 7, 7, 7, 7, 7, 7, 7, 7, 7, 7, 7, 7, 7, 7, 7, 7, 7, 7, 7, 7, 7, 7, 7, 7, 7, 7,
    8, 8, 2, 2, 2, 2, 2, 2, 2, 2, 2, 2, 2, 2, 2, 2, 2, 2, 2, 2, 2, 2, 2, 2, 2, 2, 2, 2, 2, 2, 2, 2,
    10, 3, 3, 3, 3, 3, 3, 3, 3, 3, 3, 3, 3, 4, 3, 3,
    11, 6, 6, 6, 5, 8, 8, 8, 8, 8, 8, 8, 8, 8, 8, 8,
    0, 1, 2, 3, 5, 8, 7, 1, 1, 1, 4, 6, 1, 1, 1, 1,
    1, 1, 1, 1, 1, 1, 1, 1, 1, 1, 1, 1, 1, 1, 1, 1, 1, 0, 1, 1, 1, 1, 1, 0, 1, 0, 1, 1, 1, 1, 1, 1,
    1, 2, 1, 1, 1, 1, 1, 2, 1, 2, 1, 1, 1, 1, 1, 1, 1, 1, 1, 1, 1, 1, 1, 2, 1, 1, 1, 1, 1, 1, 1, 1,
    1, 2, 1, 1, 1, 1, 1, 1, 1, 2, 1, 1, 1, 1, 1, 1, 1, 1, 1, 1, 1, 1, 1, 3, 1, 3, 1, 1, 1, 1, 1, 1,
    1, 3, 1, 1, 1, 1, 1, 3, 1, 3, 1, 1, 1, 1, 1, 1, 1, 3, 1, 1, 1, 1, 1, 1, 1, 1, 1, 1, 1, 1, 1, 1]"

definition utf8Accept :: nat where
  "utf8Accept = 0"

definition utf8Reject :: nat where
  "utf8Reject = 1"

text \<open>A rune is an \<open>int32\<close>.\<close>

type_synonym rune = "32 word"

definition utf8DFAStep :: "nat \<Rightarrow> rune \<Rightarrow> byte \<Rightarrow> nat \<times> rune" where
  "utf8DFAStep state x b =
     (let t = utf8dfaTable ! unat b;
          x' = (if state \<noteq> utf8Accept then ucast (b AND 0x3f) OR push_bit 6 x
                else ucast (drop_bit (unat t) 0xff AND b));
          state' = unat (utf8dfaTable ! (256 + state * 16 + unat t))
      in (state', x'))"

text \<open>The loop of \<open>utf8DFAValidate\<close>, which returns early on the first rejected byte.\<close>

fun utf8DFAValidate_loop :: "nat \<Rightarrow> rune \<Rightarrow> bytes \<Rightarrow> nat" where
  "utf8DFAValidate_loop state x [] = state"
| "utf8DFAValidate_loop state x (b # p) =
     (let (state', x') = utf8DFAStep state x b in
      if state' = utf8Reject then utf8Reject else utf8DFAValidate_loop state' x' p)"

definition utf8DFAValidate :: "bytes \<Rightarrow> nat" where
  "utf8DFAValidate p = utf8DFAValidate_loop utf8Accept 0 p"

section \<open>The decoder of unicode/utf8\<close>

definition runeError :: nat where
  "runeError = 0xFFFD"

definition is_cont :: "byte \<Rightarrow> bool" where
  "is_cont b \<longleftrightarrow> 0x80 \<le> unat b \<and> unat b \<le> 0xBF"

text \<open>The range of the second byte, by the first (the \<open>acceptRanges\<close> of the library).\<close>

definition second_ok :: "nat \<Rightarrow> byte \<Rightarrow> bool" where
  "second_ok b0 b \<longleftrightarrow>
     (if b0 = 0xE0 then 0xA0 \<le> unat b \<and> unat b \<le> 0xBF
      else if b0 = 0xED then 0x80 \<le> unat b \<and> unat b \<le> 0x9F
      else if b0 = 0xF0 then 0x90 \<le> unat b \<and> unat b \<le> 0xBF
      else if b0 = 0xF4 then 0x80 \<le> unat b \<and> unat b \<le> 0x8F
      else is_cont b)"

text \<open>\<open>utf8.DecodeRune\<close>: the code point and the bytes it took; an invalid encoding is
  \<open>(RuneError, 1)\<close>.\<close>

definition decodeRune :: "bytes \<Rightarrow> nat \<times> nat" where
  "decodeRune p =
     (case p of [] \<Rightarrow> (runeError, 0)
      | b0 # r1 \<Rightarrow>
        (let c0 = unat b0 in
         if c0 < 0x80 then (c0, 1)
         else if c0 < 0xC2 \<or> 0xF4 < c0 then (runeError, 1)
         else (case r1 of [] \<Rightarrow> (runeError, 1)
           | b1 # r2 \<Rightarrow>
             if \<not> second_ok c0 b1 then (runeError, 1)
             else if c0 < 0xE0 then ((c0 - 0xC0) * 64 + (unat b1 - 0x80), 2)
             else (case r2 of [] \<Rightarrow> (runeError, 1)
               | b2 # r3 \<Rightarrow>
                 if \<not> is_cont b2 then (runeError, 1)
                 else if c0 < 0xF0 then
                   ((c0 - 0xE0) * 4096 + (unat b1 - 0x80) * 64 + (unat b2 - 0x80), 3)
                 else (case r3 of [] \<Rightarrow> (runeError, 1)
                   | b3 # _ \<Rightarrow>
                     if \<not> is_cont b3 then (runeError, 1)
                     else ((c0 - 0xF0) * 262144 + (unat b1 - 0x80) * 4096
                             + (unat b2 - 0x80) * 64 + (unat b3 - 0x80), 4))))))"

lemma decodeRune_size: "p \<noteq> [] \<Longrightarrow> 0 < snd (decodeRune p)"
  by (cases p) (auto simp: decodeRune_def Let_def split: list.splits)

text \<open>\<open>utf8.Valid\<close> and \<open>utf8.ValidString\<close>.\<close>

function utf8_Valid :: "bytes \<Rightarrow> bool" where
  "utf8_Valid p =
     (if p = [] then True
      else (let (r, size) = decodeRune p in
            if r = runeError \<and> size = 1 then False else utf8_Valid (drop size p)))"
  by pat_completeness auto
termination
proof (relation "measure length", goal_cases)
  case 1
  show ?case by simp
next
  case (2 p x r size)
  then have "size = snd (decodeRune p)" and "p \<noteq> []" by (auto simp: prod_eq_iff)
  with decodeRune_size [of p] show ?case by simp
qed

declare utf8_Valid.simps [simp del]

section \<open>The table, read as ranges\<close>

definition byte_class :: "nat \<Rightarrow> nat" where
  "byte_class c =
     (if c < 0x80 then 0 else if c < 0x90 then 1 else if c < 0xA0 then 9 else if c < 0xC0 then 7
      else if c < 0xC2 then 8 else if c < 0xE0 then 2 else if c = 0xE0 then 10
      else if c = 0xED then 4 else if c < 0xF0 then 3 else if c = 0xF0 then 11
      else if c < 0xF4 then 6 else if c = 0xF4 then 5 else 8)"

definition dfa_row :: "nat \<Rightarrow> nat list" where
  "dfa_row s =
     [[0, 1, 2, 3, 5, 8, 7, 1, 1, 1, 4, 6, 1, 1, 1, 1],
      [1, 1, 1, 1, 1, 1, 1, 1, 1, 1, 1, 1, 1, 1, 1, 1],
      [1, 0, 1, 1, 1, 1, 1, 0, 1, 0, 1, 1, 1, 1, 1, 1],
      [1, 2, 1, 1, 1, 1, 1, 2, 1, 2, 1, 1, 1, 1, 1, 1],
      [1, 1, 1, 1, 1, 1, 1, 2, 1, 1, 1, 1, 1, 1, 1, 1],
      [1, 2, 1, 1, 1, 1, 1, 1, 1, 2, 1, 1, 1, 1, 1, 1],
      [1, 1, 1, 1, 1, 1, 1, 3, 1, 3, 1, 1, 1, 1, 1, 1],
      [1, 3, 1, 1, 1, 1, 1, 3, 1, 3, 1, 1, 1, 1, 1, 1],
      [1, 3, 1, 1, 1, 1, 1, 1, 1, 1, 1, 1, 1, 1, 1, 1]] ! s"

lemma table_classes: "take 256 utf8dfaTable = map (\<lambda>c. of_nat (byte_class c)) [0..<256]"
  by code_simp

lemma table_rows:
  "list_all (\<lambda>s. take 16 (drop (256 + s * 16) utf8dfaTable) = map of_nat (dfa_row s)) [0..<9]"
  by code_simp

lemma table_length: "length utf8dfaTable = 400"
  by (simp add: utf8dfaTable_def)

text \<open>The state reached from a state, as ranges of the byte consumed. State 2 and 3 wait for one and
  two continuation bytes, 4 to 8 for the restricted second byte of E0, ED, F0, F1..F3 and F4.\<close>

definition dfa_next :: "nat \<Rightarrow> nat \<Rightarrow> nat" where
  "dfa_next s c =
     (if s = 0 then
        (if c < 0x80 then 0 else if c < 0xC2 then 1 else if c < 0xE0 then 2
         else if c = 0xE0 then 4 else if c = 0xED then 5 else if c < 0xF0 then 3
         else if c = 0xF0 then 6 else if c < 0xF4 then 7 else if c = 0xF4 then 8 else 1)
      else if s = 2 then (if 0x80 \<le> c \<and> c < 0xC0 then 0 else 1)
      else if s = 3 then (if 0x80 \<le> c \<and> c < 0xC0 then 2 else 1)
      else if s = 4 then (if 0xA0 \<le> c \<and> c < 0xC0 then 2 else 1)
      else if s = 5 then (if 0x80 \<le> c \<and> c < 0xA0 then 2 else 1)
      else if s = 6 then (if 0x90 \<le> c \<and> c < 0xC0 then 3 else 1)
      else if s = 7 then (if 0x80 \<le> c \<and> c < 0xC0 then 3 else 1)
      else if s = 8 then (if 0x80 \<le> c \<and> c < 0x90 then 3 else 1)
      else 1)"

lemma byte_class_lt: "byte_class c < 16"
  by (simp add: byte_class_def)

lemma class_at: "utf8dfaTable ! unat b = of_nat (byte_class (unat b))" for b :: byte
proof -
  have "take 256 utf8dfaTable ! unat b = utf8dfaTable ! unat b" by (rule nth_take) simp
  then show ?thesis by (simp add: table_classes)
qed

lemma unat_class_at: "unat (utf8dfaTable ! unat b) = byte_class (unat b)" for b :: byte
  using byte_class_lt [of "unat b"] by (simp add: class_at)

lemma dfa_row_bound: "s < 9 \<Longrightarrow> c < 16 \<Longrightarrow> dfa_row s ! c < 9"
proof -
  assume "s < 9" "c < 16"
  moreover have "list_all (\<lambda>s. list_all (\<lambda>c. dfa_row s ! c < 9) [0..<16]) [0..<9]" by code_simp
  ultimately show ?thesis by (simp add: list_all_iff)
qed

lemma row_at: "s < 9 \<Longrightarrow> c < 16 \<Longrightarrow> unat (utf8dfaTable ! (256 + s * 16 + c)) = dfa_row s ! c"
proof -
  assume s: "s < 9" and c: "c < 16"
  have row: "take 16 (drop (256 + s * 16) utf8dfaTable) = map of_nat (dfa_row s)"
    using table_rows s by (simp add: list_all_iff)
  have "length (take 16 (drop (256 + s * 16) utf8dfaTable)) = 16" using s by (simp add: table_length)
  then have len: "length (dfa_row s) = 16" by (simp only: row length_map)
  have "utf8dfaTable ! (256 + s * 16 + c) = take 16 (drop (256 + s * 16) utf8dfaTable) ! c"
    using s c by (simp add: table_length)
  also have "\<dots> = of_nat (dfa_row s ! c)" using c len by (simp only: row nth_map)
  finally show ?thesis using dfa_row_bound [OF s c] by simp
qed

lemma byte_class_ranges:
  "c < 0x80 \<and> byte_class c = 0 \<or> (0x80 \<le> c \<and> c < 0x90) \<and> byte_class c = 1
   \<or> (0x90 \<le> c \<and> c < 0xA0) \<and> byte_class c = 9 \<or> (0xA0 \<le> c \<and> c < 0xC0) \<and> byte_class c = 7
   \<or> (0xC0 \<le> c \<and> c < 0xC2) \<and> byte_class c = 8 \<or> (0xC2 \<le> c \<and> c < 0xE0) \<and> byte_class c = 2
   \<or> c = 0xE0 \<and> byte_class c = 10 \<or> c = 0xED \<and> byte_class c = 4
   \<or> (0xE0 < c \<and> c < 0xF0 \<and> c \<noteq> 0xED) \<and> byte_class c = 3 \<or> c = 0xF0 \<and> byte_class c = 11
   \<or> (0xF0 < c \<and> c < 0xF4) \<and> byte_class c = 6 \<or> c = 0xF4 \<and> byte_class c = 5
   \<or> 0xF4 < c \<and> byte_class c = 8"
  unfolding byte_class_def by simp

lemma dfa_row_next: "s < 9 \<Longrightarrow> dfa_row s ! byte_class c = dfa_next s c"
proof -
  assume "s < 9"
  then consider "s = 0" | "s = 1" | "s = 2" | "s = 3" | "s = 4" | "s = 5" | "s = 6" | "s = 7" | "s = 8"
    by linarith
  then show ?thesis
  proof cases
  qed (insert byte_class_ranges [of c], auto simp: dfa_row_def dfa_next_def)
qed

lemma step_state: "s < 9 \<Longrightarrow> fst (utf8DFAStep s x b) = dfa_next s (unat b)"
  by (simp add: utf8DFAStep_def Let_def unat_class_at row_at byte_class_lt dfa_row_next)

lemma dfa_next_bound: "dfa_next s c < 9"
  by (simp add: dfa_next_def)

section \<open>Specification: encoded scalar values\<close>

definition is_scalar :: "nat \<Rightarrow> bool" where
  "is_scalar c \<longleftrightarrow> c < 0xD800 \<or> (0xE000 \<le> c \<and> c < 0x110000)"

text \<open>The encoding of RFC 3629.\<close>

definition utf8_encode :: "nat \<Rightarrow> bytes" where
  "utf8_encode c = map of_nat
     (if c < 0x80 then [c]
      else if c < 0x800 then [0xC0 + c div 64, 0x80 + c mod 64]
      else if c < 0x10000 then [0xE0 + c div 4096, 0x80 + c div 64 mod 64, 0x80 + c mod 64]
      else [0xF0 + c div 262144, 0x80 + c div 4096 mod 64, 0x80 + c div 64 mod 64, 0x80 + c mod 64])"

definition utf8_text :: "bytes \<Rightarrow> bool" where
  "utf8_text p \<longleftrightarrow> (\<exists>cs. list_all is_scalar cs \<and> p = concat (map utf8_encode cs))"

text \<open>The validator's state after a byte sequence.\<close>

fun dfa_run :: "nat \<Rightarrow> rune \<Rightarrow> bytes \<Rightarrow> nat \<times> rune" where
  "dfa_run s x [] = (s, x)"
| "dfa_run s x (b # p) = (let (s', x') = utf8DFAStep s x b in dfa_run s' x' p)"

lemma dfa_run_append: "dfa_run s x (p @ q) = (case dfa_run s x p of (s', x') \<Rightarrow> dfa_run s' x' q)"
  by (induction p arbitrary: s x) (simp_all split: prod.split)

section \<open>The code point read\<close>

definition lead_val :: "nat \<Rightarrow> nat" where
  "lead_val c = (if c < 0x80 then c else if c < 0xE0 then c - 0xC0 else if c < 0xF0 then c - 0xE0 else c - 0xF0)"

lemma lead_value:
  assumes "unat b < 0x80 \<or> (0xC2 \<le> unat b \<and> unat b \<le> 0xF4)"
  shows "snd (utf8DFAStep 0 x b) = of_nat (lead_val (unat b))"
proof -
  have indep: "snd (utf8DFAStep 0 x b) = snd (utf8DFAStep 0 0 b)"
    by (simp add: utf8DFAStep_def Let_def utf8Accept_def)
  have all: "list_all (\<lambda>n. snd (utf8DFAStep 0 0 (of_nat n)) = of_nat (lead_val n)) ([0..<0x80] @ [0xC2..<0xF5])"
    by code_simp
  have "unat b \<in> set ([0..<0x80] @ [0xC2..<0xF5])"
    using assms by (simp only: set_append set_upt Un_iff atLeastLessThan_iff) linarith
  then have "snd (utf8DFAStep 0 0 (of_nat (unat b))) = of_nat (lead_val (unat b))"
    using all by (simp only: list_all_iff)
  then show ?thesis by (simp add: indep)
qed

lemma cont_value:
  assumes s: "s \<noteq> 0" and b: "is_cont b"
  shows "snd (utf8DFAStep s x b) = of_nat (unat x * 64 + (unat b - 0x80))"
proof -
  have low: "b AND 0x3f = take_bit 6 b" by (simp add: take_bit_eq_mask mask_eq_exp_minus_1)
  have "snd (utf8DFAStep s x b) = ucast (take_bit 6 b) OR push_bit 6 x"
    using s by (simp add: utf8DFAStep_def Let_def utf8Accept_def low)
  also have "\<dots> = ucast (take_bit 6 b) + push_bit 6 x"
    by (rule disjunctive_add_eq_or [symmetric]) (auto intro!: bit_word_eqI simp: bit_simps)
  also have "\<dots> = of_nat (unat (take_bit 6 b) + 64 * unat x)"
    by (simp add: push_bit_eq_mult unsigned_ucast_eq)
  also have "unat (take_bit 6 b) = take_bit 6 (unat b)" by (rule unsigned_take_bit_eq)
  also have "take_bit 6 (unat b) = unat b mod 64" by (simp add: take_bit_eq_mod)
  also have "unat b mod 64 = unat b - 0x80"
  proof -
    have "unat b = (unat b - 0x80) + 64 * 2" using b by (simp add: is_cont_def)
    then have "unat b mod 64 = (unat b - 0x80) mod 64" by (metis mod_mult_self2)
    also have "\<dots> = unat b - 0x80" by (rule mod_less) (use b in \<open>simp add: is_cont_def, linarith\<close>)
    finally show ?thesis .
  qed
  finally show ?thesis by (simp add: algebra_simps)
qed

text \<open>One step, state and code point together.\<close>

lemma step_lead:
  assumes "unat b < 0x80 \<or> (0xC2 \<le> unat b \<and> unat b \<le> 0xF4)"
  shows "utf8DFAStep 0 x b = (dfa_next 0 (unat b), of_nat (lead_val (unat b)))"
  by (rule prod_eqI) (simp_all add: step_state lead_value assms)

lemma step_cont:
  assumes "0 < s" and "s < 9" and "is_cont b"
  shows "utf8DFAStep s x b = (dfa_next s (unat b), of_nat (unat x * 64 + (unat b - 0x80)))"
  by (rule prod_eqI) (use assms in \<open>simp_all add: step_state cont_value\<close>)

lemma step_lead_nat:
  "n < 0x80 \<or> (0xC2 \<le> n \<and> n \<le> 0xF4) \<Longrightarrow>
   utf8DFAStep 0 x (of_nat n) = (dfa_next 0 n, of_nat (lead_val n))"
proof -
  assume n: "n < 0x80 \<or> (0xC2 \<le> n \<and> n \<le> 0xF4)"
  then have "n mod 256 = n" by auto
  with n step_lead [of "of_nat n" x] show ?thesis by simp
qed

lemma step_cont_nat:
  "0 < s \<Longrightarrow> s < 9 \<Longrightarrow> k < 64 \<Longrightarrow>
   utf8DFAStep s x (of_nat (0x80 + k)) = (dfa_next s (0x80 + k), of_nat (unat x * 64 + k))"
  using step_cont [of s "of_nat (0x80 + k)" x] by (simp add: is_cont_def del: of_nat_add)

lemma unat_rune [simp]: "n < 4294967296 \<Longrightarrow> unat (of_nat n :: rune) = n"
  by (simp add: unat_of_nat)

lemma base64_digits:
  fixes c :: nat
  shows "c = (c div 4096 * 64 + c div 64 mod 64) * 64 + c mod 64"
    and "c = ((c div 262144 * 64 + c div 4096 mod 64) * 64 + c div 64 mod 64) * 64 + c mod 64"
proof -
  have d1: "c = c div 64 * 64 + c mod 64" for c :: nat by simp
  have d2: "c div 4096 = c div 64 div 64" by (simp add: div_mult2_eq [symmetric])
  have d3: "c div 262144 = c div 4096 div 64" by (simp add: div_mult2_eq [symmetric])
  have e1: "c div 64 = c div 4096 * 64 + c div 64 mod 64"
    unfolding d2 by (rule d1)
  have e2: "c div 4096 = c div 262144 * 64 + c div 4096 mod 64"
    unfolding d3 by (rule d1)
  show "c = (c div 4096 * 64 + c div 64 mod 64) * 64 + c mod 64"
    unfolding e1 [symmetric] by (rule d1)
  show "c = ((c div 262144 * 64 + c div 4096 mod 64) * 64 + c div 64 mod 64) * 64 + c mod 64"
    unfolding e2 [symmetric] e1 [symmetric] by (rule d1)
qed

text \<open>An encoded scalar value takes the validator from Accept to Accept, with that code point.\<close>

lemma run_encode:
  assumes "is_scalar c"
  shows "dfa_run 0 x (utf8_encode c @ p) = dfa_run 0 (of_nat c) p"
proof -
  consider "c < 0x80" | "0x80 \<le> c" "c < 0x800" | "0x800 \<le> c" "c < 0x10000"
    | "0x10000 \<le> c" "c < 0x110000"
    using assms by (force simp: is_scalar_def)
  then show ?thesis
  proof cases
    case 1
    then show ?thesis by (simp add: utf8_encode_def step_lead_nat lead_val_def dfa_next_def)
  next
    case 2
    define a b where "a = c div 64" and "b = c mod 64"
    have c: "c = a * 64 + b" and lt: "2 \<le> a" "a < 32" "b < 64"
      using 2 by (auto simp: a_def b_def)
    have enc: "utf8_encode c = map of_nat [0xC0 + a, 0x80 + b]"
      using 2 by (simp add: utf8_encode_def a_def b_def)
    have "dfa_next 0 (0xC0 + a) = 2" and "dfa_next 2 (0x80 + b) = 0"
      using lt by (simp_all add: dfa_next_def)
    then have "dfa_run 0 x (utf8_encode c @ p) = dfa_run 0 (of_nat (a * 64 + b)) p"
      using lt by (simp add: enc step_lead_nat step_cont_nat lead_val_def del: of_nat_add)
    then show ?thesis by (simp only: c [symmetric])
  next
    case 3
    define a b d where "a = c div 4096" and "b = c div 64 mod 64" and "d = c mod 64"
    have c: "c = (a * 64 + b) * 64 + d" unfolding a_def b_def d_def by (rule base64_digits(1))
    have lt: "a < 16" "b < 64" "d < 64" using 3 by (auto simp: a_def b_def d_def)
    have a0: "a = 0 \<Longrightarrow> 32 \<le> b" and a13: "a = 13 \<Longrightarrow> b < 32"
      using 3 assms c lt by (auto simp: is_scalar_def)
    have enc: "utf8_encode c = map of_nat [0xE0 + a, 0x80 + b, 0x80 + d]"
      using 3 by (simp add: utf8_encode_def a_def b_def d_def)
    have "dfa_next 0 (0xE0 + a) = (if a = 0 then 4 else if a = 13 then 5 else 3)"
      using lt by (simp add: dfa_next_def)
    moreover have "dfa_next (if a = 0 then 4 else if a = 13 then 5 else 3) (0x80 + b) = 2"
      using lt a0 a13 by (simp add: dfa_next_def)
    moreover have "dfa_next 2 (0x80 + d) = 0" using lt by (simp add: dfa_next_def)
    ultimately have "dfa_run 0 x (utf8_encode c @ p) = dfa_run 0 (of_nat ((a * 64 + b) * 64 + d)) p"
      using lt by (simp add: enc step_lead_nat step_cont_nat lead_val_def del: of_nat_add)
    then show ?thesis by (simp only: c [symmetric])
  next
    case 4
    define a b d e where "a = c div 262144" and "b = c div 4096 mod 64" and "d = c div 64 mod 64"
      and "e = c mod 64"
    have c: "c = ((a * 64 + b) * 64 + d) * 64 + e"
      unfolding a_def b_def d_def e_def by (rule base64_digits(2))
    have lt: "a < 5" "b < 64" "d < 64" "e < 64" using 4 by (auto simp: a_def b_def d_def e_def)
    have a0: "a = 0 \<Longrightarrow> 16 \<le> b" and a4: "a = 4 \<Longrightarrow> b < 16"
      using 4 c lt by auto
    have enc: "utf8_encode c = map of_nat [0xF0 + a, 0x80 + b, 0x80 + d, 0x80 + e]"
      using 4 by (simp add: utf8_encode_def a_def b_def d_def e_def)
    have "dfa_next 0 (0xF0 + a) = (if a = 0 then 6 else if a = 4 then 8 else 7)"
      using lt by (simp add: dfa_next_def)
    moreover have "dfa_next (if a = 0 then 6 else if a = 4 then 8 else 7) (0x80 + b) = 3"
      using lt a0 a4 by (simp add: dfa_next_def)
    moreover have "dfa_next 3 (0x80 + d) = 2" and "dfa_next 2 (0x80 + e) = 0"
      using lt by (simp_all add: dfa_next_def)
    ultimately have "dfa_run 0 x (utf8_encode c @ p) = dfa_run 0 (of_nat (((a * 64 + b) * 64 + d) * 64 + e)) p"
      using lt by (simp add: enc step_lead_nat step_cont_nat lead_val_def del: of_nat_add)
    then show ?thesis by (simp only: c [symmetric])
  qed
qed

section \<open>The validator accepts nothing else\<close>

lemma encode_1: "a < 0x80 \<Longrightarrow> utf8_encode a = [of_nat a]"
  by (simp add: utf8_encode_def)

lemma encode_2:
  "2 \<le> a \<Longrightarrow> a < 32 \<Longrightarrow> b < 64 \<Longrightarrow>
   utf8_encode (a * 64 + b) = [of_nat (0xC0 + a), of_nat (0x80 + b)]"
  by (simp add: utf8_encode_def)

lemma encode_3:
  assumes "a < 16" "b < 64" "d < 64" "a = 0 \<Longrightarrow> 32 \<le> b"
  shows "utf8_encode ((a * 64 + b) * 64 + d) = [of_nat (0xE0 + a), of_nat (0x80 + b), of_nat (0x80 + d)]"
proof -
  let ?c = "(a * 64 + b) * 64 + d"
  have "?c div 4096 = a" by (rule div_nat_eqI) (use assms in simp_all)
  moreover have "?c div 64 = a * 64 + b" by (rule div_nat_eqI) (use assms in simp_all)
  moreover have "\<not> ?c < 0x800" "?c < 0x10000" "\<not> ?c < 0x80" using assms by (cases "a = 0"; simp)+
  moreover have "?c mod 64 = d" by (simp only: mod_mult_self3 mod_less assms)
  ultimately show ?thesis using assms unfolding utf8_encode_def by (simp del: of_nat_add)
qed

lemma encode_4:
  assumes "a < 5" "b < 64" "d < 64" "e < 64" "a = 0 \<Longrightarrow> 16 \<le> b"
  shows "utf8_encode (((a * 64 + b) * 64 + d) * 64 + e)
    = [of_nat (0xF0 + a), of_nat (0x80 + b), of_nat (0x80 + d), of_nat (0x80 + e)]"
proof -
  let ?c = "((a * 64 + b) * 64 + d) * 64 + e"
  have "?c div 262144 = a" by (rule div_nat_eqI) (use assms in simp_all)
  moreover have "?c div 4096 = a * 64 + b" by (rule div_nat_eqI) (use assms in simp_all)
  moreover have "?c div 64 = (a * 64 + b) * 64 + d" by (rule div_nat_eqI) (use assms in simp_all)
  moreover have "\<not> ?c < 0x10000" "\<not> ?c < 0x800" "\<not> ?c < 0x80" using assms by (cases "a = 0"; simp)+
  moreover have "?c mod 64 = e" "((a * 64 + b) * 64 + d) mod 64 = d" "(a * 64 + b) mod 64 = b"
    by (simp_all only: mod_mult_self3 mod_less assms)
  ultimately show ?thesis using assms unfolding utf8_encode_def by (simp del: of_nat_add)
qed

lemma utf8_text_Nil [simp]: "utf8_text []"
  unfolding utf8_text_def by (rule exI [of _ "[]"]) simp

lemma utf8_text_encode: "is_scalar c \<Longrightarrow> utf8_text p \<Longrightarrow> utf8_text (utf8_encode c @ p)"
proof -
  assume c: "is_scalar c" and "utf8_text p"
  then obtain cs where "list_all is_scalar cs" "p = concat (map utf8_encode cs)"
    by (auto simp: utf8_text_def)
  with c show ?thesis unfolding utf8_text_def by (intro exI [of _ "c # cs"]) simp
qed

lemma utf8_text_append: "utf8_text p \<Longrightarrow> utf8_text q \<Longrightarrow> utf8_text (p @ q)"
  unfolding utf8_text_def by (metis concat_append list_all_append map_append)

lemma run_reject: "fst (dfa_run 1 x p) = 1"
  by (induction p arbitrary: x) (simp_all add: split_beta step_state dfa_next_def)

text \<open>In a state that waits for a byte, an accepted rest starts with a byte of the state's range.\<close>

lemma run_waiting:
  assumes "fst (dfa_run s x p) = 0" and "0 < s" and "s < 9"
  obtains b q y where "p = b # q" and "dfa_next s (unat b) \<noteq> 1"
    and "fst (dfa_run (dfa_next s (unat b)) y q) = 0"
proof (cases p)
  case Nil
  with assms show ?thesis by simp
next
  case (Cons b q)
  from assms Cons have "fst (dfa_run (dfa_next s (unat b)) (snd (utf8DFAStep s x b)) q) = 0"
    by (simp add: split_beta step_state)
  moreover from this have "dfa_next s (unat b) \<noteq> 1" using run_reject by (metis zero_neq_one)
  ultimately show ?thesis using Cons that by blast
qed

lemma byte_offset: "k \<le> unat b \<Longrightarrow> of_nat (k + (unat b - k)) = (b :: byte)"
  by simp

text \<open>Two and three continuation bytes are consumed in states 2 and 3.\<close>

lemma run_state_2:
  assumes "fst (dfa_run 2 x p) = 0"
  obtains b q y where "p = b # q" and "is_cont b" and "fst (dfa_run 0 y q) = 0"
proof -
  obtain b q y where "p = b # q" "dfa_next 2 (unat b) \<noteq> 1" "fst (dfa_run (dfa_next 2 (unat b)) y q) = 0"
    using run_waiting [of 2 x p] assms by auto
  then show ?thesis using that by (auto simp: dfa_next_def is_cont_def split: if_splits)
qed

lemma run_state_3:
  assumes "fst (dfa_run 3 x p) = 0"
  obtains b c q y where "p = b # c # q" and "is_cont b" and "is_cont c" and "fst (dfa_run 0 y q) = 0"
proof -
  obtain b q y where "p = b # q" "dfa_next 3 (unat b) \<noteq> 1" "fst (dfa_run (dfa_next 3 (unat b)) y q) = 0"
    using run_waiting [of 3 x p] assms by auto
  then have "p = b # q" "is_cont b" "fst (dfa_run 2 y q) = 0"
    by (auto simp: dfa_next_def is_cont_def split: if_splits)
  then show ?thesis using that by (elim run_state_2) blast
qed

text \<open>Each well-formed byte pattern is the encoding of a scalar value.\<close>

lemma accept_1: "unat b0 < 0x80 \<Longrightarrow> utf8_text p \<Longrightarrow> utf8_text (b0 # p)"
  using utf8_text_encode [of "unat b0" p] by (simp add: encode_1 is_scalar_def)

lemma cont_split: "is_cont b \<Longrightarrow> \<exists>k<64. b = of_nat (0x80 + k)"
  by (rule exI [of _ "unat b - 0x80"]) (auto simp: is_cont_def byte_offset simp del: of_nat_add)

lemma lead_split: "k \<le> unat b \<Longrightarrow> unat b < m \<Longrightarrow> \<exists>a < m - k. b = of_nat (k + a) \<and> unat b = k + a"
  by (rule exI [of _ "unat b - k"]) (auto simp: byte_offset simp del: of_nat_add)

lemma accept_2:
  assumes "0xC2 \<le> unat b0" and "unat b0 < 0xE0" and "is_cont b1" and "utf8_text p"
  shows "utf8_text (b0 # b1 # p)"
proof -
  obtain a where a: "a < 30" "b0 = of_nat (0xC2 + a)"
    using lead_split [OF assms(1,2)] by auto
  obtain b where b: "b < 64" "b1 = of_nat (0x80 + b)" using cont_split [OF assms(3)] by blast
  have "is_scalar ((2 + a) * 64 + b)" using a b by (simp add: is_scalar_def)
  moreover have "utf8_encode ((2 + a) * 64 + b) = [b0, b1]"
    using a b by (subst encode_2) (simp_all del: of_nat_add)
  ultimately show ?thesis using utf8_text_encode assms(4) by fastforce
qed

lemma accept_3:
  assumes "0xE0 \<le> unat b0" and "unat b0 < 0xF0" and "second_ok (unat b0) b1" and "is_cont b2"
    and "utf8_text p"
  shows "utf8_text (b0 # b1 # b2 # p)"
proof -
  obtain a where a: "a < 16" "b0 = of_nat (0xE0 + a)" "unat b0 = 0xE0 + a"
    using lead_split [OF assms(1,2)] by auto
  have "is_cont b1" using assms(1-3) by (auto simp: second_ok_def is_cont_def split: if_splits)
  then obtain b where b: "b < 64" "b1 = of_nat (0x80 + b)" using cont_split by blast
  obtain d where d: "d < 64" "b2 = of_nat (0x80 + d)" using cont_split [OF assms(4)] by blast
  have b1: "unat b1 = 0x80 + b" using b by (simp del: of_nat_add)
  have lo: "a = 0 \<Longrightarrow> 32 \<le> b" and hi: "a = 13 \<Longrightarrow> b < 32"
    using assms(3) a b1 by (auto simp: second_ok_def)
  have "is_scalar ((a * 64 + b) * 64 + d)"
    using a b d hi by (cases "a < 13"; cases "a = 13") (auto simp: is_scalar_def)
  moreover have "utf8_encode ((a * 64 + b) * 64 + d) = [b0, b1, b2]"
    using a b d lo by (subst encode_3) (simp_all del: of_nat_add)
  ultimately show ?thesis using utf8_text_encode assms(5) by fastforce
qed

lemma accept_4:
  assumes "0xF0 \<le> unat b0" and "unat b0 < 0xF5" and "second_ok (unat b0) b1" and "is_cont b2"
    and "is_cont b3" and "utf8_text p"
  shows "utf8_text (b0 # b1 # b2 # b3 # p)"
proof -
  obtain a where a: "a < 5" "b0 = of_nat (0xF0 + a)" "unat b0 = 0xF0 + a"
    using lead_split [OF assms(1,2)] by auto
  have "is_cont b1" using assms(1-3) by (auto simp: second_ok_def is_cont_def split: if_splits)
  then obtain b where b: "b < 64" "b1 = of_nat (0x80 + b)" using cont_split by blast
  obtain d where d: "d < 64" "b2 = of_nat (0x80 + d)" using cont_split [OF assms(4)] by blast
  obtain e where e: "e < 64" "b3 = of_nat (0x80 + e)" using cont_split [OF assms(5)] by blast
  have b1: "unat b1 = 0x80 + b" using b by (simp del: of_nat_add)
  have lo: "a = 0 \<Longrightarrow> 16 \<le> b" and hi: "a = 4 \<Longrightarrow> b < 16"
    using assms(3) a b1 by (auto simp: second_ok_def)
  have "is_scalar (((a * 64 + b) * 64 + d) * 64 + e)"
    using a b d e lo hi by (cases "a = 0"; cases "a = 4") (auto simp: is_scalar_def)
  moreover have "utf8_encode (((a * 64 + b) * 64 + d) * 64 + e) = [b0, b1, b2, b3]"
    using a b d e lo by (subst encode_4) (simp_all del: of_nat_add)
  ultimately show ?thesis using utf8_text_encode assms(6) by fastforce
qed

lemmas accept_intros = accept_1 accept_2 accept_3 accept_4

text \<open>The second byte of a three or four byte sequence.\<close>

lemma next_second:
  assumes "0xE0 \<le> n" and "n < 0xF5"
  shows "dfa_next (dfa_next 0 n) (unat b) = (if second_ok n b then if n < 0xF0 then 2 else 3 else 1)"
proof -
  consider "n = 0xE0" | "n = 0xED" | "n = 0xF0" | "n = 0xF4"
    | "n \<noteq> 0xE0" "n \<noteq> 0xED" "n < 0xF0" | "0xF0 < n" "n < 0xF4"
    using assms by linarith
  then show ?thesis
    by cases (use assms in \<open>simp_all add: dfa_next_def second_ok_def is_cont_def less_Suc_eq_le [symmetric]\<close>)
qed

lemma run_second:
  assumes "fst (dfa_run (dfa_next 0 n) x p) = 0" and "0xE0 \<le> n" and "n < 0xF5"
  obtains b q y where "p = b # q" and "second_ok n b"
    and "fst (dfa_run (if n < 0xF0 then 2 else 3) y q) = 0"
proof -
  have "0 < dfa_next 0 n" using assms(2,3) by (simp add: dfa_next_def)
  then obtain b q y where "p = b # q" and "dfa_next (dfa_next 0 n) (unat b) \<noteq> 1"
    and "fst (dfa_run (dfa_next (dfa_next 0 n) (unat b)) y q) = 0"
    using run_waiting [OF assms(1)] dfa_next_bound by blast
  then show ?thesis using that unfolding next_second [OF assms(2,3)] by (metis (full_types))
qed

lemma run_sound: "fst (dfa_run 0 x p) = 0 \<Longrightarrow> utf8_text p"
proof (induction p arbitrary: x rule: length_induct)
  case (1 p)
  have IH: "fst (dfa_run 0 y q) = 0 \<Longrightarrow> length q < length p \<Longrightarrow> utf8_text q" for y q
    using "1.IH" by blast
  show ?case
  proof (cases p)
    case (Cons b0 p1)
    then obtain y where run: "fst (dfa_run (dfa_next 0 (unat b0)) y p1) = 0"
      using "1.prems" by (auto simp: split_beta step_state)
    then have "dfa_next 0 (unat b0) \<noteq> 1" using run_reject by (metis zero_neq_one)
    then consider "unat b0 < 0x80" | "0xC2 \<le> unat b0" "unat b0 < 0xE0"
      | "0xE0 \<le> unat b0" "unat b0 < 0xF0" | "0xF0 \<le> unat b0" "unat b0 < 0xF5"
      by (fastforce simp: dfa_next_def split: if_splits)
    then show ?thesis
    proof cases
      case 1
      with run IH Cons show ?thesis by (auto simp: dfa_next_def intro: accept_1)
    next
      case 2
      then have "fst (dfa_run 2 y p1) = 0" using run by (simp add: dfa_next_def)
      then show ?thesis using IH Cons 2 by (elim run_state_2) (auto intro: accept_2)
    next
      case 3
      have "0xE0 \<le> unat b0" "unat b0 < 0xF5" using 3 by simp_all
      from run_second [OF run this] obtain b q z where pq: "p1 = b # q" "second_ok (unat b0) b"
        and "fst (dfa_run (if unat b0 < 0xF0 then 2 else 3) z q) = 0" by blast
      then have "fst (dfa_run 2 z q) = 0" using 3 by simp
      then show ?thesis using IH Cons 3 pq by (elim run_state_2) (auto intro: accept_3)
    next
      case 4
      have "0xE0 \<le> unat b0" "unat b0 < 0xF5" using 4 by simp_all
      from run_second [OF run this] obtain b q z where pq: "p1 = b # q" "second_ok (unat b0) b"
        and "fst (dfa_run (if unat b0 < 0xF0 then 2 else 3) z q) = 0" by blast
      then have "fst (dfa_run 3 z q) = 0" using 4 by simp
      then show ?thesis using IH Cons 4 pq by (elim run_state_3) (auto intro: accept_4)
    qed
  qed simp
qed

lemma run_complete: "utf8_text p \<Longrightarrow> fst (dfa_run 0 x p) = 0"
proof -
  have "list_all is_scalar cs \<Longrightarrow> fst (dfa_run 0 x (concat (map utf8_encode cs))) = 0" for cs
    by (induction cs arbitrary: x) (simp_all add: run_encode)
  then show "utf8_text p \<Longrightarrow> fst (dfa_run 0 x p) = 0" by (auto simp: utf8_text_def)
qed

lemma validate_loop_run: "s < 9 \<Longrightarrow> utf8DFAValidate_loop s x p = fst (dfa_run s x p)"
proof (induction p arbitrary: s x)
  case Nil
  show ?case by simp
next
  case (Cons b p)
  obtain s' x' where st: "utf8DFAStep s x b = (s', x')" by fastforce
  with Cons.prems step_state [of s x b] dfa_next_bound have "s' < 9" by simp
  with st Cons.IH show ?case by (simp add: utf8Reject_def run_reject [unfolded One_nat_def])
qed

lemma validate_run: "utf8DFAValidate p = fst (dfa_run 0 0 p)"
  by (simp add: utf8DFAValidate_def utf8Accept_def validate_loop_run)

lemma validate_text: "utf8DFAValidate p = utf8Accept \<longleftrightarrow> utf8_text p"
  by (auto simp: validate_run utf8Accept_def intro: run_sound run_complete)

text \<open>The code point carried over the steps does not influence the state.\<close>

lemma run_state_indep: "s < 9 \<Longrightarrow> fst (dfa_run s x p) = fst (dfa_run s y p)"
proof (induction p arbitrary: s x y)
  case Nil
  show ?case by simp
next
  case (Cons b p)
  then show ?case by (simp add: split_beta step_state dfa_next_bound)
qed

lemma run_bound: "s < 9 \<Longrightarrow> fst (dfa_run s x p) < 9"
  by (induction p arbitrary: s x) (simp_all add: split_beta step_state dfa_next_bound)

section \<open>The library's decoder accepts the same strings\<close>

text \<open>The digits of a scalar value in its encoding.\<close>

lemma scalar_cases:
  assumes "is_scalar c"
  obtains (one) "c < 0x80"
  | (two) a b where "c = a * 64 + b" "2 \<le> a" "a < 32" "b < 64"
  | (three) a b d where "c = (a * 64 + b) * 64 + d" "a < 16" "b < 64" "d < 64"
      "a = 0 \<Longrightarrow> 32 \<le> b" "a = 13 \<Longrightarrow> b < 32"
  | (four) a b d e where "c = ((a * 64 + b) * 64 + d) * 64 + e" "a < 5" "b < 64" "d < 64" "e < 64"
      "a = 0 \<Longrightarrow> 16 \<le> b" "a = 4 \<Longrightarrow> b < 16"
proof -
  consider "c < 0x80" | "0x80 \<le> c" "c < 0x800" | "0x800 \<le> c" "c < 0x10000"
    | "0x10000 \<le> c" "c < 0x110000"
    using assms by (force simp: is_scalar_def)
  then show thesis
  proof cases
    case 2
    have "c = c div 64 * 64 + c mod 64" by simp
    then show ?thesis by (rule two) (use 2 in auto)
  next
    case 3
    have c: "c = (c div 4096 * 64 + c div 64 mod 64) * 64 + c mod 64" by (rule base64_digits(1))
    have "c div 4096 < 16" using 3 by auto
    moreover have "c div 4096 = 0 \<Longrightarrow> 32 \<le> c div 64 mod 64"
      and "c div 4096 = 13 \<Longrightarrow> c div 64 mod 64 < 32"
      using 3 assms c by (auto simp: is_scalar_def)
    ultimately show ?thesis using c three by simp
  next
    case 4
    have c: "c = ((c div 262144 * 64 + c div 4096 mod 64) * 64 + c div 64 mod 64) * 64 + c mod 64"
      by (rule base64_digits(2))
    have "c div 262144 < 5" using 4 by auto
    moreover have "c div 262144 = 0 \<Longrightarrow> 16 \<le> c div 4096 mod 64"
      and "c div 262144 = 4 \<Longrightarrow> c div 4096 mod 64 < 16"
      using 4 c by auto
    ultimately show ?thesis using c four by simp
  qed (rule one)
qed

lemma is_cont_nat [simp]: "k < 64 \<Longrightarrow> is_cont (of_nat (0x80 + k))"
  by (simp add: is_cont_def del: of_nat_add)

lemma second_ok_nat:
  "n < 256 \<Longrightarrow> k < 64 \<Longrightarrow> (n = 0xE0 \<Longrightarrow> 32 \<le> k) \<Longrightarrow> (n = 0xED \<Longrightarrow> k < 32) \<Longrightarrow>
   (n = 0xF0 \<Longrightarrow> 16 \<le> k) \<Longrightarrow> (n = 0xF4 \<Longrightarrow> k < 16) \<Longrightarrow> second_ok n (of_nat (0x80 + k))"
  by (auto simp: second_ok_def is_cont_def simp del: of_nat_add)

lemma decode_encode:
  assumes "is_scalar c"
  shows "decodeRune (utf8_encode c @ p) = (c, length (utf8_encode c))"
  using assms
proof (cases rule: scalar_cases)
  case one
  then show ?thesis by (simp add: encode_1 decodeRune_def)
next
  case (two a b)
  then have "second_ok (0xC0 + a) (of_nat (0x80 + b))" by (intro second_ok_nat) auto
  moreover have "utf8_encode c = [of_nat (0xC0 + a), of_nat (0x80 + b)]"
    unfolding two(1) by (rule encode_2) (use two in auto)
  ultimately show ?thesis using two(2-) by (simp add: decodeRune_def Let_def two(1) del: of_nat_add)
next
  case (three a b d)
  then have "second_ok (0xE0 + a) (of_nat (0x80 + b))" by (intro second_ok_nat) auto
  moreover have "utf8_encode c = [of_nat (0xE0 + a), of_nat (0x80 + b), of_nat (0x80 + d)]"
    unfolding three(1) by (rule encode_3) (use three in auto)
  ultimately show ?thesis using three(2-) by (simp add: decodeRune_def Let_def three(1) del: of_nat_add)
next
  case (four a b d e)
  then have "second_ok (0xF0 + a) (of_nat (0x80 + b))" by (intro second_ok_nat) auto
  moreover have "utf8_encode c = [of_nat (0xF0 + a), of_nat (0x80 + b), of_nat (0x80 + d), of_nat (0x80 + e)]"
    unfolding four(1) by (rule encode_4) (use four in auto)
  ultimately show ?thesis using four(2-) by (simp add: decodeRune_def Let_def four(1) del: of_nat_add)
qed

lemma encode_length: "is_scalar c \<Longrightarrow> 0 < length (utf8_encode c)"
  by (simp add: utf8_encode_def)

lemma encode_one_byte: "length (utf8_encode c) = 1 \<Longrightarrow> c < 0x80"
  by (simp add: utf8_encode_def split: if_splits)

lemma valid_complete: "list_all is_scalar cs \<Longrightarrow> utf8_Valid (concat (map utf8_encode cs))"
proof (induction cs)
  case Nil
  show ?case by (simp add: utf8_Valid.simps)
next
  case (Cons c cs)
  then have c: "is_scalar c" by simp
  have "\<not> (c = runeError \<and> length (utf8_encode c) = 1)"
    using encode_one_byte [of c] by (auto simp: runeError_def)
  with Cons c encode_length [OF c] show ?case
    by (subst utf8_Valid.simps) (simp add: decode_encode Let_def)
qed

lemma second_ok_two: "n < 0xE0 \<Longrightarrow> second_ok n b \<longleftrightarrow> is_cont b"
  by (simp add: second_ok_def)

text \<open>What the decoder takes without an error is a well-formed sequence.\<close>

lemma decode_accept:
  assumes "p \<noteq> []" and "decodeRune p = (r, n)" and "\<not> (r = runeError \<and> n = 1)"
    and "utf8_text (drop n p)"
  shows "utf8_text p"
  using assms
  by (auto simp: decodeRune_def Let_def not_less second_ok_two less_Suc_eq_le intro: accept_intros
      split: list.splits if_splits)

lemma valid_sound: "utf8_Valid p \<Longrightarrow> utf8_text p"
proof (induction p rule: utf8_Valid.induct)
  case (1 p)
  show ?case
  proof (cases "p = []")
    case False
    obtain r n where d: "decodeRune p = (r, n)" by fastforce
    from "1.prems" False d have ok: "\<not> (r = runeError \<and> n = 1)" and "utf8_Valid (drop n p)"
      by (auto simp: utf8_Valid.simps [of p] Let_def split: if_splits)
    then have "utf8_text (drop n p)" using "1.IH" [OF False d [symmetric]] by blast
    with decode_accept [OF False d ok] show ?thesis .
  qed simp
qed

lemma valid_text: "utf8_Valid p \<longleftrightarrow> utf8_text p"
  using valid_sound valid_complete by (auto simp: utf8_text_def)

section \<open>Properties\<close>

text \<open>C28: utf8DFAValidate ends in the accepting state exactly on the byte strings that are
  concatenations of UTF-8 encodings of Unicode scalar values (no overlong form, no surrogate,
  nothing above 10FFFF, no truncation), and so exactly when the standard library's decoder does.\<close>

theorem dfa_accepts_utf8:
  "(utf8DFAValidate p = utf8Accept) = (\<exists>cs. list_all is_scalar cs \<and> p = concat (map utf8_encode cs))
   \<and> (utf8DFAValidate p = utf8Accept) = utf8_Valid p"
  by (simp add: validate_text valid_text) (simp add: utf8_text_def)

text \<open>Stepping the automaton over the encoding of a scalar value from the accepting state ends in
  the accepting state with that value as the code point, whatever the register held before: the
  code point register is the decoded character.\<close>

lemma dfa_decodes:
  assumes "is_scalar c"
  shows "dfa_run utf8Accept x (utf8_encode c) = (utf8Accept, of_nat c)"
  using run_encode [OF assms, of x "[]"] by (simp add: utf8Accept_def)

text \<open>From every state the automaton can be in, every byte leads to a state whose table row exists:
  the table index is always in range, so the step never panics.\<close>

lemma dfa_index_in_range:
  assumes "s < 9"
  shows "256 + s * 16 + unat (utf8dfaTable ! unat b) < length utf8dfaTable
    \<and> unat b < length utf8dfaTable \<and> fst (utf8DFAStep s x b) < 9"
proof -
  have "unat (utf8dfaTable ! unat b) < 16" by (simp add: unat_class_at byte_class_lt)
  moreover have "unat b < 400" using unat_byte_lt [of b] by linarith
  ultimately show ?thesis using assms by (simp add: table_length step_state dfa_next_bound)
qed

end
