(* ===== verification/ConnBase.thy ===== *)
theory ConnBase
  imports Mask Utf8Dfa
begin

text \<open>
  The data of conn.go: frame header bits, close codes and message types, the error values, the
  close error and its text, close message formatting, and the record of a connection. The record
  has the fields of the Go struct and, after them, the environment a connection talks to: the
  network's outcomes and input, the random mask keys, the buffer pool and the clock.
\<close>

section \<open>Constants\<close>

definition finalBit :: byte where "finalBit = 0x80"
definition rsv1Bit :: byte where "rsv1Bit = 0x40"
definition rsv2Bit :: byte where "rsv2Bit = 0x20"
definition rsv3Bit :: byte where "rsv3Bit = 0x10"
definition maskBit :: byte where "maskBit = 0x80"

definition maxFrameHeaderSize :: nat where "maxFrameHeaderSize = 2 + 8 + 4"
definition maxControlFramePayloadSize :: nat where "maxControlFramePayloadSize = 125"

text \<open>One second in nanoseconds, the unit of a Go duration.\<close>

definition writeWait :: int where "writeWait = 1000000000"

definition defaultReadBufferSize :: nat where "defaultReadBufferSize = 4096"
definition defaultWriteBufferSize :: nat where "defaultWriteBufferSize = 4096"

definition continuationFrame :: int where "continuationFrame = 0"
definition noFrame :: int where "noFrame = -1"

definition CloseNormalClosure :: int where "CloseNormalClosure = 1000"
definition CloseGoingAway :: int where "CloseGoingAway = 1001"
definition CloseProtocolError :: int where "CloseProtocolError = 1002"
definition CloseUnsupportedData :: int where "CloseUnsupportedData = 1003"
definition CloseNoStatusReceived :: int where "CloseNoStatusReceived = 1005"
definition CloseAbnormalClosure :: int where "CloseAbnormalClosure = 1006"
definition CloseInvalidFramePayloadData :: int where "CloseInvalidFramePayloadData = 1007"
definition ClosePolicyViolation :: int where "ClosePolicyViolation = 1008"
definition CloseMessageTooBig :: int where "CloseMessageTooBig = 1009"
definition CloseMandatoryExtension :: int where "CloseMandatoryExtension = 1010"
definition CloseInternalServerErr :: int where "CloseInternalServerErr = 1011"
definition CloseServiceRestart :: int where "CloseServiceRestart = 1012"
definition CloseTryAgainLater :: int where "CloseTryAgainLater = 1013"
definition CloseTLSHandshake :: int where "CloseTLSHandshake = 1015"

lemmas close_codes =
  CloseNormalClosure_def CloseGoingAway_def CloseProtocolError_def CloseUnsupportedData_def
  CloseNoStatusReceived_def CloseAbnormalClosure_def CloseInvalidFramePayloadData_def
  ClosePolicyViolation_def CloseMessageTooBig_def CloseMandatoryExtension_def
  CloseInternalServerErr_def CloseServiceRestart_def CloseTryAgainLater_def CloseTLSHandshake_def

definition TextMessage :: int where "TextMessage = 1"
definition BinaryMessage :: int where "BinaryMessage = 2"
definition CloseMessage :: int where "CloseMessage = 8"
definition PingMessage :: int where "PingMessage = 9"
definition PongMessage :: int where "PongMessage = 10"

lemmas message_types =
  TextMessage_def BinaryMessage_def CloseMessage_def PingMessage_def PongMessage_def
  continuationFrame_def noFrame_def

definition isControl :: "int \<Rightarrow> bool" where
  "isControl frameType \<longleftrightarrow>
     frameType = CloseMessage \<or> frameType = PingMessage \<or> frameType = PongMessage"

definition isData :: "int \<Rightarrow> bool" where
  "isData frameType \<longleftrightarrow> frameType = TextMessage \<or> frameType = BinaryMessage"

section \<open>Errors\<close>

text \<open>
  The error values the code tests for by identity are constructors of their own; a
  \<open>*CloseError\<close> and a \<open>*netError\<close> (message, temporary, timeout) carry their fields; an error
  made on the spot by \<open>errors.New\<close> carries its text.
\<close>

datatype gerror =
    CloseError int string
  | NetError string bool bool
  | ErrCloseSent
  | ErrReadLimit
  | ErrBadWriteOpCode
  | ErrWriteClosed
  | ErrInvalidControlFrame
  | ErrInvalidUTF8
  | ErrPreparedMessageContextTakeover
  | IoEOF
  | IoErrClosedPipe
  | ErrNew string

definition errWriteTimeout :: gerror where
  "errWriteTimeout = NetError ''websocket: write timeout'' True True"

definition errUnexpectedEOF :: gerror where
  "errUnexpectedEOF = CloseError CloseAbnormalClosure ''unexpected EOF''"

text \<open>\<open>errors.As(err, net.Error) && ne.Timeout()\<close>\<close>

fun isTimeout :: "gerror \<Rightarrow> bool" where
  "isTimeout (NetError msg temporary timeout) = timeout"
| "isTimeout _ = False"

text \<open>Decimal text of a number (package strconv).\<close>

fun nat_digits :: "nat \<Rightarrow> string" where
  "nat_digits n = (if n < 10 then [char_of (48 + n)] else nat_digits (n div 10) @ [char_of (48 + n mod 10)])"

declare nat_digits.simps [simp del]

definition itoa :: "int \<Rightarrow> string" where
  "itoa n = (if n < 0 then ''-'' @ nat_digits (nat (- n)) else nat_digits (nat n))"

definition closeCodeName :: "int \<Rightarrow> string" where
  "closeCodeName code =
     (if code = CloseNormalClosure then '' (normal)''
      else if code = CloseGoingAway then '' (going away)''
      else if code = CloseProtocolError then '' (protocol error)''
      else if code = CloseUnsupportedData then '' (unsupported data)''
      else if code = CloseNoStatusReceived then '' (no status)''
      else if code = CloseAbnormalClosure then '' (abnormal closure)''
      else if code = CloseInvalidFramePayloadData then '' (invalid payload data)''
      else if code = ClosePolicyViolation then '' (policy violation)''
      else if code = CloseMessageTooBig then '' (message too big)''
      else if code = CloseMandatoryExtension then '' (mandatory extension missing)''
      else if code = CloseInternalServerErr then '' (internal server error)''
      else if code = CloseTLSHandshake then '' (TLS handshake error)''
      else '''')"

text \<open>\<open>CloseError.Error\<close> and the texts of the other errors.\<close>

fun Error :: "gerror \<Rightarrow> string" where
  "Error (CloseError code text) =
     ''websocket: close '' @ itoa code @ closeCodeName code @ (if text \<noteq> '''' then '': '' @ text else '''')"
| "Error (NetError msg temporary timeout) = msg"
| "Error ErrCloseSent = ''websocket: close sent''"
| "Error ErrReadLimit = ''websocket: read limit exceeded''"
| "Error ErrBadWriteOpCode = ''websocket: bad write message type''"
| "Error ErrWriteClosed = ''websocket: write closed''"
| "Error ErrInvalidControlFrame = ''websocket: invalid control frame''"
| "Error ErrInvalidUTF8 = ''websocket: invalid utf-8 in text message''"
| "Error ErrPreparedMessageContextTakeover =
     ''websocket: PreparedMessage is not compatible with context-takeover compression''"
| "Error IoEOF = ''EOF''"
| "Error IoErrClosedPipe = ''io: read/write on closed pipe''"
| "Error (ErrNew text) = text"

fun IsCloseError :: "gerror option \<Rightarrow> int list \<Rightarrow> bool" where
  "IsCloseError (Some (CloseError code text)) codes = list_ex (\<lambda>c. code = c) codes"
| "IsCloseError _ codes = False"

fun IsUnexpectedCloseError :: "gerror option \<Rightarrow> int list \<Rightarrow> bool" where
  "IsUnexpectedCloseError (Some (CloseError code text)) expectedCodes =
     (if list_ex (\<lambda>c. code = c) expectedCodes then False else True)"
| "IsUnexpectedCloseError _ expectedCodes = False"

definition validReceivedCloseCodes :: "int \<rightharpoonup> bool" where
  "validReceivedCloseCodes = map_of
     [(CloseNormalClosure, True), (CloseGoingAway, True), (CloseProtocolError, True),
      (CloseUnsupportedData, True), (CloseNoStatusReceived, False), (CloseAbnormalClosure, False),
      (CloseInvalidFramePayloadData, True), (ClosePolicyViolation, True),
      (CloseMessageTooBig, True), (CloseMandatoryExtension, True),
      (CloseInternalServerErr, True), (CloseServiceRestart, True), (CloseTryAgainLater, True),
      (CloseTLSHandshake, False)]"

definition isValidReceivedCloseCode :: "int \<Rightarrow> bool" where
  "isValidReceivedCloseCode code \<longleftrightarrow>
     (case validReceivedCloseCodes code of Some b \<Rightarrow> b | None \<Rightarrow> False) \<or> (3000 \<le> code \<and> code \<le> 4999)"

definition FormatCloseMessage :: "int \<Rightarrow> string \<Rightarrow> bytes" where
  "FormatCloseMessage closeCode text =
     (if closeCode = CloseNoStatusReceived then []
      else be_bytes 2 (nat (closeCode mod 65536)) @ bytes_of_string text)"

section \<open>The connection\<close>

text \<open>A time, \<open>None\<close> being the zero time; otherwise nanoseconds.\<close>

type_synonym time = "int option"

text \<open>The outcome of one operation on the network connection: success, or an error after some
  bytes of a write have been accepted.\<close>

datatype net_result = NetOk | NetFail nat gerror

text \<open>A source of bytes (\<open>io.Reader\<close>): each entry is what one read may deliver, with the error
  that comes with its last byte; after the last entry, end of file.\<close>

type_synonym source = "(bytes \<times> gerror option) list"

fun srcRead :: "nat \<Rightarrow> source \<Rightarrow> bytes \<times> gerror option \<times> source" where
  "srcRead n [] = ([], Some IoEOF, [])"
| "srcRead n ((d, e) # s) =
     (if length d \<le> n then (d, e, s) else (take n d, None, (drop n d, e) # s))"

text \<open>Which compression function a connection uses in one direction.\<close>

datatype comp_fn = NilFn | NoTakeoverFn | TakeoverFn

record conn =
  isServer :: bool
  subprotocol :: string
  disableMask :: bool
  writeMu :: bool             \<comment> \<open>the token is in the channel\<close>
  mu :: bool
  writeBuf :: "bytes option"
  writePool :: bool           \<comment> \<open>a buffer pool is set\<close>
  writeBufSize :: nat
  writeFrameSize :: nat
  writeDeadline :: time
  writer :: "nat option"      \<comment> \<open>the current writer returned to the application\<close>
  writeErr :: "gerror option"
  enableWriteCompression :: bool
  compressionLevel :: int
  newCompressionWriter :: comp_fn
  newDecompressionReader :: comp_fn
  reader :: "nat option"      \<comment> \<open>the current reader returned to the application\<close>
  readErr :: "gerror option"
  readRemaining :: int64
  readFinal :: bool
  readLength :: int64
  readLimit :: int64
  readMaskPos :: nat
  readMaskKey :: mask_key
  readErrCount :: nat
  messageReader :: "nat option"
  readDecompress :: bool
  skipUTF8Validation :: bool
  readUTF8State :: nat
  readUTF8Codepoint :: rune
  \<comment> \<open>the environment\<close>
  now :: int
  netScript :: "net_result list"
  wire :: bytes
  netWriteDeadline :: time
  netReadDeadline :: time
  netClosed :: bool
  maskRand :: "nat \<Rightarrow> mask_key"
  maskIdx :: nat
  poolScript :: "bytes option list"
  poolPuts :: "bytes list"
  littleEndian :: bool
  memAddr :: nat
  rbuf :: bytes               \<comment> \<open>buffered input\<close>
  rbufSize :: nat
  rerr :: "gerror option"     \<comment> \<open>the buffered reader's pending error\<close>
  rin :: source               \<comment> \<open>input still on the network\<close>

section \<open>A new connection\<close>

text \<open>What a new connection finds: the clock, the network, random keys, the pool, the machine.\<close>

record environment =
  envNow :: int
  envNet :: "net_result list"
  envRand :: "nat \<Rightarrow> mask_key"
  envPool :: "bytes option list"
  envLittleEndian :: bool
  envAddr :: nat
  envIn :: source

definition defaultCompressionLevel :: int where
  "defaultCompressionLevel = 1"

text \<open>\<open>br\<close> is the buffered reader passed in, as its size and what it has buffered.\<close>

definition newConn ::
  "bool \<Rightarrow> int \<Rightarrow> int \<Rightarrow> bool \<Rightarrow> (nat \<times> bytes) option \<Rightarrow> bytes option \<Rightarrow> environment \<Rightarrow> conn" where
  "newConn server readBufferSize writeBufferSize writeBufferPool br wbuf env =
     (let readSize = (if readBufferSize = 0 then int defaultReadBufferSize
                      else if readBufferSize < int maxControlFramePayloadSize then int maxControlFramePayloadSize
                      else readBufferSize);
          writeSize = (if writeBufferSize \<le> 0 then int defaultWriteBufferSize else writeBufferSize)
                        + int maxFrameHeaderSize;
          wb = (if wbuf = None \<and> \<not> writeBufferPool then Some (replicate (nat writeSize) 0) else wbuf)
      in \<lparr>isServer = server, subprotocol = '''', disableMask = False, writeMu = True, mu = True,
          writeBuf = wb, writePool = writeBufferPool, writeBufSize = nat writeSize,
          writeFrameSize = 0, writeDeadline = None, writer = None, writeErr = None,
          enableWriteCompression = True, compressionLevel = defaultCompressionLevel,
          newCompressionWriter = NilFn, newDecompressionReader = NilFn,
          reader = None, readErr = None, readRemaining = 0, readFinal = True, readLength = 0,
          readLimit = 0, readMaskPos = 0, readMaskKey = (0, 0, 0, 0), readErrCount = 0,
          messageReader = None, readDecompress = False, skipUTF8Validation = False,
          readUTF8State = 0, readUTF8Codepoint = 0,
          now = envNow env, netScript = envNet env, wire = [], netWriteDeadline = None,
          netReadDeadline = None, netClosed = False, maskRand = envRand env, maskIdx = 0,
          poolScript = envPool env, poolPuts = [], littleEndian = envLittleEndian env,
          memAddr = envAddr env, rbuf = (case br of Some (n, b) \<Rightarrow> b | None \<Rightarrow> []),
          rbufSize = (case br of Some (n, b) \<Rightarrow> n | None \<Rightarrow> nat readSize), rerr = None, rin = envIn env\<rparr>)"

end
