(* ===== verification/ConnWrite.thy ===== *)
theory ConnWrite
  imports ConnBase
begin

text \<open>
  The write side of conn.go up to the message writer: the two channel mutexes, the network write,
  control frames, and the message writer that builds frames in the connection's buffer.

  An operation returns \<open>None\<close> when it blocks forever: it takes a token from an empty channel with
  no deadline, or puts one into a full channel. Other goroutines are not part of the model: a token they
  hold is a token that is not in the channel.
\<close>

section \<open>The network connection\<close>

definition netWrite :: "bytes \<Rightarrow> 'a conn_scheme \<Rightarrow> gerror option \<times> 'a conn_scheme" where
  "netWrite p c =
     (case netScript c of
        [] \<Rightarrow> (None, c\<lparr>wire := wire c @ p\<rparr>)
      | NetOk # s \<Rightarrow> (None, c\<lparr>wire := wire c @ p, netScript := s\<rparr>)
      | NetFail k e # s \<Rightarrow> (Some e, c\<lparr>wire := wire c @ take k p, netScript := s\<rparr>))"

definition netSetWriteDeadline :: "time \<Rightarrow> 'a conn_scheme \<Rightarrow> gerror option \<times> 'a conn_scheme" where
  "netSetWriteDeadline t c =
     (case netScript c of
        [] \<Rightarrow> (None, c\<lparr>netWriteDeadline := t\<rparr>)
      | NetOk # s \<Rightarrow> (None, c\<lparr>netWriteDeadline := t, netScript := s\<rparr>)
      | NetFail k e # s \<Rightarrow> (Some e, c\<lparr>netScript := s\<rparr>))"

text \<open>\<open>net.Buffers.WriteTo\<close>: one write per buffer, up to the first error.\<close>

fun writeBufs :: "bytes list \<Rightarrow> 'a conn_scheme \<Rightarrow> gerror option \<times> 'a conn_scheme" where
  "writeBufs [] c = (None, c)"
| "writeBufs (b # bs) c =
     (case netWrite b c of
        (Some e, c') \<Rightarrow> (Some e, c')
      | (None, c') \<Rightarrow> writeBufs bs c')"

definition newMaskKey :: "'a conn_scheme \<Rightarrow> mask_key \<times> 'a conn_scheme" where
  "newMaskKey c = (maskRand c (maskIdx c), c\<lparr>maskIdx := Suc (maskIdx c)\<rparr>)"

section \<open>The mutexes\<close>

definition acquireWriteMu :: "time \<Rightarrow> 'a conn_scheme \<Rightarrow> (gerror option \<times> 'a conn_scheme) option" where
  "acquireWriteMu deadline c =
     (case deadline of
        None \<Rightarrow> if writeMu c then Some (None, c\<lparr>writeMu := False\<rparr>) else None
      | Some t \<Rightarrow>
          if t - now c \<le> 0 then Some (Some errWriteTimeout, c)
          else if writeMu c then Some (None, c\<lparr>writeMu := False\<rparr>)
          else Some (Some errWriteTimeout, c\<lparr>now := t\<rparr>))"

definition releaseWriteMu :: "'a conn_scheme \<Rightarrow> 'a conn_scheme option" where
  "releaseWriteMu c = (if writeMu c then None else Some (c\<lparr>writeMu := True\<rparr>))"

text \<open>The inner mutex as \<open>WriteControl\<close> takes it; \<open>write\<close> takes it with no deadline.\<close>

definition acquireMu :: "time \<Rightarrow> 'a conn_scheme \<Rightarrow> (gerror option \<times> 'a conn_scheme) option" where
  "acquireMu deadline c =
     (case deadline of
        None \<Rightarrow> if mu c then Some (None, c\<lparr>mu := False\<rparr>) else None
      | Some t \<Rightarrow>
          if t - now c < 0 then Some (Some errWriteTimeout, c)
          else if mu c then Some (None, c\<lparr>mu := False\<rparr>)
          else Some (Some errWriteTimeout, c\<lparr>now := t\<rparr>))"

section \<open>Writing one frame\<close>

definition writeFatal :: "gerror \<Rightarrow> 'a conn_scheme \<Rightarrow> 'a conn_scheme" where
  "writeFatal err c = (if writeErr c = None then c\<lparr>writeErr := Some err\<rparr> else c)"

text \<open>The part of \<open>write\<close> and of \<open>WriteControl\<close> that runs with the inner mutex held.\<close>

definition writeHeld :: "int \<Rightarrow> time \<Rightarrow> bytes \<Rightarrow> bytes \<Rightarrow> 'a conn_scheme \<Rightarrow> gerror option \<times> 'a conn_scheme" where
  "writeHeld frameType deadline buf0 buf1 c =
     (case writeErr c of
        Some err \<Rightarrow> (Some err, c)
      | None \<Rightarrow>
        (case netSetWriteDeadline deadline c of
           (Some err, c1) \<Rightarrow> (Some err, writeFatal err c1)
         | (None, c1) \<Rightarrow>
           (case (if length buf1 = 0 then netWrite buf0 c1 else writeBufs [buf0, buf1] c1) of
              (Some err, c2) \<Rightarrow> (Some err, writeFatal err c2)
            | (None, c2) \<Rightarrow>
                (None, if frameType = CloseMessage then writeFatal ErrCloseSent c2 else c2))))"

definition conn_write :: "int \<Rightarrow> time \<Rightarrow> bytes \<Rightarrow> bytes \<Rightarrow> 'a conn_scheme \<Rightarrow> (gerror option \<times> 'a conn_scheme) option" where
  "conn_write frameType deadline buf0 buf1 c =
     do { (_, c1) \<leftarrow> acquireMu None c;
          let (err, c2) = writeHeld frameType deadline buf0 buf1 c1;
          Some (err, c2\<lparr>mu := True\<rparr>) }"

definition maskFrames :: "'a conn_scheme \<Rightarrow> bool" where
  "maskFrames c \<longleftrightarrow> \<not> isServer c \<and> \<not> disableMask c"

definition WriteControl :: "int \<Rightarrow> bytes \<Rightarrow> time \<Rightarrow> 'a conn_scheme \<Rightarrow> (gerror option \<times> 'a conn_scheme) option" where
  "WriteControl messageType data deadline c =
     (if \<not> isControl messageType then Some (Some ErrBadWriteOpCode, c)
      else if length data > maxControlFramePayloadSize then Some (Some ErrInvalidControlFrame, c)
      else
        let b0 = of_int messageType OR finalBit;
            b1 = of_nat (length data) OR (if maskFrames c then maskBit else 0);
            (buf, c1) =
              (if maskFrames c then
                 let (key, c') = newMaskKey c in
                 ([b0, b1] @ key_bytes key @ fst (maskBytes (littleEndian c) (memAddr c) key 0 data), c')
               else ([b0, b1] @ data, c))
        in do { (err, c2) \<leftarrow> acquireMu deadline c1;
                (case err of
                   Some e \<Rightarrow> Some (Some e, c2)
                 | None \<Rightarrow>
                   (let (err', c3) = writeHeld messageType deadline buf [] c2
                    in Some (err', c3\<lparr>mu := True\<rparr>))) })"

section \<open>The message writer\<close>

record messageWriter =
  compress :: bool
  pos :: nat
  frameType :: int
  werr :: "gerror option"

definition bufOf :: "'a conn_scheme \<Rightarrow> bytes" where
  "bufOf c = (case writeBuf c of Some b \<Rightarrow> b | None \<Rightarrow> [])"

definition newMessageWriter :: messageWriter where
  "newMessageWriter = \<lparr>compress = False, pos = 0, frameType = 0, werr = None\<rparr>"

text \<open>\<open>beginMessage\<close> after it has closed a previous writer: the message type and error checks, the
  writer's fields, and a buffer from the pool or a fresh one.\<close>

definition beginMessage' :: "int \<Rightarrow> 'a conn_scheme \<Rightarrow> gerror option \<times> messageWriter \<times> 'a conn_scheme" where
  "beginMessage' messageType c =
     (if \<not> isControl messageType \<and> \<not> isData messageType then
        (Some ErrBadWriteOpCode, newMessageWriter, c)
      else case writeErr c of
        Some err \<Rightarrow> (Some err, newMessageWriter, c)
      | None \<Rightarrow>
          let mw = newMessageWriter\<lparr>frameType := messageType, pos := maxFrameHeaderSize\<rparr> in
          (case writeBuf c of
             Some _ \<Rightarrow> (None, mw, c)
           | None \<Rightarrow>
             (case poolScript c of
                Some b # s \<Rightarrow> (None, mw, c\<lparr>writeBuf := Some b, poolScript := s\<rparr>)
              | None # s \<Rightarrow>
                  (None, mw, c\<lparr>writeBuf := Some (replicate (writeBufSize c) 0), poolScript := s\<rparr>)
              | [] \<Rightarrow> (None, mw, c\<lparr>writeBuf := Some (replicate (writeBufSize c) 0)\<rparr>))))"

definition endMessage :: "gerror \<Rightarrow> messageWriter \<Rightarrow> 'a conn_scheme \<Rightarrow> (messageWriter \<times> 'a conn_scheme) option" where
  "endMessage err w c =
     (if werr w \<noteq> None then Some (w, c)
      else
        let c1 = c\<lparr>writer := None\<rparr>;
            c2 = (if writePool c1 then c1\<lparr>poolPuts := poolPuts c1 @ [bufOf c1], writeBuf := None\<rparr> else c1)
        in do { c3 \<leftarrow> releaseWriteMu c2; Some (w\<lparr>werr := Some err\<rparr>, c3) })"

definition errExtraClientMode :: gerror where
  "errExtraClientMode = ErrNew ''websocket: internal error, extra used in client mode''"

text \<open>The header of a frame and its place in the buffer: the frame ends where the payload starts,
  at \<open>maxFrameHeaderSize\<close>, with four bytes kept for the mask key when there is one.\<close>

definition frameHeader :: "byte \<Rightarrow> byte \<Rightarrow> nat \<Rightarrow> bool \<Rightarrow> nat \<times> bytes" where
  "frameHeader b0 b1 len masked =
     (let framePos = (if masked then 0 else 4) in
      if len \<ge> 65536 then (framePos, [b0, b1 OR 127] @ be_bytes 8 len)
      else if len > 125 then (framePos + 6, [b0, b1 OR 126] @ be_bytes 2 len)
      else (framePos + 8, [b0, b1 OR of_nat len]))"

text \<open>The frame is built in the buffer: header, mask key and, in place, the masked payload.\<close>

definition buildFrame :: "bool \<Rightarrow> nat \<Rightarrow> messageWriter \<Rightarrow> 'a conn_scheme \<Rightarrow> nat \<times> bytes \<times> 'a conn_scheme" where
  "buildFrame final len w c =
     (let b0 = of_int (frameType w) OR (if final then finalBit else 0) OR (if compress w then rsv1Bit else 0);
          b1 = (if maskFrames c then maskBit else 0);
          (framePos, hdr) = frameHeader b0 b1 len (maskFrames c);
          buf = copy_at framePos hdr (bufOf c)
      in if maskFrames c then
           let (key, c1) = newMaskKey c;
               bk = copy_at (maxFrameHeaderSize - 4) (key_bytes key) buf;
               m = fst (maskBytes (littleEndian c) (memAddr c) key 0 (slice maxFrameHeaderSize (pos w) bk))
           in (framePos, copy_at maxFrameHeaderSize m bk, c1)
         else (framePos, buf, c))"

definition flushFrame ::
  "bool \<Rightarrow> bytes \<Rightarrow> messageWriter \<Rightarrow> 'a conn_scheme \<Rightarrow> (gerror option \<times> messageWriter \<times> 'a conn_scheme) option" where
  "flushFrame final extra w c =
     (let len = pos w - maxFrameHeaderSize + length extra in
      if isControl (frameType w) \<and> (\<not> final \<or> len > maxControlFramePayloadSize) then
        do { (w', c') \<leftarrow> endMessage ErrInvalidControlFrame w c; Some (Some ErrInvalidControlFrame, w', c') }
      else
        let (framePos, buf, c1) = buildFrame final len w c;
            w1 = w\<lparr>compress := False\<rparr>;
            c2 = c1\<lparr>writeBuf := Some buf\<rparr>
        in if maskFrames c \<and> length extra > 0 then
             do { (w2, c3) \<leftarrow> endMessage errExtraClientMode w1 (writeFatal errExtraClientMode c2);
                  Some (Some errExtraClientMode, w2, c3) }
           else
             do { (err, c3) \<leftarrow> conn_write (frameType w1) (writeDeadline c2) (slice framePos (pos w1) buf) extra c2;
                  (case err of
                     Some e \<Rightarrow> do { (w2, c4) \<leftarrow> endMessage e w1 c3; Some (Some e, w2, c4) }
                   | None \<Rightarrow>
                       if final then
                         do { (w2, c4) \<leftarrow> endMessage ErrWriteClosed w1 c3; Some (None, w2, c4) }
                       else Some (None, w1\<lparr>pos := maxFrameHeaderSize, frameType := continuationFrame\<rparr>, c3)) })"

definition payloadRoom :: "messageWriter \<Rightarrow> 'a conn_scheme \<Rightarrow> nat" where
  "payloadRoom w c =
     (let room = int (length (bufOf c)) - int (pos w);
          room' = (if writeFrameSize c > 0 then
                     let used = int (pos w) - int maxFrameHeaderSize;
                         cap = int (writeFrameSize c) - used
                     in if cap < room then cap else room
                   else room)
      in if room' < 0 then 0 else nat room')"

definition ncopy ::
  "nat \<Rightarrow> messageWriter \<Rightarrow> 'a conn_scheme \<Rightarrow> ((nat \<times> gerror option) \<times> messageWriter \<times> 'a conn_scheme) option" where
  "ncopy lim w c =
     (let n = payloadRoom w c in
      if n \<le> 0 then
        do { (err, w1, c1) \<leftarrow> flushFrame False [] w c;
             (case err of
                Some e \<Rightarrow> Some ((0, Some e), w1, c1)
              | None \<Rightarrow> (let n' = payloadRoom w1 c1 in Some ((if n' > lim then lim else n', None), w1, c1))) }
      else Some ((if n > lim then lim else n, None), w, c))"

text \<open>The copying loop of \<open>Write\<close> and \<open>WriteString\<close>.\<close>

partial_function (option) mwCopy ::
  "bytes \<Rightarrow> messageWriter \<Rightarrow> 'a conn_scheme \<Rightarrow> (gerror option \<times> messageWriter \<times> 'a conn_scheme) option" where
  "mwCopy p w c =
     (if p = [] then Some (None, w, c)
      else Option.bind (ncopy (length p) w c) (\<lambda>((n, err), w1, c1).
             if err \<noteq> None then Some (err, w1, c1)
             else mwCopy (drop n p) (w1\<lparr>pos := pos w1 + n\<rparr>)
                    (c1\<lparr>writeBuf := Some (copy_at (pos w1) (take n p) (bufOf c1))\<rparr>)))"

definition mwWrite ::
  "bytes \<Rightarrow> messageWriter \<Rightarrow> 'a conn_scheme \<Rightarrow> ((nat \<times> gerror option) \<times> messageWriter \<times> 'a conn_scheme) option" where
  "mwWrite p w c =
     (if werr w \<noteq> None then Some ((0, werr w), w, c)
      else if length p > 2 * length (bufOf c) \<and> isServer c \<and>
              (writeFrameSize c = 0 \<or> length p \<le> writeFrameSize c) then
        do { (err, w1, c1) \<leftarrow> flushFrame False p w c;
             Some ((if err \<noteq> None then 0 else length p, err), w1, c1) }
      else
        do { (err, w1, c1) \<leftarrow> mwCopy p w c;
             Some ((if err \<noteq> None then 0 else length p, err), w1, c1) })"

definition mwWriteString ::
  "string \<Rightarrow> messageWriter \<Rightarrow> 'a conn_scheme \<Rightarrow> ((nat \<times> gerror option) \<times> messageWriter \<times> 'a conn_scheme) option" where
  "mwWriteString p w c =
     (if werr w \<noteq> None then Some ((0, werr w), w, c)
      else
        do { (err, w1, c1) \<leftarrow> mwCopy (bytes_of_string p) w c;
             Some ((if err \<noteq> None then 0 else length p, err), w1, c1) })"

partial_function (option) mwReadFrom_loop ::
  "nat \<Rightarrow> source \<Rightarrow> messageWriter \<Rightarrow> 'a conn_scheme \<Rightarrow>
     ((nat \<times> gerror option) \<times> source \<times> messageWriter \<times> 'a conn_scheme) option" where
  "mwReadFrom_loop nn r w c =
     Option.bind (if payloadRoom w c = 0 then flushFrame False [] w c else Some (None, w, c))
       (\<lambda>(err, w1, c1).
          if err \<noteq> None then Some ((nn, err), r, w1, c1)
          else
            let (d, e, r1) = srcRead (payloadRoom w1 c1) r;
                c2 = c1\<lparr>writeBuf := Some (copy_at (pos w1) d (bufOf c1))\<rparr>;
                w2 = w1\<lparr>pos := pos w1 + length d\<rparr>
            in if e \<noteq> None then Some ((nn + length d, if e = Some IoEOF then None else e), r1, w2, c2)
               else mwReadFrom_loop (nn + length d) r1 w2 c2)"

definition mwReadFrom ::
  "source \<Rightarrow> messageWriter \<Rightarrow> 'a conn_scheme \<Rightarrow>
     ((nat \<times> gerror option) \<times> source \<times> messageWriter \<times> 'a conn_scheme) option" where
  "mwReadFrom r w c =
     (if werr w \<noteq> None then Some ((0, werr w), r, w, c) else mwReadFrom_loop 0 r w c)"

definition mwClose ::
  "messageWriter \<Rightarrow> 'a conn_scheme \<Rightarrow> (gerror option \<times> messageWriter \<times> 'a conn_scheme) option" where
  "mwClose w c = (if werr w \<noteq> None then Some (werr w, w, c) else flushFrame True [] w c)"

end
