(* ===== verification/Bufio.thy ===== *)
theory Bufio
  imports ConnBase
begin

text \<open>
  What conn.go uses of package bufio and io on the read side: a buffered reader over the network's
  input, with the buffer, its size and the error that is pending, and \<open>io.CopyN\<close> to nowhere. The
  network's input is a list of what each read may deliver, so the lemmas hold for every way the
  bytes are cut into reads.
\<close>

section \<open>Model\<close>

definition errNoProgress :: gerror where
  "errNoProgress = ErrNew ''multiple Read calls return no data or error''"

definition errBufferFull :: gerror where
  "errBufferFull = ErrNew ''bufio: buffer full''"

text \<open>\<open>bufio.Reader.fill\<close>: one read that delivers something, at most 100 tries.\<close>

fun fill :: "nat \<Rightarrow> 'a conn_scheme \<Rightarrow> 'a conn_scheme" where
  "fill 0 c = c\<lparr>rerr := Some errNoProgress\<rparr>"
| "fill (Suc k) c =
     (let (d, e, s) = srcRead (rbufSize c - length (rbuf c)) (rin c);
          c1 = c\<lparr>rbuf := rbuf c @ d, rerr := e, rin := s\<rparr>
      in if e \<noteq> None \<or> d \<noteq> [] then c1 else fill k c1)"

definition maxConsecutiveEmptyReads :: nat where
  "maxConsecutiveEmptyReads = 100"

lemma srcRead_length: "srcRead n r = (d, e, s) \<Longrightarrow> length d \<le> n"
  by (cases "(n, r)" rule: srcRead.cases) (auto split: if_splits)

lemma fill_progress:
  assumes "rerr c = None"
  shows "(rerr (fill k c) \<noteq> None \<or> length (rbuf c) < length (rbuf (fill k c))) \<and>
    rbufSize (fill k c) = rbufSize c \<and> length (rbuf c) \<le> length (rbuf (fill k c))"
  using assms
proof (induction k arbitrary: c)
  case 0
  show ?case by simp
next
  case (Suc k)
  obtain d e s where r: "srcRead (rbufSize c - length (rbuf c)) (rin c) = (d, e, s)" by (metis prod_cases3)
  let ?c1 = "c\<lparr>rbuf := rbuf c @ d, rerr := e, rin := s\<rparr>"
  show ?case
  proof (cases "e \<noteq> None \<or> d \<noteq> []")
    case True
    then have "fill (Suc k) c = ?c1" by (simp add: r)
    then show ?thesis using True by auto
  next
    case False
    then have "fill (Suc k) c = fill k ?c1" by (simp add: r)
    then show ?thesis using Suc.IH [of ?c1] False by simp
  qed
qed

text \<open>The loop of \<open>Peek\<close>.\<close>

function peekFill :: "nat \<Rightarrow> 'a conn_scheme \<Rightarrow> 'a conn_scheme" where
  "peekFill n c =
     (if length (rbuf c) < n \<and> length (rbuf c) < rbufSize c \<and> rerr c = None
      then peekFill n (fill maxConsecutiveEmptyReads c) else c)"
  by pat_completeness auto
termination
proof (relation "measure (\<lambda>(n, c). rbufSize c - length (rbuf c) + (if rerr c = None then 1 else 0))", goal_cases)
  case 1
  show ?case by simp
next
  case (2 n c)
  then show ?case using fill_progress [of c maxConsecutiveEmptyReads] by auto
qed

declare peekFill.simps [simp del]

definition brPeek :: "nat \<Rightarrow> 'a conn_scheme \<Rightarrow> bytes \<times> gerror option \<times> 'a conn_scheme" where
  "brPeek n c =
     (let c1 = peekFill n c in
      if n > rbufSize c1 then (rbuf c1, Some errBufferFull, c1)
      else if length (rbuf c1) < n then
        (rbuf c1, if rerr c1 = None then Some errBufferFull else rerr c1, c1\<lparr>rerr := None\<rparr>)
      else (take n (rbuf c1), None, c1))"

definition brRead :: "nat \<Rightarrow> 'a conn_scheme \<Rightarrow> bytes \<times> gerror option \<times> 'a conn_scheme" where
  "brRead n c =
     (if n = 0 then
        if rbuf c \<noteq> [] then ([], None, c) else ([], rerr c, c\<lparr>rerr := None\<rparr>)
      else if rbuf c = [] then
        if rerr c \<noteq> None then ([], rerr c, c\<lparr>rerr := None\<rparr>)
        else if n \<ge> rbufSize c then
          let (d, e, s) = srcRead n (rin c) in (d, e, c\<lparr>rin := s\<rparr>)
        else
          let (d, e, s) = srcRead (rbufSize c) (rin c) in
          if d = [] then ([], e, c\<lparr>rin := s\<rparr>)
          else (take n d, None, c\<lparr>rbuf := drop n d, rerr := e, rin := s\<rparr>)
      else (take n (rbuf c), None, c\<lparr>rbuf := drop n (rbuf c)\<rparr>))"

text \<open>\<open>io.CopyN(io.Discard, c.br, n)\<close>: reads of at most 8192 bytes.\<close>

partial_function (option) discardN :: "nat \<Rightarrow> 'a conn_scheme \<Rightarrow> (gerror option \<times> 'a conn_scheme) option" where
  "discardN n c =
     (if n = 0 then Some (None, c)
      else
        let (d, e, c1) = brRead (min 8192 n) c in
        if n - length d = 0 then Some (None, c1)
        else if e \<noteq> None then Some (e, c1)
        else discardN (n - length d) c1)"

section \<open>The bytes to come\<close>

text \<open>Every network read delivers bytes or an error, and not both.\<close>

definition live :: "source \<Rightarrow> bool" where
  "live s \<longleftrightarrow> list_all (\<lambda>(d, e). (d \<noteq> []) = (e = None)) s"

text \<open>What can still be read before the next error.\<close>

fun upto_err :: "source \<Rightarrow> bytes" where
  "upto_err [] = []"
| "upto_err ((d, e) # s) = (if e = None then d @ upto_err s else d)"

definition avail :: "'a conn_scheme \<Rightarrow> bytes" where
  "avail c = rbuf c @ (if rerr c = None then upto_err (rin c) else [])"

definition input_ok :: "'a conn_scheme \<Rightarrow> bool" where
  "input_ok c \<longleftrightarrow> live (rin c) \<and> 0 < rbufSize c \<and> length (rbuf c) \<le> rbufSize c"

text \<open>The connections that differ in their input only.\<close>

definition same_but_input :: "'a conn_scheme \<Rightarrow> 'a conn_scheme \<Rightarrow> bool" where
  "same_but_input c c' \<longleftrightarrow> (\<exists>b e s. c' = c\<lparr>rbuf := b, rerr := e, rin := s\<rparr>)"

lemma same_but_input_refl [simp]: "same_but_input c c"
  unfolding same_but_input_def
  by (rule exI [of _ "rbuf c"], rule exI [of _ "rerr c"], rule exI [of _ "rin c"]) simp

lemma same_but_input_trans: "same_but_input a b \<Longrightarrow> same_but_input b c \<Longrightarrow> same_but_input a c"
  unfolding same_but_input_def by fastforce

lemma same_but_input_upd:
  "same_but_input c (c\<lparr>rbuf := b, rerr := e, rin := s\<rparr>)" "same_but_input c (c\<lparr>rbuf := b, rin := s\<rparr>)"
  "same_but_input c (c\<lparr>rin := s\<rparr>)" "same_but_input c (c\<lparr>rbuf := b\<rparr>)"
  unfolding same_but_input_def
     apply blast
    apply (rule exI [of _ b], rule exI [of _ "rerr c"], rule exI [of _ s], simp)
   apply (rule exI [of _ "rbuf c"], rule exI [of _ "rerr c"], rule exI [of _ s], simp)
  apply (rule exI [of _ b], rule exI [of _ "rerr c"], rule exI [of _ "rin c"], simp)
  done

lemma srcRead_live:
  assumes "srcRead n s = (d, e, s')" and "live s" and "0 < n"
  shows "live s'" "upto_err s = d @ (if e = None then upto_err s' else [])"
    "(d \<noteq> []) = (e = None)" "length d \<le> n"
  using assms by (cases "(n, s)" rule: srcRead.cases; auto simp: live_def split: if_splits)+

lemma fill_avail:
  assumes "input_ok c" and "rerr c = None" and "length (rbuf c) < rbufSize c" and "0 < k"
  shows "avail (fill k c) = avail c" "input_ok (fill k c)" "same_but_input c (fill k c)"
proof -
  obtain j where k: "k = Suc j" using assms(4) by (cases k) simp_all
  obtain d e s where r: "srcRead (rbufSize c - length (rbuf c)) (rin c) = (d, e, s)" by (metis prod_cases3)
  note l = srcRead_live [OF r]
  have f: "fill k c = c\<lparr>rbuf := rbuf c @ d, rerr := e, rin := s\<rparr>"
    using l assms r by (auto simp: k Let_def input_ok_def)
  show "avail (fill k c) = avail c" "input_ok (fill k c)" "same_but_input c (fill k c)"
    unfolding f using l assms same_but_input_upd(1)
    by (auto simp: avail_def input_ok_def)
qed

lemma peekFill_avail:
  assumes "input_ok c"
  shows "avail (peekFill n c) = avail c \<and> input_ok (peekFill n c) \<and> same_but_input c (peekFill n c)"
  using assms
proof (induction n c rule: peekFill.induct)
  case (1 n c)
  show ?case
  proof (cases "length (rbuf c) < n \<and> length (rbuf c) < rbufSize c \<and> rerr c = None")
    case True
    then have f: "avail (fill maxConsecutiveEmptyReads c) = avail c"
      "input_ok (fill maxConsecutiveEmptyReads c)" "same_but_input c (fill maxConsecutiveEmptyReads c)"
      using fill_avail [OF "1.prems", of maxConsecutiveEmptyReads]
      by (simp_all add: maxConsecutiveEmptyReads_def)
    show ?thesis
      using True "1.IH" [OF True f(2)] f(1) same_but_input_trans [OF f(3)]
      by (simp add: peekFill.simps [of n c])
  next
    case False
    have "peekFill n c = c" by (subst peekFill.simps) (simp only: if_not_P [OF False])
    then show ?thesis using "1.prems" by simp
  qed
qed

lemma peekFill_stop:
  "\<not> (length (rbuf (peekFill n c)) < n \<and> length (rbuf (peekFill n c)) < rbufSize (peekFill n c) \<and>
      rerr (peekFill n c) = None)"
proof (induction n c rule: peekFill.induct)
  case (1 n c)
  show ?case
  proof (cases "length (rbuf c) < n \<and> length (rbuf c) < rbufSize c \<and> rerr c = None")
    case True
    have "peekFill n c = peekFill n (fill maxConsecutiveEmptyReads c)"
      by (subst peekFill.simps) (simp only: if_P [OF True])
    then show ?thesis using "1.IH" [OF True] by simp
  next
    case False
    have "peekFill n c = c" by (subst peekFill.simps) (simp only: if_not_P [OF False])
    then show ?thesis using False by simp
  qed
qed

text \<open>A peek within the buffer's size sees the next bytes, when there are that many before an error.\<close>

lemma same_size: "same_but_input c c' \<Longrightarrow> rbufSize c' = rbufSize c"
  by (auto simp: same_but_input_def)

lemma brPeek_avail:
  assumes c: "input_ok c" and n: "n \<le> rbufSize c" and a: "n \<le> length (avail c)"
  obtains c' where "brPeek n c = (take n (avail c), None, c')"
    and "take n (rbuf c') = take n (avail c)" and "n \<le> length (rbuf c')"
    and "avail c' = avail c" and "input_ok c'" and "same_but_input c c'"
proof -
  let ?c = "peekFill n c"
  have p: "avail ?c = avail c" "input_ok ?c" "same_but_input c ?c" using peekFill_avail [OF c] by simp_all
  have sz: "rbufSize ?c = rbufSize c" using same_size [OF p(3)] .
  have le: "n \<le> length (rbuf ?c)"
  proof (rule ccontr)
    assume "\<not> n \<le> length (rbuf ?c)"
    then have "rerr ?c \<noteq> None" using peekFill_stop [of n c] n sz by auto
    then have "avail ?c = rbuf ?c" by (auto simp: avail_def)
    then show False using p(1) a \<open>\<not> n \<le> length (rbuf ?c)\<close> by simp
  qed
  have tk: "take n (rbuf ?c) = take n (avail c)" unfolding p(1) [symmetric] using le by (simp add: avail_def)
  have "brPeek n c = (take n (avail c), None, ?c)"
    using n sz le tk by (simp add: brPeek_def Let_def)
  then show thesis using that [of ?c] tk le p by auto
qed

text \<open>A read of at least one byte delivers a non-empty prefix of the bytes to come.\<close>

lemma brRead_avail:
  assumes c: "input_ok c" and n: "0 < n" and a: "avail c \<noteq> []"
  obtains d c' where "brRead n c = (d, None, c')" and "d \<noteq> []" and "length d \<le> n"
    and "avail c = d @ avail c'" and "input_ok c'" and "same_but_input c c'"
proof (cases "rbuf c = []")
  case False
  show thesis
    by (rule that [of "take n (rbuf c)" "c\<lparr>rbuf := drop n (rbuf c)\<rparr>"])
      (use False n c same_but_input_upd(4) in \<open>auto simp: brRead_def avail_def input_ok_def\<close>)
next
  case True
  then have e0: "rerr c = None" and ne: "upto_err (rin c) \<noteq> []"
    using a by (auto simp: avail_def split: if_splits)
  have lv: "live (rin c)" "0 < rbufSize c" using c by (simp_all add: input_ok_def)
  have some: "e = None \<and> d \<noteq> []" if "srcRead m (rin c) = (d, e, s)" "0 < m" for d e s m
    using srcRead_live [OF that(1) lv(1) that(2)] ne by (auto split: if_splits)
  show thesis
  proof (cases "n \<ge> rbufSize c")
    case big: True
    obtain d e s where r: "srcRead n (rin c) = (d, e, s)" by (metis prod_cases3)
    note l = srcRead_live [OF r lv(1) n] and de = some [OF r n]
    have "brRead n c = (d, None, c\<lparr>rin := s\<rparr>)" using True e0 n big r de by (simp add: brRead_def)
    then show thesis
      by (rule that) (use l de True e0 c same_but_input_upd(3) in \<open>auto simp: avail_def input_ok_def\<close>)
  next
    case small: False
    obtain d e s where r: "srcRead (rbufSize c) (rin c) = (d, e, s)" by (metis prod_cases3)
    note l = srcRead_live [OF r lv(1) lv(2)] and de = some [OF r lv(2)]
    have "brRead n c = (take n d, None, c\<lparr>rbuf := drop n d, rerr := e, rin := s\<rparr>)"
      using True e0 n small r de by (simp add: brRead_def)
    then show thesis
      by (rule that) (use l de True e0 c n same_but_input_upd(1) in \<open>auto simp: avail_def input_ok_def\<close>)
  qed
qed

text \<open>Skipping bytes that are there.\<close>

lemma discardN_avail:
  assumes "input_ok c" and "n \<le> length (avail c)"
  shows "\<exists>c'. discardN n c = Some (None, c') \<and> avail c' = drop n (avail c) \<and> input_ok c' \<and> same_but_input c c'"
  using assms
proof (induction n arbitrary: c rule: less_induct)
  case (less n)
  show ?case
  proof (cases "n = 0")
    case True
    then show ?thesis using less.prems by (subst discardN.simps) simp
  next
    case False
    then have "0 < min 8192 n" "avail c \<noteq> []" using less.prems by auto
    then obtain d c1 where r: "brRead (min 8192 n) c = (d, None, c1)" and d: "d \<noteq> []" "length d \<le> min 8192 n"
      and a: "avail c = d @ avail c1" and i: "input_ok c1" and s: "same_but_input c c1"
      using brRead_avail [OF less.prems(1)] by metis
    show ?thesis
    proof (cases "n - length d = 0")
      case True
      then have "discardN n c = Some (None, c1)" using False r by (subst discardN.simps) simp
      moreover have "drop n (avail c) = avail c1" using True d a by simp
      ultimately show ?thesis using i s by auto
    next
      case more: False
      have "n - length d < n" using d False by simp
      have le: "n - length d \<le> length (avail c1)" using less.prems(2) a by simp
      then obtain c2 where r2: "discardN (n - length d) c1 = Some (None, c2)"
        and a2: "avail c2 = drop (n - length d) (avail c1)" and i2: "input_ok c2" and s2: "same_but_input c1 c2"
        using less.IH [OF \<open>n - length d < n\<close> i le] by blast
      have "discardN n c = Some (None, c2)" using False r more r2 by (subst discardN.simps) simp
      moreover have "avail c2 = drop n (avail c)" using a2 a more by simp
      ultimately show ?thesis using i2 same_but_input_trans [OF s s2] by blast
    qed
  qed
qed

end
