(* ===== verification/ConnRead.thy ===== *)
theory ConnRead
  imports ConnWrite Bufio
begin

text \<open>
  The frame reader of conn.go: \<open>read\<close>, \<open>advanceFrame\<close> in its numbered parts, protocol errors and the
  default handlers. The handlers for control frames are functions the application may set, and are
  a parameter.
\<close>

section \<open>Reading from the network\<close>

definition conn_read :: "nat \<Rightarrow> 'a conn_scheme \<Rightarrow> (bytes \<times> gerror option) \<times> 'a conn_scheme" where
  "conn_read n c =
     (let (p, err, c1) = brPeek n c;
          err' = (if err = Some IoEOF then Some errUnexpectedEOF else err)
      in ((p, err'), c1\<lparr>rbuf := drop (length p) (rbuf c1)\<rparr>))"

definition setReadRemaining :: "int64 \<Rightarrow> 'a conn_scheme \<Rightarrow> gerror option \<times> 'a conn_scheme" where
  "setReadRemaining n c = (if n <s 0 then (Some ErrReadLimit, c) else (None, c\<lparr>readRemaining := n\<rparr>))"

section \<open>Handlers\<close>

record 'c handlers =
  handleClose :: "int \<Rightarrow> string \<Rightarrow> 'c \<Rightarrow> (gerror option \<times> 'c) option"
  handlePing :: "string \<Rightarrow> 'c \<Rightarrow> (gerror option \<times> 'c) option"
  handlePong :: "string \<Rightarrow> 'c \<Rightarrow> (gerror option \<times> 'c) option"

text \<open>\<open>SetCloseHandler(nil)\<close>, \<open>SetPingHandler(nil)\<close> and \<open>SetPongHandler(nil)\<close>.\<close>

definition defaultCloseHandler :: "int \<Rightarrow> string \<Rightarrow> 'a conn_scheme \<Rightarrow> (gerror option \<times> 'a conn_scheme) option" where
  "defaultCloseHandler code msg c =
     do { (_, c1) \<leftarrow> WriteControl CloseMessage (FormatCloseMessage code '''') (Some (now c + writeWait)) c;
          Some (None, c1) }"

definition defaultPingHandler :: "string \<Rightarrow> 'a conn_scheme \<Rightarrow> (gerror option \<times> 'a conn_scheme) option" where
  "defaultPingHandler message c =
     do { (_, c1) \<leftarrow> WriteControl PongMessage (bytes_of_string message) (Some (now c + writeWait)) c;
          Some (None, c1) }"

definition defaultPongHandler :: "string \<Rightarrow> 'a conn_scheme \<Rightarrow> (gerror option \<times> 'a conn_scheme) option" where
  "defaultPongHandler message c = Some (None, c)"

definition defaultHandlers :: "'a conn_scheme handlers" where
  "defaultHandlers = \<lparr>handleClose = defaultCloseHandler, handlePing = defaultPingHandler,
     handlePong = defaultPongHandler\<rparr>"

definition handleProtocolError :: "string \<Rightarrow> 'a conn_scheme \<Rightarrow> (gerror \<times> 'a conn_scheme) option" where
  "handleProtocolError message c =
     (let data = FormatCloseMessage CloseProtocolError message;
          data' = (if length data > maxControlFramePayloadSize then take maxControlFramePayloadSize data else data)
      in do { (_, c1) \<leftarrow> WriteControl CloseMessage data' (Some (now c + writeWait)) c;
              Some (ErrNew (''websocket: '' @ message), c1) })"

fun joinErrors :: "string list \<Rightarrow> string" where
  "joinErrors [] = ''''"
| "joinErrors [e] = e"
| "joinErrors (e # es) = e @ '', '' @ joinErrors es"

section \<open>\<open>advanceFrame\<close>\<close>

text \<open>The result of \<open>advanceFrame\<close>: a frame type and an error. A failed part ends it.\<close>

type_synonym 'c frame_result = "((int \<times> gerror option) \<times> 'c) option"

definition failWith :: "gerror \<Rightarrow> 'c \<Rightarrow> 'c frame_result" where
  "failWith e c = Some ((noFrame, Some e), c)"

definition protocolError :: "string \<Rightarrow> 'a conn_scheme \<Rightarrow> 'a conn_scheme frame_result" where
  "protocolError message c = do { (e, c1) \<leftarrow> handleProtocolError message c; failWith e c1 }"

text \<open>Part 2: the first two bytes. What they say, and the errors in them.\<close>

record frameHdr =
  hType :: int
  hFinal :: bool
  hRsv1 :: bool
  hRsv2 :: bool
  hRsv3 :: bool
  hMask :: bool
  hLen :: int64

definition parseHeader :: "byte \<Rightarrow> byte \<Rightarrow> frameHdr" where
  "parseHeader p0 p1 =
     \<lparr>hType = uint (p0 AND 0xf), hFinal = (p0 AND finalBit \<noteq> 0), hRsv1 = (p0 AND rsv1Bit \<noteq> 0),
      hRsv2 = (p0 AND rsv2Bit \<noteq> 0), hRsv3 = (p0 AND rsv3Bit \<noteq> 0), hMask = (p1 AND maskBit \<noteq> 0),
      hLen = ucast (p1 AND 0x7f)\<rparr>"

definition checkHeader :: "frameHdr \<Rightarrow> 'a conn_scheme \<Rightarrow> string list \<times> 'a conn_scheme" where
  "checkHeader h c0 =
     (let c1 = snd (setReadRemaining (hLen h) c0);
          hasDecomp = newDecompressionReader c1 \<noteq> NilFn;
          c2 = c1\<lparr>readDecompress := (hRsv1 h \<and> hasDecomp)\<rparr>;
          e1 = (if hRsv1 h \<and> \<not> hasDecomp then [''RSV1 set''] else []);
          e2 = (if hRsv2 h then [''RSV2 set''] else []);
          e3 = (if hRsv3 h then [''RSV3 set''] else []);
          (e4, c3) =
            (if isControl (hType h) then
               ((if of_nat maxControlFramePayloadSize <s readRemaining c2 then [''len > 125 for control''] else []) @
                (if \<not> hFinal h then [''FIN not set on control''] else []), c2)
             else if isData (hType h) then
               (if \<not> readFinal c2 then [''data before FIN''] else [], c2\<lparr>readFinal := hFinal h\<rparr>)
             else if hType h = continuationFrame then
               (if readFinal c2 then [''continuation after FIN''] else [], c2\<lparr>readFinal := hFinal h\<rparr>)
             else ([''bad opcode '' @ itoa (hType h)], c2));
          e5 = (if hMask h \<noteq> isServer c3 then [''bad MASK''] else [])
      in (e1 @ e2 @ e3 @ e4 @ e5, c3))"

text \<open>Part 3: an extended length of 2 or 8 bytes.\<close>

definition readExtended :: "nat \<Rightarrow> ('a conn_scheme \<Rightarrow> 'a conn_scheme frame_result) \<Rightarrow> 'a conn_scheme \<Rightarrow> 'a conn_scheme frame_result" where
  "readExtended k cont c =
     (let ((p, err), c1) = conn_read k c in
      case err of Some e \<Rightarrow> failWith e c1
      | None \<Rightarrow>
          (let (err', c2) = setReadRemaining (of_nat (be_val p)) c1 in
           case err' of Some e \<Rightarrow> failWith e c2 | None \<Rightarrow> cont c2))"

definition readLengthField :: "('a conn_scheme \<Rightarrow> 'a conn_scheme frame_result) \<Rightarrow> 'a conn_scheme \<Rightarrow> 'a conn_scheme frame_result" where
  "readLengthField cont c =
     (if readRemaining c = 126 then readExtended 2 cont c
      else if readRemaining c = 127 then readExtended 8 cont c
      else cont c)"

text \<open>Part 4: the mask key.\<close>

definition key_of_bytes :: "bytes \<Rightarrow> mask_key" where
  "key_of_bytes p = (p ! 0, p ! 1, p ! 2, p ! 3)"

definition readMaskField :: "bool \<Rightarrow> ('a conn_scheme \<Rightarrow> 'a conn_scheme frame_result) \<Rightarrow> 'a conn_scheme \<Rightarrow> 'a conn_scheme frame_result" where
  "readMaskField m cont c =
     (if m then
        (let ((p, err), c1) = conn_read 4 (c\<lparr>readMaskPos := 0\<rparr>) in
         case err of Some e \<Rightarrow> failWith e c1 | None \<Rightarrow> cont (c1\<lparr>readMaskKey := key_of_bytes p\<rparr>))
      else cont c)"

text \<open>Part 5: the read limit, for frames of a message.\<close>

definition dataFrame :: "int \<Rightarrow> 'a conn_scheme \<Rightarrow> 'a conn_scheme frame_result" where
  "dataFrame t c0 =
     (let c = c0\<lparr>readLength := readLength c0 + readRemaining c0\<rparr> in
      if readLength c <s 0 then failWith ErrReadLimit c
      else if 0 <s readLimit c \<and> readLimit c <s readLength c then
        do { (_, c1) \<leftarrow> WriteControl CloseMessage (FormatCloseMessage CloseMessageTooBig '''') (Some (now c + writeWait)) c;
             failWith ErrReadLimit c1 }
      else Some ((t, None), c))"

text \<open>Parts 6 and 7: the payload of a control frame and its handler.\<close>

definition closeFrame :: "'a conn_scheme handlers \<Rightarrow> bytes \<Rightarrow> 'a conn_scheme \<Rightarrow> 'a conn_scheme frame_result" where
  "closeFrame h p c =
     (let code = (if length p \<ge> 2 then int (be_val (take 2 p)) else CloseNoStatusReceived);
          msg = (if length p \<ge> 2 then drop 2 p else [])
      in if length p \<ge> 2 \<and> \<not> isValidReceivedCloseCode code then protocolError (''bad close code '' @ itoa code) c
         else if length p \<ge> 2 \<and> \<not> utf8_Valid msg then protocolError ''invalid utf8 payload in close frame'' c
         else do { (err, c1) \<leftarrow> handleClose h code (string_of_bytes msg) c;
                   (case err of Some e \<Rightarrow> failWith e c1
                    | None \<Rightarrow> failWith (CloseError code (string_of_bytes msg)) c1) })"

definition processControl :: "'a conn_scheme handlers \<Rightarrow> int \<Rightarrow> bytes \<Rightarrow> 'a conn_scheme \<Rightarrow> 'a conn_scheme frame_result" where
  "processControl h t p c =
     (if t = PongMessage then
        do { (err, c1) \<leftarrow> handlePong h (string_of_bytes p) c;
             (case err of Some e \<Rightarrow> failWith e c1 | None \<Rightarrow> Some ((t, None), c1)) }
      else if t = PingMessage then
        do { (err, c1) \<leftarrow> handlePing h (string_of_bytes p) c;
             (case err of Some e \<Rightarrow> failWith e c1 | None \<Rightarrow> Some ((t, None), c1)) }
      else if t = CloseMessage then closeFrame h p c
      else Some ((t, None), c))"

definition controlFrame :: "'a conn_scheme handlers \<Rightarrow> int \<Rightarrow> 'a conn_scheme \<Rightarrow> 'a conn_scheme frame_result" where
  "controlFrame h t c =
     (if 0 <s readRemaining c then
        (let ((p, err), c1) = conn_read (unat (readRemaining c)) c;
             c2 = snd (setReadRemaining 0 c1)
         in case err of Some e \<Rightarrow> failWith e c2
            | None \<Rightarrow>
                processControl h t
                  (if isServer c2 then fst (maskBytes (littleEndian c2) (memAddr c2) (readMaskKey c2) 0 p) else p) c2)
      else processControl h t [] c)"

text \<open>Parts 2 to 7.\<close>

definition readFrame :: "'a conn_scheme handlers \<Rightarrow> 'a conn_scheme \<Rightarrow> 'a conn_scheme frame_result" where
  "readFrame h c =
     (let ((p, err), c1) = conn_read 2 c in
      case err of Some e \<Rightarrow> failWith e c1
      | None \<Rightarrow>
          (let hdr = parseHeader (p ! 0) (p ! 1);
               (errors, c2) = checkHeader hdr c1
           in if errors \<noteq> [] then protocolError (joinErrors errors) c2
              else readLengthField
                     (readMaskField (hMask hdr)
                       (if hType hdr = continuationFrame \<or> isData (hType hdr) then dataFrame (hType hdr)
                        else controlFrame h (hType hdr))) c2))"

definition advanceFrame :: "'a conn_scheme handlers \<Rightarrow> 'a conn_scheme \<Rightarrow> 'a conn_scheme frame_result" where
  "advanceFrame h c =
     (if 0 <s readRemaining c then
        do { (err, c1) \<leftarrow> discardN (unat (readRemaining c)) c;
             (case err of Some e \<Rightarrow> failWith e c1 | None \<Rightarrow> readFrame h c1) }
      else readFrame h c)"

end
