(* ===== verification/IoReader.thy ===== *)
theory IoReader
  imports ConnBase
begin

text \<open>
  Package io as the code uses it: a reader is a function from a length and a state to bytes, an
  error and a new state, \<open>None\<close> when the read never returns. The interface states what a reader
  promises that has some bytes left: each read delivers a non-empty piece of them, or an error and
  no bytes. \<open>io.ReadAll\<close> of such a reader returns.
\<close>

type_synonym 's io_reader = "nat \<Rightarrow> 's \<Rightarrow> ((bytes \<times> gerror option) \<times> 's) option"

text \<open>The buffer's capacity starts at 512 and grows by the runtime's rule, a parameter.\<close>

partial_function (option) readAll ::
  "'s io_reader \<Rightarrow> (nat \<Rightarrow> nat) \<Rightarrow> nat \<Rightarrow> bytes \<Rightarrow> 's \<Rightarrow> ((bytes \<times> gerror option) \<times> 's) option" where
  "readAll rd grow cap acc s =
     Option.bind (rd (cap - length acc) s) (\<lambda>((d, e), s1).
       let acc' = acc @ d in
       if e \<noteq> None then Some ((acc', if e = Some IoEOF then None else e), s1)
       else readAll rd grow (if length acc' = cap then grow cap else cap) acc' s1)"

definition IoReadAll :: "'s io_reader \<Rightarrow> (nat \<Rightarrow> nat) \<Rightarrow> 's \<Rightarrow> ((bytes \<times> gerror option) \<times> 's) option" where
  "IoReadAll rd grow s = readAll rd grow 512 [] s"

text \<open>The runtime's rule for the new capacity.\<close>

definition grows_buffer :: "(nat \<Rightarrow> nat) \<Rightarrow> bool" where
  "grows_buffer grow \<longleftrightarrow> (\<forall>n. n < grow n)"

text \<open>\<open>left D s\<close>: the reader still has the bytes \<open>D\<close>. \<open>over D e s\<close>: it stopped with the error \<open>e\<close>
  when it had \<open>D\<close> left.\<close>

locale byte_reader =
  fixes rd :: "'s io_reader" and left :: "bytes \<Rightarrow> 's \<Rightarrow> bool" and over :: "bytes \<Rightarrow> gerror \<Rightarrow> 's \<Rightarrow> bool"
  assumes rd_left: "left D s \<Longrightarrow> 0 < n \<Longrightarrow>
    (\<exists>d D' s'. rd n s = Some ((d, None), s') \<and> d \<noteq> [] \<and> length d \<le> n \<and> D = d @ D' \<and> left D' s') \<or>
    (\<exists>e s'. rd n s = Some (([], Some e), s') \<and> over D e s')"
begin

lemma readAll_left:
  assumes "left D s" and "length acc < cap" and "grows_buffer grow"
  shows "\<exists>p D' e s'. readAll rd grow cap acc s = Some ((acc @ p, if e = IoEOF then None else Some e), s') \<and>
    D = p @ D' \<and> over D' e s'"
  using assms(1,2)
proof (induction "length D" arbitrary: D s acc cap rule: less_induct)
  case less
  have "0 < cap - length acc" using less.prems by simp
  from rd_left [OF less.prems(1) this] show ?case
  proof (elim disjE exE conjE)
    fix d D' s'
    assume r: "rd (cap - length acc) s = Some ((d, None), s')" and d: "d \<noteq> []" "length d \<le> cap - length acc"
      and D: "D = d @ D'" and l: "left D' s'"
    define cap' where "cap' = (if length (acc @ d) = cap then grow cap else cap)"
    have "length (acc @ d) < cap'"
      using d less.prems(2) assms(3) by (auto simp: cap'_def grows_buffer_def)
    moreover have "length D' < length D" using d D by simp
    ultimately obtain p D2 e s2 where
      "readAll rd grow cap' (acc @ d) s' = Some (((acc @ d) @ p, if e = IoEOF then None else Some e), s2)"
      and "D' = p @ D2" "over D2 e s2"
      using less.hyps [OF _ l] by blast
    moreover have "readAll rd grow cap acc s = readAll rd grow cap' (acc @ d) s'"
      by (subst readAll.simps) (simp add: r cap'_def)
    ultimately have "readAll rd grow cap acc s = Some ((acc @ d @ p, if e = IoEOF then None else Some e), s2)"
      "D = (d @ p) @ D2" using D by simp_all
    then show ?case using \<open>over D2 e s2\<close> by blast
  next
    fix e s'
    assume r: "rd (cap - length acc) s = Some (([], Some e), s')" and o: "over D e s'"
    have "readAll rd grow cap acc s = Some ((acc @ [], if e = IoEOF then None else Some e), s')"
      by (subst readAll.simps) (simp add: r)
    then show ?case using o by blast
  qed
qed

theorem ReadAll_left:
  assumes "left D s" and "grows_buffer grow"
  obtains p D' e s' where "IoReadAll rd grow s = Some ((p, if e = IoEOF then None else Some e), s')"
    and "D = p @ D'" and "over D' e s'"
  using readAll_left [OF assms(1) _ assms(2), of "[]" 512] that by (auto simp: IoReadAll_def)

end

end
