(* ===== verification/ConnReader.thy ===== *)
theory ConnReader
  imports ConnRead IoReader
begin

text \<open>
  The readers conn.go gives to the application: a message reader, above it a decompressor when the
  message is compressed, above that a UTF-8 validator for text. The connection is extended by the
  readers made so far and by the takeover decompressor with its window. Package compress/flate is a
  parameter: a decompressor is a machine that asks for input or yields output.
\<close>

section \<open>Data\<close>

datatype 'd inflateStep = Pull nat "bytes \<times> gerror option \<Rightarrow> 'd" | Yield bytes "gerror option" 'd

text \<open>A decompressor reset with a dictionary, and one step of a read of at most \<open>n\<close> bytes.\<close>

record 'd inflate_ops =
  inf_reset :: "bytes \<Rightarrow> 'd"
  inf_step :: "nat \<Rightarrow> 'd \<Rightarrow> 'd inflateStep"

text \<open>A \<open>flate.Reader\<close> over \<open>io.MultiReader(r, tail)\<close>: the message reader it reads from, and what is
  left of the tail once the message has ended.\<close>

record 'd flateReader =
  fr :: 'd
  frMsg :: nat
  frTail :: "bytes option"

text \<open>\<open>flateReadWrapper\<close> with its reader (none once closed) or \<open>flateTakeoverReadWrapper\<close>, open or not.\<close>

datatype 'd decWrapper = NoDec | PoolDec "'d flateReader option" | TakeDec bool

record 'd rpipe =
  rmsg :: nat
  dec :: "'d decWrapper"
  rfailed :: "bool option"     \<comment> \<open>\<open>utf8ValidatingReader.failed\<close>, if there is a validator\<close>

record 'd rconn = conn +
  readers :: "'d rpipe list"
  rfactory :: "'d flateReader option"
  rwindow :: bytes

definition deflateMessageTailRead :: bytes where
  "deflateMessageTailRead = [0, 0, 0xff, 0xff, 1, 0, 0, 0xff, 0xff]"

definition maxWindowBits :: nat where
  "maxWindowBits = 32768"

definition set_dec :: "nat \<Rightarrow> 'd decWrapper \<Rightarrow> 'd rconn \<Rightarrow> 'd rconn" where
  "set_dec i x c = c\<lparr>readers := (readers c)[i := (readers c ! i)\<lparr>dec := x\<rparr>]\<rparr>"

definition set_failed :: "nat \<Rightarrow> 'd rconn \<Rightarrow> 'd rconn" where
  "set_failed i c = c\<lparr>readers := (readers c)[i := (readers c ! i)\<lparr>rfailed := Some True\<rparr>]\<rparr>"

section \<open>The message reader\<close>

definition errInternalReader :: gerror where
  "errInternalReader = ErrNew ''websocket: internal error, unexpected text or binary in Reader''"

text \<open>One read of payload, when some is left of the frame.\<close>

definition payloadRead :: "nat \<Rightarrow> 'a conn_scheme \<Rightarrow> (bytes \<times> gerror option) \<times> 'a conn_scheme" where
  "payloadRead n c =
     (let n' = (if sint (readRemaining c) < int n then unat (readRemaining c) else n);
          (d, err, c1) = brRead n' c;
          c2 = c1\<lparr>readErr := err\<rparr>;
          (d', c3) = (if isServer c2 then
                        let (r, p) = maskBytes (littleEndian c2) (memAddr c2) (readMaskKey c2) (readMaskPos c2) d
                        in (r, c2\<lparr>readMaskPos := p\<rparr>)
                      else (d, c2));
          c4 = snd (setReadRemaining (readRemaining c3 - of_nat (length d)) c3);
          c5 = (if 0 <s readRemaining c4 \<and> readErr c4 = Some IoEOF
                then c4\<lparr>readErr := Some errUnexpectedEOF\<rparr> else c4)
      in ((d', readErr c5), c5))"

partial_function (option) mrLoop ::
  "'a conn_scheme handlers \<Rightarrow> nat \<Rightarrow> nat \<Rightarrow> 'a conn_scheme \<Rightarrow> ((bytes \<times> gerror option) \<times> 'a conn_scheme) option" where
  "mrLoop h m n c =
     (case readErr c of
        Some e \<Rightarrow>
          Some (([], if e = IoEOF \<and> messageReader c = Some m then Some errUnexpectedEOF else Some e), c)
      | None \<Rightarrow>
          if 0 <s readRemaining c then Some (payloadRead n c)
          else if readFinal c then Some (([], Some IoEOF), c\<lparr>messageReader := None\<rparr>)
          else Option.bind (advanceFrame h c) (\<lambda>((t, err), c1).
            mrLoop h m n
              (case err of
                 Some e \<Rightarrow> c1\<lparr>readErr := Some e\<rparr>
               | None \<Rightarrow> if isData t then c1\<lparr>readErr := Some errInternalReader\<rparr> else c1)))"

definition mrRead ::
  "'a conn_scheme handlers \<Rightarrow> nat \<Rightarrow> nat \<Rightarrow> 'a conn_scheme \<Rightarrow> ((bytes \<times> gerror option) \<times> 'a conn_scheme) option" where
  "mrRead h m n c =
     (if messageReader c \<noteq> Some m then Some (([], Some IoEOF), c) else mrLoop h m n c)"

section \<open>The decompression layer\<close>

text \<open>A read of the tail, a \<open>strings.Reader\<close>.\<close>

definition tailRead :: "nat \<Rightarrow> 'd flateReader \<Rightarrow> bytes \<Rightarrow> (bytes \<times> gerror option) \<times> 'd flateReader" where
  "tailRead n f t =
     (if t = [] then (([], Some IoEOF), f) else ((take n t, None), f\<lparr>frTail := Some (drop n t)\<rparr>))"

definition multiRead ::
  "'a conn_scheme handlers \<Rightarrow> nat \<Rightarrow> 'd flateReader \<Rightarrow> 'a conn_scheme \<Rightarrow>
     ((bytes \<times> gerror option) \<times> 'd flateReader \<times> 'a conn_scheme) option" where
  "multiRead h n f c =
     (case frTail f of
        Some t \<Rightarrow> (let (r, f1) = tailRead n f t in Some (r, f1, c))
      | None \<Rightarrow>
          do { ((d, e), c1) \<leftarrow> mrRead h (frMsg f) n c;
               if e \<noteq> Some IoEOF then Some ((d, e), f, c1)
               else
                 let f1 = f\<lparr>frTail := Some deflateMessageTailRead\<rparr> in
                 if d \<noteq> [] then Some ((d, None), f1, c1)
                 else (let (r, f2) = tailRead n f1 deflateMessageTailRead in Some (r, f2, c1)) })"

partial_function (option) flateRead ::
  "'d inflate_ops \<Rightarrow> 'a conn_scheme handlers \<Rightarrow> nat \<Rightarrow> 'd flateReader \<Rightarrow> 'a conn_scheme \<Rightarrow>
     ((bytes \<times> gerror option) \<times> 'd flateReader \<times> 'a conn_scheme) option" where
  "flateRead ops h n f c =
     (case inf_step ops n (fr f) of
        Yield d e z \<Rightarrow> Some ((d, e), f\<lparr>fr := z\<rparr>, c)
      | Pull k g \<Rightarrow>
          Option.bind (multiRead h k f c) (\<lambda>(r, f1, c1). flateRead ops h n (f1\<lparr>fr := g r\<rparr>) c1))"

definition appendWindow :: "bytes \<Rightarrow> bytes \<Rightarrow> bytes" where
  "appendWindow w d =
     (let w' = w @ d in if length w' > maxWindowBits then drop (length w' - maxWindowBits) w' else w')"

text \<open>\<open>flateReadWrapper.Read\<close> and \<open>flateTakeoverReadWrapper.Read\<close>.\<close>

definition poolRead ::
  "'d inflate_ops \<Rightarrow> 'd rconn handlers \<Rightarrow> nat \<Rightarrow> nat \<Rightarrow> 'd flateReader option \<Rightarrow> 'd rconn \<Rightarrow>
    ((bytes \<times> gerror option) \<times> 'd rconn) option" where
  "poolRead ops h i n x c =
     (case x of
        None \<Rightarrow> Some (([], Some IoErrClosedPipe), c)
      | Some f \<Rightarrow>
          do { ((d, e), f1, c1) \<leftarrow> flateRead ops h n f c;
               Some ((d, e), set_dec i (PoolDec (if e = Some IoEOF then None else Some f1)) c1) })"

definition takeoverRead ::
  "'d inflate_ops \<Rightarrow> 'd rconn handlers \<Rightarrow> nat \<Rightarrow> bool \<Rightarrow> 'd rconn \<Rightarrow> ((bytes \<times> gerror option) \<times> 'd rconn) option" where
  "takeoverRead ops h n opn c =
     (case rfactory c of
        Some f \<Rightarrow>
          if \<not> opn then Some (([], Some IoErrClosedPipe), c)
          else
            do { ((d, e), f1, c1) \<leftarrow> flateRead ops h n f c;
                 Some ((d, e), c1\<lparr>rfactory := Some f1,
                   rwindow := (if length d > 0 then appendWindow (rwindow c1) d else rwindow c1)\<rparr>) }
      | None \<Rightarrow> Some (([], Some IoErrClosedPipe), c))"

definition decRead ::
  "'d inflate_ops \<Rightarrow> 'd rconn handlers \<Rightarrow> nat \<Rightarrow> nat \<Rightarrow> 'd rconn \<Rightarrow> ((bytes \<times> gerror option) \<times> 'd rconn) option" where
  "decRead ops h i n c =
     (case dec (readers c ! i) of
        NoDec \<Rightarrow> mrRead h (rmsg (readers c ! i)) n c
      | PoolDec x \<Rightarrow> poolRead ops h i n x c
      | TakeDec opn \<Rightarrow> takeoverRead ops h n opn c)"

definition readerClose :: "nat \<Rightarrow> 'd rconn \<Rightarrow> 'd rconn" where
  "readerClose i c =
     (case dec (readers c ! i) of
        NoDec \<Rightarrow> c
      | PoolDec f \<Rightarrow> set_dec i (PoolDec None) c
      | TakeDec opn \<Rightarrow> set_dec i (TakeDec False) c)"

section \<open>The UTF-8 layer\<close>

definition rejectUTF8 :: "nat \<Rightarrow> 'd rconn \<Rightarrow> 'd rconn option" where
  "rejectUTF8 i c0 =
     (let c = set_failed i c0 in
      do { (_, c1) \<leftarrow> WriteControl CloseMessage (FormatCloseMessage CloseInvalidFramePayloadData '''')
                       (Some (now c + writeWait)) c;
           Some (if readErr c1 = None then c1\<lparr>readErr := Some ErrInvalidUTF8\<rparr> else c1) })"

fun readScan :: "nat \<Rightarrow> rune \<Rightarrow> bytes \<Rightarrow> nat \<times> rune" where
  "readScan st x [] = (st, x)"
| "readScan st x (b # p) =
     (let (st', x') = utf8DFAStep st x b in if st' = utf8Reject then (st', x') else readScan st' x' p)"

text \<open>What \<open>utf8ValidatingReader.Read\<close> makes of the reader below it.\<close>

definition checkedRead :: "nat \<Rightarrow> 'd rconn io_reader \<Rightarrow> 'd rconn io_reader" where
  "checkedRead i rd n c =
     do { ((d, e), c1) \<leftarrow> rd n c;
          let (st, x) = readScan (readUTF8State c1) (readUTF8Codepoint c1) d;
              c2 = c1\<lparr>readUTF8State := st, readUTF8Codepoint := x\<rparr>
          in if st = utf8Reject then do { c3 \<leftarrow> rejectUTF8 i c2; Some (([], Some ErrInvalidUTF8), c3) }
             else if e = Some IoEOF \<and> st \<noteq> utf8Accept then do { c3 \<leftarrow> rejectUTF8 i c2; Some (([], readErr c3), c3) }
             else Some ((d, e), c2) }"

definition readerRead ::
  "'d inflate_ops \<Rightarrow> 'd rconn handlers \<Rightarrow> nat \<Rightarrow> nat \<Rightarrow> 'd rconn \<Rightarrow> ((bytes \<times> gerror option) \<times> 'd rconn) option" where
  "readerRead ops h i n c =
     (case rfailed (readers c ! i) of
        None \<Rightarrow> decRead ops h i n c
      | Some failed \<Rightarrow> if failed then Some (([], readErr c), c) else checkedRead i (decRead ops h i) n c)"

lemmas dec_defs = poolRead_def takeoverRead_def

section \<open>\<open>NextReader\<close> and \<open>ReadMessage\<close>\<close>

datatype next_result = NextOk int nat | NextErr gerror | NextPanic

text \<open>The decompressor is reset with its dictionary over the message reader and the tail. Resetting does not
  fail.\<close>

definition newFlateReader :: "'d inflate_ops \<Rightarrow> bytes \<Rightarrow> nat \<Rightarrow> 'd flateReader" where
  "newFlateReader ops dict m = \<lparr>fr = inf_reset ops dict, frMsg = m, frTail = None\<rparr>"

definition decompressNoContextTakeover :: "'d inflate_ops \<Rightarrow> nat \<Rightarrow> 'd decWrapper" where
  "decompressNoContextTakeover ops m = PoolDec (Some (newFlateReader ops [] m))"

definition takeoverReader :: "'d inflate_ops \<Rightarrow> nat \<Rightarrow> bytes \<Rightarrow> 'd decWrapper \<times> 'd flateReader option" where
  "takeoverReader ops m window = (TakeDec True, Some (newFlateReader ops window m))"

lemmas new_dec_defs = newFlateReader_def decompressNoContextTakeover_def takeoverReader_def

definition openReader :: "'d inflate_ops \<Rightarrow> int \<Rightarrow> 'd rconn \<Rightarrow> next_result \<times> 'd rconn" where
  "openReader ops t c =
     (let m = length (readers c);
          (k, fac) =
            (if readDecompress c then
               (case newDecompressionReader c of
                  TakeoverFn \<Rightarrow> takeoverReader ops m (rwindow c)
                | _ \<Rightarrow> (decompressNoContextTakeover ops m, rfactory c))
             else (NoDec, rfactory c));
          v = t = TextMessage \<and> \<not> skipUTF8Validation c;
          c1 = c\<lparr>reader := Some m, messageReader := Some m,
                 readUTF8State := (if v then utf8Accept else readUTF8State c),
                 readUTF8Codepoint := (if v then 0 else readUTF8Codepoint c),
                 readers := readers c @ [\<lparr>rmsg = m, dec = k, rfailed = (if v then Some False else None)\<rparr>],
                 rfactory := fac\<rparr>
      in (NextOk t m, c1))"

definition failedRead :: "gerror \<Rightarrow> 'd rconn \<Rightarrow> next_result \<times> 'd rconn" where
  "failedRead e c =
     (let c1 = c\<lparr>readErrCount := readErrCount c + 1\<rparr> in
      (if readErrCount c1 \<ge> 1000 then NextPanic else NextErr e, c1))"

partial_function (option) nextLoop ::
  "'d inflate_ops \<Rightarrow> 'd rconn handlers \<Rightarrow> 'd rconn \<Rightarrow> (next_result \<times> 'd rconn) option" where
  "nextLoop ops h c =
     (case readErr c of
        Some e \<Rightarrow> Some (failedRead e c)
      | None \<Rightarrow>
          Option.bind (advanceFrame h c) (\<lambda>((t, err), c1).
            case err of
              Some e \<Rightarrow>
                if isTimeout e then Some (NextErr e, c1)
                else Some (failedRead e (c1\<lparr>readErr := Some e\<rparr>))
            | None \<Rightarrow>
                (let c2 = c1\<lparr>readErrCount := 0\<rparr> in
                 if isData t then Some (openReader ops t c2) else nextLoop ops h c2)))"

definition NextReader :: "'d inflate_ops \<Rightarrow> 'd rconn handlers \<Rightarrow> 'd rconn \<Rightarrow> (next_result \<times> 'd rconn) option" where
  "NextReader ops h c =
     (let c1 = (case reader c of None \<Rightarrow> c | Some i \<Rightarrow> (readerClose i c)\<lparr>reader := None\<rparr>)
      in nextLoop ops h (c1\<lparr>messageReader := None, readLength := 0\<rparr>))"

datatype read_result = ReadDone int bytes "gerror option" | ReadPanic

definition ReadMessage ::
  "'d inflate_ops \<Rightarrow> 'd rconn handlers \<Rightarrow> (nat \<Rightarrow> nat) \<Rightarrow> 'd rconn \<Rightarrow> (read_result \<times> 'd rconn) option" where
  "ReadMessage ops h grow c =
     do { (r, c1) \<leftarrow> NextReader ops h c;
          (case r of
             NextPanic \<Rightarrow> Some (ReadPanic, c1)
           | NextErr e \<Rightarrow> Some (ReadDone noFrame [] (Some e), c1)
           | NextOk t i \<Rightarrow>
               do { ((p, e), c2) \<leftarrow> IoReadAll (readerRead ops h i) grow c1; Some (ReadDone t p e, c2) }) }"

section \<open>Settings and closing\<close>

definition SetReadLimit :: "int64 \<Rightarrow> 'a conn_scheme \<Rightarrow> 'a conn_scheme" where
  "SetReadLimit limit c = c\<lparr>readLimit := limit\<rparr>"

definition SetReadDeadline :: "time \<Rightarrow> 'a conn_scheme \<Rightarrow> 'a conn_scheme" where
  "SetReadDeadline t c = c\<lparr>netReadDeadline := t\<rparr>"

definition netClose :: "'a conn_scheme \<Rightarrow> gerror option \<times> 'a conn_scheme" where
  "netClose c =
     (case netScript c of
        NetFail k e # s \<Rightarrow> (Some e, c\<lparr>netClosed := True, netScript := s\<rparr>)
      | NetOk # s \<Rightarrow> (None, c\<lparr>netClosed := True, netScript := s\<rparr>)
      | [] \<Rightarrow> (None, c\<lparr>netClosed := True\<rparr>))"

text \<open>Reading until \<open>NextReader\<close> fails; \<open>False\<close> when it panics.\<close>

partial_function (option) drain ::
  "'d inflate_ops \<Rightarrow> 'd rconn handlers \<Rightarrow> 'd rconn \<Rightarrow> (bool \<times> 'd rconn) option" where
  "drain ops h c =
     Option.bind (NextReader ops h c) (\<lambda>(r, c1).
       case r of NextOk t i \<Rightarrow> drain ops h c1 | NextErr e \<Rightarrow> Some (True, c1) | NextPanic \<Rightarrow> Some (False, c1))"

text \<open>\<open>None\<close> for a panic, else the error returned.\<close>

definition CloseGracefully ::
  "'d inflate_ops \<Rightarrow> 'd rconn handlers \<Rightarrow> int \<Rightarrow> string \<Rightarrow> time \<Rightarrow> 'd rconn \<Rightarrow> (gerror option option \<times> 'd rconn) option" where
  "CloseGracefully ops h code reason deadline c =
     do { (err, c1) \<leftarrow> WriteControl CloseMessage (FormatCloseMessage code reason) deadline c;
          let first = (if err \<noteq> None \<and> err \<noteq> Some ErrCloseSent then err else None);
              c2 = (if deadline \<noteq> None then SetReadDeadline deadline c1 else c1)
          in do { (returns, c3) \<leftarrow> drain ops h c2;
                  if \<not> returns then Some (None, c3)
                  else
                    let (e, c4) = netClose c3
                    in Some (Some (if first = None then e else first), c4) } }"

end
