(* ===== verification/Frame.thy ===== *)
theory Frame
  imports ConnBase
begin

text \<open>
  The abstract view of the wire: a frame of RFC 6455, section 5.2, its encoding, and the sequence of
  frames that makes a message (section 5.4). The write side is shown to put encodings of frames on
  the wire, the read side to take them off it.
\<close>

record frame =
  fin :: bool
  rsv1 :: bool
  opcode :: int
  mkey :: "mask_key option"
  payload :: bytes

definition len_code :: "nat \<Rightarrow> nat" where
  "len_code n = (if n \<ge> 65536 then 127 else if n > 125 then 126 else n)"

definition len_ext :: "nat \<Rightarrow> bytes" where
  "len_ext n = (if n \<ge> 65536 then be_bytes 8 n else if n > 125 then be_bytes 2 n else [])"

definition masked_payload :: "frame \<Rightarrow> bytes" where
  "masked_payload f =
     (case mkey f of None \<Rightarrow> payload f | Some k \<Rightarrow> key_bytes k @ xor_mask k 0 (payload f))"

definition frame_b0 :: "frame \<Rightarrow> byte" where
  "frame_b0 f = of_int (opcode f) OR (if fin f then finalBit else 0) OR (if rsv1 f then rsv1Bit else 0)"

definition frame_b1 :: "frame \<Rightarrow> byte" where
  "frame_b1 f = (if mkey f \<noteq> None then maskBit else 0) OR of_nat (len_code (length (payload f)))"

definition encode_frame :: "frame \<Rightarrow> bytes" where
  "encode_frame f =
     [frame_b0 f, frame_b1 f] @ len_ext (length (payload f)) @ masked_payload f"

definition encode_frames :: "frame list \<Rightarrow> bytes" where
  "encode_frames fs = concat (map encode_frame fs)"

definition frame_data :: "frame list \<Rightarrow> bytes" where
  "frame_data fs = concat (map payload fs)"

text \<open>The non-final frames a writer has sent of a message of type \<open>t\<close>, compressed or not: the first
  carries the type and the compression bit, the others are continuations.\<close>

fun fragments :: "int \<Rightarrow> bool \<Rightarrow> frame list \<Rightarrow> bool" where
  "fragments t z [] \<longleftrightarrow> True"
| "fragments t z (f # fs) \<longleftrightarrow>
     opcode f = t \<and> rsv1 f = z \<and> \<not> fin f \<and> fragments continuationFrame False fs"

definition next_type :: "int \<Rightarrow> frame list \<Rightarrow> int" where
  "next_type t fs = (if fs = [] then t else continuationFrame)"

definition next_rsv1 :: "bool \<Rightarrow> frame list \<Rightarrow> bool" where
  "next_rsv1 z fs = (if fs = [] then z else False)"

text \<open>A whole message: fragments and one final frame, carrying the data between them.\<close>

definition message_frames :: "int \<Rightarrow> bool \<Rightarrow> bytes \<Rightarrow> frame list \<Rightarrow> bool" where
  "message_frames t z data fs \<longleftrightarrow>
     (\<exists>gs l. fs = gs @ [l] \<and> fragments t z gs \<and> opcode l = next_type t gs \<and>
             rsv1 l = next_rsv1 z gs \<and> fin l \<and> frame_data fs = data)"

lemma encode_frames_simps [simp]:
  "encode_frames [] = []"
  "encode_frames (f # fs) = encode_frame f @ encode_frames fs"
  "encode_frames (fs @ gs) = encode_frames fs @ encode_frames gs"
  by (simp_all add: encode_frames_def)

lemma frame_data_simps [simp]:
  "frame_data [] = []"
  "frame_data (f # fs) = payload f @ frame_data fs"
  "frame_data (fs @ gs) = frame_data fs @ frame_data gs"
  by (simp_all add: frame_data_def)

lemma fragments_append:
  "fragments t z (fs @ gs) \<longleftrightarrow> fragments t z fs \<and> fragments (next_type t fs) (next_rsv1 z fs) gs"
proof (induction fs arbitrary: t z)
  case Nil
  show ?case by (simp add: next_type_def next_rsv1_def)
next
  case (Cons f fs)
  have "next_type continuationFrame fs = continuationFrame" "next_rsv1 False fs = False"
    by (simp_all add: next_type_def next_rsv1_def)
  moreover have "next_type t (f # fs) = continuationFrame" "next_rsv1 z (f # fs) = False"
    by (simp_all add: next_type_def next_rsv1_def)
  ultimately show ?case using Cons.IH [of continuationFrame False] by simp
qed

lemma next_append [simp]:
  "next_type t (fs @ gs) = next_type (next_type t fs) gs"
  "next_rsv1 z (fs @ gs) = next_rsv1 (next_rsv1 z fs) gs"
  by (auto simp: next_type_def next_rsv1_def)

lemma next_Nil [simp]: "next_type t [] = t" "next_rsv1 z [] = z"
  by (simp_all add: next_type_def next_rsv1_def)

lemma message_framesI:
  "fragments t z gs \<Longrightarrow> opcode l = next_type t gs \<Longrightarrow> rsv1 l = next_rsv1 z gs \<Longrightarrow> fin l \<Longrightarrow>
   frame_data gs @ payload l = data \<Longrightarrow> message_frames t z data (gs @ [l])"
  by (auto simp: message_frames_def)

lemma message_frames_single:
  "message_frames t z data [f] \<longleftrightarrow> opcode f = t \<and> rsv1 f = z \<and> fin f \<and> payload f = data"
  by (auto simp: message_frames_def)

lemma message_frames_nonempty: "message_frames t z data fs \<Longrightarrow> fs \<noteq> []"
  by (auto simp: message_frames_def)

end
