(* ===== verification/FrameWrite.thy ===== *)
theory FrameWrite
  imports ConnWrite Frame
begin

text \<open>
  What the message writer puts on the wire, in terms of frames: one flush is one encoded frame, a
  write is a run of fragments and some pending data, closing ends the message with a final frame.
\<close>

section \<open>What one flush puts on the wire\<close>

definition writer_ok :: "messageWriter \<Rightarrow> 'a conn_scheme \<Rightarrow> bool" where
  "writer_ok w c \<longleftrightarrow>
     werr w = None \<and> writeBuf c \<noteq> None \<and> maxFrameHeaderSize \<le> pos w \<and> pos w \<le> length (bufOf c)"

definition net_ok :: "'a conn_scheme \<Rightarrow> bool" where
  "net_ok c \<longleftrightarrow> netScript c = [] \<and> writeErr c = None \<and> mu c"

definition pending :: "messageWriter \<Rightarrow> 'a conn_scheme \<Rightarrow> bytes" where
  "pending w c = slice maxFrameHeaderSize (pos w) (bufOf c)"

definition frame_of :: "bool \<Rightarrow> bytes \<Rightarrow> messageWriter \<Rightarrow> 'a conn_scheme \<Rightarrow> frame" where
  "frame_of final extra w c =
     \<lparr>fin = final, rsv1 = compress w, opcode = frameType w,
      mkey = (if maskFrames c then Some (maskRand c (maskIdx c)) else None),
      payload = pending w c @ extra\<rparr>"

text \<open>The connection after a frame has been sent.\<close>

definition after_frame :: "frame \<Rightarrow> bytes \<Rightarrow> 'a conn_scheme \<Rightarrow> 'a conn_scheme" where
  "after_frame f buf c =
     c\<lparr>maskIdx := (if maskFrames c then Suc (maskIdx c) else maskIdx c),
       writeBuf := Some buf,
       netWriteDeadline := writeDeadline c,
       wire := wire c @ encode_frame f,
       writeErr := (if opcode f = CloseMessage then Some ErrCloseSent else None)\<rparr>"

lemma frame_of_simps [simp]:
  "fin (frame_of final extra w c) = final"
  "rsv1 (frame_of final extra w c) = compress w"
  "opcode (frame_of final extra w c) = frameType w"
  "payload (frame_of final extra w c) = pending w c @ extra"
  by (simp_all add: frame_of_def)

lemma header_fits:
  "fst (frameHeader b0 b1 n m) + length (snd (frameHeader b0 b1 n m)) = (if m then 10 else 14)"
  by (simp add: frameHeader_def Let_def)

lemma header_bytes:
  "snd (frameHeader b0 b1 n m) = [b0, b1 OR of_nat (len_code n)] @ len_ext n"
  by (simp add: frameHeader_def Let_def len_code_def len_ext_def)

lemma writeHeld_ok:
  "netScript c = [] \<Longrightarrow> writeErr c = None \<Longrightarrow>
   writeHeld t d p q c =
     (None, c\<lparr>netWriteDeadline := d, wire := wire c @ p @ q,
              writeErr := (if t = CloseMessage then Some ErrCloseSent else None)\<rparr>)"
  by (simp add: writeHeld_def netSetWriteDeadline_def netWrite_def writeFatal_def)

lemma conn_write_ok:
  "net_ok c \<Longrightarrow>
   conn_write t d p q c =
     Some (None, c\<lparr>netWriteDeadline := d, wire := wire c @ p @ q,
              writeErr := (if t = CloseMessage then Some ErrCloseSent else None)\<rparr>)"
  by (simp add: conn_write_def acquireMu_def writeHeld_ok net_ok_def)

text \<open>The bytes between the header's place and the end of the data, without and with a mask.\<close>

lemma plain_slice:
  assumes "fp + length hdr = 14" and "14 \<le> p" and "p \<le> length buf"
  shows "slice fp p (copy_at fp hdr buf) = hdr @ slice 14 p buf"
proof -
  have "slice fp p (copy_at fp hdr buf) = slice fp 14 (copy_at fp hdr buf) @ slice 14 p (copy_at fp hdr buf)"
    by (rule slice_split) (use assms in simp_all)
  moreover have "slice fp 14 (copy_at fp hdr buf) = hdr"
    using slice_copy_exact [of fp hdr buf] assms by simp
  moreover have "slice 14 p (copy_at fp hdr buf) = slice 14 p buf"
    by (rule slice_copy_after) (use assms in simp_all)
  ultimately show ?thesis by simp
qed

lemma masked_slice:
  assumes "fp + length hdr = 10" and "14 \<le> p" and "p \<le> length buf" and "length key = 4"
    and "length m = p - 14"
  shows "slice fp p (copy_at 14 m (copy_at 10 key (copy_at fp hdr buf))) = hdr @ key @ m"
proof -
  let ?b1 = "copy_at fp hdr buf" and ?b2 = "copy_at 10 key (copy_at fp hdr buf)"
  have len: "length ?b1 = length buf" "length ?b2 = length buf" using assms by simp_all
  have "slice fp p (copy_at 14 m ?b2) = slice fp 14 ?b2 @ m"
    using slice_copy_append [of fp 14 m ?b2] assms len by simp
  also have "slice fp 14 ?b2 = slice fp 10 ?b1 @ key"
    using slice_copy_append [of fp 10 key ?b1] assms len by simp
  also have "slice fp 10 ?b1 = hdr" using slice_copy_exact [of fp hdr buf] assms by simp
  finally show ?thesis by simp
qed

lemma masked_data:
  assumes "fp + length hdr = 10" and "14 \<le> p" and "p \<le> length buf" and "length key = 4"
  shows "slice 14 p (copy_at 10 key (copy_at fp hdr buf)) = slice 14 p buf"
  using assms slice_copy_after [of 10 key 14 "copy_at fp hdr buf" p]
    slice_copy_after [of fp hdr 14 buf p] by simp

lemma length_key_bytes [simp]: "length (key_bytes k) = 4"
  by (cases k) simp

lemma build_frame:
  assumes w: "writer_ok w c" and e: "maskFrames c \<Longrightarrow> extra = []"
    and len: "len = pos w - maxFrameHeaderSize + length extra"
  obtains fp buf where "length buf = length (bufOf c)"
    and "buildFrame final len w c =
      (fp, buf, c\<lparr>maskIdx := (if maskFrames c then Suc (maskIdx c) else maskIdx c)\<rparr>)"
    and "slice fp (pos w) buf @ extra = encode_frame (frame_of final extra w c)"
proof -
  let ?f = "frame_of final extra w c"
  have wb: "14 \<le> pos w" "pos w \<le> length (bufOf c)"
    using w by (auto simp: writer_ok_def maxFrameHeaderSize_def)
  have lf: "length (payload ?f) = len"
    using wb by (simp add: frame_of_def pending_def len maxFrameHeaderSize_def)
  define b1 where "b1 = (if maskFrames c then maskBit else 0)"
  have b0: "of_int (frameType w) OR (if final then finalBit else 0) OR (if compress w then rsv1Bit else 0)
      = frame_b0 ?f"
    by (simp add: frame_b0_def frame_of_def)
  obtain fp hdr where h: "frameHeader (frame_b0 ?f) b1 len (maskFrames c) = (fp, hdr)" by fastforce
  have "b1 OR of_nat (len_code len) = frame_b1 ?f"
    unfolding frame_b1_def lf by (cases "maskFrames c") (simp_all add: b1_def frame_of_def)
  then have hdr: "hdr = [frame_b0 ?f, frame_b1 ?f] @ len_ext len"
    using header_bytes [of "frame_b0 ?f" b1 len "maskFrames c"] h by simp
  have fits: "fp + length hdr = (if maskFrames c then 10 else 14)"
    using header_fits [of "frame_b0 ?f" b1 len "maskFrames c"] h by simp
  note unfold = buildFrame_def Let_def b0 b1_def [symmetric] h split_conv
  show thesis
  proof (cases "maskFrames c")
    case True
    define key where "key = maskRand c (maskIdx c)"
    define bk where "bk = copy_at 10 (key_bytes key) (copy_at fp hdr (bufOf c))"
    define buf where "buf = copy_at 14 (xor_mask key 0 (pending w c)) bk"
    have data: "slice 14 (pos w) bk = pending w c"
      using masked_data [of fp hdr "pos w" "bufOf c" "key_bytes key"] fits True wb
      by (simp add: bk_def pending_def maxFrameHeaderSize_def)
    have lp: "length (pending w c) = pos w - 14"
      using wb by (simp add: pending_def maxFrameHeaderSize_def)
    have "length buf = length (bufOf c)" using fits True wb by (simp add: buf_def bk_def)
    moreover have "buildFrame final len w c = (fp, buf, c\<lparr>maskIdx := Suc (maskIdx c)\<rparr>)"
      unfolding unfold using True data
      by (simp add: newMaskKey_def maskBytes_eq maxFrameHeaderSize_def key_def [symmetric]
          bk_def [symmetric] buf_def [symmetric])
    moreover have "slice fp (pos w) buf @ extra = encode_frame ?f"
    proof -
      have "slice fp (pos w) buf = hdr @ key_bytes key @ xor_mask key 0 (pending w c)"
        unfolding buf_def bk_def by (rule masked_slice) (use fits True wb lp in simp_all)
      then show ?thesis
        unfolding encode_frame_def lf using e [OF True] True
        by (simp add: hdr masked_payload_def frame_of_def key_def)
    qed
    ultimately show thesis using that True by simp
  next
    case False
    have "length (copy_at fp hdr (bufOf c)) = length (bufOf c)" using fits False wb by simp
    moreover have "buildFrame final len w c = (fp, copy_at fp hdr (bufOf c), c)"
      unfolding unfold using False by simp
    moreover have "slice fp (pos w) (copy_at fp hdr (bufOf c)) @ extra = encode_frame ?f"
      unfolding encode_frame_def lf using plain_slice [of fp hdr "pos w" "bufOf c"] fits False wb
      by (simp add: hdr masked_payload_def pending_def maxFrameHeaderSize_def frame_of_def)
    ultimately show thesis using that False by simp
  qed
qed

text \<open>A flush that the network accepts puts exactly one frame on the wire.\<close>

lemma flush_wire:
  assumes w: "writer_ok w c" and n: "net_ok c" and e: "maskFrames c \<Longrightarrow> extra = []"
    and k: "isControl (frameType w) \<Longrightarrow>
        final \<and> length (pending w c @ extra) \<le> maxControlFramePayloadSize"
  obtains buf where "length buf = length (bufOf c)"
    and "flushFrame final extra w c =
      (let w1 = w\<lparr>compress := False\<rparr>; c1 = after_frame (frame_of final extra w c) buf c in
       if final then do { (w2, c2) \<leftarrow> endMessage ErrWriteClosed w1 c1; Some (None, w2, c2) }
       else Some (None, w1\<lparr>pos := maxFrameHeaderSize, frameType := continuationFrame\<rparr>, c1))"
proof -
  let ?f = "frame_of final extra w c"
  define len where "len = pos w - maxFrameHeaderSize + length extra"
  obtain fp buf where lb: "length buf = length (bufOf c)"
    and b: "buildFrame final len w c =
      (fp, buf, c\<lparr>maskIdx := (if maskFrames c then Suc (maskIdx c) else maskIdx c)\<rparr>)"
    and enc: "slice fp (pos w) buf @ extra = encode_frame ?f"
    using build_frame [OF w e len_def] by blast
  have "length (pending w c @ extra) = len"
    using w by (simp add: pending_def len_def writer_ok_def)
  with k have ctl: "\<not> (isControl (frameType w) \<and> (\<not> final \<or> maxControlFramePayloadSize < len))" by auto
  have ex: "\<not> (maskFrames c \<and> 0 < length extra)" using e by auto
  have eq: "flushFrame final extra w c =
      (let w1 = w\<lparr>compress := False\<rparr>; c1 = after_frame ?f buf c in
       if final then do { (w2, c2) \<leftarrow> endMessage ErrWriteClosed w1 c1; Some (None, w2, c2) }
       else Some (None, w1\<lparr>pos := maxFrameHeaderSize, frameType := continuationFrame\<rparr>, c1))"
    unfolding flushFrame_def len_def [symmetric] Let_def if_not_P [OF ctl] b split_conv if_not_P [OF ex]
    using n enc by (simp add: net_ok_def conn_write_ok after_frame_def)
  show thesis by (rule that [OF lb eq])
qed
section \<open>Runs of fragments\<close>

text \<open>The fields a successful write changes; all others are unchanged.\<close>

definition only_wire :: "'a conn_scheme \<Rightarrow> 'a conn_scheme \<Rightarrow> bool" where
  "only_wire c c' \<longleftrightarrow>
     (\<exists>i b d wi. c' = c\<lparr>maskIdx := i, writeBuf := b, netWriteDeadline := d, wire := wi\<rparr>)"

lemma only_wire_refl: "only_wire c c"
  unfolding only_wire_def
  by (rule exI [of _ "maskIdx c"], rule exI [of _ "writeBuf c"], rule exI [of _ "netWriteDeadline c"],
      rule exI [of _ "wire c"]) simp

lemma only_wireI:
  "writeErr c = None \<Longrightarrow>
   only_wire c (c\<lparr>maskIdx := i, writeBuf := b, netWriteDeadline := d, wire := wi, writeErr := None\<rparr>)"
  unfolding only_wire_def
  by (rule exI [of _ i], rule exI [of _ b], rule exI [of _ d], rule exI [of _ wi], cases c) simp

lemma only_wire_trans: "only_wire a b \<Longrightarrow> only_wire b c \<Longrightarrow> only_wire a c"
  unfolding only_wire_def by fastforce

lemma only_wire_fields:
  assumes "only_wire c c'"
  shows "isServer c' = isServer c" "disableMask c' = disableMask c" "writeMu c' = writeMu c"
    "mu c' = mu c" "writePool c' = writePool c" "writeFrameSize c' = writeFrameSize c"
    "writeDeadline c' = writeDeadline c" "writeErr c' = writeErr c" "netScript c' = netScript c"
    "now c' = now c" "maskFrames c' = maskFrames c" "net_ok c' = net_ok c" "writer c' = writer c"
proof -
  obtain a b d e where c': "c' = c\<lparr>maskIdx := a, writeBuf := b, netWriteDeadline := d, wire := e\<rparr>"
    using assms unfolding only_wire_def by blast
  show "isServer c' = isServer c" "disableMask c' = disableMask c" "writeMu c' = writeMu c"
    "mu c' = mu c" "writePool c' = writePool c" "writeFrameSize c' = writeFrameSize c"
    "writeDeadline c' = writeDeadline c" "writeErr c' = writeErr c" "netScript c' = netScript c"
    "now c' = now c" "maskFrames c' = maskFrames c" "net_ok c' = net_ok c" "writer c' = writer c"
    by (simp_all add: c' maskFrames_def net_ok_def)
qed

text \<open>From writer state \<open>w\<close> to \<open>w'\<close> the frames \<open>fs\<close> were sent and the data \<open>p\<close> accepted.\<close>

definition is_masked :: "frame \<Rightarrow> bool" where
  "is_masked f = (mkey f \<noteq> None)"

definition sends ::
  "messageWriter \<Rightarrow> 'a conn_scheme \<Rightarrow> frame list \<Rightarrow> bytes \<Rightarrow> messageWriter \<Rightarrow> 'a conn_scheme \<Rightarrow> bool" where
  "sends w c fs p w' c' \<longleftrightarrow>
     wire c' = wire c @ encode_frames fs \<and>
     fragments (frameType w) (compress w) fs \<and>
     frameType w' = next_type (frameType w) fs \<and>
     compress w' = next_rsv1 (compress w) fs \<and>
     frame_data fs @ pending w' c' = pending w c @ p \<and>
     list_all (\<lambda>f. is_masked f = maskFrames c) fs \<and>
     writer_ok w' c' \<and> length (bufOf c') = length (bufOf c) \<and> only_wire c c'"

lemma sends_refl: "writer_ok w c \<Longrightarrow> sends w c [] [] w c"
  by (simp add: sends_def only_wire_refl)

lemma sends_trans:
  "sends w c fs p w1 c1 \<Longrightarrow> sends w1 c1 gs q w2 c2 \<Longrightarrow> sends w c (fs @ gs) (p @ q) w2 c2"
  unfolding sends_def
  by (auto simp: fragments_append only_wire_fields(11) intro: only_wire_trans)

lemma mkey_frame_of: "is_masked (frame_of final extra w c) = maskFrames c"
  by (cases "maskRand c (maskIdx c)") (simp add: frame_of_def is_masked_def)

lemma flush_sends:
  assumes w: "writer_ok w c" and n: "net_ok c" and e: "maskFrames c \<Longrightarrow> extra = []"
    and k: "\<not> isControl (frameType w)"
  obtains w' c' where "flushFrame False extra w c = Some (None, w', c')"
    and "sends w c [frame_of False extra w c] extra w' c'" and "pending w' c' = []"
    and "pos w' = maxFrameHeaderSize"
proof -
  let ?f = "frame_of False extra w c"
  let ?w = "w\<lparr>compress := False, pos := maxFrameHeaderSize, frameType := continuationFrame\<rparr>"
  obtain buf where lb: "length buf = length (bufOf c)"
    and eq: "flushFrame False extra w c = Some (None, ?w, after_frame ?f buf c)"
    using flush_wire [OF w n e, of False] k by (auto simp: Let_def)
  have t: "frameType w \<noteq> CloseMessage" using k by (auto simp: isControl_def)
  have "only_wire c (after_frame ?f buf c)"
    unfolding after_frame_def frame_of_simps if_not_P [OF t]
    by (rule only_wireI) (use n in \<open>simp add: net_ok_def\<close>)
  moreover have "writer_ok ?w (after_frame ?f buf c)"
    using w lb by (simp add: writer_ok_def after_frame_def bufOf_def)
  moreover have p: "pending ?w (after_frame ?f buf c) = []" by (simp add: pending_def)
  ultimately have "sends w c [?f] extra ?w (after_frame ?f buf c)"
    using lb by (simp add: sends_def after_frame_def bufOf_def next_type_def next_rsv1_def mkey_frame_of)
  then show thesis using that eq p by simp
qed

end
