(* ===== verification/Sides.thy ===== *)
theory Sides
  imports ConnBase
begin

text \<open>
  The two sides of a connection. Reads and writes share one record, the reads answer pings through the
  write side's control frames, and the application may read and write by turns: so the fields that only
  writes use and the fields that only reads use are named here, for the lemmas that say that the other
  side leaves them alone.
\<close>

definition write_side where
  "write_side c =
     ((writeMu c, writeBuf c, writePool c, writeBufSize c, writeFrameSize c, writeDeadline c, writer c),
      (enableWriteCompression c, compressionLevel c, newCompressionWriter c, poolScript c, poolPuts c),
      (subprotocol c, maskRand c, littleEndian c, memAddr c))"

definition read_side where
  "read_side c =
     ((newDecompressionReader c, reader c, readErr c, readRemaining c, readFinal c, readLength c, readLimit c),
      (readMaskPos c, readMaskKey c, readErrCount c, messageReader c, readDecompress c),
      (readUTF8State c, readUTF8Codepoint c, netReadDeadline c, rbuf c, rbufSize c, rerr c, rin c),
      (isServer c, disableMask c, skipUTF8Validation c, subprotocol c, maskRand c, littleEndian c, memAddr c))"

lemma write_side_upd [simp]:
  "write_side (c\<lparr>mu := mu'\<rparr>) = write_side c" "write_side (c\<lparr>writeErr := e\<rparr>) = write_side c"
  "write_side (c\<lparr>wire := w\<rparr>) = write_side c" "write_side (c\<lparr>now := x\<rparr>) = write_side c"
  "write_side (c\<lparr>netScript := s\<rparr>) = write_side c" "write_side (c\<lparr>netWriteDeadline := t\<rparr>) = write_side c"
  "write_side (c\<lparr>netReadDeadline := t\<rparr>) = write_side c" "write_side (c\<lparr>netClosed := b\<rparr>) = write_side c"
  "write_side (c\<lparr>maskIdx := i\<rparr>) = write_side c" "write_side (c\<lparr>reader := r\<rparr>) = write_side c"
  "write_side (c\<lparr>readErr := e\<rparr>) = write_side c" "write_side (c\<lparr>readRemaining := n\<rparr>) = write_side c"
  "write_side (c\<lparr>readFinal := b\<rparr>) = write_side c" "write_side (c\<lparr>readLength := n\<rparr>) = write_side c"
  "write_side (c\<lparr>readLimit := n\<rparr>) = write_side c" "write_side (c\<lparr>readMaskPos := i\<rparr>) = write_side c"
  "write_side (c\<lparr>readMaskKey := k\<rparr>) = write_side c" "write_side (c\<lparr>readErrCount := i\<rparr>) = write_side c"
  "write_side (c\<lparr>messageReader := r\<rparr>) = write_side c" "write_side (c\<lparr>readDecompress := b\<rparr>) = write_side c"
  "write_side (c\<lparr>readUTF8State := i\<rparr>) = write_side c" "write_side (c\<lparr>readUTF8Codepoint := u\<rparr>) = write_side c"
  "write_side (c\<lparr>rbuf := p\<rparr>) = write_side c" "write_side (c\<lparr>rerr := e\<rparr>) = write_side c"
  "write_side (c\<lparr>rin := r'\<rparr>) = write_side c"
  by (simp_all add: write_side_def)

lemma read_side_upd [simp]:
  "read_side (c\<lparr>mu := mu'\<rparr>) = read_side c" "read_side (c\<lparr>writeErr := e\<rparr>) = read_side c"
  "read_side (c\<lparr>wire := w\<rparr>) = read_side c" "read_side (c\<lparr>now := x\<rparr>) = read_side c"
  "read_side (c\<lparr>netScript := s\<rparr>) = read_side c" "read_side (c\<lparr>netWriteDeadline := t\<rparr>) = read_side c"
  "read_side (c\<lparr>netClosed := b\<rparr>) = read_side c" "read_side (c\<lparr>maskIdx := i\<rparr>) = read_side c"
  "read_side (c\<lparr>writeMu := b\<rparr>) = read_side c" "read_side (c\<lparr>writeBuf := p\<rparr>) = read_side c"
  "read_side (c\<lparr>writeFrameSize := i\<rparr>) = read_side c" "read_side (c\<lparr>writeDeadline := t\<rparr>) = read_side c"
  "read_side (c\<lparr>writer := r\<rparr>) = read_side c" "read_side (c\<lparr>enableWriteCompression := b\<rparr>) = read_side c"
  "read_side (c\<lparr>compressionLevel := l\<rparr>) = read_side c" "read_side (c\<lparr>poolScript := ps\<rparr>) = read_side c"
  "read_side (c\<lparr>poolPuts := pp\<rparr>) = read_side c"
  by (simp_all add: read_side_def)

end
