(* ===== verification/MsgWriter.thy ===== *)
theory MsgWriter
  imports FrameWrite Sides
begin

text \<open>
  The message writer as a whole: its copying loops accept all the data they are given, however it
  is split over writes and whatever the buffer and frame sizes are, and closing it completes the
  message. A data writer on a working network never fails.
\<close>

section \<open>Room in the buffer\<close>

text \<open>The write frame size (0 for none) bounds the payload in the buffer.\<close>

definition in_cap :: "messageWriter \<Rightarrow> 'a conn_scheme \<Rightarrow> bool" where
  "in_cap w c \<longleftrightarrow> writeFrameSize c = 0 \<or> pos w - maxFrameHeaderSize \<le> writeFrameSize c"

definition within :: "nat \<Rightarrow> frame list \<Rightarrow> bool" where
  "within cap fs \<longleftrightarrow> cap = 0 \<or> list_all (\<lambda>f. length (payload f) \<le> cap) fs"

lemma within_simps [simp]:
  "within cap []" "within cap (fs @ gs) \<longleftrightarrow> within cap fs \<and> within cap gs"
  "within cap [f] \<longleftrightarrow> cap = 0 \<or> length (payload f) \<le> cap"
  by (auto simp: within_def)

text \<open>Room for at least one byte in the buffer of an empty frame.\<close>

definition has_room :: "'a conn_scheme \<Rightarrow> bool" where
  "has_room c \<longleftrightarrow> maxFrameHeaderSize < length (bufOf c)"

lemma payloadRoom_fits:
  assumes "writer_ok w c"
  shows "pos w + payloadRoom w c \<le> length (bufOf c)"
  using assms by (auto simp: payloadRoom_def Let_def writer_ok_def)

lemma payloadRoom_cap:
  assumes "writer_ok w c" and "in_cap w c" and "n \<le> payloadRoom w c"
  shows "in_cap (w\<lparr>pos := pos w + n\<rparr>) (c\<lparr>writeBuf := b\<rparr>)"
  using assms by (auto simp: payloadRoom_def Let_def writer_ok_def in_cap_def split: if_splits)

lemma payloadRoom_fresh:
  assumes "writer_ok w c" and "has_room c" and "pos w = maxFrameHeaderSize"
  shows "0 < payloadRoom w c"
  using assms by (auto simp: payloadRoom_def Let_def writer_ok_def has_room_def)

lemma pending_length: "writer_ok w c \<Longrightarrow> length (pending w c) = pos w - maxFrameHeaderSize"
  by (simp add: pending_def writer_ok_def)

section \<open>Steps that keep the network untouched\<close>

lemma only_wire_buf: "only_wire c (c\<lparr>writeBuf := b\<rparr>)"
  unfolding only_wire_def
  by (rule exI [of _ "maskIdx c"], rule exI [of _ b], rule exI [of _ "netWriteDeadline c"],
      rule exI [of _ "wire c"]) simp

lemma copy_sends:
  assumes w: "writer_ok w c" and fit: "pos w + length d \<le> length (bufOf c)"
  shows "sends w c [] d (w\<lparr>pos := pos w + length d\<rparr>) (c\<lparr>writeBuf := Some (copy_at (pos w) d (bufOf c))\<rparr>)"
proof -
  have le: "maxFrameHeaderSize \<le> pos w" "pos w \<le> length (bufOf c)" "werr w = None"
    using w by (simp_all add: writer_ok_def)
  have "slice maxFrameHeaderSize (pos w + length d) (copy_at (pos w) d (bufOf c)) = pending w c @ d"
    unfolding pending_def by (rule slice_copy_append) (use le fit in simp_all)
  then show ?thesis
    using le fit only_wire_buf
    by (simp add: sends_def pending_def writer_ok_def bufOf_def split: option.splits)
qed

lemma sends_simps:
  assumes "sends w c fs p w' c'"
  shows "net_ok c' = net_ok c" "writeFrameSize c' = writeFrameSize c" "has_room c' = has_room c"
    "writer_ok w' c'" "isServer c' = isServer c" "maskFrames c' = maskFrames c"
  using assms by (auto simp: sends_def only_wire_fields has_room_def)

lemma next_type_control:
  "\<not> isControl t \<Longrightarrow> \<not> isControl (next_type t fs)"
  by (simp add: next_type_def isControl_def message_types)

lemma sends_data: "sends w c fs p w' c' \<Longrightarrow> \<not> isControl (frameType w) \<Longrightarrow> \<not> isControl (frameType w')"
  by (auto simp: sends_def next_type_control)

text \<open>A flush that is not final, with its frame within the write frame size.\<close>

lemma flush_cap:
  assumes "writer_ok w c" and "net_ok c" and "\<not> isControl (frameType w)" and "in_cap w c"
  obtains w1 c1 fs where "flushFrame False [] w c = Some (None, w1, c1)"
    and "sends w c fs [] w1 c1" and "within (writeFrameSize c) fs"
    and "pos w1 = maxFrameHeaderSize"
proof -
  obtain w1 c1 where fl: "flushFrame False [] w c = Some (None, w1, c1)"
    and s: "sends w c [frame_of False [] w c] [] w1 c1" and p: "pos w1 = maxFrameHeaderSize"
    by (rule flush_sends [of w c "[]"]) (use assms in auto)
  have "within (writeFrameSize c) [frame_of False [] w c]"
    using assms by (simp add: in_cap_def pending_length)
  then show thesis using that fl s p by blast
qed

section \<open>The copying loop of \<open>Write\<close> and \<open>WriteString\<close>\<close>

lemma ncopy_sends:
  assumes w: "writer_ok w c" and n: "net_ok c" and t: "\<not> isControl (frameType w)"
    and cap: "in_cap w c" and room: "has_room c" and lim: "0 < lim"
  obtains k w1 c1 fs where "ncopy lim w c = Some ((k, None), w1, c1)" and "0 < k" and "k \<le> lim"
    and "k \<le> payloadRoom w1 c1" and "sends w c fs [] w1 c1" and "within (writeFrameSize c) fs"
    and "in_cap w1 c1"
proof (cases "payloadRoom w c = 0")
  case True
  obtain w1 c1 fs where fl: "flushFrame False [] w c = Some (None, w1, c1)"
    and s: "sends w c fs [] w1 c1" and wi: "within (writeFrameSize c) fs"
    and p: "pos w1 = maxFrameHeaderSize"
    using flush_cap [OF w n t cap] .
  have "0 < payloadRoom w1 c1"
    using payloadRoom_fresh [of w1 c1] sends_simps [OF s] room p by simp
  moreover have "ncopy lim w c = Some ((min (payloadRoom w1 c1) lim, None), w1, c1)"
    using True fl by (simp add: ncopy_def Let_def min_def)
  ultimately show thesis
    using that [of "min (payloadRoom w1 c1) lim" w1 c1 fs] lim s wi p by (simp add: in_cap_def)
next
  case False
  have "ncopy lim w c = Some ((min (payloadRoom w c) lim, None), w, c)"
    using False by (simp add: ncopy_def Let_def min_def)
  then show thesis
    using that [of "min (payloadRoom w c) lim" w c "[]"] False lim cap sends_refl [OF w] by simp
qed

lemma mwCopy_sends:
  assumes "writer_ok w c" and "net_ok c" and "\<not> isControl (frameType w)"
    and "in_cap w c" and "has_room c"
  shows "\<exists>w' c' fs. mwCopy p w c = Some (None, w', c') \<and> sends w c fs p w' c' \<and>
    within (writeFrameSize c) fs \<and> in_cap w' c'"
  using assms
proof (induction "length p" arbitrary: p w c rule: less_induct)
  case less
  show ?case
  proof (cases "p = []")
    case True
    then show ?thesis
      using less.prems sends_refl [of w c] by (subst mwCopy.simps) (force intro: exI [of _ "[]"])
  next
    case False
    then have "0 < length p" by simp
    then obtain k w1 c1 fs where nc: "ncopy (length p) w c = Some ((k, None), w1, c1)"
      and k: "0 < k" "k \<le> length p" "k \<le> payloadRoom w1 c1"
      and s: "sends w c fs [] w1 c1" and wi: "within (writeFrameSize c) fs" and cap: "in_cap w1 c1"
      using ncopy_sends [OF less.prems] by metis
    define d where "d = take k p"
    define w2 where "w2 = w1\<lparr>pos := pos w1 + length d\<rparr>"
    define c2 where "c2 = c1\<lparr>writeBuf := Some (copy_at (pos w1) d (bufOf c1))\<rparr>"
    have ld: "length d = k" using k by (simp add: d_def)
    have ok1: "writer_ok w1 c1" using sends_simps [OF s] by simp
    have s2: "sends w1 c1 [] d w2 c2"
      unfolding w2_def c2_def
      by (rule copy_sends) (use ok1 k ld payloadRoom_fits [of w1 c1] in auto)
    have cap2: "in_cap w2 c2"
      unfolding w2_def c2_def ld by (rule payloadRoom_cap) (use ok1 cap k in auto)
    have s12: "sends w c fs d w2 c2" using sends_trans [OF s s2] by simp
    have "length (drop k p) < length p" using k by simp
    moreover have "\<not> isControl (frameType w2)" using sends_data [OF s12] less.prems by blast
    ultimately obtain w' c' gs where r: "mwCopy (drop k p) w2 c2 = Some (None, w', c')"
      and s3: "sends w2 c2 gs (drop k p) w' c'" and wi3: "within (writeFrameSize c2) gs"
      and cap3: "in_cap w' c'"
      using less.hyps [of "drop k p" w2 c2] sends_simps [OF s12] cap2 less.prems by auto
    have "mwCopy p w c = Some (None, w', c')"
      using False nc r ld by (subst mwCopy.simps) (simp add: w2_def c2_def d_def)
    moreover have "sends w c (fs @ gs) p w' c'"
      using sends_trans [OF s12 s3] by (simp add: d_def)
    ultimately show ?thesis using wi wi3 cap3 sends_simps [OF s12] by auto
  qed
qed


section \<open>The loop of \<open>ReadFrom\<close>\<close>

text \<open>What a source delivers: its bytes up to the first error, and that error.\<close>

fun src_data :: "source \<Rightarrow> bytes" where
  "src_data [] = []"
| "src_data ((d, e) # s) = (if e = None then d @ src_data s else d)"

fun src_err :: "source \<Rightarrow> gerror" where
  "src_err [] = IoEOF"
| "src_err ((d, e) # s) = (case e of None \<Rightarrow> src_err s | Some x \<Rightarrow> x)"

fun src_size :: "source \<Rightarrow> nat" where
  "src_size [] = 0"
| "src_size ((d, e) # s) = Suc (length d + src_size s)"

lemma srcRead_step:
  assumes "srcRead n r = (d, e, r1)"
  shows "length d \<le> n"
    "e = None \<Longrightarrow> 0 < n \<Longrightarrow> src_data r = d @ src_data r1 \<and> src_err r = src_err r1 \<and> src_size r1 < src_size r"
    "e = Some x \<Longrightarrow> src_data r = d \<and> src_err r = x"
  using assms by (cases "(n, r)" rule: srcRead.cases; auto split: if_splits)+

lemma mwReadFrom_loop_sends:
  assumes "writer_ok w c" and "net_ok c" and "\<not> isControl (frameType w)"
    and "in_cap w c" and "has_room c"
  shows "\<exists>w' c' fs r'. mwReadFrom_loop nn r w c =
      Some ((nn + length (src_data r), if src_err r = IoEOF then None else Some (src_err r)), r', w', c') \<and>
    sends w c fs (src_data r) w' c' \<and> within (writeFrameSize c) fs \<and> in_cap w' c'"
  using assms
proof (induction "src_size r" arbitrary: r w c nn rule: less_induct)
  case less
  obtain w1 c1 fs where
    fl: "(if payloadRoom w c = 0 then flushFrame False [] w c else Some (None, w, c)) = Some (None, w1, c1)"
    and s: "sends w c fs [] w1 c1" and wi: "within (writeFrameSize c) fs"
    and cap: "in_cap w1 c1" and room: "0 < payloadRoom w1 c1"
  proof (cases "payloadRoom w c = 0")
    case True
    obtain w1 c1 fs where "flushFrame False [] w c = Some (None, w1, c1)"
      and s: "sends w c fs [] w1 c1" and "within (writeFrameSize c) fs"
      and p: "pos w1 = maxFrameHeaderSize"
      by (rule flush_cap [of w c]) (use less.prems in auto)
    moreover have "0 < payloadRoom w1 c1"
      by (rule payloadRoom_fresh) (use sends_simps [OF s] less.prems p in auto)
    ultimately show thesis using that [of w1 c1 fs] True by (simp add: in_cap_def)
  next
    case False
    then show thesis by (intro that [of w c "[]"]) (use sends_refl [of w c] less.prems in auto)
  qed
  obtain d e r1 where rd: "srcRead (payloadRoom w1 c1) r = (d, e, r1)" by (metis prod_cases3)
  note step = srcRead_step [OF rd]
  define w2 where "w2 = w1\<lparr>pos := pos w1 + length d\<rparr>"
  define c2 where "c2 = c1\<lparr>writeBuf := Some (copy_at (pos w1) d (bufOf c1))\<rparr>"
  have ok1: "writer_ok w1 c1" using sends_simps [OF s] by simp
  have s2: "sends w1 c1 [] d w2 c2"
    unfolding w2_def c2_def
    by (rule copy_sends) (use ok1 step(1) payloadRoom_fits [of w1 c1] in auto)
  have cap2: "in_cap w2 c2"
    unfolding w2_def c2_def by (rule payloadRoom_cap) (use ok1 cap step(1) in auto)
  have s12: "sends w c fs d w2 c2" using sends_trans [OF s s2] by simp
  have loop: "mwReadFrom_loop nn r w c =
      (if e \<noteq> None then Some ((nn + length d, if e = Some IoEOF then None else e), r1, w2, c2)
       else mwReadFrom_loop (nn + length d) r1 w2 c2)"
    using fl rd by (subst mwReadFrom_loop.simps) (simp add: Let_def w2_def c2_def)
  show ?case
  proof (cases e)
    case (Some x)
    then show ?thesis using loop step(3) s12 wi cap2 by auto
  next
    case None
    have "\<not> isControl (frameType w2)" using sends_data [OF s12] less.prems by blast
    then obtain w' c' gs r' where r: "mwReadFrom_loop (nn + length d) r1 w2 c2 =
        Some ((nn + length d + length (src_data r1),
               if src_err r1 = IoEOF then None else Some (src_err r1)), r', w', c')"
      and s3: "sends w2 c2 gs (src_data r1) w' c'" and wi3: "within (writeFrameSize c2) gs"
      and cap3: "in_cap w' c'"
      using less.hyps [of r1 w2 c2 "nn + length d"] step(2) [OF None room] sends_simps [OF s12]
        cap2 less.prems by auto
    have "sends w c (fs @ gs) (src_data r) w' c'"
      using sends_trans [OF s12 s3] step(2) [OF None room] by simp
    moreover have "within (writeFrameSize c) (fs @ gs)" using wi wi3 sends_simps [OF s12] by simp
    ultimately show ?thesis using loop r None step(2) [OF None room] cap3 by (auto simp: add.assoc)
  qed
qed


section \<open>\<open>Write\<close>, \<open>WriteString\<close> and \<open>ReadFrom\<close>\<close>

text \<open>A writer in the middle of a data message on a network that works.\<close>

definition mw_ready :: "messageWriter \<Rightarrow> 'a conn_scheme \<Rightarrow> bool" where
  "mw_ready w c \<longleftrightarrow>
     writer_ok w c \<and> net_ok c \<and> \<not> isControl (frameType w) \<and> in_cap w c \<and> has_room c"

lemma mw_readyD:
  assumes "mw_ready w c"
  shows "writer_ok w c" "net_ok c" "\<not> isControl (frameType w)" "in_cap w c" "has_room c"
    "werr w = None"
  using assms by (auto simp: mw_ready_def writer_ok_def)

lemma mw_ready_sends: "mw_ready w c \<Longrightarrow> sends w c fs p w' c' \<Longrightarrow> in_cap w' c' \<Longrightarrow> mw_ready w' c'"
  using sends_simps [of w c fs p w' c'] sends_data [of w c fs p w' c'] by (simp add: mw_ready_def)

text \<open>A write that goes through the buffer, not straight to the network.\<close>

definition slow_write :: "'a conn_scheme \<Rightarrow> bytes \<Rightarrow> bool" where
  "slow_write c p \<longleftrightarrow>
     \<not> (length p > 2 * length (bufOf c) \<and> isServer c \<and> (writeFrameSize c = 0 \<or> length p \<le> writeFrameSize c))"

lemma mwWrite_sends:
  assumes r: "mw_ready w c"
  obtains w' c' fs where "mwWrite p w c = Some ((length p, None), w', c')"
    and "sends w c fs p w' c'" and "mw_ready w' c'"
    and "pending w c = [] \<or> slow_write c p \<Longrightarrow> within (writeFrameSize c) fs"
proof (cases "slow_write c p")
  case False
  then have srv: "\<not> maskFrames c" by (simp add: maskFrames_def slow_write_def)
  obtain w' c' where fl: "flushFrame False p w c = Some (None, w', c')"
    and s: "sends w c [frame_of False p w c] p w' c'" and "pos w' = maxFrameHeaderSize"
    by (rule flush_sends [of w c p]) (use mw_readyD [OF r] srv in auto)
  then have "mw_ready w' c'" by (intro mw_ready_sends [OF r s]) (simp add: in_cap_def)
  moreover have "mwWrite p w c = Some ((length p, None), w', c')"
    using False fl mw_readyD [OF r] by (simp add: mwWrite_def slow_write_def)
  moreover have "pending w c = [] \<or> slow_write c p \<Longrightarrow> within (writeFrameSize c) [frame_of False p w c]"
    using False by (auto simp: slow_write_def)
  ultimately show thesis using that s by blast
next
  case True
  obtain w' c' fs where m: "mwCopy p w c = Some (None, w', c')" and s: "sends w c fs p w' c'"
    and wi: "within (writeFrameSize c) fs" and "in_cap w' c'"
    using mwCopy_sends [of w c p] mw_readyD [OF r] by blast
  then have "mw_ready w' c'" by (intro mw_ready_sends [OF r s])
  moreover have "mwWrite p w c = Some ((length p, None), w', c')"
    using True m mw_readyD [OF r] by (auto simp: mwWrite_def slow_write_def)
  ultimately show thesis using that s wi by blast
qed

lemma mwWriteString_sends:
  assumes r: "mw_ready w c"
  obtains w' c' fs where "mwWriteString p w c = Some ((length p, None), w', c')"
    and "sends w c fs (bytes_of_string p) w' c'" and "mw_ready w' c'"
    and "within (writeFrameSize c) fs"
proof -
  obtain w' c' fs where m: "mwCopy (bytes_of_string p) w c = Some (None, w', c')"
    and s: "sends w c fs (bytes_of_string p) w' c'"
    and wi: "within (writeFrameSize c) fs" and "in_cap w' c'"
    using mwCopy_sends [of w c "bytes_of_string p"] mw_readyD [OF r] by blast
  then have "mw_ready w' c'" by (intro mw_ready_sends [OF r s])
  moreover have "mwWriteString p w c = Some ((length p, None), w', c')"
    using m mw_readyD [OF r] by (simp add: mwWriteString_def)
  ultimately show thesis using that s wi by blast
qed

lemma mwReadFrom_sends:
  assumes r: "mw_ready w c"
  obtains w' c' fs r' where "mwReadFrom src w c =
      Some ((length (src_data src), if src_err src = IoEOF then None else Some (src_err src)), r', w', c')"
    and "sends w c fs (src_data src) w' c'" and "mw_ready w' c'"
    and "within (writeFrameSize c) fs"
proof -
  obtain w' c' fs r' where m: "mwReadFrom_loop 0 src w c =
      Some ((0 + length (src_data src), if src_err src = IoEOF then None else Some (src_err src)), r', w', c')"
    and s: "sends w c fs (src_data src) w' c'"
    and wi: "within (writeFrameSize c) fs" and "in_cap w' c'"
    using mwReadFrom_loop_sends [of w c 0 src] mw_readyD [OF r] by blast
  then have "mw_ready w' c'" by (intro mw_ready_sends [OF r s])
  moreover have "mwReadFrom src w c =
      Some ((length (src_data src), if src_err src = IoEOF then None else Some (src_err src)), r', w', c')"
    using m mw_readyD [OF r] by (simp add: mwReadFrom_def)
  ultimately show thesis using that s wi by blast
qed

section \<open>Closing the writer\<close>

text \<open>The connection after the final frame: the writer is gone, its buffer back in the pool if
  there is one, and the write lock free.\<close>

definition after_end :: "'a conn_scheme \<Rightarrow> 'a conn_scheme" where
  "after_end c =
     (let c1 = c\<lparr>writer := None\<rparr>;
          c2 = (if writePool c1 then c1\<lparr>poolPuts := poolPuts c1 @ [bufOf c1], writeBuf := None\<rparr> else c1)
      in c2\<lparr>writeMu := True\<rparr>)"

lemma after_end_simps [simp]:
  "wire (after_end c) = wire c" "writeMu (after_end c)" "writer (after_end c) = None"
  "writeErr (after_end c) = writeErr c" "netScript (after_end c) = netScript c"
  "mu (after_end c) = mu c" "isServer (after_end c) = isServer c"
  "maskFrames (after_end c) = maskFrames c" "writeFrameSize (after_end c) = writeFrameSize c"
  "writeDeadline (after_end c) = writeDeadline c" "writePool (after_end c) = writePool c"
  "now (after_end c) = now c"
  by (simp_all add: after_end_def Let_def maskFrames_def)

lemma endMessage_open:
  "werr w = None \<Longrightarrow> \<not> writeMu c \<Longrightarrow>
   endMessage err w c = Some (w\<lparr>werr := Some err\<rparr>, after_end c)"
  by (simp add: endMessage_def releaseWriteMu_def after_end_def Let_def)

lemma endMessage_done: "werr w \<noteq> None \<Longrightarrow> endMessage err w c = Some (w, c)"
  by (simp add: endMessage_def)

lemma final_flush:
  assumes w: "writer_ok w c" and n: "net_ok c" and e: "maskFrames c \<Longrightarrow> extra = []"
    and k: "isControl (frameType w) \<Longrightarrow> length (pending w c @ extra) \<le> maxControlFramePayloadSize"
    and l: "\<not> writeMu c"
  obtains w' buf where
    "flushFrame True extra w c =
       Some (None, w', after_end (after_frame (frame_of True extra w c) buf c))"
    and "werr w' = Some ErrWriteClosed" and "length buf = length (bufOf c)"
proof -
  obtain buf where lb: "length buf = length (bufOf c)"
    and eq: "flushFrame True extra w c =
      (let w1 = w\<lparr>compress := False\<rparr>; c1 = after_frame (frame_of True extra w c) buf c in
       if True then do { (w2, c2) \<leftarrow> endMessage ErrWriteClosed w1 c1; Some (None, w2, c2) }
       else Some (None, w1\<lparr>pos := maxFrameHeaderSize, frameType := continuationFrame\<rparr>, c1))"
    by (rule flush_wire [OF w n, of extra True]) (use e k in auto)
  have "werr (w\<lparr>compress := False\<rparr>) = None" using w by (simp add: writer_ok_def)
  moreover have "\<not> writeMu (after_frame (frame_of True extra w c) buf c)"
    using l by (simp add: after_frame_def)
  ultimately show thesis using that lb eq by (simp add: Let_def endMessage_open)
qed

text \<open>Closing a writer that has sent fragments and holds the rest of the data makes a message.\<close>

lemma close_message:
  assumes s: "sends w c fs data w1 c1" and n: "net_ok c" and l: "\<not> writeMu c"
    and p: "pending w c = []" and t: "\<not> isControl (frameType w)" and cap: "in_cap w1 c1"
  obtains w2 buf g where
    "mwClose w1 c1 = Some (None, w2, after_end (after_frame g buf c1))"
    and "message_frames (frameType w) (compress w) data (fs @ [g])"
    and "list_all (\<lambda>f. is_masked f = maskFrames c) (fs @ [g])"
    and "within (writeFrameSize c) [g]"
    and "werr w2 = Some ErrWriteClosed" and "length buf = length (bufOf c1)"
    and "opcode g = frameType w1"
proof -
  define g where "g = frame_of True [] w1 c1"
  have ok: "writer_ok w1 c1" "net_ok c1" "\<not> isControl (frameType w1)" "\<not> writeMu c1"
    using s n l sends_simps [OF s] sends_data [OF s t] by (auto simp: sends_def only_wire_fields)
  obtain w2 buf where "flushFrame True [] w1 c1 = Some (None, w2, after_end (after_frame g buf c1))"
    and e: "werr w2 = Some ErrWriteClosed" and lb: "length buf = length (bufOf c1)"
    unfolding g_def by (rule final_flush [of w1 c1 "[]"]) (use ok in auto)
  then have "mwClose w1 c1 = Some (None, w2, after_end (after_frame g buf c1))"
    using ok by (simp add: mwClose_def writer_ok_def)
  moreover have "message_frames (frameType w) (compress w) data (fs @ [g])"
    by (rule message_framesI) (use s p in \<open>auto simp: sends_def g_def\<close>)
  moreover have "list_all (\<lambda>f. is_masked f = maskFrames c) (fs @ [g])"
    using s mkey_frame_of [of True "[]" w1 c1] sends_simps [OF s]
    by (auto simp: sends_def g_def)
  moreover have "within (writeFrameSize c) [g]"
    using cap ok sends_simps [OF s] by (simp add: g_def in_cap_def pending_length)
  ultimately show thesis using that e lb by (simp add: g_def)
qed

section \<open>Idle and busy connections\<close>

text \<open>Every buffer the connection has or can get has room for a header and a byte of payload.\<close>

definition buffers_ok :: "'a conn_scheme \<Rightarrow> bool" where
  "buffers_ok c \<longleftrightarrow>
     maxFrameHeaderSize < writeBufSize c \<and>
     list_all (\<lambda>b. case b of None \<Rightarrow> True | Some b \<Rightarrow> maxFrameHeaderSize < length b) (poolScript c) \<and>
     (case writeBuf c of None \<Rightarrow> writePool c | Some b \<Rightarrow> maxFrameHeaderSize < length b)"

definition deadline_ok :: "'a conn_scheme \<Rightarrow> bool" where
  "deadline_ok c \<longleftrightarrow> writeDeadline c = None \<or> now c < the (writeDeadline c)"

text \<open>Ready for the next message; and in the middle of one.\<close>

definition idle :: "'a conn_scheme \<Rightarrow> bool" where
  "idle c \<longleftrightarrow> net_ok c \<and> writeMu c \<and> writer c = None \<and> deadline_ok c \<and> buffers_ok c"

definition busy :: "'a conn_scheme \<Rightarrow> bool" where
  "busy c \<longleftrightarrow> net_ok c \<and> \<not> writeMu c \<and> deadline_ok c \<and> buffers_ok c \<and> has_room c"

definition same_config :: "'a conn_scheme \<Rightarrow> 'b conn_scheme \<Rightarrow> bool" where
  "same_config c c' \<longleftrightarrow>
     isServer c' = isServer c \<and> disableMask c' = disableMask c \<and> writePool c' = writePool c \<and>
     writeFrameSize c' = writeFrameSize c \<and> writeDeadline c' = writeDeadline c \<and>
     enableWriteCompression c' = enableWriteCompression c \<and>
     compressionLevel c' = compressionLevel c \<and>
     newCompressionWriter c' = newCompressionWriter c \<and>
     skipUTF8Validation c' = skipUTF8Validation c \<and> now c' = now c \<and>
     read_side c' = read_side c"

lemma same_config_trans: "same_config a b \<Longrightarrow> same_config b c \<Longrightarrow> same_config a c"
  by (simp add: same_config_def)

lemma acquire_idle: "idle c \<Longrightarrow> acquireWriteMu (writeDeadline c) c = Some (None, c\<lparr>writeMu := False\<rparr>)"
  by (auto simp: idle_def acquireWriteMu_def deadline_ok_def split: option.splits)

text \<open>Beginning a message on an idle connection.\<close>

lemma begin_ready:
  assumes c: "idle c" and t: "isControl t \<or> isData t"
  obtains wb s where
    "beginMessage' t (c\<lparr>writeMu := False\<rparr>) =
       (None, newMessageWriter\<lparr>frameType := t, pos := maxFrameHeaderSize\<rparr>,
        c\<lparr>writeMu := False, writeBuf := wb, poolScript := s\<rparr>)"
    and "busy (c\<lparr>writeMu := False, writeBuf := wb, poolScript := s\<rparr>)"
proof (cases "writeBuf c")
  case (Some b)
  then show thesis
    using that [of "poolScript c" "Some b"] t c
    by (auto simp: beginMessage'_def idle_def busy_def net_ok_def deadline_ok_def buffers_ok_def
        has_room_def bufOf_def Let_def)
next
  case None
  show thesis
  proof (cases "poolScript c")
    case Nil
    then show thesis
      using that [of "[]" "Some (replicate (writeBufSize c) 0)"] None t c
      by (auto simp: beginMessage'_def idle_def busy_def net_ok_def deadline_ok_def buffers_ok_def
          has_room_def bufOf_def Let_def)
  next
    case (Cons x s)
    then show thesis
      using that [of s "Some (case x of Some b \<Rightarrow> b | None \<Rightarrow> replicate (writeBufSize c) 0)"] None t c
      by (auto simp: beginMessage'_def idle_def busy_def net_ok_def deadline_ok_def buffers_ok_def
          has_room_def bufOf_def Let_def split: option.splits)
  qed
qed

lemma busy_writer [simp]: "busy (c\<lparr>writer := x\<rparr>) = busy c"
  by (simp add: busy_def net_ok_def deadline_ok_def buffers_ok_def has_room_def bufOf_def split: option.split)

lemma begun_ready:
  "busy c \<Longrightarrow> isData t \<Longrightarrow>
   mw_ready (newMessageWriter\<lparr>frameType := t, pos := maxFrameHeaderSize, compress := z\<rparr>) c"
  by (auto simp: mw_ready_def writer_ok_def busy_def in_cap_def has_room_def newMessageWriter_def
      isControl_def isData_def message_types bufOf_def split: option.splits)

text \<open>After the final frame the connection is idle again.\<close>

lemma end_idle:
  assumes "busy c0" and "only_wire c0 c1" and "maxFrameHeaderSize < length buf"
    and "opcode g \<noteq> CloseMessage"
  shows "idle (after_end (after_frame g buf c1))" and "same_config c0 (after_end (after_frame g buf c1))"
proof -
  obtain i b d wi where "c1 = c0\<lparr>maskIdx := i, writeBuf := b, netWriteDeadline := d, wire := wi\<rparr>"
    using assms(2) unfolding only_wire_def by blast
  then show "idle (after_end (after_frame g buf c1))" and "same_config c0 (after_end (after_frame g buf c1))"
    using assms
    by (simp_all add: after_end_def after_frame_def idle_def busy_def net_ok_def deadline_ok_def
        buffers_ok_def Let_def same_config_def)
qed

end
