(* ===== verification/FlateWriter.thy ===== *)
theory FlateWriter
  imports ConnBase
begin

text \<open>
  The write side of compression.go: the truncating writer that holds back the last four bytes of a
  deflate stream, and the wrappers that drive a \<open>flate.Writer\<close> into it. The package compress/flate
  is a parameter: a record of operations that give, for a write and for a flush, the chunks the
  compressor writes to its destination.
\<close>

section \<open>Destinations\<close>

text \<open>The \<open>Write\<close> method of a destination whose effect is on the state \<open>'s\<close>.\<close>

type_synonym 's sink = "bytes \<Rightarrow> 's \<Rightarrow> ((nat \<times> gerror option) \<times> 's) option"

text \<open>
  What a destination that works promises: a write takes all bytes and leaves it working. What it
  has taken is told by a relation between its states that composes.
\<close>

locale byte_sink =
  fixes put :: "'s sink" and ready :: "'s \<Rightarrow> bool" and took :: "'s \<Rightarrow> bytes \<Rightarrow> 's \<Rightarrow> bool"
  assumes put_takes: "ready s \<Longrightarrow> \<exists>s'. put p s = Some ((length p, None), s') \<and> ready s' \<and> took s p s'"
    and took_none: "ready s \<Longrightarrow> took s [] s"
    and took_append: "took s p s1 \<Longrightarrow> took s1 q s2 \<Longrightarrow> took s (p @ q) s2"

section \<open>The truncating writer\<close>

record truncWriter =
  twN :: nat
  twP :: bytes

definition newTruncWriter :: truncWriter where
  "newTruncWriter = \<lparr>twN = 0, twP = [0, 0, 0, 0]\<rparr>"

text \<open>Filling the buffer, and the shift that keeps the last four bytes.\<close>

definition truncFill :: "bytes \<Rightarrow> truncWriter \<Rightarrow> nat \<times> truncWriter" where
  "truncFill p t =
     (if twN t < 4 then
        (min (4 - twN t) (length p),
         t\<lparr>twN := twN t + min (4 - twN t) (length p), twP := copy_at (twN t) p (twP t)\<rparr>)
      else (0, t))"

definition truncShift :: "nat \<Rightarrow> bytes \<Rightarrow> bytes \<Rightarrow> bytes" where
  "truncShift m p buf = copy_at (4 - m) (drop (length p - m) p) (copy_at 0 (drop m buf) buf)"

definition truncWrite ::
  "'s sink \<Rightarrow> bytes \<Rightarrow> truncWriter \<Rightarrow> 's \<Rightarrow> ((nat \<times> gerror option) \<times> truncWriter \<times> 's) option" where
  "truncWrite put p0 t0 s =
     (let (n, t) = truncFill p0 t0;
          p = drop n p0;
          m = min (length p) 4
      in if twN t0 < 4 \<and> length p = 0 then Some ((n, None), t, s)
         else
           do { ((nn, err), s1) \<leftarrow> put (take m (twP t)) s;
                if err \<noteq> None then Some ((n + nn, err), t, s1)
                else
                  do { ((nn2, err2), s2) \<leftarrow> put (take (length p - m) p) s1;
                       Some ((n + nn2, err2), t\<lparr>twP := truncShift m p (twP t)\<rparr>, s2) } })"

text \<open>The bytes held back.\<close>

definition held :: "truncWriter \<Rightarrow> bytes" where
  "held t = take (twN t) (twP t)"

definition trunc_ok :: "truncWriter \<Rightarrow> bool" where
  "trunc_ok t \<longleftrightarrow> length (twP t) = 4 \<and> twN t \<le> 4"

lemma trunc_new [simp]: "trunc_ok newTruncWriter" "held newTruncWriter = []"
  by (simp_all add: trunc_ok_def newTruncWriter_def held_def)

lemma held_full: "trunc_ok t \<Longrightarrow> 4 \<le> length (held t) \<Longrightarrow> held t = twP t"
  by (simp add: trunc_ok_def held_def)

lemma fill_ok:
  assumes "trunc_ok t" and "truncFill p t = (n, t1)"
  shows "trunc_ok t1" "held t1 = held t @ take n p" "twN t1 = twN t + n" "n \<le> length p"
    "twN t1 < 4 \<Longrightarrow> n = length p"
  using assms by (auto simp: truncFill_def trunc_ok_def held_def copy_at_def min_def split: if_splits)

lemma shift_tail:
  assumes "length h = 4" and "m = min (length p) 4"
  shows "length (truncShift m p h) = 4"
    and "take m h @ take (length p - m) p @ truncShift m p h = h @ p"
proof -
  have "copy_at 0 (drop m h) h = drop m h @ drop (4 - m) h"
    using assms by (simp add: copy_at_def)
  moreover have "take (4 - m) (drop m h @ drop (4 - m) h) = drop m h" using assms by simp
  ultimately have eq: "truncShift m p h = drop m h @ drop (length p - m) p"
    using assms by (simp add: truncShift_def copy_at_def)
  show "length (truncShift m p h) = 4" unfolding eq using assms by (simp add: min_def)
  show "take m h @ take (length p - m) p @ truncShift m p h = h @ p"
    unfolding eq by (cases "length p \<le> 4") (use assms in simp_all)
qed

context byte_sink
begin

text \<open>Whatever is written, the destination has all of the stream but the bytes held back, which are
  its last four (all of it while it is shorter).\<close>

lemma truncWrite_takes:
  assumes t: "trunc_ok t" and s: "ready s"
  obtains n t' s' out where "truncWrite put p t s = Some ((n, None), t', s')"
    and "ready s'" and "took s out s'" and "trunc_ok t'" and "out @ held t' = held t @ p"
    and "length (held t') = min 4 (length (held t @ p))"
proof -
  obtain n t1 where f: "truncFill p t = (n, t1)" by fastforce
  note t1 = fill_ok [OF t f]
  define q where "q = drop n p"
  define m where "m = min (length q) 4"
  have hq: "held t1 @ q = held t @ p" using t1 by (simp add: q_def)
  have l4: "length (twP t1) = 4" and n4: "twN t1 \<le> 4" using t1 by (simp_all add: trunc_ok_def)
  note eq = truncWrite_def Let_def f split_conv q_def [symmetric] m_def [symmetric]
  show thesis
  proof (cases "twN t < 4 \<and> length q = 0")
    case True
    then have "truncWrite put p t s = Some ((n, None), t1, s)" unfolding eq by simp
    moreover have "held t1 = held t @ p" using True hq by simp
    moreover have "length (held t1) \<le> 4" using n4 by (simp add: held_def)
    ultimately show thesis using that [of n t1 s "[]"] s t1(1) took_none by simp
  next
    case False
    have "\<not> twN t1 < 4"
    proof
      assume "twN t1 < 4"
      then show False using False t1(3,5) by (simp add: q_def)
    qed
    then have full: "twN t1 = 4" using n4 by simp
    obtain s1 where p1: "put (take m (twP t1)) s = Some ((length (take m (twP t1)), None), s1)"
      and s1: "ready s1" and k1: "took s (take m (twP t1)) s1" using put_takes [OF s] by blast
    obtain s2 where p2: "put (take (length q - m) q) s1 = Some ((length (take (length q - m) q), None), s2)"
      and s2: "ready s2" and k2: "took s1 (take (length q - m) q) s2" using put_takes [OF s1] by blast
    define t' where "t' = t1\<lparr>twP := truncShift m q (twP t1)\<rparr>"
    have w: "truncWrite put p t s = Some ((n + length (take (length q - m) q), None), t', s2)"
      unfolding eq if_not_P [OF False] by (simp add: p1 p2 t'_def)
    have h': "held t' = truncShift m q (twP t1)" and ok': "trunc_ok t'"
      using full shift_tail(1) [OF l4 m_def] by (simp_all add: t'_def held_def trunc_ok_def)
    have "held t1 = twP t1" using full l4 by (simp add: held_def)
    then have whole: "(take m (twP t1) @ take (length q - m) q) @ held t' = held t @ p"
      using shift_tail(2) [OF l4 m_def] hq by (simp add: h')
    moreover have "length (held t') = min 4 (length (held t @ p))"
      using arg_cong [OF hq, of length] \<open>held t1 = twP t1\<close> l4 shift_tail(1) [OF l4 m_def]
      by (simp add: h')
    ultimately show thesis using that [OF w s2 took_append [OF k1 k2] ok'] by blast
  qed
qed

end

section \<open>The compressor and its wrappers\<close>

text \<open>What the code uses of a \<open>flate.Writer\<close>: a new one for a level, a write and a flush, each giving
  the chunks written to the destination, one write each.\<close>

record 'z flate_ops =
  fl_new :: "int \<Rightarrow> 'z"
  fl_write :: "bytes \<Rightarrow> 'z \<Rightarrow> bytes list \<times> 'z"
  fl_flush :: "'z \<Rightarrow> bytes list \<times> 'z"

text \<open>A \<open>flate.Writer\<close> on a truncating writer. An error of the destination sticks to the compressor.\<close>

record 'z flateWriter =
  fw :: 'z
  fwErr :: "gerror option"
  tw :: truncWriter

fun feed :: "'s sink \<Rightarrow> bytes list \<Rightarrow> truncWriter \<Rightarrow> 's \<Rightarrow> (gerror option \<times> truncWriter \<times> 's) option" where
  "feed put [] t s = Some (None, t, s)"
| "feed put (p # ps) t s =
     do { ((n, err), t1, s1) \<leftarrow> truncWrite put p t s;
          if err \<noteq> None then Some (err, t1, s1) else feed put ps t1 s1 }"

definition flateWrite ::
  "'z flate_ops \<Rightarrow> 's sink \<Rightarrow> bytes \<Rightarrow> 'z flateWriter \<Rightarrow> 's \<Rightarrow>
     ((nat \<times> gerror option) \<times> 'z flateWriter \<times> 's) option" where
  "flateWrite ops put p f s =
     (if fwErr f \<noteq> None then Some ((0, fwErr f), f, s)
      else
        let (chunks, z) = fl_write ops p (fw f) in
        do { (err, t, s1) \<leftarrow> feed put chunks (tw f) s;
             Some ((if err \<noteq> None then 0 else length p, err), \<lparr>fw = z, fwErr = err, tw = t\<rparr>, s1) })"

definition flateFlush ::
  "'z flate_ops \<Rightarrow> 's sink \<Rightarrow> 'z flateWriter \<Rightarrow> 's \<Rightarrow> (gerror option \<times> 'z flateWriter \<times> 's) option" where
  "flateFlush ops put f s =
     (if fwErr f \<noteq> None then Some (fwErr f, f, s)
      else
        let (chunks, z) = fl_flush ops (fw f) in
        do { (err, t, s1) \<leftarrow> feed put chunks (tw f) s;
             Some (err, \<lparr>fw = z, fwErr = err, tw = t\<rparr>, s1) })"

definition errFlateTail :: gerror where
  "errFlateTail = ErrNew ''websocket: internal error, unexpected bytes at end of flate stream''"

text \<open>\<open>Close\<close> of both wrappers, once it has found the wrapper open: flush, check the tail, close the
  destination.\<close>

definition flateClose ::
  "'z flate_ops \<Rightarrow> 's sink \<Rightarrow> ('s \<Rightarrow> (gerror option \<times> 's) option) \<Rightarrow> 'z flateWriter \<Rightarrow> 's \<Rightarrow>
     (gerror option \<times> 'z flateWriter \<times> 's) option" where
  "flateClose ops put cls f s =
     do { (err1, f1, s1) \<leftarrow> flateFlush ops put f s;
          if twP (tw f1) \<noteq> [0, 0, 0xff, 0xff] then Some (Some errFlateTail, f1, s1)
          else
            do { (err2, s2) \<leftarrow> cls s1;
                 Some (if err1 \<noteq> None then err1 else err2, f1, s2) } }"

definition newFlateWriter :: "'z flate_ops \<Rightarrow> int \<Rightarrow> 'z flateWriter" where
  "newFlateWriter ops level = \<lparr>fw = fl_new ops level, fwErr = None, tw = newTruncWriter\<rparr>"

text \<open>The stream a compressor makes of the writes of one message and the flush at its end.\<close>

fun flate_writes :: "'z flate_ops \<Rightarrow> bytes list \<Rightarrow> 'z \<Rightarrow> bytes \<times> 'z" where
  "flate_writes ops [] z = ([], z)"
| "flate_writes ops (p # ps) z =
     (let (cs, z1) = fl_write ops p z; (out, z2) = flate_writes ops ps z1 in (concat cs @ out, z2))"

definition flate_stream :: "'z flate_ops \<Rightarrow> bytes list \<Rightarrow> 'z \<Rightarrow> bytes" where
  "flate_stream ops ps z = (let (out, z1) = flate_writes ops ps z in out @ concat (fst (fl_flush ops z1)))"

text \<open>Documented behaviour of \<open>Flush\<close>: it ends in a sync marker, an empty stored block.\<close>

definition sync_flush :: "'z flate_ops \<Rightarrow> bool" where
  "sync_flush ops \<longleftrightarrow> (\<forall>z. \<exists>p. concat (fst (fl_flush ops z)) = p @ [0, 0, 0xff, 0xff])"

context byte_sink
begin

lemma feed_takes:
  assumes "trunc_ok t" and "ready s"
  obtains t' s' out where "feed put ps t s = Some (None, t', s')"
    and "ready s'" and "took s out s'" and "trunc_ok t'" and "out @ held t' = held t @ concat ps"
    and "length (held t') = min 4 (length (held t @ concat ps))"
  using assms
proof (induction ps arbitrary: t s thesis)
  case Nil
  have "length (held t) \<le> 4" using Nil.prems by (simp add: held_def trunc_ok_def)
  then show ?case using Nil.prems(1) [of t s "[]"] Nil.prems(2,3) took_none [of s] by simp
next
  case (Cons p ps)
  obtain n t1 s1 out1 where w: "truncWrite put p t s = Some ((n, None), t1, s1)"
    and s1: "ready s1" and k1: "took s out1 s1" and t1: "trunc_ok t1"
    and o1: "out1 @ held t1 = held t @ p" and l1: "length (held t1) = min 4 (length (held t @ p))"
    using truncWrite_takes [OF Cons.prems(2,3)] by blast
  obtain t2 s2 out2 where f: "feed put ps t1 s1 = Some (None, t2, s2)"
    and s2: "ready s2" and k2: "took s1 out2 s2" and t2: "trunc_ok t2"
    and o2: "out2 @ held t2 = held t1 @ concat ps"
    and l2: "length (held t2) = min 4 (length (held t1 @ concat ps))"
    using Cons.IH [OF _ t1 s1] by blast
  have "(out1 @ out2) @ held t2 = held t @ concat (p # ps)"
    using o1 o2 by (metis append_assoc concat.simps(2))
  moreover have "length (held t2) = min 4 (length (held t @ concat (p # ps)))"
    using l1 l2 by (simp add: min_def split: if_splits)
  ultimately show ?case
    using Cons.prems(1) [OF _ s2 took_append [OF k1 k2] t2] w f by simp
qed

end

text \<open>A compressor in the middle of a message: after the writes \<open>ps\<close> the destination has taken \<open>out\<close>,
  which is the stream so far but for the bytes held back.\<close>

definition flate_inv :: "'z flate_ops \<Rightarrow> 'z \<Rightarrow> bytes list \<Rightarrow> bytes \<Rightarrow> 'z flateWriter \<Rightarrow> bool" where
  "flate_inv ops z0 ps out f \<longleftrightarrow>
     fwErr f = None \<and> trunc_ok (tw f) \<and> fw f = snd (flate_writes ops ps z0) \<and>
     out @ held (tw f) = fst (flate_writes ops ps z0)"

lemma flate_writes_snoc:
  "flate_writes ops (ps @ [p]) z0 =
     (let (out, z) = flate_writes ops ps z0; (cs, z1) = fl_write ops p z in (out @ concat cs, z1))"
  by (induction ps arbitrary: z0) (simp_all add: Let_def split_beta)

lemma flate_inv_new:
  "flate_inv ops (fl_new ops level) [] [] (newFlateWriter ops level)"
  "fwErr f = None \<Longrightarrow> flate_inv ops (fw f) [] [] (f\<lparr>tw := newTruncWriter\<rparr>)"
  by (simp_all add: flate_inv_def newFlateWriter_def)

context byte_sink
begin

lemma flateWrite_takes:
  assumes f: "flate_inv ops z0 ps out f" and s: "ready s"
  obtains f' s' o' where "flateWrite ops put p f s = Some ((length p, None), f', s')"
    and "ready s'" and "took s o' s'" and "flate_inv ops z0 (ps @ [p]) (out @ o') f'"
proof -
  obtain cs z where w: "fl_write ops p (fw f) = (cs, z)" by fastforce
  obtain t' s' o' where fd: "feed put cs (tw f) s = Some (None, t', s')" and s': "ready s'"
    and k: "took s o' s'" and t': "trunc_ok t'" and o': "o' @ held t' = held (tw f) @ concat cs"
    by (rule feed_takes [of "tw f" s cs]) (use f s in \<open>auto simp: flate_inv_def\<close>)
  define f' where "f' = \<lparr>fw = z, fwErr = None, tw = t'\<rparr>"
  have "flateWrite ops put p f s = Some ((length p, None), f', s')"
    using f w fd by (simp add: flateWrite_def flate_inv_def f'_def)
  moreover have "flate_inv ops z0 (ps @ [p]) (out @ o') f'"
  proof -
    have "(out @ o') @ held t' = (out @ held (tw f)) @ concat cs" using o' by simp
    then show ?thesis
      using f w t' by (simp add: flate_inv_def f'_def flate_writes_snoc Let_def split_beta)
  qed
  ultimately show thesis using that s' k by blast
qed

text \<open>Closing: the flush ends in the sync marker, which is held back, so the check passes and the
  destination has the stream of the message without it.\<close>

lemma flateClose_takes:
  assumes f: "flate_inv ops z0 ps out f" and s: "ready s" and sy: "sync_flush ops"
  obtains f' s' o' where
    "flateClose ops put cls f s = do { (e, s2) \<leftarrow> cls s'; Some (e, f', s2) }"
    and "ready s'" and "took s o' s'" and "(out @ o') @ [0, 0, 0xff, 0xff] = flate_stream ops ps z0"
    and "fwErr f' = None" and "fw f' = snd (fl_flush ops (snd (flate_writes ops ps z0)))"
proof -
  obtain cs z where w: "fl_flush ops (fw f) = (cs, z)" by fastforce
  then obtain q where q: "concat cs = q @ [0, 0, 0xff, 0xff]"
    using sy unfolding sync_flush_def by (metis fst_conv)
  obtain t' s' o' where fd: "feed put cs (tw f) s = Some (None, t', s')" and s': "ready s'"
    and k: "took s o' s'" and t': "trunc_ok t'" and o': "o' @ held t' = held (tw f) @ concat cs"
    and l: "length (held t') = min 4 (length (held (tw f) @ concat cs))"
    by (rule feed_takes [of "tw f" s cs]) (use f s in \<open>auto simp: flate_inv_def\<close>)
  have l4: "length (held t') = 4" using l q by simp
  have "o' @ held t' = (held (tw f) @ q) @ [0, 0, 0xff, 0xff]" using o' q by simp
  then have tail: "held t' = [0, 0, 0xff, 0xff]" and o2: "o' = held (tw f) @ q"
    using append_eq_append_conv [of o' "held (tw f) @ q" "held t'" "[0, 0, 0xff, 0xff]"] l4 by simp_all
  then have p4: "twP t' = [0, 0, 0xff, 0xff]" using held_full [OF t'] l4 by simp
  define f' where "f' = \<lparr>fw = z, fwErr = None, tw = t'\<rparr>"
  have fl: "flateFlush ops put f s = Some (None, f', s')"
    using f w fd by (simp add: flateFlush_def flate_inv_def f'_def)
  have "flateClose ops put cls f s = do { (e, s2) \<leftarrow> cls s'; Some (e, f', s2) }"
    using p4 by (simp add: flateClose_def fl f'_def)
  moreover have "(out @ o') @ [0, 0, 0xff, 0xff] = flate_stream ops ps z0"
    using f w q o2 by (simp add: flate_stream_def flate_inv_def split_beta)
  moreover have "fwErr f' = None" by (simp add: f'_def)
  moreover have "fw f' = snd (fl_flush ops (snd (flate_writes ops ps z0)))"
    using f w by (simp add: f'_def flate_inv_def)
  ultimately show thesis using that s' k by blast
qed

end

section \<open>The compressor at level 0\<close>

text \<open>
  \<open>flate.NoCompression\<close>, the one level whose output the format fixes: data is gathered in blocks of
  at most 65535 bytes, each written as a stored block; a flush writes what there is and an empty
  stored block.
\<close>

definition maxStoreBlockSize :: nat where
  "maxStoreBlockSize = 65535"

definition stored_header :: "nat \<Rightarrow> bytes" where
  "stored_header n = (let l = be_bytes 2 n; r = rev l in [0] @ r @ map (\<lambda>b. NOT b) r)"

function stored_write :: "bytes \<Rightarrow> bytes \<Rightarrow> bytes list \<times> bytes" where
  "stored_write p win =
     (if p = [] then ([], win)
      else if length win < maxStoreBlockSize then
        let k = maxStoreBlockSize - length win in stored_write (drop k p) (win @ take k p)
      else
        let (cs, z) = stored_write (drop maxStoreBlockSize p) (take maxStoreBlockSize p)
        in ([stored_header (length win), win] @ cs, z))"
  by pat_completeness auto
termination
proof (relation "measure (\<lambda>(p, win). length p)", goal_cases)
  case 1
  show ?case by simp
next
  case (2 p win k)
  then have "0 < length p" "0 < k" by simp_all
  then show ?case by simp
next
  case (3 p win)
  then have "0 < length p" by simp
  then show ?case by (simp add: maxStoreBlockSize_def)
qed

declare stored_write.simps [simp del]

definition stored_flush :: "bytes \<Rightarrow> bytes list \<times> bytes" where
  "stored_flush win =
     ((if win = [] then [] else [stored_header (length win), win]) @ [stored_header 0], [])"

definition stored_ops :: "bytes flate_ops" where
  "stored_ops = \<lparr>fl_new = (\<lambda>level. []), fl_write = stored_write, fl_flush = stored_flush\<rparr>"

lemma stored_marker: "stored_header 0 = [0, 0, 0, 0xff, 0xff]"
  by (simp add: stored_header_def be_bytes_def upt_rec [of _ 2] upt_rec [of _ "Suc _"])

lemma stored_sync: "sync_flush stored_ops"
proof -
  have "concat (fst (stored_flush z)) =
      (concat (if z = [] then [] else [stored_header (length z), z]) @ [0]) @ [0, 0, 0xff, 0xff]" for z
    by (simp add: stored_flush_def stored_marker)
  then show ?thesis unfolding sync_flush_def stored_ops_def by auto
qed

end
