(* ===== verification/ConnMessage.thy ===== *)
theory ConnMessage
  imports MsgWriter FlateWriter
begin

text \<open>
  The writers conn.go gives to the application: a message writer, below a compressor when
  compression is on, below a UTF-8 validator for text messages. The connection is extended by the
  writers made so far, which the application and the connection refer to by their index, and by the
  persistent compressor of the context takeover mode with the writer it was last directed at.
\<close>

section \<open>Data\<close>

text \<open>\<open>utf8ValidatingWriter\<close>, without the writer it wraps.\<close>

record utf8Writer =
  uwState :: nat
  uwCodepoint :: rune
  uwFailed :: bool

text \<open>The compression wrapper of a writer: none, \<open>flateWriteWrapper\<close> with its own compressor, or
  \<open>flateTakeoverWriteWrapper\<close>, which refers to the connection's. The flag tells whether it is open.\<close>

datatype 'z compWrapper = NoComp | PoolComp bool "'z flateWriter" | TakeComp bool

record 'z pipe =
  mw :: messageWriter
  comp :: "'z compWrapper"
  utf8 :: "utf8Writer option"

record 'z wconn = conn +
  writers :: "'z pipe list"
  factory :: "('z flateWriter \<times> nat) option"

definition set_mw :: "nat \<Rightarrow> messageWriter \<Rightarrow> 'z wconn \<Rightarrow> 'z wconn" where
  "set_mw i w c = c\<lparr>writers := (writers c)[i := (writers c ! i)\<lparr>mw := w\<rparr>]\<rparr>"

definition set_comp :: "nat \<Rightarrow> 'z compWrapper \<Rightarrow> 'z wconn \<Rightarrow> 'z wconn" where
  "set_comp i x c = c\<lparr>writers := (writers c)[i := (writers c ! i)\<lparr>comp := x\<rparr>]\<rparr>"

definition set_utf8 :: "nat \<Rightarrow> utf8Writer \<Rightarrow> 'z wconn \<Rightarrow> 'z wconn" where
  "set_utf8 i u c = c\<lparr>writers := (writers c)[i := (writers c ! i)\<lparr>utf8 := Some u\<rparr>]\<rparr>"

section \<open>The message writer as a destination\<close>

definition mwPut :: "(messageWriter \<times> 'a conn_scheme) sink" where
  "mwPut p s = (case s of (w, c) \<Rightarrow> do { (r, w', c') \<leftarrow> mwWrite p w c; Some (r, (w', c')) })"

definition mwCls :: "(messageWriter \<times> 'a conn_scheme) \<Rightarrow> (gerror option \<times> messageWriter \<times> 'a conn_scheme) option" where
  "mwCls s = (case s of (w, c) \<Rightarrow> mwClose w c)"

section \<open>The compression layer\<close>

definition compWrite :: "'z flate_ops \<Rightarrow> nat \<Rightarrow> bytes \<Rightarrow> 'z wconn \<Rightarrow> ((nat \<times> gerror option) \<times> 'z wconn) option" where
  "compWrite ops i p c =
     (case comp (writers c ! i) of
        NoComp \<Rightarrow>
          do { (r, w, c1) \<leftarrow> mwWrite p (mw (writers c ! i)) c; Some (r, set_mw i w c1) }
      | PoolComp opn f \<Rightarrow>
          if \<not> opn then Some ((0, Some ErrWriteClosed), c)
          else do { (r, f', w, c1) \<leftarrow> flateWrite ops mwPut p f (mw (writers c ! i), c);
                    Some (r, set_comp i (PoolComp True f') (set_mw i w c1)) }
      | TakeComp opn \<Rightarrow>
          if \<not> opn then Some ((0, Some ErrWriteClosed), c)
          else do { (f, d) \<leftarrow> factory c;
                    (r, f', w, c1) \<leftarrow> flateWrite ops mwPut p f (mw (writers c ! d), c);
                    Some (r, (set_mw d w c1)\<lparr>factory := Some (f', d)\<rparr>) })"

definition compClose :: "'z flate_ops \<Rightarrow> nat \<Rightarrow> 'z wconn \<Rightarrow> (gerror option \<times> 'z wconn) option" where
  "compClose ops i c =
     (case comp (writers c ! i) of
        NoComp \<Rightarrow>
          do { (e, w, c1) \<leftarrow> mwClose (mw (writers c ! i)) c; Some (e, set_mw i w c1) }
      | PoolComp opn f \<Rightarrow>
          if \<not> opn then Some (None, c)
          else do { (e, f', w, c1) \<leftarrow> flateClose ops mwPut mwCls f (mw (writers c ! i), c);
                    Some (e, set_comp i (PoolComp False f') (set_mw i w c1)) }
      | TakeComp opn \<Rightarrow>
          if \<not> opn then Some (None, c)
          else do { (f, d) \<leftarrow> factory c;
                    (e, f', w, c1) \<leftarrow> flateClose ops mwPut mwCls f (mw (writers c ! d), c);
                    Some (e, set_comp i (TakeComp False) ((set_mw d w c1)\<lparr>factory := Some (f', d)\<rparr>)) })"

section \<open>The UTF-8 layer\<close>

text \<open>The scan of \<open>utf8ValidatingWriter.Write\<close>: the automaton's state after it, and the index of the
  byte that was rejected.\<close>

fun utf8Scan :: "nat \<Rightarrow> nat \<Rightarrow> rune \<Rightarrow> bytes \<Rightarrow> nat \<times> rune \<times> nat option" where
  "utf8Scan i st x [] = (st, x, None)"
| "utf8Scan i st x (b # p) =
     (let (st', x') = utf8DFAStep st x b in
      if st' = utf8Reject then (st', x', Some i) else utf8Scan (Suc i) st' x' p)"

definition pipeWrite :: "'z flate_ops \<Rightarrow> nat \<Rightarrow> bytes \<Rightarrow> 'z wconn \<Rightarrow> ((nat \<times> gerror option) \<times> 'z wconn) option" where
  "pipeWrite ops i p c =
     (case utf8 (writers c ! i) of
        None \<Rightarrow> compWrite ops i p c
      | Some u \<Rightarrow>
          if uwFailed u then Some ((0, Some ErrInvalidUTF8), c)
          else (case utf8Scan 0 (uwState u) (uwCodepoint u) p of
                  (st, x, Some k) \<Rightarrow>
                    Some ((k, Some ErrInvalidUTF8), set_utf8 i \<lparr>uwState = st, uwCodepoint = x, uwFailed = True\<rparr> c)
                | (st, x, None) \<Rightarrow>
                    compWrite ops i p (set_utf8 i \<lparr>uwState = st, uwCodepoint = x, uwFailed = False\<rparr> c)))"

definition pipeClose :: "'z flate_ops \<Rightarrow> nat \<Rightarrow> 'z wconn \<Rightarrow> (gerror option \<times> 'z wconn) option" where
  "pipeClose ops i c =
     (case utf8 (writers c ! i) of
        None \<Rightarrow> compClose ops i c
      | Some u \<Rightarrow>
          if uwFailed u then do { (e, c1) \<leftarrow> compClose ops i c; Some (Some ErrInvalidUTF8, c1) }
          else if uwState u \<noteq> utf8Accept then
            do { (e, c1) \<leftarrow> compClose ops i (set_utf8 i (u\<lparr>uwFailed := True\<rparr>) c); Some (Some ErrInvalidUTF8, c1) }
          else compClose ops i c)"

section \<open>Messages\<close>

definition beginMessage ::
  "'z flate_ops \<Rightarrow> int \<Rightarrow> 'z wconn \<Rightarrow> (gerror option \<times> messageWriter \<times> 'z wconn) option" where
  "beginMessage ops messageType c =
     (case writer c of
        None \<Rightarrow> Some (beginMessage' messageType c)
      | Some i \<Rightarrow>
          do { (e, c1) \<leftarrow> pipeClose ops i c; Some (beginMessage' messageType (c1\<lparr>writer := None\<rparr>)) })"

text \<open>\<open>c.newCompressionWriter(c.writer, c.compressionLevel)\<close> for writer number \<open>i\<close>.\<close>

definition newCompWrapper :: "'z flate_ops \<Rightarrow> nat \<Rightarrow> 'z wconn \<Rightarrow> 'z compWrapper \<times> 'z wconn" where
  "newCompWrapper ops i c =
     (case newCompressionWriter c of
        NilFn \<Rightarrow> (NoComp, c)
      | NoTakeoverFn \<Rightarrow> (PoolComp True (newFlateWriter ops (compressionLevel c)), c)
      | TakeoverFn \<Rightarrow>
          (let f = (case factory c of None \<Rightarrow> newFlateWriter ops (compressionLevel c) | Some (f, d) \<Rightarrow> f)
           in (TakeComp True, c\<lparr>factory := Some (f\<lparr>tw := newTruncWriter\<rparr>, i)\<rparr>)))"

definition compressing :: "int \<Rightarrow> 'a conn_scheme \<Rightarrow> bool" where
  "compressing t c \<longleftrightarrow> newCompressionWriter c \<noteq> NilFn \<and> enableWriteCompression c \<and> isData t"

definition validating :: "int \<Rightarrow> 'a conn_scheme \<Rightarrow> bool" where
  "validating t c \<longleftrightarrow> t = TextMessage \<and> \<not> skipUTF8Validation c"

definition NextWriter :: "'z flate_ops \<Rightarrow> int \<Rightarrow> 'z wconn \<Rightarrow> ((gerror + nat) \<times> 'z wconn) option" where
  "NextWriter ops messageType c =
     do { (err, c1) \<leftarrow> acquireWriteMu (writeDeadline c) c;
          (case err of
             Some e \<Rightarrow> Some (Inl e, c1)
           | None \<Rightarrow>
             do { (err, w, c2) \<leftarrow> beginMessage ops messageType c1;
                  (case err of
                     Some e \<Rightarrow> do { c3 \<leftarrow> releaseWriteMu c2; Some (Inl e, c3) }
                   | None \<Rightarrow>
                     (let i = length (writers c2);
                          (z, c3) = (if compressing messageType c2 then newCompWrapper ops i c2 else (NoComp, c2));
                          u = (if validating messageType c2
                               then Some \<lparr>uwState = utf8Accept, uwCodepoint = 0, uwFailed = False\<rparr> else None)
                      in Some (Inr i, c3\<lparr>writer := Some i,
                           writers := writers c3 @ [\<lparr>mw = w\<lparr>compress := compressing messageType c2\<rparr>, comp = z, utf8 = u\<rparr>]\<rparr>))) }) }"

text \<open>The part of \<open>WriteMessage\<close> that writes one frame without a writer.\<close>

definition fastMessage :: "'z flate_ops \<Rightarrow> int \<Rightarrow> bytes \<Rightarrow> 'z wconn \<Rightarrow> (gerror option \<times> 'z wconn) option" where
  "fastMessage ops messageType data c =
     do { (err, c1) \<leftarrow> acquireWriteMu (writeDeadline c) c;
          (case err of
             Some e \<Rightarrow> Some (Some e, c1)
           | None \<Rightarrow>
             do { (err, w, c2) \<leftarrow> beginMessage ops messageType c1;
                  (case err of
                     Some e \<Rightarrow> do { c3 \<leftarrow> releaseWriteMu c2; Some (Some e, c3) }
                   | None \<Rightarrow>
                     (let n = min (length (bufOf c2) - pos w) (length data);
                          c3 = c2\<lparr>writeBuf := Some (copy_at (pos w) data (bufOf c2))\<rparr>
                      in do { (e, w', c4) \<leftarrow> flushFrame True (drop n data) (w\<lparr>pos := pos w + n\<rparr>) c3;
                              Some (e, c4) })) }) }"

definition WriteMessage :: "'z flate_ops \<Rightarrow> int \<Rightarrow> bytes \<Rightarrow> 'z wconn \<Rightarrow> (gerror option \<times> 'z wconn) option" where
  "WriteMessage ops messageType data c =
     (if validating messageType c \<and> utf8DFAValidate data \<noteq> utf8Accept then
        Some (Some ErrInvalidUTF8, c)
      else if isServer c \<and> (newCompressionWriter c = NilFn \<or> \<not> enableWriteCompression c) \<and>
              (writeFrameSize c = 0 \<or> length data \<le> writeFrameSize c) then
        fastMessage ops messageType data c
      else
        do { (w, c1) \<leftarrow> NextWriter ops messageType c;
             (case w of
                Inl e \<Rightarrow> Some (Some e, c1)
              | Inr i \<Rightarrow>
                do { ((n, err), c2) \<leftarrow> pipeWrite ops i data c1;
                     (case err of Some e \<Rightarrow> Some (Some e, c2) | None \<Rightarrow> pipeClose ops i c2) }) })"

text \<open>The part of \<open>WritePreparedMessage\<close> that has the frame: it is written under the write lock.\<close>

definition writePreparedFrame :: "int \<Rightarrow> bytes \<Rightarrow> 'a conn_scheme \<Rightarrow> (gerror option \<times> 'a conn_scheme) option" where
  "writePreparedFrame messageType frameData c =
     do { (err, c1) \<leftarrow> acquireWriteMu (writeDeadline c) c;
          (case err of
             Some e \<Rightarrow> Some (Some e, c1)
           | None \<Rightarrow>
               do { (e, c2) \<leftarrow> conn_write messageType (writeDeadline c) frameData [] c1;
                    c3 \<leftarrow> releaseWriteMu c2; Some (e, c3) }) }"

section \<open>Settings\<close>

definition SetWriteDeadline :: "time \<Rightarrow> 'a conn_scheme \<Rightarrow> gerror option \<times> 'a conn_scheme" where
  "SetWriteDeadline t c = (None, c\<lparr>writeDeadline := t\<rparr>)"

definition SetWriteFrameSize :: "int \<Rightarrow> 'a conn_scheme \<Rightarrow> 'a conn_scheme" where
  "SetWriteFrameSize n c = (let n' = (if n < 0 then 0 else n) in c\<lparr>writeFrameSize := nat n'\<rparr>)"

definition EnableWriteCompression :: "bool \<Rightarrow> 'a conn_scheme \<Rightarrow> 'a conn_scheme" where
  "EnableWriteCompression enable c = c\<lparr>enableWriteCompression := enable\<rparr>"

definition isValidCompressionLevel :: "int \<Rightarrow> bool" where
  "isValidCompressionLevel level \<longleftrightarrow> -2 \<le> level \<and> level \<le> 9"

definition SetCompressionLevel :: "int \<Rightarrow> 'a conn_scheme \<Rightarrow> gerror option \<times> 'a conn_scheme" where
  "SetCompressionLevel level c =
     (if \<not> isValidCompressionLevel level then (Some (ErrNew ''websocket: invalid compression level''), c)
      else (None, c\<lparr>compressionLevel := level\<rparr>))"

section \<open>Variants with a context\<close>

text \<open>What the code observes of a context: its error on entry, its deadline, and its error when the
  call is over. The watchdog it starts aborts a network write under way, which is one of the
  network's outcomes.\<close>

record context_view =
  errEntry :: "gerror option"
  ctxDeadline :: time
  errExit :: "gerror option"

definition ctxResult :: "context_view \<Rightarrow> gerror option \<Rightarrow> gerror option" where
  "ctxResult x err = (if err \<noteq> None \<and> errExit x \<noteq> None then errExit x else err)"

definition ctxSetDeadline :: "context_view \<Rightarrow> 'a conn_scheme \<Rightarrow> 'a conn_scheme" where
  "ctxSetDeadline x c = (case ctxDeadline x of None \<Rightarrow> c | Some t \<Rightarrow> snd (SetWriteDeadline (Some t) c))"

definition WriteMessageContext ::
  "'z flate_ops \<Rightarrow> context_view \<Rightarrow> int \<Rightarrow> bytes \<Rightarrow> 'z wconn \<Rightarrow> (gerror option \<times> 'z wconn) option" where
  "WriteMessageContext ops x messageType data c =
     (case errEntry x of
        Some e \<Rightarrow> Some (Some e, c)
      | None \<Rightarrow>
          do { (err, c1) \<leftarrow> WriteMessage ops messageType data (ctxSetDeadline x c); Some (ctxResult x err, c1) })"

definition WriteControlContext ::
  "context_view \<Rightarrow> int \<Rightarrow> bytes \<Rightarrow> 'a conn_scheme \<Rightarrow> (gerror option \<times> 'a conn_scheme) option" where
  "WriteControlContext x messageType data c =
     (case errEntry x of
        Some e \<Rightarrow> Some (Some e, c)
      | None \<Rightarrow>
          do { (err, c1) \<leftarrow> WriteControl messageType data (ctxDeadline x) c; Some (ctxResult x err, c1) })"

definition NextWriterContext ::
  "'z flate_ops \<Rightarrow> context_view \<Rightarrow> int \<Rightarrow> 'z wconn \<Rightarrow> ((gerror + nat) \<times> 'z wconn) option" where
  "NextWriterContext ops x messageType c =
     (case errEntry x of
        Some e \<Rightarrow> Some (Inl e, c)
      | None \<Rightarrow>
          do { (w, c1) \<leftarrow> NextWriter ops messageType (ctxSetDeadline x c);
               Some (case (w, errExit x) of (Inl e, Some e') \<Rightarrow> Inl e' | _ \<Rightarrow> w, c1) })"

end
