(* ===== verification/Streaming.thy ===== *)
theory Streaming
  imports ConnMessage
begin

text \<open>
  What the writers of the theory ConnMessage put on the wire: a message, from \<open>NextWriter\<close> over any
  number of writes to \<open>Close\<close>, is the frames of one message of the given type carrying the data
  written, or its compressed form.
\<close>

lemma read_side_writers [simp]:
  "read_side (c\<lparr>writers := ws\<rparr>) = read_side c" "read_side (c\<lparr>factory := f\<rparr>) = read_side c"
  by (simp_all add: read_side_def)

section \<open>The message writer as a destination\<close>

interpretation ms: byte_sink mwPut "\<lambda>(w, c). mw_ready w c" "\<lambda>(w, c) p (w', c'). \<exists>fs. sends w c fs p w' c'"
proof unfold_locales
  fix s :: "messageWriter \<times> 'a conn_scheme" and p
  obtain w c where s: "s = (w, c)" by fastforce
  assume r: "case s of (w, c) \<Rightarrow> mw_ready w c"
  obtain w' c' fs where "mwWrite p w c = Some ((length p, None), w', c')"
    and "sends w c fs p w' c'" and "mw_ready w' c'"
    by (rule mwWrite_sends [of w c p]) (use r s in auto)
  then show "\<exists>s'. mwPut p s = Some ((length p, None), s') \<and> (case s' of (w, c) \<Rightarrow> mw_ready w c) \<and>
      (case s of (w, c) \<Rightarrow> \<lambda>p (w', c'). \<exists>fs. sends w c fs p w' c') p s'"
    by (auto simp: s mwPut_def)
next
  fix s :: "messageWriter \<times> 'a conn_scheme"
  assume "case s of (w, c) \<Rightarrow> mw_ready w c"
  then show "(case s of (w, c) \<Rightarrow> \<lambda>p (w', c'). \<exists>fs. sends w c fs p w' c') [] s"
    by (auto intro!: exI [of _ "[]"] sends_refl dest: mw_readyD)
next
  fix s s1 s2 :: "messageWriter \<times> 'a conn_scheme" and p q
  assume "(case s of (w, c) \<Rightarrow> \<lambda>p (w', c'). \<exists>fs. sends w c fs p w' c') p s1"
    and "(case s1 of (w, c) \<Rightarrow> \<lambda>p (w', c'). \<exists>fs. sends w c fs p w' c') q s2"
  then show "(case s of (w, c) \<Rightarrow> \<lambda>p (w', c'). \<exists>fs. sends w c fs p w' c') (p @ q) s2"
    by (auto split: prod.splits intro: sends_trans)
qed

section \<open>A writer in the middle of a message\<close>

text \<open>The connection a message was begun on, with the present writers and compressor, which the
  message writer does not touch.\<close>

definition base :: "'z wconn \<Rightarrow> 'z wconn \<Rightarrow> 'z wconn" where
  "base c0 c = c0\<lparr>writers := writers c, factory := factory c\<rparr>"

text \<open>Writer \<open>i\<close>, begun as \<open>w0\<close> on \<open>c0\<close>, has sent the frames \<open>fs\<close> and accepted the data.\<close>

definition opened :: "messageWriter \<Rightarrow> 'z wconn \<Rightarrow> nat \<Rightarrow> frame list \<Rightarrow> bytes \<Rightarrow> 'z wconn \<Rightarrow> bool" where
  "opened w0 c0 i fs data c \<longleftrightarrow>
     i < length (writers c) \<and> mw_ready (mw (writers c ! i)) c \<and>
     sends w0 (base c0 c) fs data (mw (writers c ! i)) c"

lemma only_wire_writers:
  "only_wire c c' \<Longrightarrow> writers c' = writers c" "only_wire c c' \<Longrightarrow> factory c' = factory c"
  by (auto simp: only_wire_def)

lemma only_wire_upd:
  "only_wire c c' \<Longrightarrow> only_wire (c\<lparr>writers := x, factory := y\<rparr>) (c'\<lparr>writers := x, factory := y\<rparr>)"
proof -
  assume "only_wire c c'"
  then obtain i b d wi where "c' = c\<lparr>maskIdx := i, writeBuf := b, netWriteDeadline := d, wire := wi\<rparr>"
    unfolding only_wire_def by blast
  then have "c'\<lparr>writers := x, factory := y\<rparr> =
      (c\<lparr>writers := x, factory := y\<rparr>)\<lparr>maskIdx := i, writeBuf := b, netWriteDeadline := d, wire := wi\<rparr>"
    by simp
  then show ?thesis unfolding only_wire_def by blast
qed

lemma writer_upd [simp]:
  "bufOf (c\<lparr>writers := x, factory := y\<rparr>) = bufOf c"
  "bufOf (c\<lparr>writers := x\<rparr>) = bufOf c"
  "bufOf (c\<lparr>factory := y\<rparr>) = bufOf c"
  "maskFrames (c\<lparr>writers := x, factory := y\<rparr>) = maskFrames c"
  "pending w (c\<lparr>writers := x, factory := y\<rparr>) = pending w c"
  "writer_ok w (c\<lparr>writers := x, factory := y\<rparr>) = writer_ok w c"
  "mw_ready w (c\<lparr>writers := x, factory := y\<rparr>) = mw_ready w c"
  by (simp_all add: bufOf_def maskFrames_def pending_def writer_ok_def mw_ready_def net_ok_def
      in_cap_def has_room_def)

lemma sends_upd:
  "sends w c fs p w' c' \<Longrightarrow>
   sends w (c\<lparr>writers := x, factory := y\<rparr>) fs p w' (c'\<lparr>writers := x, factory := y\<rparr>)"
  by (auto simp: sends_def only_wire_upd)

lemma opened_upd:
  assumes "opened w0 c0 i fs data c" and "length ws = length (writers c)"
    and "mw (ws ! i) = mw (writers c ! i)"
  shows "opened w0 c0 i fs data (c\<lparr>writers := ws, factory := y\<rparr>)"
proof -
  have "base c0 (c\<lparr>writers := ws, factory := y\<rparr>) = (base c0 c)\<lparr>writers := ws, factory := y\<rparr>"
    by (simp add: base_def)
  then show ?thesis using assms sends_upd [of w0 "base c0 c" fs data "mw (writers c ! i)" c y ws]
    by (simp add: opened_def)
qed

lemma opened_sends:
  assumes o: "opened w0 c0 i fs data c" and s: "sends (mw (writers c ! i)) c gs p w' c'"
    and r: "mw_ready w' c'"
  shows "opened w0 c0 i (fs @ gs) (data @ p) (set_mw i w' c')"
proof -
  have i: "i < length (writers c)" and s0: "sends w0 (base c0 c) fs data (mw (writers c ! i)) c"
    using o by (simp_all add: opened_def)
  have "only_wire c c'" using s by (simp add: sends_def)
  note same = only_wire_writers [OF this]
  define ws where "ws = (writers c)[i := (writers c ! i)\<lparr>mw := w'\<rparr>]"
  have upd: "set_mw i w' c' = c'\<lparr>writers := ws, factory := factory c\<rparr>"
    using same by (simp add: set_mw_def ws_def)
  have "sends w0 (base c0 c) (fs @ gs) (data @ p) w' c'" by (rule sends_trans [OF s0 s])
  from sends_upd [OF this, of "factory c" ws]
  have "sends w0 (base c0 (set_mw i w' c')) (fs @ gs) (data @ p) w' (set_mw i w' c')"
    by (simp add: upd base_def)
  then show ?thesis using i r by (simp add: opened_def upd ws_def)
qed

section \<open>The compression layer\<close>

text \<open>The writes \<open>ps\<close> have been made: all their bytes are accepted when there is no compressor, else
  they are in the compressor, and what it has given out but four bytes is accepted. The frames are
  within the write frame size when every write went through the buffer.\<close>

definition comp_inv ::
  "'z flate_ops \<Rightarrow> 'z \<Rightarrow> messageWriter \<Rightarrow> 'z wconn \<Rightarrow> nat \<Rightarrow> bytes list \<Rightarrow> 'z wconn \<Rightarrow> bool" where
  "comp_inv ops z0 w0 c0 i ps c \<longleftrightarrow>
     (case comp (writers c ! i) of
        NoComp \<Rightarrow> factory c = factory c0 \<and> (\<exists>fs. opened w0 c0 i fs (concat ps) c \<and>
          (list_all (slow_write c0) ps \<longrightarrow> within (writeFrameSize c0) fs))
      | PoolComp opn f \<Rightarrow> opn \<and> factory c = factory c0 \<and> (\<exists>fs out. flate_inv ops z0 ps out f \<and> opened w0 c0 i fs out c)
      | TakeComp opn \<Rightarrow> opn \<and> (\<exists>f fs out. factory c = Some (f, i) \<and> flate_inv ops z0 ps out f \<and>
          opened w0 c0 i fs out c))"

text \<open>What a layer leaves alone.\<close>

definition same_kind :: "'z compWrapper \<Rightarrow> 'z compWrapper \<Rightarrow> bool" where
  "same_kind k k' \<longleftrightarrow> (k' = NoComp) = (k = NoComp) \<and> (k' = TakeComp True) = (k = TakeComp True)"

lemma same_kind_simps [simp]:
  "same_kind k k" "same_kind NoComp k = (k = NoComp)"
  "same_kind (PoolComp x f) (PoolComp y g)"
  by (auto simp: same_kind_def)

lemma same_kind_trans: "same_kind a b \<Longrightarrow> same_kind b c \<Longrightarrow> same_kind a c"
  by (simp add: same_kind_def)

definition same_layers :: "'z wconn \<Rightarrow> nat \<Rightarrow> 'z wconn \<Rightarrow> bool" where
  "same_layers c i c' \<longleftrightarrow>
     length (writers c') = length (writers c) \<and> utf8 (writers c' ! i) = utf8 (writers c ! i) \<and>
     same_kind (comp (writers c ! i)) (comp (writers c' ! i))"

lemma slow_write_base: 
  "opened w0 c0 i fs data c \<Longrightarrow> slow_write c p = slow_write c0 p"
  by (auto simp: opened_def sends_def slow_write_def base_def only_wire_fields)

lemma opened_cap: "opened w0 c0 i fs data c \<Longrightarrow> writeFrameSize c = writeFrameSize c0"
  by (auto simp: opened_def sends_def base_def only_wire_fields)

lemma set_mw_simps [simp]:
  "i < length (writers c) \<Longrightarrow> comp (writers (set_mw i w c) ! i) = comp (writers c ! i)"
  "i < length (writers c) \<Longrightarrow> utf8 (writers (set_mw i w c) ! i) = utf8 (writers c ! i)"
  "i < length (writers c) \<Longrightarrow> mw (writers (set_mw i w c) ! i) = w"
  "length (writers (set_mw i w c)) = length (writers c)"
  by (simp_all add: set_mw_def)

lemma set_comp_simps [simp]:
  "i < length (writers c) \<Longrightarrow> comp (writers (set_comp i x c) ! i) = x"
  "i < length (writers c) \<Longrightarrow> utf8 (writers (set_comp i x c) ! i) = utf8 (writers c ! i)"
  "i < length (writers c) \<Longrightarrow> mw (writers (set_comp i x c) ! i) = mw (writers c ! i)"
  "length (writers (set_comp i x c)) = length (writers c)"
  by (simp_all add: set_comp_def)

lemma factory_set [simp]:
  "factory (set_comp i x c) = factory c" "factory (set_mw i w c) = factory c"
  "factory (set_utf8 i u c) = factory c"
  by (simp_all add: set_comp_def set_mw_def set_utf8_def)

lemma opened_set:
  "opened w0 c0 i fs data c \<Longrightarrow> opened w0 c0 i fs data (set_comp i x c)"
  "opened w0 c0 i fs data c \<Longrightarrow> opened w0 c0 i fs data (set_utf8 i u c)"
  "opened w0 c0 i fs data c \<Longrightarrow> opened w0 c0 i fs data (c\<lparr>factory := y\<rparr>)"
proof -
  assume o: "opened w0 c0 i fs data c"
  then have i: "i < length (writers c)" by (simp add: opened_def)
  show "opened w0 c0 i fs data (set_comp i x c)"
    using opened_upd [OF o, of "(writers c)[i := (writers c ! i)\<lparr>comp := x\<rparr>]" "factory c"] i
    by (simp add: set_comp_def)
  show "opened w0 c0 i fs data (set_utf8 i u c)"
    using opened_upd [OF o, of "(writers c)[i := (writers c ! i)\<lparr>utf8 := Some u\<rparr>]" "factory c"] i
    by (simp add: set_utf8_def)
  show "opened w0 c0 i fs data (c\<lparr>factory := y\<rparr>)"
    using opened_upd [OF o, of "writers c" y] by simp
qed

text \<open>One write through a compressor.\<close>

lemma opened_flate:
  assumes o: "opened w0 c0 i fs out c" and f: "flate_inv ops z0 ps out f"
  obtains f' w' c' gs out' where
    "flateWrite ops mwPut p f (mw (writers c ! i), c) = Some ((length p, None), f', w', c')"
    and "flate_inv ops z0 (ps @ [p]) (out @ out') f'"
    and "opened w0 c0 i (fs @ gs) (out @ out') (set_mw i w' c')" and "writers c' = writers c"
    and "factory c' = factory c"
proof -
  obtain f' s' out' where w: "flateWrite ops mwPut p f (mw (writers c ! i), c) = Some ((length p, None), f', s')"
    and r: "case s' of (w, c) \<Rightarrow> mw_ready w c"
    and k: "(case (mw (writers c ! i), c) of (w, c) \<Rightarrow> \<lambda>p (w', c'). \<exists>fs. sends w c fs p w' c') out' s'"
    and f': "flate_inv ops z0 (ps @ [p]) (out @ out') f'"
    by (rule ms.flateWrite_takes [OF f, of "(mw (writers c ! i), c)" p]) (use o in \<open>auto simp: opened_def\<close>)
  obtain w' c' gs where s': "s' = (w', c')" and s: "sends (mw (writers c ! i)) c gs out' w' c'"
    and r: "mw_ready w' c'" using r k by auto
  have "writers c' = writers c" "factory c' = factory c" using s only_wire_writers by (auto simp: sends_def)
  then show thesis using that w f' s' opened_sends [OF o s r] by simp
qed

lemma comp_step:
  assumes inv: "comp_inv ops z0 w0 c0 i ps c"
  obtains c' where "compWrite ops i p c = Some ((length p, None), c')"
    and "comp_inv ops z0 w0 c0 i (ps @ [p]) c'" and "same_layers c i c'"
proof (cases "comp (writers c ! i)")
  case NoComp
  obtain fs where o: "opened w0 c0 i fs (concat ps) c"
    and wi: "list_all (slow_write c0) ps \<longrightarrow> within (writeFrameSize c0) fs"
    and fa: "factory c = factory c0"
    using inv NoComp by (auto simp: comp_inv_def)
  have i: "i < length (writers c)" using o by (simp add: opened_def)
  obtain w' c' gs where w: "mwWrite p (mw (writers c ! i)) c = Some ((length p, None), w', c')"
    and s: "sends (mw (writers c ! i)) c gs p w' c'" and r: "mw_ready w' c'"
    and wg: "pending (mw (writers c ! i)) c = [] \<or> slow_write c p \<Longrightarrow> within (writeFrameSize c) gs"
    by (rule mwWrite_sends [of "mw (writers c ! i)" c p]) (use o in \<open>auto simp: opened_def\<close>)
  have o': "opened w0 c0 i (fs @ gs) (concat (ps @ [p])) (set_mw i w' c')"
    using opened_sends [OF o s r] by simp
  have ws: "writers c' = writers c" "factory c' = factory c"
    using s only_wire_writers by (auto simp: sends_def)
  have "list_all (slow_write c0) (ps @ [p]) \<longrightarrow> within (writeFrameSize c0) (fs @ gs)"
    using wi wg slow_write_base [OF o] opened_cap [OF o] by simp
  then have "comp_inv ops z0 w0 c0 i (ps @ [p]) (set_mw i w' c')"
    using o' NoComp i ws fa unfolding comp_inv_def by auto
  then show thesis
    using that [of "set_mw i w' c'"] NoComp w i ws by (auto simp: compWrite_def same_layers_def)
next
  case (PoolComp opn f)
  obtain fs out where o: "opened w0 c0 i fs out c" and f: "flate_inv ops z0 ps out f" and opn
    and fa: "factory c = factory c0"
    using inv PoolComp by (auto simp: comp_inv_def)
  have i: "i < length (writers c)" using o by (simp add: opened_def)
  obtain f' w' c' gs out' where
    w: "flateWrite ops mwPut p f (mw (writers c ! i), c) = Some ((length p, None), f', w', c')"
    and f': "flate_inv ops z0 (ps @ [p]) (out @ out') f'"
    and o': "opened w0 c0 i (fs @ gs) (out @ out') (set_mw i w' c')" and ws: "writers c' = writers c"
    and "factory c' = factory c"
    by (rule opened_flate [OF o f])
  show thesis
    using that [of "set_comp i (PoolComp True f') (set_mw i w' c')"] PoolComp \<open>opn\<close> \<open>factory c' = factory c\<close> fa w
      opened_set(1) [OF o'] f' i ws
    by (auto simp: compWrite_def comp_inv_def same_layers_def)
next
  case (TakeComp opn)
  obtain f fs out where o: "opened w0 c0 i fs out c" and fa: "factory c = Some (f, i)"
    and f: "flate_inv ops z0 ps out f" and opn
    using inv TakeComp by (auto simp: comp_inv_def)
  have i: "i < length (writers c)" using o by (simp add: opened_def)
  obtain f' w' c' gs out' where
    w: "flateWrite ops mwPut p f (mw (writers c ! i), c) = Some ((length p, None), f', w', c')"
    and f': "flate_inv ops z0 (ps @ [p]) (out @ out') f'"
    and o': "opened w0 c0 i (fs @ gs) (out @ out') (set_mw i w' c')" and ws: "writers c' = writers c"
    and "factory c' = factory c"
    by (rule opened_flate [OF o f])
  show thesis
    using that [of "(set_mw i w' c')\<lparr>factory := Some (f', i)\<rparr>"] TakeComp \<open>opn\<close> w fa
      opened_set(3) [OF o'] f' i ws
    by (auto simp: compWrite_def comp_inv_def same_layers_def)
qed

text \<open>The bytes the frames of a closed message carry: the writes, or the compressor's stream for them
  without its final sync marker.\<close>

definition carried :: "'z flate_ops \<Rightarrow> 'z \<Rightarrow> bool \<Rightarrow> bytes list \<Rightarrow> bytes \<Rightarrow> bool" where
  "carried ops z0 compressed ps data \<longleftrightarrow>
     (if compressed then data @ [0, 0, 0xff, 0xff] = flate_stream ops ps z0 else data = concat ps)"

text \<open>From the connection \<open>c0\<close> on, the frames of one message have been sent, and the connection is
  idle.\<close>

definition message_sent :: "int \<Rightarrow> bool \<Rightarrow> bytes \<Rightarrow> frame list \<Rightarrow> 'a conn_scheme \<Rightarrow> 'b conn_scheme \<Rightarrow> bool" where
  "message_sent t z data fs c0 c' \<longleftrightarrow>
     wire c' = wire c0 @ encode_frames fs \<and> message_frames t z data fs \<and>
     list_all (\<lambda>f. is_masked f = maskFrames c0) fs \<and> idle c' \<and> same_config c0 c'"

lemma busy_base [simp]: "busy (base c0 c) = busy c0"
  by (simp add: busy_def base_def net_ok_def deadline_ok_def buffers_ok_def has_room_def split: option.split)

lemma same_config_base [simp]: "same_config (base c0 c) c' = same_config c0 c'"
  by (simp add: same_config_def base_def)

lemma closing_message:
  assumes s: "sends w0 (base c0 c) fs data w c" and r: "mw_ready w c" and b: "busy c0"
    and d: "isData (frameType w0)" and p: "pending w0 c0 = []"
  obtains w' c' g where "mwClose w c = Some (None, w', c')"
    and "message_sent (frameType w0) (compress w0) data (fs @ [g]) c0 c'"
    and "writers c' = writers c" and "factory c' = factory c"
    and "within (writeFrameSize c0) [g]"
proof -
  have ow: "only_wire (base c0 c) c" using s by (simp add: sends_def)
  have nc: "\<not> isControl (frameType w0)" using d by (auto simp: isData_def isControl_def message_types)
  have nb: "net_ok (base c0 c)" "\<not> writeMu (base c0 c)" "pending w0 (base c0 c) = []"
    using b p by (simp_all add: busy_def base_def net_ok_def)
  obtain w2 buf g where cl: "mwClose w c = Some (None, w2, after_end (after_frame g buf c))"
    and m: "message_frames (frameType w0) (compress w0) data (fs @ [g])"
    and k: "list_all (\<lambda>f. is_masked f = maskFrames (base c0 c)) (fs @ [g])"
    and wi: "within (writeFrameSize (base c0 c)) [g]"
    and lb: "length buf = length (bufOf c)" and og: "opcode g = frameType w"
    by (rule close_message [OF s nb(1,2,3) nc]) (use r in \<open>auto simp: mw_ready_def\<close>)
  have g: "opcode g \<noteq> CloseMessage"
    using mw_readyD(3) [OF r] og by (auto simp: isControl_def)
  have room: "maxFrameHeaderSize < length buf" using r lb by (simp add: mw_ready_def has_room_def)
  note e = end_idle [of "base c0 c" c buf g, OF _ ow room g]
  have "wire c = wire c0 @ encode_frames fs" using s by (simp add: sends_def base_def)
  then have "wire (after_end (after_frame g buf c)) = wire c0 @ encode_frames (fs @ [g])"
    by (simp add: after_frame_def)
  then have "message_sent (frameType w0) (compress w0) data (fs @ [g]) c0 (after_end (after_frame g buf c))"
    using m k e b by (simp add: message_sent_def) (simp add: base_def)
  then show thesis
    using that cl wi by (simp add: base_def) (simp add: after_end_def after_frame_def Let_def)
qed

lemma idle_upd [simp]:
  "idle (c\<lparr>writers := x\<rparr>) = idle c" "idle (c\<lparr>factory := y\<rparr>) = idle c"
  by (simp_all add: idle_def net_ok_def deadline_ok_def buffers_ok_def split: option.split)

lemma message_sent_upd [simp]:
  "message_sent t z d fs c0 (set_comp i x c) = message_sent t z d fs c0 c"
  "message_sent t z d fs c0 (set_mw i w c) = message_sent t z d fs c0 c"
  "message_sent t z d fs c0 (c\<lparr>factory := y\<rparr>) = message_sent t z d fs c0 c"
  by (simp_all add: message_sent_def same_config_def set_comp_def set_mw_def)

text \<open>The state of a compressor after a message.\<close>

definition flate_end :: "'z flate_ops \<Rightarrow> bytes list \<Rightarrow> 'z \<Rightarrow> 'z" where
  "flate_end ops ps z = snd (fl_flush ops (snd (flate_writes ops ps z)))"

text \<open>Closing through a compressor.\<close>

lemma opened_flate_close:
  assumes o: "opened w0 c0 i fs out c" and f: "flate_inv ops z0 ps out f" and sy: "sync_flush ops"
    and b: "busy c0" and d: "isData (frameType w0)" and p: "pending w0 c0 = []"
  obtains f' w' c' gs data where
    "flateClose ops mwPut mwCls f (mw (writers c ! i), c) = Some (None, f', w', c')"
    and "message_sent (frameType w0) (compress w0) data gs c0 c'"
    and "data @ [0, 0, 0xff, 0xff] = flate_stream ops ps z0"
    and "fwErr f' = None" and "fw f' = flate_end ops ps z0"
    and "writers c' = writers c" and "factory c' = factory c"
proof -
  obtain f' s' out' where
    w: "flateClose ops mwPut mwCls f (mw (writers c ! i), c) = do { (e, s2) \<leftarrow> mwCls s'; Some (e, f', s2) }"
    and r: "case s' of (w, c) \<Rightarrow> mw_ready w c"
    and k: "(case (mw (writers c ! i), c) of (w, c) \<Rightarrow> \<lambda>p (w', c'). \<exists>fs. sends w c fs p w' c') out' s'"
    and st: "(out @ out') @ [0, 0, 0xff, 0xff] = flate_stream ops ps z0"
    and f': "fwErr f' = None" "fw f' = flate_end ops ps z0"
    unfolding flate_end_def
    by (rule ms.flateClose_takes [OF f _ sy, of "(mw (writers c ! i), c)" mwCls])
      (use o in \<open>auto simp: opened_def\<close>)
  obtain w1 c1 hs where s': "s' = (w1, c1)" and s: "sends (mw (writers c ! i)) c hs out' w1 c1"
    and r1: "mw_ready w1 c1" using r k by auto
  have ws: "writers c1 = writers c" and fc: "factory c1 = factory c"
    using s only_wire_writers by (auto simp: sends_def)
  have s2: "sends w0 (base c0 c1) (fs @ hs) (out @ out') w1 c1"
  proof -
    have "sends w0 (base c0 c) (fs @ hs) (out @ out') w1 c1"
      using o s unfolding opened_def by (blast intro: sends_trans)
    then show ?thesis using ws fc by (simp add: base_def)
  qed
  obtain w' c' g where cl: "mwClose w1 c1 = Some (None, w', c')"
    and ms: "message_sent (frameType w0) (compress w0) (out @ out') ((fs @ hs) @ [g]) c0 c'"
    and ws': "writers c' = writers c1" and fa: "factory c' = factory c1"
    by (rule closing_message [OF s2 r1 b d p])
  have "flateClose ops mwPut mwCls f (mw (writers c ! i), c) = Some (None, f', w', c')"
    using w cl by (simp add: s' mwCls_def)
  then show thesis using that ms st f' ws ws' fa fc by simp
qed

lemma comp_close:
  assumes inv: "comp_inv ops z0 w0 c0 i ps c" and b: "busy c0" and d: "isData (frameType w0)"
    and p: "pending w0 c0 = []" and sy: "comp (writers c ! i) \<noteq> NoComp \<Longrightarrow> sync_flush ops"
  obtains c' fs data where "compClose ops i c = Some (None, c')"
    and "message_sent (frameType w0) (compress w0) data fs c0 c'"
    and "carried ops z0 (comp (writers c ! i) \<noteq> NoComp) ps data"
    and "comp (writers c ! i) = NoComp \<Longrightarrow> list_all (slow_write c0) ps \<Longrightarrow> within (writeFrameSize c0) fs"
    and "comp (writers c ! i) \<noteq> TakeComp True \<Longrightarrow> factory c' = factory c0"
    and "comp (writers c ! i) = TakeComp True \<Longrightarrow>
      \<exists>f. factory c' = Some (f, i) \<and> fwErr f = None \<and> fw f = flate_end ops ps z0"
proof (cases "comp (writers c ! i)")
  case NoComp
  obtain fs where o: "opened w0 c0 i fs (concat ps) c"
    and wi: "list_all (slow_write c0) ps \<longrightarrow> within (writeFrameSize c0) fs"
    and f0: "factory c = factory c0"
    using inv NoComp by (auto simp: comp_inv_def)
  obtain w' c' g where cl: "mwClose (mw (writers c ! i)) c = Some (None, w', c')"
    and ms: "message_sent (frameType w0) (compress w0) (concat ps) (fs @ [g]) c0 c'"
    and "writers c' = writers c" and f: "factory c' = factory c" and wg: "within (writeFrameSize c0) [g]"
    by (rule closing_message [of w0 c0 c fs "concat ps" "mw (writers c ! i)"])
      (use o b d p in \<open>auto simp: opened_def\<close>)
  show thesis
    by (rule that [of "set_mw i w' c'" "concat ps" "fs @ [g]"])
      (use NoComp cl ms wi wg f f0 in \<open>auto simp: compClose_def carried_def\<close>)
next
  case (PoolComp opn f)
  obtain fs out where o: "opened w0 c0 i fs out c" and f: "flate_inv ops z0 ps out f" and opn
    and f0: "factory c = factory c0"
    using inv PoolComp by (auto simp: comp_inv_def)
  obtain f' w' c' gs data where
    cl: "flateClose ops mwPut mwCls f (mw (writers c ! i), c) = Some (None, f', w', c')"
    and ms: "message_sent (frameType w0) (compress w0) data gs c0 c'"
    and st: "data @ [0, 0, 0xff, 0xff] = flate_stream ops ps z0"
    and fa: "factory c' = factory c"
    by (rule opened_flate_close [OF o f _ b d p]) (use sy PoolComp in auto)
  show thesis
    by (rule that [of "set_comp i (PoolComp False f') (set_mw i w' c')" data gs])
      (use PoolComp \<open>opn\<close> cl ms st fa f0 in \<open>auto simp: compClose_def carried_def\<close>)
next
  case (TakeComp opn)
  obtain f fs out where o: "opened w0 c0 i fs out c" and fa: "factory c = Some (f, i)"
    and f: "flate_inv ops z0 ps out f" and opn
    using inv TakeComp by (auto simp: comp_inv_def)
  obtain f' w' c' gs data where
    cl: "flateClose ops mwPut mwCls f (mw (writers c ! i), c) = Some (None, f', w', c')"
    and ms: "message_sent (frameType w0) (compress w0) data gs c0 c'"
    and st: "data @ [0, 0, 0xff, 0xff] = flate_stream ops ps z0"
    and f': "fwErr f' = None" "fw f' = flate_end ops ps z0"
    by (rule opened_flate_close [OF o f _ b d p]) (use sy TakeComp in auto)
  show thesis
    by (rule that [of "set_comp i (TakeComp False) ((set_mw i w' c')\<lparr>factory := Some (f', i)\<rparr>)" data gs])
      (use TakeComp \<open>opn\<close> cl ms st fa f' in \<open>auto simp: compClose_def carried_def\<close>)
qed

section \<open>The UTF-8 layer\<close>

lemma run_rejected: "fst (dfa_run utf8Reject x p) = utf8Reject"
  by (induction p arbitrary: x) (simp_all add: split_beta step_state utf8Reject_def dfa_next_def)

text \<open>The scan of a write is a run of the automaton, cut short at the first rejection.\<close>

lemma step_bound: "s < 9 \<Longrightarrow> utf8DFAStep s x b = (s', x') \<Longrightarrow> s' < 9"
  using step_state [of s x b] dfa_next_bound by simp

lemma scan_run:
  assumes "s < 9" and "s \<noteq> utf8Reject" and "fst (dfa_run s x p) \<noteq> utf8Reject"
  shows "utf8Scan k s x p = (fst (dfa_run s x p), snd (dfa_run s x p), None)"
  using assms
proof (induction p arbitrary: s x k)
  case (Cons b p)
  obtain s' x' where st: "utf8DFAStep s x b = (s', x')" by fastforce
  have run: "fst (dfa_run s' x' p) \<noteq> utf8Reject" using Cons.prems st by simp
  then have "s' \<noteq> utf8Reject" using run_rejected by metis
  then show ?case using Cons.IH [OF step_bound [OF Cons.prems(1) st] _ run] st by simp
qed simp

lemma scan_rejects:
  assumes "s < 9" and "s \<noteq> utf8Reject" and "fst (dfa_run s x p) = utf8Reject"
  shows "\<exists>x' j. utf8Scan k s x p = (utf8Reject, x', Some j) \<and> j < k + length p"
  using assms
proof (induction p arbitrary: s x k)
  case (Cons b p)
  obtain s' x' where st: "utf8DFAStep s x b = (s', x')" by fastforce
  show ?case
  proof (cases "s' = utf8Reject")
    case True
    then show ?thesis by (simp add: st)
  next
    case False
    have "fst (dfa_run s' x' p) = utf8Reject" using Cons.prems st by simp
    from Cons.IH [OF step_bound [OF Cons.prems(1) st] False this, of "Suc k"]
    show ?thesis using False st by auto
  qed
qed simp

text \<open>The state the validator keeps between the writes.\<close>

definition utf8_inv :: "bytes \<Rightarrow> utf8Writer option \<Rightarrow> bool" where
  "utf8_inv data u \<longleftrightarrow>
     (case u of None \<Rightarrow> True
      | Some v \<Rightarrow> \<not> uwFailed v \<and> (uwState v, uwCodepoint v) = dfa_run utf8Accept 0 data \<and>
          uwState v \<noteq> utf8Reject)"

lemma prefix_not_rejected:
  assumes "utf8_text (p @ q)"
  shows "fst (dfa_run utf8Accept x p) \<noteq> utf8Reject"
proof
  assume "fst (dfa_run utf8Accept x p) = utf8Reject"
  then have "fst (dfa_run utf8Accept x (p @ q)) = utf8Reject"
    by (simp add: dfa_run_append split_beta run_rejected)
  moreover have "fst (dfa_run 0 x (p @ q)) = 0" by (rule run_complete [OF assms])
  ultimately show False by (simp add: utf8Accept_def utf8Reject_def)
qed

definition pipe_inv ::
  "'z flate_ops \<Rightarrow> 'z \<Rightarrow> messageWriter \<Rightarrow> 'z wconn \<Rightarrow> nat \<Rightarrow> bytes list \<Rightarrow> 'z wconn \<Rightarrow> bool" where
  "pipe_inv ops z0 w0 c0 i ps c \<longleftrightarrow>
     comp_inv ops z0 w0 c0 i ps c \<and> utf8_inv (concat ps) (utf8 (writers c ! i))"

lemma comp_inv_utf8:
  "comp_inv ops z0 w0 c0 i ps c \<Longrightarrow> comp_inv ops z0 w0 c0 i ps (set_utf8 i u c)"
proof -
  assume inv: "comp_inv ops z0 w0 c0 i ps c"
  then have i: "i < length (writers c)"
    by (auto simp: comp_inv_def opened_def split: compWrapper.splits)
  have "comp (writers (set_utf8 i u c) ! i) = comp (writers c ! i)"
    "factory (set_utf8 i u c) = factory c" using i by (simp_all add: set_utf8_def)
  then show ?thesis using inv opened_set(2)
    by (fastforce simp: comp_inv_def split: compWrapper.splits)
qed

lemma comp_inv_index: "comp_inv ops z0 w0 c0 i ps c \<Longrightarrow> i < length (writers c)"
  by (auto simp: comp_inv_def opened_def split: compWrapper.splits)

lemma pipe_step:
  assumes inv: "pipe_inv ops z0 w0 c0 i ps c"
    and tx: "utf8 (writers c ! i) \<noteq> None \<Longrightarrow> fst (dfa_run utf8Accept 0 (concat ps @ p)) \<noteq> utf8Reject"
  obtains c' where "pipeWrite ops i p c = Some ((length p, None), c')"
    and "pipe_inv ops z0 w0 c0 i (ps @ [p]) c'"
    and "(utf8 (writers c' ! i) = None) = (utf8 (writers c ! i) = None)"
    and "same_kind (comp (writers c ! i)) (comp (writers c' ! i))"
proof (cases "utf8 (writers c ! i)")
  case None
  obtain c' where "compWrite ops i p c = Some ((length p, None), c')"
    and "comp_inv ops z0 w0 c0 i (ps @ [p]) c'" and "same_layers c i c'"
    by (rule comp_step [of ops z0 w0 c0 i ps c p]) (use inv in \<open>auto simp: pipe_inv_def\<close>)
  then show thesis using that None by (simp add: pipeWrite_def pipe_inv_def utf8_inv_def same_layers_def)
next
  case (Some u)
  have u: "\<not> uwFailed u" "dfa_run utf8Accept 0 (concat ps) = (uwState u, uwCodepoint u)"
    "uwState u \<noteq> utf8Reject"
    using inv Some by (auto simp: pipe_inv_def utf8_inv_def)
  have b: "uwState u < 9" using run_bound [of utf8Accept 0 "concat ps"] u by (simp add: utf8Accept_def)
  obtain s x where run: "dfa_run (uwState u) (uwCodepoint u) p = (s, x)" by fastforce
  have all: "dfa_run utf8Accept 0 (concat ps @ p) = (s, x)" by (simp add: dfa_run_append u run)
  then have s: "s \<noteq> utf8Reject" using tx Some by simp
  let ?u = "\<lparr>uwState = s, uwCodepoint = x, uwFailed = False\<rparr>"
  have scan: "utf8Scan 0 (uwState u) (uwCodepoint u) p = (s, x, None)"
    using scan_run [OF b u(3), of "uwCodepoint u" p 0] run s by simp
  have inv': "comp_inv ops z0 w0 c0 i ps (set_utf8 i ?u c)"
    using inv comp_inv_utf8 by (auto simp: pipe_inv_def)
  obtain c' where w: "compWrite ops i p (set_utf8 i ?u c) = Some ((length p, None), c')"
    and inv2: "comp_inv ops z0 w0 c0 i (ps @ [p]) c'" and same: "same_layers (set_utf8 i ?u c) i c'"
    by (rule comp_step [OF inv'])
  have i: "i < length (writers c)" using comp_inv_index inv by (auto simp: pipe_inv_def)
  have "utf8 (writers c' ! i) = Some ?u"
    and "same_kind (comp (writers c ! i)) (comp (writers c' ! i))"
    using same i by (auto simp: same_layers_def set_utf8_def)
  then show thesis using that w inv2 Some u(1) scan all s
    by (simp add: pipeWrite_def pipe_inv_def utf8_inv_def)
qed

section \<open>From \<open>NextWriter\<close> to \<open>Close\<close>\<close>

text \<open>The state in which the compressor starts the next message.\<close>

definition start_state :: "'z flate_ops \<Rightarrow> 'z wconn \<Rightarrow> 'z" where
  "start_state ops c =
     (case (newCompressionWriter c, factory c) of
        (TakeoverFn, Some (f, d)) \<Rightarrow> fw f
      | _ \<Rightarrow> fl_new ops (compressionLevel c))"

definition factory_ok :: "'z wconn \<Rightarrow> bool" where
  "factory_ok c \<longleftrightarrow> (case factory c of None \<Rightarrow> True | Some (f, d) \<Rightarrow> fwErr f = None)"

lemma newWriter_opened:
  assumes b: "busy c0" and d: "isData t"
    and w: "w = newMessageWriter\<lparr>frameType := t, pos := maxFrameHeaderSize, compress := z\<rparr>"
  shows "opened w c0 (length (writers c0)) [] []
    (c0\<lparr>writers := writers c0 @ [\<lparr>mw = w, comp = k, utf8 = u\<rparr>], factory := y\<rparr>)"
proof -
  let ?c = "c0\<lparr>writers := writers c0 @ [\<lparr>mw = w, comp = k, utf8 = u\<rparr>], factory := y\<rparr>"
  have r: "mw_ready w ?c" using begun_ready [OF b d, of z] by (simp add: w)
  moreover have "base c0 ?c = ?c" by (simp add: base_def)
  ultimately show ?thesis using sends_refl [OF mw_readyD(1) [OF r]] by (simp add: opened_def)
qed

text \<open>The wrapper of a new writer, with the compressor it starts from.\<close>

lemma newCompWrapper_inv:
  assumes f: "factory_ok c" and c: "compressing t c"
    and r: "newCompWrapper ops i c = (k, c')"
  shows "\<exists>y. c' = c\<lparr>factory := y\<rparr> \<and>
    (case k of NoComp \<Rightarrow> False
     | PoolComp opn g \<Rightarrow> opn \<and> flate_inv ops (start_state ops c) [] [] g \<and>
         newCompressionWriter c \<noteq> TakeoverFn \<and> y = factory c
     | TakeComp opn \<Rightarrow> opn \<and> newCompressionWriter c = TakeoverFn \<and>
         (\<exists>g. y = Some (g, i) \<and> flate_inv ops (start_state ops c) [] [] g))"
proof (cases "newCompressionWriter c")
  case NilFn
  then show ?thesis using c by (simp add: compressing_def)
next
  case NoTakeoverFn
  then show ?thesis
    using r flate_inv_new(1) [of ops "compressionLevel c"]
    by (auto simp: newCompWrapper_def start_state_def)
next
  case TakeoverFn
  then show ?thesis
  proof (cases "factory c")
    case None
    then show ?thesis
      using TakeoverFn r flate_inv_new(2) [of "newFlateWriter ops (compressionLevel c)" ops]
      by (auto simp: newCompWrapper_def start_state_def newFlateWriter_def Let_def)
  next
    case (Some x)
    then obtain g d where "factory c = Some (g, d)" "fwErr g = None"
      using f by (cases x) (auto simp: factory_ok_def)
    then show ?thesis
      using TakeoverFn r flate_inv_new(2) [of g ops]
      by (auto simp: newCompWrapper_def start_state_def Let_def)
  qed
qed

text \<open>The state \<open>NextWriter\<close> leaves behind: writer \<open>i\<close> has been begun as \<open>w0\<close> on \<open>c0\<close>, which is \<open>c\<close>
  with the write lock taken.\<close>

definition begun ::
  "'z flate_ops \<Rightarrow> int \<Rightarrow> 'z wconn \<Rightarrow> messageWriter \<Rightarrow> 'z wconn \<Rightarrow> nat \<Rightarrow> 'z wconn \<Rightarrow> bool" where
  "begun ops t c w0 c0 i c1 \<longleftrightarrow>
     busy c0 \<and> same_config c c0 \<and> wire c0 = wire c \<and> factory c0 = factory c \<and>
     frameType w0 = t \<and> compress w0 = compressing t c \<and> pending w0 c0 = [] \<and>
     pipe_inv ops (start_state ops c) w0 c0 i [] c1 \<and>
     (comp (writers c1 ! i) = NoComp) = (\<not> compressing t c) \<and>
     (utf8 (writers c1 ! i) = None) = (\<not> validating t c) \<and>
     (compressing t c \<and> newCompressionWriter c = TakeoverFn) = (comp (writers c1 ! i) = TakeComp True)"

lemma NextWriter_begins:
  assumes c: "idle c" and d: "isData t" and f: "factory_ok c"
  obtains i c1 c0 w0 where "NextWriter ops t c = Some (Inr i, c1)" and "begun ops t c w0 c0 i c1"
proof -
  define z where "z = compressing t c"
  define i where "i = length (writers c)"
  define w0 where "w0 = newMessageWriter\<lparr>frameType := t, pos := maxFrameHeaderSize, compress := z\<rparr>"
  define u where
    "u = (if validating t c then Some \<lparr>uwState = utf8Accept, uwCodepoint = 0, uwFailed = False\<rparr> else None)"
  obtain wb s where b: "beginMessage' t (c\<lparr>writeMu := False\<rparr>) =
       (None, newMessageWriter\<lparr>frameType := t, pos := maxFrameHeaderSize\<rparr>,
        c\<lparr>writeMu := False, writeBuf := wb, poolScript := s\<rparr>)"
    and bz: "busy (c\<lparr>writeMu := False, writeBuf := wb, poolScript := s\<rparr>)"
    by (rule begin_ready [OF c, of t]) (use d in auto)
  define c2 where "c2 = c\<lparr>writeMu := False, writeBuf := wb, poolScript := s\<rparr>"
  have wr: "writer c = None" using c by (simp add: idle_def)
  obtain k c3 where k: "(if z then newCompWrapper ops i c2 else (NoComp, c2)) = (k, c3)" by fastforce
  define c0 where "c0 = c2\<lparr>writer := Some i\<rparr>"
  define c1 where "c1 = c3\<lparr>writer := Some i, writers := writers c3 @ [\<lparr>mw = w0, comp = k, utf8 = u\<rparr>]\<rparr>"
  have cz: "compressing t c2 = z" by (simp add: c2_def z_def compressing_def)
  have st: "start_state ops c2 = start_state ops c"
    by (simp add: c2_def start_state_def split: comp_fn.split option.split)
  have w0: "(newMessageWriter\<lparr>frameType := t, pos := maxFrameHeaderSize\<rparr>)\<lparr>compress := z\<rparr> = w0"
    by (simp add: w0_def)
  have vl: "validating t c2 = validating t c" by (simp add: c2_def validating_def)
  have i2: "length (writers c2) = i" by (simp add: c2_def i_def)
  have nw: "NextWriter ops t c = Some (Inr i, c1)"
  proof (cases z)
    case True
    then have "newCompWrapper ops i c2 = (k, c3)" using k by simp
    then show ?thesis
      using True w0 by (simp add: NextWriter_def acquire_idle [OF c] beginMessage_def wr b
          c2_def [symmetric] Let_def cz vl i2 c1_def u_def [symmetric])
  next
    case False
    then have "k = NoComp" "c3 = c2" using k by simp_all
    then show ?thesis
      using False w0 by (simp add: NextWriter_def acquire_idle [OF c] beginMessage_def wr b
          c2_def [symmetric] Let_def cz vl i2 c1_def u_def [symmetric])
  qed
  obtain y where c3: "c3 = c2\<lparr>factory := y\<rparr>"
    and ex: "case k of NoComp \<Rightarrow> \<not> z \<and> y = factory c
     | PoolComp opn g \<Rightarrow> z \<and> opn \<and> flate_inv ops (start_state ops c) [] [] g \<and>
         newCompressionWriter c \<noteq> TakeoverFn \<and> y = factory c
     | TakeComp opn \<Rightarrow> z \<and> opn \<and> newCompressionWriter c = TakeoverFn \<and>
         (\<exists>g. y = Some (g, i) \<and> flate_inv ops (start_state ops c) [] [] g)"
  proof (cases z)
    case True
    have same: "newCompressionWriter c2 = newCompressionWriter c" "factory c2 = factory c"
      by (simp_all add: c2_def)
    have "factory_ok c2" using f by (simp add: factory_ok_def c2_def)
    from newCompWrapper_inv [OF this, of t ops i k c3] True k cz
    obtain y where y: "c3 = c2\<lparr>factory := y\<rparr>" and ex: "case k of NoComp \<Rightarrow> False
     | PoolComp opn g \<Rightarrow> opn \<and> flate_inv ops (start_state ops c2) [] [] g \<and>
         newCompressionWriter c2 \<noteq> TakeoverFn \<and> y = factory c2
     | TakeComp opn \<Rightarrow> opn \<and> newCompressionWriter c2 = TakeoverFn \<and>
         (\<exists>g. y = Some (g, i) \<and> flate_inv ops (start_state ops c2) [] [] g)" by auto
    show thesis by (rule that [OF y]) (use ex True in \<open>simp add: st same split: compWrapper.splits\<close>)
  next
    case False
    then have "k = NoComp" "c3 = c2\<lparr>factory := factory c2\<rparr>" using k by simp_all
    then show thesis using that [of "factory c2"] False by (simp add: c2_def)
  qed
  have c1: "c1 = c0\<lparr>writers := writers c0 @ [\<lparr>mw = w0, comp = k, utf8 = u\<rparr>], factory := y\<rparr>"
    by (simp add: c1_def c3 c0_def)
  have i0: "i = length (writers c0)" by (simp add: i_def c0_def c2_def)
  have op: "opened w0 c0 i [] [] c1"
    unfolding i0 c1 by (rule newWriter_opened) (use bz d w0_def in \<open>simp_all add: c0_def c2_def\<close>)
  have k1: "comp (writers c1 ! i) = k" "utf8 (writers c1 ! i) = u" "factory c1 = y"
    by (simp_all add: c1 i0)
  have "comp_inv ops (start_state ops c) w0 c0 i [] c1"
    using ex op k1 c3 by (auto simp: comp_inv_def c0_def c2_def split: compWrapper.splits)
  moreover have "utf8_inv [] u" by (simp add: utf8_inv_def u_def utf8Accept_def utf8Reject_def)
  ultimately have "pipe_inv ops (start_state ops c) w0 c0 i [] c1" by (simp add: pipe_inv_def k1)
  moreover have "busy c0" "same_config c c0" "wire c0 = wire c" "factory c0 = factory c"
    using bz by (simp_all add: c0_def c2_def same_config_def)
  moreover have "frameType w0 = t" "compress w0 = compressing t c" "pending w0 c0 = []"
    by (simp_all add: w0_def z_def pending_def)
  moreover have "(k = NoComp) = (\<not> z)" "(z \<and> newCompressionWriter c = TakeoverFn) = (k = TakeComp True)"
    using ex by (auto split: compWrapper.splits)
  moreover have "(u = None) = (\<not> validating t c)" by (simp add: u_def)
  ultimately show thesis using that nw by (simp add: begun_def k1 z_def)
qed

section \<open>Any number of writes\<close>

text \<open>The writes an application makes on a writer, up to the first error.\<close>

fun pipe_writes :: "'z flate_ops \<Rightarrow> nat \<Rightarrow> bytes list \<Rightarrow> 'z wconn \<Rightarrow> (gerror option \<times> 'z wconn) option" where
  "pipe_writes ops i [] c = Some (None, c)"
| "pipe_writes ops i (p # ps) c =
     do { ((n, e), c1) \<leftarrow> pipeWrite ops i p c;
          if e \<noteq> None then Some (e, c1) else pipe_writes ops i ps c1 }"

lemma pipe_writes_inv:
  assumes "pipe_inv ops z0 w0 c0 i qs c"
    and "utf8 (writers c ! i) \<noteq> None \<Longrightarrow>
      fst (dfa_run utf8Accept 0 (concat qs @ concat ps)) \<noteq> utf8Reject"
  shows "\<exists>c'. pipe_writes ops i ps c = Some (None, c') \<and> pipe_inv ops z0 w0 c0 i (qs @ ps) c' \<and>
    (utf8 (writers c' ! i) = None) = (utf8 (writers c ! i) = None) \<and>
    same_kind (comp (writers c ! i)) (comp (writers c' ! i))"
  using assms
proof (induction ps arbitrary: qs c)
  case Nil
  then show ?case by simp
next
  case (Cons p ps)
  have pre: "fst (dfa_run utf8Accept 0 (concat qs @ p)) \<noteq> utf8Reject"
    if "utf8 (writers c ! i) \<noteq> None"
  proof
    assume "fst (dfa_run utf8Accept 0 (concat qs @ p)) = utf8Reject"
    then have "fst (dfa_run utf8Accept 0 ((concat qs @ p) @ concat ps)) = utf8Reject"
      by (simp only: dfa_run_append [of _ _ "concat qs @ p"] split_beta run_rejected)
    then show False using Cons.prems(2) that by simp
  qed
  obtain c1 where w: "pipeWrite ops i p c = Some ((length p, None), c1)"
    and inv: "pipe_inv ops z0 w0 c0 i (qs @ [p]) c1"
    and u: "(utf8 (writers c1 ! i) = None) = (utf8 (writers c ! i) = None)"
    and k: "same_kind (comp (writers c ! i)) (comp (writers c1 ! i))"
    by (rule pipe_step [OF Cons.prems(1) pre])
  obtain c' where "pipe_writes ops i ps c1 = Some (None, c')"
    and "pipe_inv ops z0 w0 c0 i ((qs @ [p]) @ ps) c'"
    and "(utf8 (writers c' ! i) = None) = (utf8 (writers c1 ! i) = None)"
    and "same_kind (comp (writers c1 ! i)) (comp (writers c' ! i))"
    using Cons.IH [OF inv] Cons.prems(2) u by auto
  then show ?case using w u same_kind_trans [OF k] by auto
qed

lemma message_sent_config:
  "message_sent t z d fs c0 c' \<Longrightarrow> same_config c c0 \<Longrightarrow> wire c0 = wire c \<Longrightarrow> message_sent t z d fs c c'"
  by (auto simp: message_sent_def same_config_def maskFrames_def)

lemma text_accepted:
  "utf8_text p \<Longrightarrow> fst (dfa_run utf8Accept x p) = utf8Accept"
  using run_complete [of p x] by (simp add: utf8Accept_def)

text \<open>Closing the pipeline: the message is on the wire whether or not the validator is content; it
  only decides what \<open>Close\<close> returns.\<close>

lemma pipe_close:
  assumes inv: "comp_inv ops z0 w0 c0 i ps c" and b: "busy c0" and d: "isData (frameType w0)"
    and p: "pending w0 c0 = []" and sy: "comp (writers c ! i) \<noteq> NoComp \<Longrightarrow> sync_flush ops"
  obtains c' fs data where
    "pipeClose ops i c = Some (case utf8 (writers c ! i) of None \<Rightarrow> None
       | Some u \<Rightarrow> if uwFailed u \<or> uwState u \<noteq> utf8Accept then Some ErrInvalidUTF8 else None, c')"
    and "message_sent (frameType w0) (compress w0) data fs c0 c'"
    and "carried ops z0 (comp (writers c ! i) \<noteq> NoComp) ps data"
    and "comp (writers c ! i) = NoComp \<Longrightarrow> list_all (slow_write c0) ps \<Longrightarrow> within (writeFrameSize c0) fs"
    and "comp (writers c ! i) \<noteq> TakeComp True \<Longrightarrow> factory c' = factory c0"
    and "comp (writers c ! i) = TakeComp True \<Longrightarrow>
      \<exists>f. factory c' = Some (f, i) \<and> fwErr f = None \<and> fw f = flate_end ops ps z0"
proof -
  define cc where "cc = (case utf8 (writers c ! i) of None \<Rightarrow> c
     | Some u \<Rightarrow> if \<not> uwFailed u \<and> uwState u \<noteq> utf8Accept then set_utf8 i (u\<lparr>uwFailed := True\<rparr>) c else c)"
  have i: "i < length (writers c)" by (rule comp_inv_index [OF inv])
  have k: "comp (writers cc ! i) = comp (writers c ! i)" "factory cc = factory c"
    using i by (auto simp: cc_def set_utf8_def split: option.splits)
  have inv': "comp_inv ops z0 w0 c0 i ps cc"
    using inv comp_inv_utf8 [OF inv] by (auto simp: cc_def split: option.splits)
  obtain c' fs data where cl: "compClose ops i cc = Some (None, c')"
    and r: "message_sent (frameType w0) (compress w0) data fs c0 c'"
      "carried ops z0 (comp (writers cc ! i) \<noteq> NoComp) ps data"
      "comp (writers cc ! i) = NoComp \<Longrightarrow> list_all (slow_write c0) ps \<Longrightarrow> within (writeFrameSize c0) fs"
      "comp (writers cc ! i) \<noteq> TakeComp True \<Longrightarrow> factory c' = factory c0"
      "comp (writers cc ! i) = TakeComp True \<Longrightarrow>
        \<exists>f. factory c' = Some (f, i) \<and> fwErr f = None \<and> fw f = flate_end ops ps z0"
    by (rule comp_close [OF inv' b d p]) (use sy k in auto)
  have "pipeClose ops i c = Some (case utf8 (writers c ! i) of None \<Rightarrow> None
       | Some u \<Rightarrow> if uwFailed u \<or> uwState u \<noteq> utf8Accept then Some ErrInvalidUTF8 else None, c')"
    using cl by (auto simp: pipeClose_def cc_def split: option.splits)
  then show thesis using that r unfolding k by blast
qed

text \<open>A whole message on an idle connection.\<close>

lemma stream_ok:
  fixes c :: "'z wconn"
  assumes c: "idle c" and d: "isData t" and f: "factory_ok c"
    and tx: "validating t c \<Longrightarrow> utf8_text (concat ps)"
    and sy: "compressing t c \<Longrightarrow> sync_flush ops"
  obtains i c1 and c0 :: "'z wconn" and c2 c' fs data where "NextWriter ops t c = Some (Inr i, c1)"
    and "pipe_writes ops i ps c1 = Some (None, c2)"
    and "pipeClose ops i c2 = Some (None, c')"
    and "message_sent t (compressing t c) data fs c c'"
    and "carried ops (start_state ops c) (compressing t c) ps data"
    and "factory_ok c'"
    and "start_state ops c' = (if compressing t c \<and> newCompressionWriter c = TakeoverFn
      then flate_end ops ps (start_state ops c) else start_state ops c)"
    and "busy c0" and "same_config c c0"
    and "\<not> compressing t c \<Longrightarrow> list_all (slow_write c0) ps \<Longrightarrow> within (writeFrameSize c) fs"
proof -
  obtain i c1 c0 w0 where nw: "NextWriter ops t c = Some (Inr i, c1)" and bg: "begun ops t c w0 c0 i c1"
    by (rule NextWriter_begins [OF c d f])
  have inv: "pipe_inv ops (start_state ops c) w0 c0 i [] c1" using bg by (simp add: begun_def)
  have u1: "utf8 (writers c1 ! i) \<noteq> None \<Longrightarrow> utf8_text (concat ps)"
    using bg tx by (auto simp: begun_def)
  then obtain c2 where ws: "pipe_writes ops i ps c1 = Some (None, c2)"
    and inv2: "pipe_inv ops (start_state ops c) w0 c0 i ([] @ ps) c2"
    and u2: "(utf8 (writers c2 ! i) = None) = (utf8 (writers c1 ! i) = None)"
    and k2: "same_kind (comp (writers c1 ! i)) (comp (writers c2 ! i))"
    using pipe_writes_inv [OF inv, of ps] prefix_not_rejected [of "concat ps" "[]"] by auto
  have nz: "(comp (writers c2 ! i) \<noteq> NoComp) = compressing t c" using k2 bg by (simp add: begun_def same_kind_def)
  have bz: "busy c0" "isData (frameType w0)" "pending w0 c0 = []" using bg d by (simp_all add: begun_def)
  obtain c' fs data where cl: "pipeClose ops i c2 = Some (case utf8 (writers c2 ! i) of None \<Rightarrow> None
       | Some u \<Rightarrow> if uwFailed u \<or> uwState u \<noteq> utf8Accept then Some ErrInvalidUTF8 else None, c')"
    and ms: "message_sent (frameType w0) (compress w0) data fs c0 c'"
    and ca: "carried ops (start_state ops c) (comp (writers c2 ! i) \<noteq> NoComp) ps data"
    and wi: "comp (writers c2 ! i) = NoComp \<Longrightarrow> list_all (slow_write c0) ps \<Longrightarrow> within (writeFrameSize c0) fs"
    and fa: "comp (writers c2 ! i) \<noteq> TakeComp True \<Longrightarrow> factory c' = factory c0"
    and fb: "comp (writers c2 ! i) = TakeComp True \<Longrightarrow>
      \<exists>f. factory c' = Some (f, i) \<and> fwErr f = None \<and> fw f = flate_end ops ps (start_state ops c)"
    by (rule pipe_close [of ops "start_state ops c" w0 c0 i ps c2])
      (use inv2 bz sy nz in \<open>auto simp: pipe_inv_def\<close>)
  have "uwState u = utf8Accept \<and> \<not> uwFailed u" if "utf8 (writers c2 ! i) = Some u" for u
  proof -
    have "utf8_text (concat ps)" using u1 u2 that by simp
    then have "fst (dfa_run utf8Accept 0 (concat ps)) = utf8Accept" by (rule text_accepted)
    then show ?thesis using inv2 that by (auto simp: pipe_inv_def utf8_inv_def prod_eq_iff)
  qed
  then have cl': "pipeClose ops i c2 = Some (None, c')" using cl by (auto split: option.splits)
  have ms': "message_sent t (compressing t c) data fs c c'"
    using message_sent_config [OF ms, of c] bg by (simp add: begun_def)
  have cf: "newCompressionWriter c' = newCompressionWriter c" "compressionLevel c' = compressionLevel c"
    using ms' by (simp_all add: message_sent_def same_config_def)
  have tk: "(comp (writers c2 ! i) = TakeComp True) = (compressing t c \<and> newCompressionWriter c = TakeoverFn)"
    using k2 bg by (simp add: begun_def same_kind_def)
  have fc: "factory c0 = factory c" using bg by (simp add: begun_def)
  have "factory_ok c' \<and> start_state ops c' = (if compressing t c \<and> newCompressionWriter c = TakeoverFn
      then flate_end ops ps (start_state ops c) else start_state ops c)"
  proof (cases "comp (writers c2 ! i) = TakeComp True")
    case True
    then show ?thesis using fb tk cf by (auto simp: factory_ok_def start_state_def)
  next
    case False
    then have "factory c' = factory c" using fa fc by simp
    then show ?thesis using False tk f cf
      by (auto simp: factory_ok_def start_state_def split: comp_fn.split option.split)
  qed
  moreover have cap: "writeFrameSize c0 = writeFrameSize c" using bg by (simp add: begun_def same_config_def)
  moreover have "carried ops (start_state ops c) (compressing t c) ps data" using ca nz by simp
  moreover have "within (writeFrameSize c) fs" if "\<not> compressing t c" "list_all (slow_write c0) ps"
    using wi nz cap that by simp
  ultimately show thesis
    using that [OF nw ws cl' ms' _ _ _ bz(1)] bg unfolding begun_def by blast
qed

end
