(* ===== verification/WriteMessages.thy ===== *)
theory WriteMessages
  imports Streaming
begin

text \<open>
  What \<open>WriteMessage\<close>, \<open>WriteControl\<close> and the writers of \<open>NextWriter\<close> do on a connection, stated
  over the wire: the frames of exactly one message, or nothing.
\<close>

section \<open>One frame without a writer\<close>

definition single_frame :: "int \<Rightarrow> bytes \<Rightarrow> mask_key option \<Rightarrow> frame" where
  "single_frame t data k = \<lparr>fin = True, rsv1 = False, opcode = t, mkey = k, payload = data\<rparr>"

lemma fast_ok:
  assumes c: "idle c" and t: "isControl t \<or> isData t"
    and n: "isControl t \<Longrightarrow> length data \<le> maxControlFramePayloadSize" and s: "isServer c"
  obtains c' where "fastMessage ops t data c = Some (None, c')"
    and "wire c' = wire c @ encode_frame (single_frame t data None)"
    and "writeErr c' = (if t = CloseMessage then Some ErrCloseSent else None)"
    and "t \<noteq> CloseMessage \<Longrightarrow> idle c'" and "same_config c c'"
    and "factory c' = factory c" and "writeMu c'" and "writer c' = None" and "mu c'"
proof -
  obtain wb ps where b: "beginMessage' t (c\<lparr>writeMu := False\<rparr>) =
       (None, newMessageWriter\<lparr>frameType := t, pos := maxFrameHeaderSize\<rparr>,
        c\<lparr>writeMu := False, writeBuf := wb, poolScript := ps\<rparr>)"
    and bz: "busy (c\<lparr>writeMu := False, writeBuf := wb, poolScript := ps\<rparr>)"
    by (rule begin_ready [OF c t])
  define c2 where "c2 = c\<lparr>writeMu := False, writeBuf := wb, poolScript := ps\<rparr>"
  define k where "k = min (length (bufOf c2) - maxFrameHeaderSize) (length data)"
  define buf where "buf = copy_at maxFrameHeaderSize data (bufOf c2)"
  define c3 where "c3 = c2\<lparr>writeBuf := Some buf\<rparr>"
  define w where "w = newMessageWriter\<lparr>frameType := t, pos := maxFrameHeaderSize + k\<rparr>"
  have room: "maxFrameHeaderSize < length (bufOf c2)" using bz by (simp add: busy_def has_room_def c2_def)
  have lb: "length buf = length (bufOf c2)" using room by (simp add: buf_def)
  have wr: "writer c = None" using c by (simp add: idle_def)
  have pend: "pending w c3 = take k data"
    using room by (simp add: pending_def w_def c3_def bufOf_def buf_def slice_def copy_at_def k_def min_def)
  have frame: "frame_of True (drop k data) w c3 = single_frame t data None"
    using s pend by (simp add: frame_of_def single_frame_def maskFrames_def c3_def c2_def w_def newMessageWriter_def)
  have ok: "writer_ok w c3"
    using room lb by (simp add: writer_ok_def w_def c3_def newMessageWriter_def bufOf_def k_def)
  have nk: "net_ok c3" "\<not> maskFrames c3" "\<not> writeMu c3"
    using bz s by (simp_all add: busy_def net_ok_def c3_def c2_def maskFrames_def)
  have ft: "frameType w = t" by (simp add: w_def)
  obtain w' buf' where fl: "flushFrame True (drop k data) w c3 =
       Some (None, w', after_end (after_frame (frame_of True (drop k data) w c3) buf' c3))"
    and lb': "length buf' = length (bufOf c3)"
    by (rule final_flush [OF ok nk(1), of "drop k data"]) (use nk n pend ft in auto)
  define c' where "c' = after_end (after_frame (single_frame t data None) buf' c3)"
  have "fastMessage ops t data c = Some (None, c')"
    using fl
    by (simp add: fastMessage_def acquire_idle [OF c] beginMessage_def wr b c2_def [symmetric] Let_def
        k_def [symmetric] buf_def [symmetric] c3_def [symmetric] w_def [symmetric] frame c'_def)
  moreover have "wire c' = wire c @ encode_frame (single_frame t data None)"
    by (simp add: c'_def after_frame_def c3_def c2_def)
  moreover have e: "writeErr c' = (if t = CloseMessage then Some ErrCloseSent else None)"
    by (simp add: c'_def after_frame_def single_frame_def)
  moreover have "t \<noteq> CloseMessage \<Longrightarrow> idle c'" and "same_config c c'"
  proof -
    have r: "maxFrameHeaderSize < length buf'" using lb' lb room by (simp add: c3_def bufOf_def)
    have bz3: "busy c3" using bz room lb
      by (simp add: busy_def net_ok_def deadline_ok_def buffers_ok_def has_room_def c3_def c2_def bufOf_def)
    show "idle c'" if "t \<noteq> CloseMessage"
      unfolding c'_def
      by (rule end_idle(1) [OF bz3 only_wire_refl r]) (use that in \<open>simp add: single_frame_def\<close>)
    show "same_config c c'"
      by (simp add: c'_def after_end_def after_frame_def c3_def c2_def same_config_def Let_def)
  qed
  moreover have "factory c' = factory c" "writeMu c'" "writer c' = None" "mu c'"
    using nk by (simp_all add: c'_def after_end_def after_frame_def c3_def c2_def Let_def net_ok_def)
  ultimately show thesis using that by blast
qed

section \<open>\<open>WriteMessage\<close>\<close>

lemma validate_ok: "validating t c \<and> utf8DFAValidate data \<noteq> utf8Accept \<longleftrightarrow> validating t c \<and> \<not> utf8_text data"
  by (simp add: validate_text)

lemma WriteMessage_slow:
  assumes "\<not> (validating t c \<and> \<not> utf8_text data)"
    and "\<not> (isServer c \<and> (newCompressionWriter c = NilFn \<or> \<not> enableWriteCompression c) \<and>
              (writeFrameSize c = 0 \<or> length data \<le> writeFrameSize c))"
    and "NextWriter ops t c = Some (Inr i, c1)"
    and "pipe_writes ops i [data] c1 = Some (None, c2)"
    and "pipeClose ops i c2 = Some r"
  shows "WriteMessage ops t data c = Some r"
proof -
  obtain n where "pipeWrite ops i data c1 = Some ((n, None), c2)"
    using assms(4) by (auto split: Option.bind_splits if_splits)
  then show ?thesis
    unfolding WriteMessage_def validate_ok if_not_P [OF assms(1)] if_not_P [OF assms(2)]
    using assms(3,5) by simp
qed

text \<open>The data of the frames, given the compressor's stream when there is one.\<close>

lemma WriteMessage_ok:
  fixes c :: "'z wconn"
  assumes c: "idle c" and d: "isData t" and f: "factory_ok c"
    and tx: "validating t c \<Longrightarrow> utf8_text msg" and sy: "compressing t c \<Longrightarrow> sync_flush ops"
  obtains c' fs data where "WriteMessage ops t msg c = Some (None, c')"
    and "message_sent t (compressing t c) data fs c c'"
    and "carried ops (start_state ops c) (compressing t c) [msg] data"
    and "factory_ok c'"
    and "start_state ops c' = (if compressing t c \<and> newCompressionWriter c = TakeoverFn
      then flate_end ops [msg] (start_state ops c) else start_state ops c)"
    and "\<not> compressing t c \<Longrightarrow> within (writeFrameSize c) fs"
proof (cases "isServer c \<and> (newCompressionWriter c = NilFn \<or> \<not> enableWriteCompression c) \<and>
              (writeFrameSize c = 0 \<or> length msg \<le> writeFrameSize c)")
  case True
  have nz: "\<not> compressing t c" using True by (auto simp: compressing_def)
  have nc: "\<not> isControl t" "t \<noteq> CloseMessage" using d by (auto simp: isData_def isControl_def message_types)
  obtain c' where r: "fastMessage ops t msg c = Some (None, c')"
    and wi: "wire c' = wire c @ encode_frame (single_frame t msg None)"
    and "writeErr c' = (if t = CloseMessage then Some ErrCloseSent else None)"
    and id: "t \<noteq> CloseMessage \<Longrightarrow> idle c'" and cf: "same_config c c'" and fa: "factory c' = factory c"
    by (rule fast_ok [OF c, of t msg ops]) (use True d nc in auto)
  have wm: "WriteMessage ops t msg c = Some (None, c')"
    using True tx r by (auto simp: WriteMessage_def validate_text)
  have ms: "message_sent t (compressing t c) msg [single_frame t msg None] c c'"
    using wi id nc cf nz True
    by (simp add: message_sent_def message_frames_single single_frame_def is_masked_def maskFrames_def)
  show thesis
    by (rule that [OF wm ms])
      (use nz f fa cf True in \<open>auto simp: carried_def factory_ok_def start_state_def same_config_def
          single_frame_def split: comp_fn.split option.split\<close>)
next
  case False
  obtain i c1 and c0 :: "'z wconn" and c2 c' fs data where nw: "NextWriter ops t c = Some (Inr i, c1)"
    and ws: "pipe_writes ops i [msg] c1 = Some (None, c2)"
    and cl: "pipeClose ops i c2 = Some (None, c')"
    and r: "message_sent t (compressing t c) data fs c c'"
      "carried ops (start_state ops c) (compressing t c) [msg] data" "factory_ok c'"
      "start_state ops c' = (if compressing t c \<and> newCompressionWriter c = TakeoverFn
        then flate_end ops [msg] (start_state ops c) else start_state ops c)"
    and cf: "same_config c c0"
    and wi: "\<not> compressing t c \<Longrightarrow> list_all (slow_write c0) [msg] \<Longrightarrow> within (writeFrameSize c) fs"
    by (rule stream_ok [OF c d f _ sy, of "[msg]"]) (use tx in auto)
  have "WriteMessage ops t msg c = Some (None, c')"
    by (rule WriteMessage_slow [OF _ False nw ws cl]) (use tx in auto)
  moreover have "within (writeFrameSize c) fs" if "\<not> compressing t c"
  proof (rule wi [OF that])
    have "slow_write c0 msg"
      using False that d cf by (auto simp: slow_write_def compressing_def same_config_def)
    then show "list_all (slow_write c0) [msg]" by simp
  qed
  ultimately show thesis using that r by blast
qed

section \<open>Control frames\<close>

definition control_frame :: "int \<Rightarrow> bytes \<Rightarrow> 'a conn_scheme \<Rightarrow> frame" where
  "control_frame t data c = single_frame t data (if maskFrames c then Some (maskRand c (maskIdx c)) else None)"

text \<open>The connection after a control frame.\<close>

definition after_control :: "int \<Rightarrow> bytes \<Rightarrow> time \<Rightarrow> 'a conn_scheme \<Rightarrow> 'a conn_scheme" where
  "after_control t data d c =
     c\<lparr>maskIdx := (if maskFrames c then Suc (maskIdx c) else maskIdx c),
       netWriteDeadline := d, wire := wire c @ encode_frame (control_frame t data c),
       writeErr := (if t = CloseMessage then Some ErrCloseSent else None)\<rparr>"

lemma control_bytes:
  assumes "length data \<le> maxControlFramePayloadSize"
  shows "encode_frame (control_frame t data c) =
     [of_int t OR finalBit, of_nat (length data) OR (if maskFrames c then maskBit else 0)] @
     (if maskFrames c then key_bytes (maskRand c (maskIdx c)) @ xor_mask (maskRand c (maskIdx c)) 0 data
      else data)"
proof -
  have "len_code (length data) = length data" "len_ext (length data) = []"
    using assms by (simp_all add: len_code_def len_ext_def maxControlFramePayloadSize_def)
  then show ?thesis
    by (cases "maskRand c (maskIdx c)")
      (simp add: encode_frame_def control_frame_def single_frame_def frame_b0_def frame_b1_def
        masked_payload_def or.commute)
qed

lemma WriteControl_ok:
  assumes k: "isControl t" and n: "length data \<le> maxControlFramePayloadSize"
    and c: "net_ok c" and d: "d = None \<or> now c \<le> the d"
  shows "WriteControl t data d c = Some (None, after_control t data d c)"
proof -
  have nn: "\<not> length data > maxControlFramePayloadSize" using n by simp
  have "acquireMu d (c\<lparr>maskIdx := i\<rparr>) = Some (None, c\<lparr>maskIdx := i, mu := False\<rparr>)" for i
    using c d by (cases d) (auto simp: acquireMu_def net_ok_def)
  moreover have "acquireMu d c = Some (None, c\<lparr>mu := False\<rparr>)"
    using c d by (cases d) (auto simp: acquireMu_def net_ok_def)
  ultimately show ?thesis
    using k nn c
    by (auto simp: WriteControl_def Let_def newMaskKey_def writeHeld_ok net_ok_def after_control_def
        control_bytes [OF n] maskBytes_eq)
qed

text \<open>A control frame leaves a message writer as it was.\<close>

lemma control_ready:
  assumes "mw_ready w c" and "t \<noteq> CloseMessage"
  shows "mw_ready w (after_control t data d c)"
    and "pending w (after_control t data d c) = pending w c"
    and "maskFrames (after_control t data d c) = maskFrames c"
    and "writeMu (after_control t data d c) = writeMu c"
  using assms
  by (simp_all add: after_control_def mw_ready_def writer_ok_def net_ok_def in_cap_def has_room_def
      bufOf_def pending_def maskFrames_def)

section \<open>Text that is not UTF-8\<close>

text \<open>What happens to a streamed text message that is cut inside a character, or in which the
  application's next write is rejected: the data before is sent as a whole message.\<close>

lemma stream_bad_text:
  fixes c :: "'z wconn"
  assumes c: "idle c" and f: "factory_ok c" and v: "validating t c" and nz: "\<not> compressing t c"
    and ps: "fst (dfa_run utf8Accept 0 (concat ps)) \<noteq> utf8Reject"
  obtains i c1 c2 where "NextWriter ops t c = Some (Inr i, c1)"
    and "pipe_writes ops i ps c1 = Some (None, c2)"
    and "\<not> utf8_text (concat ps) \<longrightarrow> (\<exists>c' fs. pipeClose ops i c2 = Some (Some ErrInvalidUTF8, c') \<and>
      message_sent t False (concat ps) fs c c')"
    and "\<forall>p. fst (dfa_run utf8Accept 0 (concat ps @ p)) = utf8Reject \<longrightarrow>
      (\<exists>n c3 c' fs. pipeWrite ops i p c2 = Some ((n, Some ErrInvalidUTF8), c3) \<and> n < length p \<and> wire c3 = wire c2 \<and>
        pipeClose ops i c3 = Some (Some ErrInvalidUTF8, c') \<and> message_sent t False (concat ps) fs c c')"
proof -
  have d: "isData t" using v by (simp add: validating_def isData_def)
  obtain i c1 c0 w0 where nw: "NextWriter ops t c = Some (Inr i, c1)" and bg: "begun ops t c w0 c0 i c1"
    by (rule NextWriter_begins [OF c d f])
  have inv: "pipe_inv ops (start_state ops c) w0 c0 i [] c1" using bg by (simp add: begun_def)
  obtain c2 where ws: "pipe_writes ops i ps c1 = Some (None, c2)"
    and inv2: "pipe_inv ops (start_state ops c) w0 c0 i ([] @ ps) c2"
    and u2: "(utf8 (writers c2 ! i) = None) = (utf8 (writers c1 ! i) = None)"
    and k2: "same_kind (comp (writers c1 ! i)) (comp (writers c2 ! i))"
    using pipe_writes_inv [OF inv, of ps] ps by auto
  have nc: "comp (writers c2 ! i) = NoComp" using k2 bg nz by (simp add: begun_def same_kind_def)
  obtain u where u: "utf8 (writers c2 ! i) = Some u" using u2 bg v by (auto simp: begun_def)
  have us: "\<not> uwFailed u" "dfa_run utf8Accept 0 (concat ps) = (uwState u, uwCodepoint u)"
    "uwState u \<noteq> utf8Reject"
    using inv2 u by (auto simp: pipe_inv_def utf8_inv_def)
  have bz: "busy c0" "isData (frameType w0)" "pending w0 c0 = []"
    "frameType w0 = t" "compress w0 = False" "same_config c c0" "wire c0 = wire c"
    using bg d nz by (simp_all add: begun_def)
  have ci: "comp_inv ops (start_state ops c) w0 c0 i ps c2" using inv2 by (simp add: pipe_inv_def)
  have close: "\<exists>c' fs. pipeClose ops i cx = Some (Some ErrInvalidUTF8, c') \<and> message_sent t False (concat ps) fs c c'"
    if cx: "comp_inv ops (start_state ops c) w0 c0 i ps cx" "comp (writers cx ! i) = NoComp"
      "utf8 (writers cx ! i) = Some ux" "uwFailed ux \<or> uwState ux \<noteq> utf8Accept" for cx ux
  proof -
    obtain c' fs data where cl: "pipeClose ops i cx = Some (case utf8 (writers cx ! i) of None \<Rightarrow> None
       | Some u \<Rightarrow> if uwFailed u \<or> uwState u \<noteq> utf8Accept then Some ErrInvalidUTF8 else None, c')"
      and ms: "message_sent (frameType w0) (compress w0) data fs c0 c'"
      and ca: "carried ops (start_state ops c) (comp (writers cx ! i) \<noteq> NoComp) ps data"
      by (rule pipe_close [OF cx(1) bz(1,2,3)]) (use cx in auto)
    have "data = concat ps" using ca cx by (simp add: carried_def)
    then have "message_sent t False (concat ps) fs c c'"
      using message_sent_config [of t False data fs c0 c' c] ms bz by simp
    then show ?thesis using cl cx by auto
  qed
  have one: "\<exists>c' fs. pipeClose ops i c2 = Some (Some ErrInvalidUTF8, c') \<and>
      message_sent t False (concat ps) fs c c'" if "\<not> utf8_text (concat ps)"
  proof (rule close [OF ci nc u])
    have "uwState u \<noteq> utf8Accept"
      using that us run_sound [of 0 "concat ps"] by (auto simp: utf8Accept_def)
    then show "uwFailed u \<or> uwState u \<noteq> utf8Accept" by simp
  qed
  have two: "\<exists>n c3 c' fs. pipeWrite ops i p c2 = Some ((n, Some ErrInvalidUTF8), c3) \<and> n < length p \<and> wire c3 = wire c2 \<and>
        pipeClose ops i c3 = Some (Some ErrInvalidUTF8, c') \<and> message_sent t False (concat ps) fs c c'"
    if rej: "fst (dfa_run utf8Accept 0 (concat ps @ p)) = utf8Reject" for p
  proof -
    have b: "uwState u < 9" using run_bound [of utf8Accept 0 "concat ps"] us by (simp add: utf8Accept_def)
    have "fst (dfa_run (uwState u) (uwCodepoint u) p) = utf8Reject"
      using rej us by (simp add: dfa_run_append)
    from scan_rejects [OF b us(3) this, of 0] obtain x n where
      sc: "utf8Scan 0 (uwState u) (uwCodepoint u) p = (utf8Reject, x, Some n)" and n: "n < length p" by auto
    let ?v = "\<lparr>uwState = utf8Reject, uwCodepoint = x, uwFailed = True\<rparr>"
    let ?c3 = "set_utf8 i ?v c2"
    have i: "i < length (writers c2)" by (rule comp_inv_index [OF ci])
    have w: "pipeWrite ops i p c2 = Some ((n, Some ErrInvalidUTF8), ?c3)"
      using u us sc by (simp add: pipeWrite_def)
    have "wire ?c3 = wire c2" by (simp add: set_utf8_def)
    moreover obtain c' fs where "pipeClose ops i ?c3 = Some (Some ErrInvalidUTF8, c')"
      and "message_sent t False (concat ps) fs c c'"
      using close [OF comp_inv_utf8 [OF ci], of ?v ?v] nc i by (auto simp: set_utf8_def)
    ultimately show ?thesis using w n by blast
  qed
  show thesis
  proof (rule that [OF nw ws])
    show "\<not> utf8_text (concat ps) \<longrightarrow> (\<exists>c' fs. pipeClose ops i c2 = Some (Some ErrInvalidUTF8, c') \<and>
      message_sent t False (concat ps) fs c c')" by (rule impI, rule one)
    show "\<forall>p. fst (dfa_run utf8Accept 0 (concat ps @ p)) = utf8Reject \<longrightarrow>
      (\<exists>n c3 c' fs. pipeWrite ops i p c2 = Some ((n, Some ErrInvalidUTF8), c3) \<and> n < length p \<and> wire c3 = wire c2 \<and>
        pipeClose ops i c3 = Some (Some ErrInvalidUTF8, c') \<and> message_sent t False (concat ps) fs c c')"
      by (rule allI, rule impI, rule two)
  qed
qed

section \<open>A new connection\<close>

text \<open>A new connection with no writers yet.\<close>

definition newWConn ::
  "bool \<Rightarrow> int \<Rightarrow> int \<Rightarrow> bool \<Rightarrow> (nat \<times> bytes) option \<Rightarrow> bytes option \<Rightarrow> environment \<Rightarrow> 'z wconn" where
  "newWConn server readBufferSize writeBufferSize writeBufferPool br wbuf env =
     conn.extend (newConn server readBufferSize writeBufferSize writeBufferPool br wbuf env)
       (wconn.fields [] None)"

text \<open>A network that works, an empty pool.\<close>

definition quiet :: environment where
  "quiet = \<lparr>envNow = 0, envNet = [], envRand = (\<lambda>i. (1, 2, 3, 4)), envPool = [],
     envLittleEndian = True, envAddr = 0, envIn = []\<rparr>"

lemmas new_conn_defs = newWConn_def newConn_def conn.extend_def wconn.fields_def quiet_def Let_def

lemma new_idle:
  assumes "envNet env = []" and "list_all (\<lambda>b. case b of None \<Rightarrow> True | Some b \<Rightarrow> maxFrameHeaderSize < length b) (envPool env)"
    and "\<And>b. wbuf = Some b \<Longrightarrow> maxFrameHeaderSize < length b"
  shows "idle (newWConn server rs ws pool br wbuf env)" and "factory_ok (newWConn server rs ws pool br wbuf env)"
  using assms
  by (auto simp: new_conn_defs idle_def net_ok_def deadline_ok_def buffers_ok_def factory_ok_def
      defaultWriteBufferSize_def maxFrameHeaderSize_def split: option.splits prod.splits)

lemma new_quiet:
  "idle (newWConn server rs ws pool br None quiet)" "factory_ok (newWConn server rs ws pool br None quiet)"
  by (rule new_idle; simp add: quiet_def)+

text \<open>A client and a server, and the same with compression negotiated.\<close>

definition client0 :: "bytes wconn" where
  "client0 = newWConn False 0 0 False None None quiet"

definition server0 :: "bytes wconn" where
  "server0 = newWConn True 0 0 False None None quiet"

definition server1 :: "bytes wconn" where
  "server1 = server0\<lparr>newCompressionWriter := TakeoverFn\<rparr>"

lemma idle_comp [simp]:
  "idle (c\<lparr>newCompressionWriter := x\<rparr>) = idle c" "factory_ok (c'\<lparr>newCompressionWriter := x\<rparr>) = factory_ok c'"
  by (simp_all add: idle_def net_ok_def deadline_ok_def buffers_ok_def factory_ok_def split: option.split)

lemma sample_idle [simp]:
  "idle client0" "factory_ok client0" "idle server0" "factory_ok server0" "idle server1" "factory_ok server1"
proof -
  show "idle client0" "factory_ok client0" "idle server0" "factory_ok server0"
    by (simp_all only: client0_def server0_def new_quiet)
  then show "idle server1" "factory_ok server1" by (simp_all add: server1_def)
qed

lemma sample_fields [simp]:
  "isServer client0 = False" "isServer server0" "newCompressionWriter client0 = NilFn"
  "newCompressionWriter server0 = NilFn" "newCompressionWriter server1 = TakeoverFn"
  "enableWriteCompression server1" "skipUTF8Validation client0 = False"
  "skipUTF8Validation server0 = False" "skipUTF8Validation server1 = False"
  by (simp_all add: client0_def server0_def server1_def new_conn_defs)

lemma utf8_text_ascii: "list_all (\<lambda>b. b < 0x80) p \<Longrightarrow> utf8_text p"
proof (induction p)
  case Nil
  show ?case by (simp add: utf8_text_def exI [of _ "[]"])
next
  case (Cons b p)
  then obtain cs where "list_all is_scalar cs" "p = concat (map utf8_encode cs)"
    by (auto simp: utf8_text_def)
  moreover have "unat b < 0x80" using Cons.prems by (simp add: word_less_nat_alt)
  ultimately have "list_all is_scalar (unat b # cs)" "b # p = concat (map utf8_encode (unat b # cs))"
    by (simp_all add: is_scalar_def utf8_encode_def)
  then show ?case unfolding utf8_text_def by blast
qed

section \<open>Properties\<close>

text \<open>C1: on an idle connection (the write lock free, no error latched, a network that works) and without
  compression, WriteMessage of a text message that is UTF-8, or of any binary message, returns no
  error and appends to the wire the frames of exactly that message: the first carries the type, the
  others are continuations, only the last is final, their payloads concatenated are the message, all
  are masked exactly when the connection is a client that has not disabled masking, and none is
  larger than the write frame size. The connection is idle again, with the same settings.\<close>

theorem write_message_plain:
  assumes "idle c" and "isData t" and "factory_ok c" and "\<not> compressing t c"
    and "validating t c \<Longrightarrow> utf8_text msg"
  shows "\<exists>c' fs. WriteMessage ops t msg c = Some (None, c') \<and>
    wire c' = wire c @ encode_frames fs \<and> message_frames t False msg fs \<and>
    list_all (\<lambda>f. (mkey f \<noteq> None) = (\<not> isServer c \<and> \<not> disableMask c)) fs \<and>
    (writeFrameSize c = 0 \<or> list_all (\<lambda>f. length (payload f) \<le> writeFrameSize c) fs) \<and>
    idle c' \<and> same_config c c'"
proof -
  obtain c' fs data where r: "WriteMessage ops t msg c = Some (None, c')"
    and m: "message_sent t (compressing t c) data fs c c'"
    and d: "carried ops (start_state ops c) (compressing t c) [msg] data"
    and w: "\<not> compressing t c \<Longrightarrow> within (writeFrameSize c) fs"
    by (rule WriteMessage_ok [OF assms(1,2,3), of msg ops]) (use assms in auto)
  have "data = msg" using d assms(4) by (simp add: carried_def)
  with m assms(4) have "message_sent t False msg fs c c'" by simp
  then show ?thesis using r w [OF assms(4)] unfolding message_sent_def within_def
    by (intro exI [of _ c'] exI [of _ fs] conjI)
      (simp_all only: is_masked_def maskFrames_def)
qed

lemma write_message_plain_witness:
  "\<exists>c' fs. WriteMessage stored_ops TextMessage (bytes_of_string ''hello'') client0 = Some (None, c') \<and>
    wire c' = wire client0 @ encode_frames fs \<and> message_frames TextMessage False (bytes_of_string ''hello'') fs \<and>
    list_all (\<lambda>f. (mkey f \<noteq> None) = (\<not> isServer client0 \<and> \<not> disableMask client0)) fs \<and>
    (writeFrameSize client0 = 0 \<or> list_all (\<lambda>f. length (payload f) \<le> writeFrameSize client0) fs) \<and>
    idle c' \<and> same_config client0 c'"
  by (rule write_message_plain)
    (simp_all add: isData_def compressing_def utf8_text_ascii bytes_of_string_def)

text \<open>C2: with compression negotiated and enabled, WriteMessage sends the frames of one message with the
  compression bit on the first frame only, and their payloads concatenated are the compressor's
  output for the message and the flush after it, without the final 00 00 ff ff (RFC 7692, section
  7.2.1). With context takeover the next message starts from the compressor's state after this one,
  without it from a new compressor. The compressor is any that ends a flush with a sync marker.\<close>

theorem write_message_compressed:
  assumes "idle c" and "isData t" and "factory_ok c" and "compressing t c"
    and "validating t c \<Longrightarrow> utf8_text msg" and "sync_flush ops"
  shows "\<exists>c' fs data. WriteMessage ops t msg c = Some (None, c') \<and>
    wire c' = wire c @ encode_frames fs \<and> message_frames t True data fs \<and>
    data @ [0, 0, 0xff, 0xff] = flate_stream ops [msg] (start_state ops c) \<and>
    idle c' \<and> factory_ok c' \<and>
    start_state ops c' = (if newCompressionWriter c = TakeoverFn
      then flate_end ops [msg] (start_state ops c) else fl_new ops (compressionLevel c))"
proof -
  obtain c' fs data where r: "WriteMessage ops t msg c = Some (None, c')"
    and m: "message_sent t (compressing t c) data fs c c'"
    and d: "carried ops (start_state ops c) (compressing t c) [msg] data"
    and f: "factory_ok c'"
    and s: "start_state ops c' = (if compressing t c \<and> newCompressionWriter c = TakeoverFn
      then flate_end ops [msg] (start_state ops c) else start_state ops c)"
    by (rule WriteMessage_ok [OF assms(1,2,3), of msg ops]) (use assms in auto)
  have "newCompressionWriter c \<noteq> TakeoverFn \<Longrightarrow> start_state ops c = fl_new ops (compressionLevel c)"
    by (simp add: start_state_def split: comp_fn.split)
  then have "start_state ops c' = (if newCompressionWriter c = TakeoverFn
      then flate_end ops [msg] (start_state ops c) else fl_new ops (compressionLevel c))"
    using s assms(4) by simp
  moreover have "data @ [0, 0, 0xff, 0xff] = flate_stream ops [msg] (start_state ops c)"
    using d assms(4) by (simp add: carried_def)
  moreover have "wire c' = wire c @ encode_frames fs" "message_frames t True data fs" "idle c'"
    using m assms(4) by (simp_all add: message_sent_def)
  ultimately show ?thesis using r f by blast
qed

lemma write_message_compressed_witness:
  "\<exists>c' fs data. WriteMessage stored_ops BinaryMessage [7, 7] server1 = Some (None, c') \<and>
    wire c' = wire server1 @ encode_frames fs \<and> message_frames BinaryMessage True data fs \<and>
    data @ [0, 0, 0xff, 0xff] = flate_stream stored_ops [[7, 7]] (start_state stored_ops server1) \<and>
    idle c' \<and> factory_ok c' \<and>
    start_state stored_ops c' = (if newCompressionWriter server1 = TakeoverFn
      then flate_end stored_ops [[7, 7]] (start_state stored_ops server1)
      else fl_new stored_ops (compressionLevel server1))"
  by (rule write_message_compressed)
    (simp_all add: isData_def compressing_def validating_def stored_sync message_types)

text \<open>C3: streaming a message: NextWriter, any number of Write calls with chunks of any size, and Close,
  on an idle connection without compression, put on the wire the frames of one message carrying the
  concatenation of the chunks, and leave the connection idle; every call returns no error. On a client no
  frame is larger than the write frame size.\<close>

theorem stream_message:
  assumes "idle c" and "isData t" and "factory_ok c" and "\<not> compressing t c"
    and "validating t c \<Longrightarrow> utf8_text (concat ps)"
  shows "\<exists>i c1 c2 c' fs. NextWriter ops t c = Some (Inr i, c1) \<and>
    pipe_writes ops i ps c1 = Some (None, c2) \<and> pipeClose ops i c2 = Some (None, c') \<and>
    wire c' = wire c @ encode_frames fs \<and> message_frames t False (concat ps) fs \<and>
    (\<not> isServer c \<longrightarrow> writeFrameSize c = 0 \<or> list_all (\<lambda>f. length (payload f) \<le> writeFrameSize c) fs) \<and>
    idle c' \<and> same_config c c'"
proof -
  obtain i c1 and c0 :: "'a wconn" and c2 c' fs data where r: "NextWriter ops t c = Some (Inr i, c1)"
    "pipe_writes ops i ps c1 = Some (None, c2)" "pipeClose ops i c2 = Some (None, c')"
    "message_sent t (compressing t c) data fs c c'"
    "carried ops (start_state ops c) (compressing t c) ps data"
    and cf: "same_config c c0"
    and wi: "\<not> compressing t c \<Longrightarrow> list_all (slow_write c0) ps \<Longrightarrow> within (writeFrameSize c) fs"
    by (rule stream_ok [OF assms(1,2,3), of ps ops]) (use assms in auto)
  then have ms: "message_sent t False (concat ps) fs c c'" using assms(4) by (simp add: carried_def)
  have "\<not> isServer c \<longrightarrow> list_all (slow_write c0) ps"
    using cf by (auto simp: slow_write_def same_config_def list_all_iff)
  then have "\<not> isServer c \<longrightarrow> within (writeFrameSize c) fs" using wi [OF assms(4)] by blast
  then show ?thesis using r(1,2,3) ms unfolding message_sent_def within_def by blast
qed

lemma stream_message_witness:
  "\<exists>i c1 c2 c' fs. NextWriter stored_ops BinaryMessage server0 = Some (Inr i, c1) \<and>
    pipe_writes stored_ops i [[1], [], [2, 3]] c1 = Some (None, c2) \<and> pipeClose stored_ops i c2 = Some (None, c') \<and>
    wire c' = wire server0 @ encode_frames fs \<and>
    message_frames BinaryMessage False (concat [[1], [], [2, 3]]) fs \<and>
    (\<not> isServer server0 \<longrightarrow> writeFrameSize server0 = 0 \<or> list_all (\<lambda>f. length (payload f) \<le> writeFrameSize server0) fs) \<and>
    idle c' \<and> same_config server0 c'"
  by (rule stream_message) (simp_all add: isData_def compressing_def validating_def message_types)

text \<open>WriteMessage of a text message that is not UTF-8 returns the UTF-8 error and changes nothing,
  neither the wire nor any field of the connection, unless validation is switched off.\<close>

lemma write_message_rejects_bad_text:
  assumes "\<not> skipUTF8Validation c" and "\<not> utf8_text msg"
  shows "WriteMessage ops TextMessage msg c = Some (Some ErrInvalidUTF8, c)"
  using assms by (simp add: WriteMessage_def validating_def validate_text)

lemma lone_continuation: "\<not> utf8_text [0x80]"
proof -
  have "utf8DFAValidate [0x80] \<noteq> utf8Accept" by code_simp
  then show ?thesis by (simp add: validate_text)
qed

lemma write_message_rejects_bad_text_witness:
  "WriteMessage stored_ops TextMessage [0x80] client0 = Some (Some ErrInvalidUTF8, client0)"
  by (rule write_message_rejects_bad_text) (simp_all add: lone_continuation)

text \<open>C26: a text message streamed through NextWriter that is cut inside a character is reported as
  invalid by Close, and so is one in which a write is rejected; but in both cases Close has sent the
  data accepted before as a complete, final text message, which is not UTF-8 in the first case and
  is not what the application meant to send in the second.\<close>

theorem bad_text_is_sent:
  assumes "idle c" and "factory_ok c" and "validating t c" and "\<not> compressing t c"
    and "fst (dfa_run utf8Accept 0 (concat ps)) \<noteq> utf8Reject"
    and "\<not> utf8_text (concat ps)" and "fst (dfa_run utf8Accept 0 (concat ps @ p)) = utf8Reject"
  shows "\<exists>i c1 c2 c3 c' c'' fs gs n. NextWriter ops t c = Some (Inr i, c1) \<and>
    pipe_writes ops i ps c1 = Some (None, c2) \<and>
    pipeClose ops i c2 = Some (Some ErrInvalidUTF8, c') \<and>
    wire c' = wire c @ encode_frames fs \<and> message_frames t False (concat ps) fs \<and>
    pipeWrite ops i p c2 = Some ((n, Some ErrInvalidUTF8), c3) \<and>
    pipeClose ops i c3 = Some (Some ErrInvalidUTF8, c'') \<and>
    wire c'' = wire c @ encode_frames gs \<and> message_frames t False (concat ps) gs"
proof -
  obtain i c1 c2 where "NextWriter ops t c = Some (Inr i, c1)"
    and "pipe_writes ops i ps c1 = Some (None, c2)"
    and one: "\<not> utf8_text (concat ps) \<longrightarrow> (\<exists>c' fs. pipeClose ops i c2 = Some (Some ErrInvalidUTF8, c') \<and>
      message_sent t False (concat ps) fs c c')"
    and two: "\<forall>p. fst (dfa_run utf8Accept 0 (concat ps @ p)) = utf8Reject \<longrightarrow>
      (\<exists>n c3 c' fs. pipeWrite ops i p c2 = Some ((n, Some ErrInvalidUTF8), c3) \<and> n < length p \<and> wire c3 = wire c2 \<and>
        pipeClose ops i c3 = Some (Some ErrInvalidUTF8, c') \<and> message_sent t False (concat ps) fs c c')"
    by (rule stream_bad_text [OF assms(1-5), of ops])
  then show ?thesis using one [rule_format, OF assms(6)] two [rule_format, OF assms(7)] unfolding message_sent_def by blast
qed

lemma bad_text_is_sent_witness:
  "\<exists>i c1 c2 c3 c' c'' fs gs n. NextWriter stored_ops TextMessage client0 = Some (Inr i, c1) \<and>
    pipe_writes stored_ops i [[0x68], [0xE2, 0x82]] c1 = Some (None, c2) \<and>
    pipeClose stored_ops i c2 = Some (Some ErrInvalidUTF8, c') \<and>
    wire c' = wire client0 @ encode_frames fs \<and>
    message_frames TextMessage False (concat [[0x68], [0xE2, 0x82]]) fs \<and>
    pipeWrite stored_ops i [0x41] c2 = Some ((n, Some ErrInvalidUTF8), c3) \<and>
    pipeClose stored_ops i c3 = Some (Some ErrInvalidUTF8, c'') \<and>
    wire c'' = wire client0 @ encode_frames gs \<and>
    message_frames TextMessage False (concat [[0x68], [0xE2, 0x82]]) gs"
proof (rule bad_text_is_sent)
  show "fst (dfa_run utf8Accept 0 (concat [[0x68], [0xE2, 0x82]])) \<noteq> utf8Reject" by code_simp
  show "fst (dfa_run utf8Accept 0 (concat [[0x68], [0xE2, 0x82]] @ [0x41])) = utf8Reject" by code_simp
  have "utf8DFAValidate (concat [[0x68], [0xE2, 0x82]]) \<noteq> utf8Accept" by code_simp
  then show "\<not> utf8_text (concat [[0x68], [0xE2, 0x82]])" by (simp only: validate_text simp_thms)
qed (simp_all add: validating_def compressing_def)

text \<open>WriteControl of a control frame of at most 125 bytes on a network that works sends exactly
  one final, unfragmented frame of that type with that payload, masked exactly when the connection
  masks, whatever the state of the write lock; after a close frame the connection refuses writes
  with ErrCloseSent, and otherwise nothing but the wire, the mask counter and the network's deadline
  changes.\<close>

lemma write_control_frame:
  assumes "isControl t" and "length data \<le> 125" and "net_ok c"
    and "deadline = None \<or> now c \<le> the deadline"
  shows "WriteControl t data deadline c = Some (None,
    c\<lparr>maskIdx := (if maskFrames c then Suc (maskIdx c) else maskIdx c), netWriteDeadline := deadline,
      wire := wire c @ encode_frame \<lparr>fin = True, rsv1 = False, opcode = t,
        mkey = (if maskFrames c then Some (maskRand c (maskIdx c)) else None), payload = data\<rparr>,
      writeErr := (if t = CloseMessage then Some ErrCloseSent else None)\<rparr>)"
  using WriteControl_ok [of t data c deadline] assms
  by (simp add: maxControlFramePayloadSize_def after_control_def control_frame_def single_frame_def)

text \<open>C24: control frames may be sent between the writes of a streamed message: the control frame lies
  whole between two frames of the message, and the frames before and after it are together the
  frames of the message.\<close>

theorem control_between_writes:
  assumes "mw_ready w c" and "pending w c = []" and "\<not> writeMu c"
    and "isControl k" and "k \<noteq> CloseMessage" and "length x \<le> 125"
    and "deadline = None \<or> now c \<le> the deadline"
  shows "\<exists>w1 c1 c2 w2 c3 w3 c4 fs gs. mwWrite p w c = Some ((length p, None), w1, c1) \<and>
    WriteControl k x deadline c1 = Some (None, c2) \<and>
    mwWrite q w1 c2 = Some ((length q, None), w2, c3) \<and>
    mwClose w2 c3 = Some (None, w3, c4) \<and>
    wire c4 = wire c @ encode_frames fs @ encode_frame (control_frame k x c1) @ encode_frames gs \<and>
    message_frames (frameType w) (compress w) (p @ q) (fs @ gs)"
proof -
  obtain w1 c1 fs where w1: "mwWrite p w c = Some ((length p, None), w1, c1)"
    and s1: "sends w c fs p w1 c1" and r1: "mw_ready w1 c1"
    by (rule mwWrite_sends [OF assms(1), of p])
  have ow: "only_wire c c1" using s1 by (simp add: sends_def)
  define c2 where "c2 = after_control k x deadline c1"
  have ctl: "WriteControl k x deadline c1 = Some (None, c2)"
    unfolding c2_def by (rule WriteControl_ok)
      (use assms r1 only_wire_fields(10) [OF ow] in \<open>simp_all add: maxControlFramePayloadSize_def mw_ready_def\<close>)
  have r2: "mw_ready w1 c2" and p2: "pending w1 c2 = pending w1 c1" and l2: "\<not> writeMu c2"
    using control_ready [OF r1 assms(5), of x deadline] only_wire_fields(3) [OF ow] assms(3)
    by (simp_all add: c2_def)
  obtain w2 c3 gs where w2: "mwWrite q w1 c2 = Some ((length q, None), w2, c3)"
    and s2: "sends w1 c2 gs q w2 c3" and r3: "mw_ready w2 c3"
    by (rule mwWrite_sends [OF r2, of q])
  define g where "g = frame_of True [] w2 c3"
  obtain w3 buf where cl: "flushFrame True [] w2 c3 = Some (None, w3, after_end (after_frame g buf c3))"
    unfolding g_def
    by (rule final_flush [of w2 c3 "[]"])
      (use r3 s2 l2 in \<open>auto simp: mw_ready_def sends_def only_wire_fields(3)\<close>)
  have "mwClose w2 c3 = Some (None, w3, after_end (after_frame g buf c3))"
    using cl mw_readyD(6) [OF r3] by (simp add: mwClose_def)
  moreover have "wire (after_end (after_frame g buf c3)) =
      wire c @ encode_frames fs @ encode_frame (control_frame k x c1) @ encode_frames (gs @ [g])"
    using s1 s2 by (simp add: sends_def after_frame_def c2_def after_control_def)
  moreover have "message_frames (frameType w) (compress w) (p @ q) ((fs @ gs) @ [g])"
  proof (rule message_framesI)
    have "frame_data fs @ pending w1 c1 = p" "frame_data gs @ pending w2 c3 = pending w1 c1 @ q"
      using s1 s2 assms(2) p2 by (simp_all add: sends_def)
    then show "frame_data (fs @ gs) @ payload g = p @ q" by (simp add: g_def)
  qed (use s1 s2 in \<open>auto simp: sends_def fragments_append g_def\<close>)
  ultimately show ?thesis using w1 ctl w2 by (metis append_assoc)
qed

lemma control_between_writes_witness:
  "\<exists>w1 c1 c2 w2 c3 w3 c4 fs gs.
    mwWrite [1] (newMessageWriter\<lparr>frameType := BinaryMessage, pos := maxFrameHeaderSize, compress := False\<rparr>)
      (server0\<lparr>writeMu := False\<rparr>) = Some ((length [1 :: byte], None), w1, c1) \<and>
    WriteControl PingMessage [9] None c1 = Some (None, c2) \<and>
    mwWrite [2] w1 c2 = Some ((length [2 :: byte], None), w2, c3) \<and>
    mwClose w2 c3 = Some (None, w3, c4) \<and>
    wire c4 = wire (server0\<lparr>writeMu := False\<rparr>) @ encode_frames fs @
      encode_frame (control_frame PingMessage [9] c1) @ encode_frames gs \<and>
    message_frames (frameType (newMessageWriter\<lparr>frameType := BinaryMessage, pos := maxFrameHeaderSize, compress := False\<rparr>))
      (compress (newMessageWriter\<lparr>frameType := BinaryMessage, pos := maxFrameHeaderSize, compress := False\<rparr>))
      ([1] @ [2]) (fs @ gs)"
proof (rule control_between_writes)
  have "busy (server0\<lparr>writeMu := False\<rparr>)"
    by (simp add: busy_def server0_def new_conn_defs net_ok_def deadline_ok_def buffers_ok_def
        has_room_def bufOf_def maxFrameHeaderSize_def defaultWriteBufferSize_def)
  then show "mw_ready (newMessageWriter\<lparr>frameType := BinaryMessage, pos := maxFrameHeaderSize, compress := False\<rparr>)
      (server0\<lparr>writeMu := False\<rparr>)"
    by (rule begun_ready) (simp add: isData_def)
qed (simp_all add: pending_def isControl_def message_types)

text \<open>The write frame size is not respected by a streaming server: when some data of a message is
  buffered and the next Write is longer than twice the buffer but not longer than the write frame
  size, the buffered data and the new data go out in one frame, which can be larger than the write
  frame size.\<close>

lemma frame_size_exceeded:
  assumes "mw_ready w c" and "isServer c" and "2 * length (bufOf c) < length p"
    and "length p \<le> writeFrameSize c" and "writeFrameSize c < length (pending w c) + length p"
  shows "\<exists>w' c' f. mwWrite p w c = Some ((length p, None), w', c') \<and>
    wire c' = wire c @ encode_frame f \<and> payload f = pending w c @ p \<and>
    writeFrameSize c < length (payload f)"
proof -
  obtain w' c' where fl: "flushFrame False p w c = Some (None, w', c')"
    and s: "sends w c [frame_of False p w c] p w' c'"
    by (rule flush_sends [of w c p]) (use mw_readyD [OF assms(1)] assms(2) in \<open>auto simp: maskFrames_def\<close>)
  have "mwWrite p w c = Some ((length p, None), w', c')"
    using assms fl mw_readyD [OF assms(1)] by (simp add: mwWrite_def)
  moreover have "wire c' = wire c @ encode_frame (frame_of False p w c)"
    using s by (simp add: sends_def)
  moreover have "payload (frame_of False p w c) = pending w c @ p" by simp
  ultimately show ?thesis using assms(5) by (metis length_append)
qed

text \<open>A server with a buffer for two bytes of payload and a write frame size of 40, in the middle of a
  message with one byte buffered.\<close>

definition small_server :: "bytes wconn" where
  "small_server = (newWConn True 0 2 False None None quiet)\<lparr>writeFrameSize := 40, writeMu := False\<rparr>"

definition small_writer :: messageWriter where
  "small_writer = newMessageWriter\<lparr>frameType := BinaryMessage, pos := 15\<rparr>"

lemma frame_size_exceeded_witness:
  "\<exists>w' c' f. mwWrite (replicate 40 7) small_writer small_server = Some ((length (replicate 40 (7 :: byte)), None), w', c') \<and>
    wire c' = wire small_server @ encode_frame f \<and> payload f = pending small_writer small_server @ replicate 40 7 \<and>
    writeFrameSize small_server < length (payload f)"
proof (rule frame_size_exceeded)
  have b: "bufOf small_server = replicate 16 0" "isServer small_server" "writeFrameSize small_server = 40"
    "netScript small_server = []" "writeErr small_server = None" "mu small_server"
    "writeBuf small_server \<noteq> None"
    by (simp_all add: small_server_def new_conn_defs bufOf_def maxFrameHeaderSize_def)
  have w: "pos small_writer = 15" "werr small_writer = None" "frameType small_writer = 2"
    by (simp_all add: small_writer_def newMessageWriter_def BinaryMessage_def)
  show "mw_ready small_writer small_server"
    by (simp add: mw_ready_def writer_ok_def net_ok_def in_cap_def has_room_def b w
        maxFrameHeaderSize_def isControl_def message_types)
  show "writeFrameSize small_server < length (pending small_writer small_server) + length (replicate 40 (7 :: byte))"
    by (simp add: pending_def b w maxFrameHeaderSize_def)
qed (simp_all add: small_server_def new_conn_defs bufOf_def maxFrameHeaderSize_def)

end
