(* ===== verification/ReadFrames.thy ===== *)
theory ReadFrames
  imports ConnReader WriteMessages
begin

text \<open>
  The frame reader takes off the wire what the abstract encoding puts there: for a frame that the
  protocol allows at this point, \<open>advanceFrame\<close> consumes its header, however the network cuts the
  bytes into reads, and leaves the payload to be read.
\<close>

section \<open>Reading bytes that are there\<close>

lemma write_side_readers [simp]:
  "write_side (c\<lparr>readers := rs\<rparr>) = write_side c" "write_side (c\<lparr>rfactory := f\<rparr>) = write_side c"
  "write_side (c\<lparr>rwindow := p\<rparr>) = write_side c"
  by (simp_all add: write_side_def)

text \<open>The fields the frame reader leaves alone while it works, and those that describe the frame.\<close>

definition kept :: "'d rconn \<Rightarrow> 'd rconn \<Rightarrow> bool" where
  "kept c c' \<longleftrightarrow>
     isServer c' = isServer c \<and> disableMask c' = disableMask c \<and>
     newDecompressionReader c' = newDecompressionReader c \<and> readErr c' = readErr c \<and>
     messageReader c' = messageReader c \<and> reader c' = reader c \<and> readLimit c' = readLimit c \<and>
     rbufSize c' = rbufSize c \<and> skipUTF8Validation c' = skipUTF8Validation c \<and>
     readUTF8State c' = readUTF8State c \<and> readUTF8Codepoint c' = readUTF8Codepoint c \<and>
     readers c' = readers c \<and> rfactory c' = rfactory c \<and> rwindow c' = rwindow c \<and>
     net_ok c' = net_ok c \<and> now c' = now c \<and> write_side c' = write_side c \<and> readErrCount c' \<le> readErrCount c"

definition same_frame :: "'d rconn \<Rightarrow> 'd rconn \<Rightarrow> bool" where
  "same_frame c c' \<longleftrightarrow>
     readRemaining c' = readRemaining c \<and> readFinal c' = readFinal c \<and> readLength c' = readLength c \<and>
     readMaskPos c' = readMaskPos c \<and> readMaskKey c' = readMaskKey c \<and> readDecompress c' = readDecompress c \<and>
     readErrCount c' = readErrCount c"

lemma kept_refl [simp]: "kept c c" and same_frame_refl [simp]: "same_frame c c"
  by (simp_all add: kept_def same_frame_def)

lemma kept_trans: "kept a b \<Longrightarrow> kept b c \<Longrightarrow> kept a c"
  by (simp add: kept_def)

lemma input_kept: "same_but_input c c' \<Longrightarrow> kept c c'" "same_but_input c c' \<Longrightarrow> same_frame c c'"
  "same_but_input c c' \<Longrightarrow> wire c' = wire c"
  by (auto simp: same_but_input_def kept_def same_frame_def net_ok_def)

lemma conn_read_ok:
  assumes "input_ok c" and "avail c = p @ r" and "length p \<le> rbufSize c"
  obtains c' where "conn_read (length p) c = ((p, None), c')" and "avail c' = r" and "input_ok c'"
    and "kept c c'" and "same_frame c c'" and "wire c' = wire c"
proof -
  obtain c1 where pk: "brPeek (length p) c = (take (length p) (avail c), None, c1)"
    and t: "take (length p) (rbuf c1) = take (length p) (avail c)" and l: "length p \<le> length (rbuf c1)"
    and a: "avail c1 = avail c" and i: "input_ok c1" and s: "same_but_input c c1"
    by (rule brPeek_avail [OF assms(1,3)]) (use assms(2) in auto)
  define c' where "c' = c1\<lparr>rbuf := drop (length p) (rbuf c1)\<rparr>"
  have "conn_read (length p) c = ((p, None), c')"
    using assms(2) pk by (simp add: conn_read_def c'_def)
  moreover have "avail c' = r"
    using a assms(2) l by (auto simp: avail_def c'_def) (metis append_eq_conv_conj drop_append diff_is_0_eq drop0)
  moreover have "input_ok c'" using i by (auto simp: input_ok_def c'_def intro: le_trans diff_le_self)
  moreover have "same_but_input c c'"
    unfolding c'_def using same_but_input_trans [OF s same_but_input_upd(4)] .
  ultimately show thesis using that input_kept by blast
qed

section \<open>The header bytes\<close>

definition known_opcode :: "int \<Rightarrow> bool" where
  "known_opcode t \<longleftrightarrow> isControl t \<or> isData t \<or> t = continuationFrame"

lemma b1_len:
  assumes "n < 128"
  shows "(maskBit OR of_nat n) AND 0x7f = (of_nat n :: byte)" "(0 OR of_nat n) AND 0x7f = (of_nat n :: byte)"
    "((maskBit OR of_nat n) AND maskBit) \<noteq> (0 :: byte)" "((0 OR of_nat n) AND maskBit) = (0 :: byte)"
proof -
  have "list_all (\<lambda>n. (maskBit OR of_nat n) AND 0x7f = (of_nat n :: byte) \<and> (0 OR of_nat n) AND 0x7f = (of_nat n :: byte) \<and>
      ((maskBit OR of_nat n) AND maskBit) \<noteq> (0 :: byte) \<and> ((0 OR of_nat n) AND maskBit) = (0 :: byte)) [0..<128]"
    by code_simp
  with assms show "(maskBit OR of_nat n) AND 0x7f = (of_nat n :: byte)" "(0 OR of_nat n) AND 0x7f = (of_nat n :: byte)"
    "((maskBit OR of_nat n) AND maskBit) \<noteq> (0 :: byte)" "((0 OR of_nat n) AND maskBit) = (0 :: byte)"
    by (simp_all add: list_all_iff)
qed

lemma b0_fields:
  assumes "known_opcode t"
  shows "uint ((of_int t OR (if x then finalBit else 0) OR (if y then rsv1Bit else 0)) AND 0xf) = t"
    "((of_int t OR (if x then finalBit else 0) OR (if y then rsv1Bit else 0)) AND finalBit \<noteq> 0) = x"
    "((of_int t OR (if x then finalBit else 0) OR (if y then rsv1Bit else 0)) AND rsv1Bit \<noteq> 0) = y"
    "((of_int t OR (if x then finalBit else 0) OR (if y then rsv1Bit else 0)) AND rsv2Bit) = 0"
    "((of_int t OR (if x then finalBit else 0) OR (if y then rsv1Bit else 0)) AND rsv3Bit) = 0"
proof -
  have "t \<in> set [0, 1, 2, 8, 9, 10]"
    using assms by (auto simp: known_opcode_def isControl_def isData_def message_types)
  moreover have "list_all (\<lambda>t. list_all (\<lambda>x. list_all (\<lambda>y.
      let b = of_int t OR (if x then finalBit else 0) OR (if y then rsv1Bit else 0) in
      uint (b AND 0xf) = t \<and> (b AND finalBit \<noteq> 0) = x \<and> (b AND rsv1Bit \<noteq> 0) = y \<and>
      b AND rsv2Bit = 0 \<and> b AND rsv3Bit = 0) [True, False]) [True, False]) [0, 1, 2, 8, 9, 10]"
    by code_simp
  moreover have "x \<in> set [True, False]" "y \<in> set [True, False]" by auto
  ultimately show "uint ((of_int t OR (if x then finalBit else 0) OR (if y then rsv1Bit else 0)) AND 0xf) = t"
    "((of_int t OR (if x then finalBit else 0) OR (if y then rsv1Bit else 0)) AND finalBit \<noteq> 0) = x"
    "((of_int t OR (if x then finalBit else 0) OR (if y then rsv1Bit else 0)) AND rsv1Bit \<noteq> 0) = y"
    "((of_int t OR (if x then finalBit else 0) OR (if y then rsv1Bit else 0)) AND rsv2Bit) = 0"
    "((of_int t OR (if x then finalBit else 0) OR (if y then rsv1Bit else 0)) AND rsv3Bit) = 0"
    unfolding list_all_iff Let_def by blast+
qed

lemma len_code_lt: "len_code n < 128"
  by (simp add: len_code_def)

lemma parse_frame_header:
  assumes "known_opcode (opcode f)"
  shows "parseHeader (frame_b0 f) (frame_b1 f) =
    \<lparr>hType = opcode f, hFinal = fin f, hRsv1 = rsv1 f, hRsv2 = False, hRsv3 = False,
     hMask = is_masked f, hLen = of_nat (len_code (length (payload f)))\<rparr>"
proof -
  have l: "frame_b1 f AND 0x7f = of_nat (len_code (length (payload f)))"
    "(frame_b1 f AND maskBit \<noteq> 0) = is_masked f"
    using b1_len [OF len_code_lt [of "length (payload f)"]]
    by (simp_all add: frame_b1_def is_masked_def split: option.splits)
  have "ucast (of_nat (len_code (length (payload f))) :: byte) = (of_nat (len_code (length (payload f))) :: int64)"
    using len_code_lt [of "length (payload f)"]
    by (simp add: unsigned_of_nat take_bit_nat_eq_self)
  then show ?thesis
    unfolding parseHeader_def l
    using b0_fields [OF assms, of "fin f" "rsv1 f"] by (simp add: frame_b0_def)
qed

section \<open>Numbers of type int64\<close>

lemma int64_of_nat [byte_simps]:
  assumes "n < 2 ^ 63"
  shows "sint (of_nat n :: int64) = int n" "unat (of_nat n :: int64) = n"
    "(0 <s (of_nat n :: int64)) = (0 < n)" "\<not> (of_nat n :: int64) <s 0"
proof -
  have "n < 2 ^ 64" using assms by simp
  then show u: "unat (of_nat n :: int64) = n" by (simp add: unat_of_nat take_bit_nat_eq_self)
  show s: "sint (of_nat n :: int64) = int n"
    using assms by (simp add: signed_of_nat signed_take_bit_int_eq_self)
  show "(0 <s (of_nat n :: int64)) = (0 < n)" "\<not> (of_nat n :: int64) <s 0"
    by (simp_all add: word_sless_alt s)
qed

section \<open>A frame that is allowed\<close>

text \<open>Frames the peer may send: the opcode is known, the mask bit is right, the length has 63 bits; a
  control frame is whole and short; a compressed frame needs a decompressor; data frames and
  continuations come when they should.\<close>

definition frame_for :: "'a conn_scheme \<Rightarrow> frame \<Rightarrow> bool" where
  "frame_for c f \<longleftrightarrow>
     known_opcode (opcode f) \<and> is_masked f = isServer c \<and> length (payload f) < 2 ^ 63 \<and>
     (rsv1 f \<longrightarrow> newDecompressionReader c \<noteq> NilFn) \<and>
     (isControl (opcode f) \<longrightarrow> fin f \<and> length (payload f) \<le> maxControlFramePayloadSize)"

definition in_turn :: "bool \<Rightarrow> frame \<Rightarrow> bool" where
  "in_turn final f \<longleftrightarrow> isControl (opcode f) \<or> isData (opcode f) = final"

definition hdr_of :: "frame \<Rightarrow> frameHdr" where
  "hdr_of f = \<lparr>hType = opcode f, hFinal = fin f, hRsv1 = rsv1 f, hRsv2 = False, hRsv3 = False,
     hMask = is_masked f, hLen = of_nat (len_code (length (payload f)))\<rparr>"

definition final_after :: "frame \<Rightarrow> bool \<Rightarrow> bool" where
  "final_after f final = (if isControl (opcode f) then final else fin f)"

lemma not_both:
  "isControl t \<Longrightarrow> \<not> isData t" "isControl t \<Longrightarrow> t \<noteq> continuationFrame" "isData t \<Longrightarrow> t \<noteq> continuationFrame"
  by (auto simp: isControl_def isData_def message_types)

lemma checkHeader_good:
  assumes "known_opcode t" and "(x <s 0) = False"
    and k: "isControl t \<longrightarrow> (of_nat maxControlFramePayloadSize <s x) = False"
    and "isControl t \<longrightarrow> final" and "z \<longrightarrow> newDecompressionReader c \<noteq> NilFn" and "isControl t \<or> isData t = readFinal c"
  shows "checkHeader \<lparr>hType = t, hFinal = final, hRsv1 = z, hRsv2 = False, hRsv3 = False, hMask = isServer c, hLen = x\<rparr> c =
    ([], c\<lparr>readRemaining := x, readDecompress := z, readFinal := (if isControl t then readFinal c else final)\<rparr>)"
proof -
  have d: "(z \<and> newDecompressionReader c \<noteq> NilFn) = z" "(z \<and> newDecompressionReader c = NilFn) = False"
    using assms(5) by blast+
  have r: "c\<lparr>readRemaining := x, readDecompress := z, readFinal := readFinal c\<rparr> = c\<lparr>readRemaining := x, readDecompress := z\<rparr>"
    by simp
  consider "isControl t" | "isData t" | "t = continuationFrame"
    using assms(1) by (auto simp: known_opcode_def)
  then show ?thesis
  proof cases
    case 1
    then show ?thesis
      using k assms(4) by (simp add: checkHeader_def setReadRemaining_def assms(2) d r Let_def)
  next
    case 2
    then have "\<not> isControl t" "readFinal c" using assms(6) not_both [of t] by auto
    then show ?thesis using 2 by (simp add: checkHeader_def setReadRemaining_def assms(2) d Let_def)
  next
    case 3
    then have "\<not> isControl t" "\<not> isData t" "\<not> readFinal c" using assms(6) not_both [of t] by auto
    then show ?thesis using 3 by (simp add: checkHeader_def setReadRemaining_def assms(2) d Let_def)
  qed
qed

lemma checkHeader_ok:
  assumes "frame_for c f" and "in_turn (readFinal c) f"
  shows "checkHeader (hdr_of f) c =
    ([], c\<lparr>readRemaining := of_nat (len_code (length (payload f))), readDecompress := rsv1 f,
           readFinal := final_after f (readFinal c)\<rparr>)"
proof -
  let ?n = "len_code (length (payload f))"
  have n: "?n < 2 ^ 63" using len_code_lt [of "length (payload f)"] by simp
  have l: "(of_nat maxControlFramePayloadSize <s (of_nat ?n :: int64)) = False" if "isControl (opcode f)"
  proof -
    have "?n \<le> 125"
      using assms(1) that by (simp add: frame_for_def len_code_def maxControlFramePayloadSize_def)
    moreover have "sint (125 :: int64) = 125" by simp
    ultimately show ?thesis
      using int64_of_nat(1) [OF n] by (simp add: word_sless_alt maxControlFramePayloadSize_def)
  qed
  have m: "hdr_of f = \<lparr>hType = opcode f, hFinal = fin f, hRsv1 = rsv1 f, hRsv2 = False, hRsv3 = False,
      hMask = isServer c, hLen = of_nat ?n\<rparr>"
    using assms(1) by (simp add: hdr_of_def frame_for_def)
  show ?thesis
    unfolding m final_after_def
    by (rule checkHeader_good)
      (use assms l int64_of_nat(4) [OF n] in \<open>unfold frame_for_def in_turn_def, blast+\<close>)
qed

section \<open>The parts of the header\<close>

lemma kept_upd [simp]:
  "kept c (c'\<lparr>readRemaining := a\<rparr>) = kept c c'" "kept c (c'\<lparr>readFinal := b\<rparr>) = kept c c'"
  "kept c (c'\<lparr>readDecompress := d\<rparr>) = kept c c'" "kept c (c'\<lparr>readLength := l\<rparr>) = kept c c'"
  "kept c (c'\<lparr>readMaskPos := p\<rparr>) = kept c c'" "kept c (c'\<lparr>readMaskKey := k\<rparr>) = kept c c'"
  by (simp_all add: kept_def net_ok_def)

lemma input_upd [simp]:
  "input_ok (c\<lparr>readRemaining := a\<rparr>) = input_ok c" "input_ok (c\<lparr>readFinal := b\<rparr>) = input_ok c"
  "input_ok (c\<lparr>readDecompress := d\<rparr>) = input_ok c" "input_ok (c\<lparr>readLength := l\<rparr>) = input_ok c"
  "input_ok (c\<lparr>readMaskPos := p\<rparr>) = input_ok c" "input_ok (c\<lparr>readMaskKey := k\<rparr>) = input_ok c"
  "avail (c\<lparr>readRemaining := a\<rparr>) = avail c" "avail (c\<lparr>readFinal := b\<rparr>) = avail c"
  "avail (c\<lparr>readDecompress := d\<rparr>) = avail c" "avail (c\<lparr>readLength := l\<rparr>) = avail c"
  "avail (c\<lparr>readMaskPos := p\<rparr>) = avail c" "avail (c\<lparr>readMaskKey := k\<rparr>) = avail c"
  by (simp_all add: input_ok_def avail_def)

lemma readLengthField_ok:
  assumes "input_ok c" and "8 \<le> rbufSize c" and "avail c = len_ext n @ r" and "n < 2 ^ 63"
    and "readRemaining c = of_nat (len_code n)"
  obtains c' where "readLengthField cont c = cont c'" and "avail c' = r" and "input_ok c'"
    and "kept c c'" and "same_frame (c\<lparr>readRemaining := of_nat n\<rparr>) c'" and "wire c' = wire c"
proof -
  note result = that
  have ext: thesis if k: "k = 2 \<or> k = 8" "len_ext n = be_bytes k n" "n < 256 ^ k"
      "readLengthField cont c = readExtended k cont c" for k
  proof -
    have "k \<le> rbufSize c" using k assms(2) by auto
    obtain c1 where rd: "conn_read k c = ((be_bytes k n, None), c1)" and a: "avail c1 = r" and i: "input_ok c1"
      and s: "kept c c1" "same_frame c c1" "wire c1 = wire c"
      by (rule conn_read_ok [OF assms(1), of "be_bytes k n", unfolded length_be_bytes]) (use assms(3) k \<open>k \<le> rbufSize c\<close> in auto)
    have "readExtended k cont c = cont (c1\<lparr>readRemaining := of_nat n\<rparr>)"
      using rd k int64_of_nat(4) [OF assms(4)]
      by (simp add: readExtended_def setReadRemaining_def be_val_be_bytes)
    then show thesis
      using a i s k by (intro result [of "c1\<lparr>readRemaining := of_nat n\<rparr>"]) (simp_all add: same_frame_def)
  qed
  have n: "len_code n < 2 ^ 63" using len_code_lt [of n] by simp
  have u: "unat (readRemaining c) = len_code n" using int64_of_nat(2) [OF n] assms(5) by simp
  have w: "(readRemaining c = 126) = (len_code n = 126)" "(readRemaining c = 127) = (len_code n = 127)"
    using u by (auto simp: unat_arith_simps)
  consider "n \<le> 125" | "125 < n" "n < 65536" | "65536 \<le> n" by linarith
  then show thesis
  proof cases
    case 1
    then have "readLengthField cont c = cont c" "len_ext n = []" "len_code n = n"
      using w by (simp_all add: readLengthField_def len_code_def len_ext_def)
    then show thesis using assms by (intro result [of c]) (simp_all add: same_frame_def)
  next
    case 2
    show thesis by (rule ext [of 2]) (use 2 w in \<open>simp_all add: readLengthField_def len_code_def len_ext_def\<close>)
  next
    case 3
    show thesis by (rule ext [of 8]) (use 3 w assms(4) in \<open>simp_all add: readLengthField_def len_code_def len_ext_def\<close>)
  qed
qed

text \<open>The masking key and the payload as it is on the wire.\<close>

definition key_part :: "frame \<Rightarrow> bytes" where
  "key_part f = (case mkey f of None \<Rightarrow> [] | Some k \<Rightarrow> key_bytes k)"

definition raw_payload :: "frame \<Rightarrow> bytes" where
  "raw_payload f = (case mkey f of None \<Rightarrow> payload f | Some k \<Rightarrow> xor_mask k 0 (payload f))"

lemma masked_parts: "masked_payload f = key_part f @ raw_payload f"
  by (simp add: masked_payload_def key_part_def raw_payload_def split: option.split)

lemma length_raw [simp]: "length (raw_payload f) = length (payload f)"
  by (simp add: raw_payload_def split: option.split)

lemma key_of_key_bytes [simp]: "key_of_bytes (key_bytes k) = k"
  by (cases k) (simp add: key_of_bytes_def)

lemma readMaskField_ok:
  assumes "input_ok c" and "4 \<le> rbufSize c" and "avail c = key_part f @ r" and "m = is_masked f"
  obtains c' where "readMaskField m cont c = cont c'" and "avail c' = r" and "input_ok c'" and "kept c c'"
    and "wire c' = wire c"
    and "same_frame (case mkey f of None \<Rightarrow> c | Some k \<Rightarrow> c\<lparr>readMaskPos := 0, readMaskKey := k\<rparr>) c'"
proof (cases "mkey f")
  case None
  then show thesis using assms that [of c] by (simp add: readMaskField_def is_masked_def key_part_def)
next
  case (Some k)
  have i: "input_ok (c\<lparr>readMaskPos := 0\<rparr>)" "avail (c\<lparr>readMaskPos := 0\<rparr>) = key_bytes k @ r"
    using assms(1,3) Some by (simp_all add: key_part_def)
  obtain c1 where rd: "conn_read 4 (c\<lparr>readMaskPos := 0\<rparr>) = ((key_bytes k, None), c1)" and a: "avail c1 = r"
    and ok: "input_ok c1" and s: "kept (c\<lparr>readMaskPos := 0\<rparr>) c1" "same_frame (c\<lparr>readMaskPos := 0\<rparr>) c1"
      "wire c1 = wire (c\<lparr>readMaskPos := 0\<rparr>)"
    by (rule conn_read_ok [OF i, unfolded length_key_bytes]) (use assms(2) in auto)
  have "readMaskField m cont c = cont (c1\<lparr>readMaskKey := k\<rparr>)"
    using rd Some assms(4) by (simp add: readMaskField_def is_masked_def)
  then show thesis
    using a ok s Some by (intro that [of "c1\<lparr>readMaskKey := k\<rparr>"]) (simp_all add: same_frame_def kept_def net_ok_def)
qed

section \<open>The header of a frame that is allowed\<close>

text \<open>The connection after the header of \<open>f\<close>, with \<open>r\<close> behind the frame.\<close>

definition header_read :: "frame \<Rightarrow> bytes \<Rightarrow> 'd rconn \<Rightarrow> 'd rconn \<Rightarrow> bool" where
  "header_read f r c c' \<longleftrightarrow>
     avail c' = raw_payload f @ r \<and> input_ok c' \<and> kept c c' \<and> wire c' = wire c \<and>
     readRemaining c' = of_nat (length (payload f)) \<and> readFinal c' = final_after f (readFinal c) \<and>
     readLength c' = readLength c \<and> readDecompress c' = rsv1 f \<and> readErrCount c' = readErrCount c \<and>
     (\<forall>k. mkey f = Some k \<longrightarrow> readMaskPos c' = 0 \<and> readMaskKey c' = k)"

lemma readFrame_header:
  assumes f: "frame_for c f" and t: "in_turn (readFinal c) f"
    and i: "input_ok c" "maxControlFramePayloadSize \<le> rbufSize c" and a: "avail c = encode_frame f @ r"
  obtains c' where "header_read f r c c'"
    and "readFrame h c = (if isControl (opcode f) then controlFrame h (opcode f) c' else dataFrame (opcode f) c')"
proof -
  let ?n = "length (payload f)"
  let ?k = "if opcode f = continuationFrame \<or> isData (opcode f) then dataFrame (opcode f) else controlFrame h (opcode f)"
  have sz: "2 \<le> rbufSize c" "4 \<le> rbufSize c" "8 \<le> rbufSize c" using i(2) by (simp_all add: maxControlFramePayloadSize_def)
  have e: "avail c = [frame_b0 f, frame_b1 f] @ len_ext ?n @ key_part f @ raw_payload f @ r"
    using a by (simp add: encode_frame_def masked_parts)
  obtain c1 where r1: "conn_read 2 c = (([frame_b0 f, frame_b1 f], None), c1)"
    and a1: "avail c1 = len_ext ?n @ key_part f @ raw_payload f @ r" and i1: "input_ok c1"
    and k1: "kept c c1" and s1: "same_frame c c1" and w1: "wire c1 = wire c"
    by (rule conn_read_ok [OF i(1) e]) (use sz in \<open>auto simp: numeral_2_eq_2\<close>)
  have f1: "frame_for c1 f" "in_turn (readFinal c1) f"
    using f t k1 s1 by (simp_all add: frame_for_def kept_def same_frame_def)
  define c2 where "c2 = c1\<lparr>readRemaining := of_nat (len_code ?n), readDecompress := rsv1 f,
           readFinal := final_after f (readFinal c1)\<rparr>"
  have n: "?n < 2 ^ 63" "known_opcode (opcode f)" using f by (simp_all add: frame_for_def)
  have h: "parseHeader (frame_b0 f) (frame_b1 f) = hdr_of f"
    using parse_frame_header [OF n(2)] by (simp add: hdr_of_def)
  have rf2: "readFrame h c = readLengthField (readMaskField (is_masked f) ?k) c2"
    using r1 h checkHeader_ok [OF f1] by (simp add: readFrame_def c2_def hdr_of_def)
  have c2: "input_ok c2" "8 \<le> rbufSize c2" "avail c2 = len_ext ?n @ key_part f @ raw_payload f @ r"
    "readRemaining c2 = of_nat (len_code ?n)" "kept c1 c2" "wire c2 = wire c1"
    using i1 a1 sz k1 unfolding c2_def by (simp_all, simp add: kept_def)
  obtain c3 where r3: "readLengthField (readMaskField (is_masked f) ?k) c2 = readMaskField (is_masked f) ?k c3"
    and a3: "avail c3 = key_part f @ raw_payload f @ r" and i3: "input_ok c3" and k3: "kept c2 c3"
    and s3: "same_frame (c2\<lparr>readRemaining := of_nat ?n\<rparr>) c3" and w3: "wire c3 = wire c2"
    by (rule readLengthField_ok [OF c2(1-3) n(1) c2(4), of "readMaskField (is_masked f) ?k"])
  have c3: "4 \<le> rbufSize c3" using c2 k3 by (simp add: kept_def)
  obtain c4 where r4: "readMaskField (is_masked f) ?k c3 = ?k c4"
    and a4: "avail c4 = raw_payload f @ r" and i4: "input_ok c4" and k4: "kept c3 c4" and w4: "wire c4 = wire c3"
    and s4: "same_frame (case mkey f of None \<Rightarrow> c3 | Some k \<Rightarrow> c3\<lparr>readMaskPos := 0, readMaskKey := k\<rparr>) c4"
    by (rule readMaskField_ok [OF i3 c3 a3 refl, of ?k])
  have rf: "readFrame h c = ?k c4" using rf2 r3 r4 by simp
  have kp: "kept c c4" "wire c4 = wire c"
    using kept_trans [OF k1 kept_trans [OF c2(5) kept_trans [OF k3 k4]]] w1 w3 w4 c2(6) by simp_all
  have f3: "readRemaining c3 = of_nat ?n" "readFinal c3 = final_after f (readFinal c)"
    "readLength c3 = readLength c" "readDecompress c3 = rsv1 f" "readErrCount c3 = readErrCount c"
    using s1 s3 by (simp_all add: same_frame_def c2_def)
  have "header_read f r c c4"
    using a4 i4 kp f3 s4 by (simp add: header_read_def same_frame_def split: option.splits)
  moreover have "(opcode f = continuationFrame \<or> isData (opcode f)) = (\<not> isControl (opcode f))"
    using n(2) not_both [of "opcode f"] by (auto simp: known_opcode_def)
  ultimately show thesis using that [of c4] rf by simp
qed

end
