(* ===== verification/ReadMessages.thy ===== *)
theory ReadMessages
  imports ReadFrames
begin

text \<open>
  What the readers do with a message on the wire: the frames of the message, cut anywhere by the
  network, with pings and pongs between them, come out as the bytes of the message, and the pings
  are answered. The interface of package io is interpreted on the message reader and on the UTF-8
  reader above it.
\<close>

section \<open>Frames one by one\<close>

definition pings :: "frame list \<Rightarrow> bytes list" where
  "pings fs = map payload (filter (\<lambda>f. opcode f = PingMessage) fs)"

definition data_frames :: "frame list \<Rightarrow> frame list" where
  "data_frames fs = filter (\<lambda>f. \<not> isControl (opcode f)) fs"

lemma pings_simps [simp]:
  "pings [] = []" "pings (f # fs) = (if opcode f = PingMessage then payload f # pings fs else pings fs)"
  "pings (fs @ gs) = pings fs @ pings gs"
  by (simp_all add: pings_def)

lemma data_frames_simps [simp]:
  "data_frames [] = []" "data_frames (f # fs) = (if isControl (opcode f) then data_frames fs else f # data_frames fs)"
  "data_frames (fs @ gs) = data_frames fs @ data_frames gs"
  by (simp_all add: data_frames_def)

text \<open>The answers to the pings \<open>ps\<close>, in order.\<close>

definition answers :: "'a conn_scheme \<Rightarrow> bytes list \<Rightarrow> frame list \<Rightarrow> bool" where
  "answers c ps fs \<longleftrightarrow>
     map payload fs = ps \<and>
     list_all (\<lambda>f. opcode f = PongMessage \<and> fin f \<and> \<not> rsv1 f \<and> is_masked f = maskFrames c) fs"

lemma answers_append: "answers c ps fs \<Longrightarrow> answers c qs gs \<Longrightarrow> answers c (ps @ qs) (fs @ gs)"
  by (simp add: answers_def)

lemma answers_Nil [simp]: "answers c [] []"
  by (simp add: answers_def)

lemma kept_mask: "kept c c' \<Longrightarrow> maskFrames c' = maskFrames c" "kept c c' \<Longrightarrow> answers c' = answers c"
  by (auto simp: kept_def maskFrames_def answers_def fun_eq_iff)

lemma kept_frame_for: "kept c c' \<Longrightarrow> frame_for c' = frame_for c"
  by (auto simp: kept_def frame_for_def fun_eq_iff)

text \<open>A connection that can read: input that keeps coming, room for a control frame, and a write side
  that can answer.\<close>

definition can_read :: "'a conn_scheme \<Rightarrow> bool" where
  "can_read c \<longleftrightarrow> input_ok c \<and> maxControlFramePayloadSize \<le> rbufSize c \<and> net_ok c"

lemma kept_can_read: "kept c c' \<Longrightarrow> input_ok c' \<Longrightarrow> can_read c \<Longrightarrow> can_read c'"
  by (simp add: kept_def can_read_def)

definition limit_ok :: "'a conn_scheme \<Rightarrow> nat \<Rightarrow> bool" where
  "limit_ok c n \<longleftrightarrow> n < 2 ^ 63 \<and> (sint (readLimit c) \<le> 0 \<or> int n \<le> sint (readLimit c))"

lemma limit_le: "limit_ok c n \<Longrightarrow> m \<le> n \<Longrightarrow> limit_ok c m"
  by (auto simp: limit_ok_def)

lemma kept_limit: "kept c c' \<Longrightarrow> limit_ok c' = limit_ok c"
  by (auto simp: kept_def limit_ok_def fun_eq_iff)

text \<open>A frame is read from \<open>c\<close> as from \<open>c0\<close>, where what is left of the frame before has been discarded.\<close>

definition skips :: "'d rconn \<Rightarrow> 'd rconn \<Rightarrow> bool" where
  "skips c c0 \<longleftrightarrow> same_but_input c c0 \<and> (\<forall>h. advanceFrame h c = readFrame h c0)"

lemma skips_none: "readRemaining c = 0 \<Longrightarrow> skips c c"
  by (simp add: skips_def advanceFrame_def)

lemma skips_payload:
  assumes "input_ok c" and "readRemaining c = of_nat (length x)" and "length x < 2 ^ 63" and "avail c = x @ y"
  obtains c0 where "skips c c0" and "avail c0 = y" and "input_ok c0"
proof (cases "x = []")
  case True
  then show thesis using that [of c] skips_none [of c] assms by simp
next
  case False
  then have n: "0 <s readRemaining c" "unat (readRemaining c) = length x"
    using assms(2) int64_of_nat(2,3) [OF assms(3)] by auto
  obtain c0 where d: "discardN (length x) c = Some (None, c0)" "avail c0 = drop (length x) (avail c)" "input_ok c0"
    and sb: "same_but_input c c0"
    using discardN_avail [OF assms(1), of "length x"] assms(4) by auto
  have "skips c c0" using n d(1) sb by (simp add: skips_def advanceFrame_def)
  then show thesis using that d(2,3) assms(4) by simp
qed

lemma skips_fields:
  assumes "skips c c0"
  shows "frame_for c0 = frame_for c" "readFinal c0 = readFinal c" "rbufSize c0 = rbufSize c"
  using assms by (auto simp: skips_def same_but_input_def frame_for_def fun_eq_iff)

lemma skips_header: "skips c c0 \<Longrightarrow> header_read f r c0 c1 \<Longrightarrow> header_read f r c c1"
  unfolding header_read_def
  using input_kept [of c c0] by (auto simp: skips_def same_frame_def intro: kept_trans)

lemma advance_data_from:
  fixes c :: "'d rconn"
  assumes f: "frame_for c f" "in_turn (readFinal c) f" "\<not> isControl (opcode f)" and c: "can_read c"
    and z: "skips c c0" and i: "input_ok c0" and a: "avail c0 = encode_frame f @ r"
    and l: "readLength c = of_nat n" "limit_ok c (n + length (payload f))"
  obtains c' where "advanceFrame h c = Some ((opcode f, None), c')"
    and "header_read f r c (c'\<lparr>readLength := readLength c\<rparr>)" and "readLength c' = of_nat (n + length (payload f))"
proof -
  have f0: "frame_for c0 f" "in_turn (readFinal c0) f" "maxControlFramePayloadSize \<le> rbufSize c0"
    using f c skips_fields [OF z] by (simp_all add: can_read_def)
  obtain c1 where hr0: "header_read f r c0 c1" and rf: "readFrame h c0 = dataFrame (opcode f) c1"
    using readFrame_header [OF f0(1,2) i f0(3) a, of h] f(3) by auto
  have hr: "header_read f r c c1" by (rule skips_header [OF z hr0])
  define c' where "c' = c1\<lparr>readLength := of_nat (n + length (payload f))\<rparr>"
  have c1: "readLength c1 = of_nat n" "readRemaining c1 = of_nat (length (payload f))" "readLimit c1 = readLimit c"
    using hr l by (simp_all add: header_read_def kept_def)
  let ?m = "n + length (payload f)"
  have m: "?m < 2 ^ 63" using l by (simp add: limit_ok_def)
  have s: "readLength c1 + readRemaining c1 = of_nat ?m" by (simp add: c1)
  have no: "\<not> (0 <s readLimit c \<and> readLimit c <s (of_nat ?m :: int64))"
    using l int64_of_nat(1) [OF m] by (auto simp: limit_ok_def word_sless_alt)
  have "dataFrame (opcode f) c1 = Some ((opcode f, None), c')"
    unfolding dataFrame_def Let_def s using no int64_of_nat(4) [OF m] by (auto simp: c'_def c1)
  then have "advanceFrame h c = Some ((opcode f, None), c')" using z rf by (simp add: skips_def)
  moreover have "header_read f r c (c'\<lparr>readLength := readLength c\<rparr>)"
    using hr l by (simp add: header_read_def c'_def)
  ultimately show thesis using that [of c'] by (simp add: c'_def)
qed

text \<open>A control frame: its payload reaches the handler.\<close>

lemma advance_payload_from:
  fixes c :: "'d rconn"
  assumes f: "frame_for c f" "isControl (opcode f)" and c: "maxControlFramePayloadSize \<le> rbufSize c"
    and z: "skips c c0" and i: "input_ok c0" and a: "avail c0 = encode_frame f @ r"
  obtains c' where "advanceFrame h c = processControl h (opcode f) (payload f) c'" and "avail c' = r"
    and "input_ok c'" and "kept c c'" and "readRemaining c' = 0" and "readFinal c' = readFinal c"
    and "readLength c' = readLength c" and "wire c' = wire c" and "readErrCount c' = readErrCount c"
proof -
  note result = that
  let ?n = "length (payload f)"
  note k = f(2)
  then have n: "?n \<le> maxControlFramePayloadSize" "?n < 2 ^ 63" and m: "is_masked f = isServer c"
    using f(1) by (simp_all add: frame_for_def maxControlFramePayloadSize_def)
  have f0: "frame_for c0 f" "maxControlFramePayloadSize \<le> rbufSize c0" using f(1) c skips_fields [OF z] by simp_all
  obtain c1 where hr0: "header_read f r c0 c1" and rf: "readFrame h c0 = controlFrame h (opcode f) c1"
    using readFrame_header [OF f0(1) _ i f0(2) a, of h] k by (auto simp: in_turn_def)
  have hr: "header_read f r c c1" by (rule skips_header [OF z hr0])
  have i1: "input_ok c1" "avail c1 = raw_payload f @ r" "readRemaining c1 = of_nat ?n" "rbufSize c1 = rbufSize c"
    "isServer c1 = isServer c"
    using hr by (simp_all add: header_read_def kept_def)
  have adv: "advanceFrame h c = controlFrame h (opcode f) c1" using z rf by (simp add: skips_def)
  show thesis
  proof (cases "?n = 0")
    case True
    then have "raw_payload f = []" "payload f = []" by (simp_all add: raw_payload_def split: option.split)
    then show thesis
      using hr k i1(3) adv by (intro result [of c1]) (simp_all add: controlFrame_def header_read_def final_after_def)
  next
    case False
    obtain c3 where rd: "conn_read ?n c1 = ((raw_payload f, None), c3)" and a3: "avail c3 = r" "input_ok c3"
      and k3: "kept c1 c3" and s3: "same_frame c1 c3" and w3: "wire c3 = wire c1"
      by (rule conn_read_ok [OF i1(1,2), unfolded length_raw]) (use n c i1(4) in auto)
    have pay: "isServer c3 \<Longrightarrow> fst (maskBytes le ad (readMaskKey c3) 0 (raw_payload f)) = payload f"
      "\<not> isServer c3 \<Longrightarrow> raw_payload f = payload f" for le ad
      using m k3 s3 hr i1(5)
      by (cases "mkey f"; auto simp: maskBytes_eq raw_payload_def is_masked_def kept_def same_frame_def header_read_def)+
    have "controlFrame h (opcode f) c1 = processControl h (opcode f) (payload f) (c3\<lparr>readRemaining := 0\<rparr>)"
      using False rd pay int64_of_nat(2,3) [OF n(2)] i1(3)
      by (simp add: controlFrame_def setReadRemaining_def Let_def)
    then show thesis
      using a3 k3 s3 w3 hr k adv
      by (intro result [of "c3\<lparr>readRemaining := 0\<rparr>"])
        (auto simp: header_read_def same_frame_def final_after_def intro: kept_trans)
  qed
qed

text \<open>Sending a control frame changes nothing the reader uses, unless it is a close frame.\<close>

lemma control_sent:
  assumes "net_ok c"
  shows "avail (after_control t p d c) = avail c" "input_ok (after_control t p d c) = input_ok c"
    "readRemaining (after_control t p d c) = readRemaining c" "readFinal (after_control t p d c) = readFinal c"
    "readLength (after_control t p d c) = readLength c" "readErr (after_control t p d c) = readErr c"
    "t \<noteq> CloseMessage \<Longrightarrow> kept c (after_control t p d c)"
  using assms by (simp_all add: after_control_def kept_def avail_def input_ok_def net_ok_def)

text \<open>A control frame on a connection that has failed to write or has sent a close frame.\<close>

lemma control_refused:
  assumes "isControl t" and "length p \<le> maxControlFramePayloadSize" and "mu c" and "writeErr c = Some e"
  shows "\<exists>i. WriteControl t p (Some (now c + writeWait)) c = Some (Some e, c\<lparr>maskIdx := i\<rparr>)"
proof (cases "maskFrames c")
  case True
  have "WriteControl t p (Some (now c + writeWait)) c = Some (Some e, c\<lparr>maskIdx := Suc (maskIdx c)\<rparr>)"
    using assms True by (simp add: WriteControl_def newMaskKey_def acquireMu_def writeWait_def writeHeld_def Let_def)
  then show ?thesis by blast
next
  case False
  have "WriteControl t p (Some (now c + writeWait)) c = Some (Some e, c\<lparr>maskIdx := maskIdx c\<rparr>)"
    using assms False by (simp add: WriteControl_def acquireMu_def writeWait_def writeHeld_def Let_def)
  then show ?thesis by blast
qed

lemma advance_control_from:
  fixes c :: "'d rconn"
  assumes f: "frame_for c f" "opcode f = PingMessage \<or> opcode f = PongMessage" and c: "can_read c"
    and z: "skips c c0" and i: "input_ok c0" and a: "avail c0 = encode_frame f @ r"
  obtains c' fs where "advanceFrame defaultHandlers c = Some ((opcode f, None), c')" and "avail c' = r"
    and "input_ok c'" and "kept c c'" and "readRemaining c' = 0" and "readFinal c' = readFinal c"
    and "readLength c' = readLength c" and "wire c' = wire c @ encode_frames fs" and "answers c (pings [f]) fs"
proof -
  have k: "isControl (opcode f)" using f(2) by (auto simp: isControl_def)
  obtain c2 where adv: "advanceFrame defaultHandlers c = processControl defaultHandlers (opcode f) (payload f) c2"
    and c2: "avail c2 = r" "input_ok c2" "kept c c2" "readRemaining c2 = 0" "readFinal c2 = readFinal c"
      "readLength c2 = readLength c" "wire c2 = wire c"
    by (rule advance_payload_from [OF f(1) k _ z i a]) (use c in \<open>simp_all add: can_read_def\<close>)
  show thesis
  proof (cases "opcode f = PongMessage")
    case True
    then have "advanceFrame defaultHandlers c = Some ((opcode f, None), c2)"
      using adv by (simp add: processControl_def defaultHandlers_def defaultPongHandler_def)
    then show thesis using that [of c2 "[]"] c2 True by (simp add: message_types)
  next
    case False
    then have t: "opcode f = PingMessage" using f(2) by blast
    define c3 where "c3 = after_control PongMessage (payload f) (Some (now c2 + writeWait)) c2"
    have nk: "net_ok c2" using c2 c by (simp add: kept_def can_read_def)
    have n: "length (payload f) \<le> maxControlFramePayloadSize" using f(1) k by (simp add: frame_for_def)
    have "WriteControl PongMessage (payload f) (Some (now c2 + writeWait)) c2 = Some (None, c3)"
      unfolding c3_def by (rule WriteControl_ok) (use n nk in \<open>simp_all add: isControl_def writeWait_def\<close>)
    then have "advanceFrame defaultHandlers c = Some ((opcode f, None), c3)"
      using adv False t by (simp add: processControl_def defaultHandlers_def defaultPingHandler_def)
    moreover have "wire c3 = wire c @ encode_frames [control_frame PongMessage (payload f) c2]"
      using c2 by (simp add: c3_def after_control_def)
    moreover have "answers c [payload f] [control_frame PongMessage (payload f) c2]"
      using kept_mask(1) [OF c2(3)]
      by (simp add: answers_def control_frame_def single_frame_def is_masked_def del: not_None_eq)
    moreover have "kept c2 c3" using control_sent(7) [OF nk] by (simp add: c3_def message_types)
    ultimately show thesis
      using that [of c3 "[control_frame PongMessage (payload f) c2]"] c2 t kept_trans [OF c2(3)]
        control_sent(1-5) [OF nk] by (simp add: c3_def)
  qed
qed

lemma advance_data:
  fixes c :: "'d rconn"
  assumes "frame_for c f" and "in_turn (readFinal c) f" and "\<not> isControl (opcode f)" and c: "can_read c"
    and "readRemaining c = 0" and "avail c = encode_frame f @ r"
    and "readLength c = of_nat n" and "limit_ok c (n + length (payload f))"
  obtains c' where "advanceFrame h c = Some ((opcode f, None), c')"
    and "header_read f r c (c'\<lparr>readLength := readLength c\<rparr>)" and "readLength c' = of_nat (n + length (payload f))"
  by (rule advance_data_from [OF assms(1-4) skips_none [OF assms(5)] _ assms(6-8)])
    (use c that in \<open>simp_all add: can_read_def\<close>)

lemma advance_control:
  fixes c :: "'d rconn"
  assumes "frame_for c f" and "opcode f = PingMessage \<or> opcode f = PongMessage" and c: "can_read c"
    and "readRemaining c = 0" and "avail c = encode_frame f @ r"
  obtains c' fs where "advanceFrame defaultHandlers c = Some ((opcode f, None), c')" and "avail c' = r"
    and "input_ok c'" and "kept c c'" and "readRemaining c' = 0" and "readFinal c' = readFinal c"
    and "readLength c' = readLength c" and "wire c' = wire c @ encode_frames fs" and "answers c (pings [f]) fs"
  by (rule advance_control_from [OF assms(1-3) skips_none [OF assms(4)] _ assms(5)])
    (use c that in \<open>simp_all add: can_read_def\<close>)

section \<open>The message reader\<close>

text \<open>The frames that may follow a data frame of a message, given whether it was the final one: nothing
  after the final one, else continuations with pings and pongs between them.\<close>

fun rest_ok :: "bool \<Rightarrow> frame list \<Rightarrow> bool" where
  "rest_ok final [] \<longleftrightarrow> final"
| "rest_ok final (f # fs) \<longleftrightarrow>
     \<not> final \<and>
     (if isControl (opcode f) then opcode f \<noteq> CloseMessage \<and> rest_ok False fs
      else opcode f = continuationFrame \<and> rest_ok (fin f) fs)"

text \<open>The payload still to be read of the current frame, as it is on the wire.\<close>

definition masked_rest :: "'a conn_scheme \<Rightarrow> bytes \<Rightarrow> bytes" where
  "masked_rest c d = (if isServer c then xor_mask (readMaskKey c) (readMaskPos c) d else d)"

text \<open>In the middle of message \<open>m\<close>, opened in \<open>c0\<close>: the bytes \<open>D\<close> are still to come, \<open>R\<close> is behind the
  message, and \<open>ps\<close> are the pings of the message, some of them already answered.\<close>

definition message_at ::
  "'d rconn \<Rightarrow> nat \<Rightarrow> bytes list \<Rightarrow> bytes \<Rightarrow> bytes \<Rightarrow> 'd rconn \<Rightarrow> bytes \<Rightarrow> frame list \<Rightarrow> nat \<Rightarrow> bytes list \<Rightarrow> frame list \<Rightarrow> bool" where
  "message_at c0 m ps R D c d fs n qs gs \<longleftrightarrow>
     can_read c \<and> kept c0 c \<and> messageReader c = Some m \<and> readErr c = None \<and>
     D = d @ frame_data (data_frames fs) \<and> length d < 2 ^ 63 \<and> readRemaining c = of_nat (length d) \<and>
     avail c = masked_rest c d @ encode_frames fs @ R \<and>
     rest_ok (readFinal c) fs \<and> list_all (frame_for c) fs \<and>
     readLength c = of_nat n \<and> limit_ok c (n + length (frame_data (data_frames fs))) \<and>
     wire c = wire c0 @ encode_frames gs \<and> answers c0 qs gs \<and> ps = qs @ pings fs"

definition message_left :: "'d rconn \<Rightarrow> nat \<Rightarrow> bytes list \<Rightarrow> bytes \<Rightarrow> bytes \<Rightarrow> 'd rconn \<Rightarrow> bool" where
  "message_left c0 m ps R D c \<longleftrightarrow> (\<exists>d fs n qs gs. message_at c0 m ps R D c d fs n qs gs)"

lemma message_leftI:
  assumes "can_read c" and "kept c0 c" and "messageReader c = Some m" and "readErr c = None"
    and "D = d @ frame_data (data_frames fs)" and "length d < 2 ^ 63" and "readRemaining c = of_nat (length d)"
    and "avail c = masked_rest c d @ encode_frames fs @ R"
    and "rest_ok (readFinal c) fs" and "list_all (frame_for c) fs"
    and "readLength c = of_nat n" and "limit_ok c (n + length (frame_data (data_frames fs)))"
    and "wire c = wire c0 @ encode_frames gs" and "answers c0 qs gs" and "ps = qs @ pings fs"
  shows "message_left c0 m ps R D c"
  unfolding message_left_def message_at_def using assms by blast

text \<open>After message \<open>m\<close>, opened in \<open>c0\<close>.\<close>

definition message_read :: "'d rconn \<Rightarrow> bytes list \<Rightarrow> bytes \<Rightarrow> 'd rconn \<Rightarrow> bool" where
  "message_read c0 ps R c \<longleftrightarrow>
     can_read c \<and> kept (c0\<lparr>messageReader := None\<rparr>) c \<and> messageReader c = None \<and> readErr c = None \<and>
     avail c = R \<and> readRemaining c = 0 \<and> readFinal c \<and>
     (\<exists>gs. wire c = wire c0 @ encode_frames gs \<and> answers c0 ps gs)"

definition message_over :: "'d rconn \<Rightarrow> bytes list \<Rightarrow> bytes \<Rightarrow> bytes \<Rightarrow> gerror \<Rightarrow> 'd rconn \<Rightarrow> bool" where
  "message_over c0 ps R D e c \<longleftrightarrow> D = [] \<and> e = IoEOF \<and> message_read c0 ps R c"

lemma payloadRead_eq:
  assumes "brRead (if sint (readRemaining c) < int n then unat (readRemaining c) else n) c = (x, None, c1)"
    and "\<not> readRemaining c1 - of_nat (length x) <s 0"
  shows "payloadRead n c =
    ((if isServer c1 then xor_mask (readMaskKey c1) (readMaskPos c1) x else x, None),
     c1\<lparr>readErr := None, readMaskPos := (if isServer c1 then (readMaskPos c1 + length x) mod 4 else readMaskPos c1),
        readRemaining := readRemaining c1 - of_nat (length x)\<rparr>)"
proof (cases "isServer c1")
  case True
  then show ?thesis
    using assms by (simp add: payloadRead_def Let_def split_beta setReadRemaining_def maskBytes_eq)
next
  case False
  have "c1\<lparr>readErr := None, readMaskPos := readMaskPos c1, readRemaining := r\<rparr> = c1\<lparr>readErr := None, readRemaining := r\<rparr>" for r
    by simp
  then show ?thesis
    using False assms by (simp add: payloadRead_def Let_def split_beta setReadRemaining_def)
qed

lemma payloadRead_ok:
  fixes c :: "'d rconn"
  assumes l: "message_left c0 m ps R D c" and r: "0 <s readRemaining c" and n: "0 < n"
  obtains d D' c' where "payloadRead n c = ((d, None), c')" and "d \<noteq> []" and "length d \<le> n" and "D = d @ D'"
    and "message_left c0 m ps R D' c'"
proof -
  obtain d fs k qs gs where D: "D = d @ frame_data (data_frames fs)" "length d < 2 ^ 63"
    and rem: "readRemaining c = of_nat (length d)" and av: "avail c = masked_rest c d @ encode_frames fs @ R"
    and rest: "rest_ok (readFinal c) fs" "list_all (frame_for c) fs"
      "readLength c = of_nat k" "limit_ok c (k + length (frame_data (data_frames fs)))"
      "wire c = wire c0 @ encode_frames gs" "answers c0 qs gs" "ps = qs @ pings fs"
    using l unfolding message_left_def message_at_def by blast
  have ok: "can_read c" "kept c0 c" "messageReader c = Some m" "readErr c = None"
    using l unfolding message_left_def message_at_def by blast+
  have pos: "0 < length d" using r rem int64_of_nat(3) [OF D(2)] by simp
  define n' where "n' = (if sint (readRemaining c) < int n then unat (readRemaining c) else n)"
  have n': "0 < n'" "n' \<le> n" "n' \<le> length d"
    using pos n int64_of_nat(1,2) [OF D(2)] by (auto simp: n'_def rem)
  have "length (masked_rest c d) = length d" by (simp add: masked_rest_def)
  then have ne: "avail c \<noteq> []" using pos av by auto
  have i: "input_ok c" using ok by (simp add: can_read_def)
  obtain x c1 where rd: "brRead n' c = (x, None, c1)" and x: "x \<noteq> []" "length x \<le> n'" and a1: "avail c = x @ avail c1"
    and i1: "input_ok c1" and s1: "same_but_input c c1"
    by (rule brRead_avail [OF i n'(1) ne])
  let ?k = "length x"
  define y where "y = take ?k d"
  define d' where "d' = drop ?k d"
  have k: "?k \<le> length d" using x n' by simp
  have dd: "d = y @ d'" "length y = ?k" "d' = drop ?k d" using k by (simp_all add: y_def d'_def)
  have split: "masked_rest c d = masked_rest c y @ (if isServer c then xor_mask (readMaskKey c) (readMaskPos c + ?k) d' else d')"
    unfolding dd(1) masked_rest_def using dd(2) by (simp add: xor_mask_append)
  have xy: "x = masked_rest c y" and av1: "avail c1 = (if isServer c then xor_mask (readMaskKey c) (readMaskPos c + ?k) d' else d') @ encode_frames fs @ R"
    using a1 av split dd(2) by (auto simp: masked_rest_def append_eq_append_conv)
  define p where "p = (if isServer c then (readMaskPos c + ?k) mod 4 else readMaskPos c)"
  define c' where "c' = c1\<lparr>readErr := None, readMaskPos := p, readRemaining := of_nat (length d')\<rparr>"
  have sf: "isServer c1 = isServer c" "readMaskKey c1 = readMaskKey c" "readMaskPos c1 = readMaskPos c"
    "readRemaining c1 = readRemaining c" "readErr c1 = readErr c"
    using s1 by (auto simp: same_but_input_def)
  have sub: "(of_nat (length d) :: int64) - of_nat ?k = of_nat (length d')" using k by (simp add: d'_def of_nat_diff)
  have nn: "\<not> (of_nat (length d') :: int64) <s 0" using int64_of_nat(4) [of "length d'"] D(2) by (simp add: d'_def)
  have lx: "length (masked_rest c y) = length y" by (simp add: masked_rest_def)
  have nneg: "\<not> readRemaining c1 - of_nat (length x) <s 0" using nn sf(4) rem sub by simp
  have "payloadRead n c = ((y, None), c')"
    using payloadRead_eq [of c n x c1, OF rd [unfolded n'_def] nneg] xy sf rem sub
    by (auto simp: c'_def p_def masked_rest_def)
  moreover have "message_left c0 m ps R (d' @ frame_data (data_frames fs)) c'"
  proof -
    have kp: "kept c c'" using input_kept(1) [OF s1] ok(4) by (simp add: c'_def kept_def net_ok_def)
    have in': "input_ok c'" "avail c' = avail c1" using i1 by (simp_all add: c'_def input_ok_def avail_def)
    have fr': "readFinal c' = readFinal c" "readLength c' = readLength c" "wire c' = wire c"
      "readMaskKey c' = readMaskKey c" "readRemaining c' = of_nat (length d')"
      using input_kept(2,3) [OF s1] by (simp_all add: c'_def same_frame_def)
    have "avail c1 = masked_rest c' d' @ encode_frames fs @ R"
      using av1 sf by (auto simp: masked_rest_def c'_def p_def intro: xor_mask_cong)
    then have av': "avail c' = masked_rest c' d' @ encode_frames fs @ R" using in' by simp
    have "can_read c'" using kept_can_read [OF kp in'(1) ok(1)] .
    moreover have "messageReader c' = Some m" "readErr c' = None" using kp ok by (simp_all add: kept_def)
    moreover have "length d' < 2 ^ 63" using D(2) by (simp add: d'_def)
    moreover have "rest_ok (readFinal c') fs" "wire c' = wire c0 @ encode_frames gs" "readLength c' = of_nat k"
      using rest(1,3,5) fr' by simp_all
    moreover have "list_all (frame_for c') fs" "limit_ok c' (k + length (frame_data (data_frames fs)))"
      using rest(2,4) unfolding kept_frame_for [OF kp] kept_limit [OF kp] .
    ultimately show ?thesis
      using message_leftI [OF _ kept_trans [OF ok(2) kp] _ _ refl _ fr'(5) av' _ _ _ _ _ rest(6,7)] by blast
  qed
  moreover have "D = y @ d' @ frame_data (data_frames fs)" using D(1) dd(1) by simp
  moreover have "y \<noteq> []" "length y \<le> n" using x n' dd(2) by auto
  ultimately show thesis using that by blast
qed


text \<open>The loop of a read: what is left of the message is in this frame or in one behind it.\<close>

definition reads_piece ::
  "('d rconn \<Rightarrow> ((bytes \<times> gerror option) \<times> 'd rconn) option) \<Rightarrow> nat \<Rightarrow>
    'd rconn \<Rightarrow> nat \<Rightarrow> bytes list \<Rightarrow> bytes \<Rightarrow> bytes \<Rightarrow> 'd rconn \<Rightarrow> bool" where
  "reads_piece rd n c0 m ps R D c \<longleftrightarrow>
     (\<exists>d D' c'. rd c = Some ((d, None), c') \<and> d \<noteq> [] \<and> length d \<le> n \<and> D = d @ D' \<and> message_left c0 m ps R D' c') \<or>
     (\<exists>c'. rd c = Some (([], Some IoEOF), c') \<and> message_over c0 ps R D IoEOF c')"

lemma piece_now:
  fixes c :: "'d rconn"
  assumes a: "message_at c0 m ps R D c d fs k qs gs" and "d \<noteq> []" and n: "0 < n"
  shows "reads_piece (mrLoop h m n) n c0 m ps R D c"
proof -
  have r: "0 <s readRemaining c" "readErr c = None"
    using assms int64_of_nat(3) [of "length d"] by (simp_all add: message_at_def)
  have "message_left c0 m ps R D c" using a message_left_def by blast
  from payloadRead_ok [OF this r(1) n] obtain x D' c' where "payloadRead n c = ((x, None), c')" "x \<noteq> []"
    "length x \<le> n" "D = x @ D'" "message_left c0 m ps R D' c'" by metis
  moreover have "mrLoop h m n c = Some (payloadRead n c)" using r by (subst mrLoop.simps) simp
  ultimately show ?thesis unfolding reads_piece_def by (intro disjI1 exI conjI) simp_all
qed

lemma mrLoop_at:
  fixes c :: "'d rconn"
  assumes "message_at c0 m ps R D c d fs k qs gs" and n: "0 < n"
  shows "reads_piece (mrLoop defaultHandlers m n) n c0 m ps R D c"
  using assms(1)
proof (induction fs arbitrary: c d k qs gs)
  case (Nil c d k qs gs)
  show ?case
  proof (cases "d = []")
    case True
    have c: "can_read c" "kept c0 c" "messageReader c = Some m" "readErr c = None" "readRemaining c = 0" "readFinal c"
      "D = []" "avail c = R" "wire c = wire c0 @ encode_frames gs" "answers c0 ps gs"
      using Nil True by (simp_all add: message_at_def masked_rest_def)
    have "mrLoop defaultHandlers m n c = Some (([], Some IoEOF), c\<lparr>messageReader := None\<rparr>)"
      using c by (subst mrLoop.simps) simp
    moreover have "message_over c0 ps R D IoEOF (c\<lparr>messageReader := None\<rparr>)"
      unfolding message_over_def message_read_def
      using c by (auto simp: can_read_def input_ok_def avail_def kept_def net_ok_def)
    ultimately show ?thesis by (auto simp: reads_piece_def)
  next
    case False
    show ?thesis by (rule piece_now [OF Nil False n])
  qed
next
  case (Cons f fs c d k qs gs)
  show ?case
  proof (cases "d = []")
    case False
    show ?thesis by (rule piece_now [OF Cons.prems False n])
  next
    case True
    have c: "can_read c" "kept c0 c" "messageReader c = Some m" "readErr c = None" "readRemaining c = 0" "\<not> readFinal c"
      "D = frame_data (data_frames (f # fs))" "avail c = encode_frame f @ encode_frames fs @ R"
      "wire c = wire c0 @ encode_frames gs" "answers c0 qs gs" "ps = qs @ pings (f # fs)"
      "frame_for c f" "list_all (frame_for c) fs" "rest_ok False (f # fs)"
      "readLength c = of_nat k" "limit_ok c (k + length (frame_data (data_frames (f # fs))))"
      using Cons.prems True by (simp_all add: message_at_def masked_rest_def)
    have again: ?thesis if "advanceFrame defaultHandlers c = Some ((t, None), c1)" "\<not> isData t"
      "message_at c0 m ps R D c1 d1 fs k1 qs1 gs1" for t c1 d1 k1 qs1 gs1
    proof -
      have "mrLoop defaultHandlers m n c = mrLoop defaultHandlers m n c1"
        using that(1,2) c(4,5,6) by (subst mrLoop.simps) simp
      then show ?thesis using Cons.IH [OF that(3)] by (simp add: reads_piece_def)
    qed
    show ?thesis
    proof (cases "isControl (opcode f)")
      case ctl: True
      then have "opcode f = PingMessage \<or> opcode f = PongMessage" using c(14) by (auto simp: isControl_def)
      from advance_control [OF c(12) this c(1,5,8)] obtain c1 fs1 where
        adv: "advanceFrame defaultHandlers c = Some ((opcode f, None), c1)" and c1: "avail c1 = encode_frames fs @ R"
          "input_ok c1" "kept c c1" "readRemaining c1 = 0" "readFinal c1 = readFinal c" "readLength c1 = readLength c"
          "wire c1 = wire c @ encode_frames fs1" "answers c (pings [f]) fs1" by metis
      have "message_at c0 m ps R D c1 [] fs k (qs @ pings [f]) (gs @ fs1)"
        unfolding message_at_def
      proof (intro conjI)
        show "can_read c1" by (rule kept_can_read [OF c1(3,2) c(1)])
        show "kept c0 c1" by (rule kept_trans [OF c(2) c1(3)])
        show "messageReader c1 = Some m" "readErr c1 = None" using c1(3) c(3,4) by (simp_all add: kept_def)
        show "list_all (frame_for c1) fs" using c(13) kept_frame_for [OF c1(3)] by simp
        show "limit_ok c1 (k + length (frame_data (data_frames fs)))"
          using c(16) ctl kept_limit [OF c1(3)] by simp
        show "answers c0 (qs @ pings [f]) (gs @ fs1)"
          using answers_append [OF c(10)] c1(8) kept_mask(2) [OF c(2)] by simp
        show "avail c1 = masked_rest c1 [] @ encode_frames fs @ R" using c1(1) by (simp add: masked_rest_def)
      qed (use c c1 ctl in simp_all)
      then show ?thesis by (rule again [OF adv not_both(1) [OF ctl]])
    next
      case False
      then have t: "opcode f = continuationFrame" "rest_ok (fin f) fs" using c(14) by simp_all
      have nd: "\<not> isData (opcode f)" using t(1) not_both(3) by blast
      have it: "in_turn (readFinal c) f" using c(6) nd by (simp add: in_turn_def)
      have l: "limit_ok c (k + length (payload f))" by (rule limit_le [OF c(16)]) (use False in simp)
      obtain c1 where adv: "advanceFrame defaultHandlers c = Some ((opcode f, None), c1)"
        and hr: "header_read f (encode_frames fs @ R) c (c1\<lparr>readLength := readLength c\<rparr>)"
        and rl: "readLength c1 = of_nat (k + length (payload f))"
        by (rule advance_data [OF c(12) it False c(1,5,8,15) l])
      have kp: "kept c c1" and io: "input_ok c1" and mk: "is_masked f = isServer c"
        using hr c(12) by (simp_all add: header_read_def frame_for_def)
      have "message_at c0 m ps R D c1 (payload f) fs (k + length (payload f)) qs gs"
        unfolding message_at_def
      proof (intro conjI)
        show "can_read c1" by (rule kept_can_read [OF kp io c(1)])
        show "kept c0 c1" by (rule kept_trans [OF c(2) kp])
        show "messageReader c1 = Some m" "readErr c1 = None" using kp c(3,4) by (simp_all add: kept_def)
        show "list_all (frame_for c1) fs" using c(13) kept_frame_for [OF kp] by simp
        show "limit_ok c1 (k + length (payload f) + length (frame_data (data_frames fs)))"
          using c(16) False kept_limit [OF kp] by (simp add: add.assoc)
        show "avail c1 = masked_rest c1 (payload f) @ encode_frames fs @ R"
          using hr mk kp by (cases "mkey f") (auto simp: header_read_def masked_rest_def raw_payload_def is_masked_def kept_def)
        show "length (payload f) < 2 ^ 63" using l by (simp add: limit_ok_def)
      qed (use c hr rl False t in \<open>simp_all add: header_read_def final_after_def message_types\<close>)
      then show ?thesis by (rule again [OF adv nd])
    qed
  qed
qed

section \<open>The interface of package io\<close>

interpretation mr: byte_reader "mrRead defaultHandlers m" "message_left c0 m ps R" "message_over c0 ps R"
  for c0 :: "'d rconn" and m ps R
proof unfold_locales
  fix D and n :: nat and c :: "'d rconn"
  assume l: "message_left c0 m ps R D c" and n: "0 < n"
  from l have m: "messageReader c = Some m" unfolding message_left_def message_at_def by blast
  from l obtain d fs k qs gs where "message_at c0 m ps R D c d fs k qs gs" unfolding message_left_def by blast
  from mrLoop_at [OF this n] m
  show "(\<exists>d D' s'. mrRead defaultHandlers m n c = Some ((d, None), s') \<and> d \<noteq> [] \<and> length d \<le> n \<and>
      D = d @ D' \<and> message_left c0 m ps R D' s') \<or>
    (\<exists>e s'. mrRead defaultHandlers m n c = Some (([], Some e), s') \<and> message_over c0 ps R D e s')"
    by (auto simp: mrRead_def reads_piece_def)
qed

end
