(* ===== verification/TextReader.thy ===== *)
theory TextReader
  imports ReadMessages
begin

text \<open>
  The UTF-8 validating reader above the message reader: it hands on the bytes of a message that is
  UTF-8, and fails the connection with close code 1007 for one that is not, at the first bad byte or
  at the end of the message.
\<close>

section \<open>The scan of a read\<close>

lemma readScan_run:
  assumes "s < 9" and "fst (dfa_run s x p) \<noteq> utf8Reject"
  shows "readScan s x p = dfa_run s x p"
  using assms
proof (induction p arbitrary: s x)
  case (Cons b p)
  obtain s' x' where st: "utf8DFAStep s x b = (s', x')" by fastforce
  have run: "fst (dfa_run s' x' p) \<noteq> utf8Reject" using Cons.prems st by simp
  then have "s' \<noteq> utf8Reject" using run_rejected by metis
  then show ?case using Cons.IH [OF step_bound [OF Cons.prems(1) st] run] st by simp
qed simp

lemma readScan_rejects:
  assumes "s < 9" and "s \<noteq> utf8Reject" and "fst (dfa_run s x p) = utf8Reject"
  shows "fst (readScan s x p) = utf8Reject"
  using assms
proof (induction p arbitrary: s x)
  case (Cons b p)
  obtain s' x' where st: "utf8DFAStep s x b = (s', x')" by fastforce
  show ?case
  proof (cases "s' = utf8Reject")
    case False
    have "fst (dfa_run s' x' p) = utf8Reject" using Cons.prems st by simp
    from Cons.IH [OF step_bound [OF Cons.prems(1) st] False this]
    show ?thesis using False st by simp
  qed (simp add: st)
qed simp

section \<open>The reader of a text message\<close>

definition utf8_at :: "nat \<Rightarrow> rune \<Rightarrow> 'd rconn \<Rightarrow> 'd rconn" where
  "utf8_at st x c = c\<lparr>readUTF8State := st, readUTF8Codepoint := x\<rparr>"

lemma utf8_at_simps [simp]:
  "wire (utf8_at st x c) = wire c" "readers (utf8_at st x c) = readers c" "now (utf8_at st x c) = now c"
  "readErr (utf8_at st x c) = readErr c" "net_ok (utf8_at st x c) = net_ok c"
  "maskFrames (utf8_at st x c) = maskFrames c" "utf8_at st x (utf8_at a b c) = utf8_at st x c"
  "answers (utf8_at st x c) ps fs = answers c ps fs"
  by (simp_all add: utf8_at_def net_ok_def maskFrames_def answers_def)

lemma utf8_at_kept: "kept (utf8_at st x c0) c \<Longrightarrow> kept (utf8_at a b c0) (utf8_at a b c)"
  by (simp add: kept_def utf8_at_def net_ok_def)

lemma utf8_at_left:
  assumes "message_left (utf8_at st x c0) m ps R D c"
  shows "message_left (utf8_at a b c0) m ps R D (utf8_at a b c)"
proof -
  have s: "can_read (utf8_at a b c) = can_read c" "messageReader (utf8_at a b c) = messageReader c"
    "readErr (utf8_at a b c) = readErr c" "readRemaining (utf8_at a b c) = readRemaining c"
    "avail (utf8_at a b c) = avail c" "masked_rest (utf8_at a b c) = masked_rest c"
    "readFinal (utf8_at a b c) = readFinal c" "frame_for (utf8_at a b c) = frame_for c"
    "readLength (utf8_at a b c) = readLength c" "limit_ok (utf8_at a b c) = limit_ok c"
    by (simp_all add: utf8_at_def can_read_def input_ok_def net_ok_def avail_def masked_rest_def fun_eq_iff
        frame_for_def limit_ok_def)
  obtain d fs k qs gs where "message_at (utf8_at st x c0) m ps R D c d fs k qs gs"
    using assms unfolding message_left_def by blast
  then have "message_at (utf8_at a b c0) m ps R D (utf8_at a b c) d fs k qs gs"
    using utf8_at_kept unfolding message_at_def s utf8_at_simps by blast
  then show ?thesis unfolding message_left_def by blast
qed

text \<open>A connection failed for bad text: the read error is set and the last frame sent is the close
  frame 1007.\<close>

definition bad_text_closed :: "'d rconn \<Rightarrow> 'd rconn \<Rightarrow> bool" where
  "bad_text_closed c0 c \<longleftrightarrow>
     readErr c = Some ErrInvalidUTF8 \<and> writeErr c = Some ErrCloseSent \<and>
     (\<exists>ps gs k. answers c0 ps gs \<and> (k \<noteq> None) = maskFrames c0 \<and>
        wire c = wire c0 @ encode_frames gs @
          encode_frame (single_frame CloseMessage (FormatCloseMessage CloseInvalidFramePayloadData '''') k))"

lemma reject_ok:
  fixes c :: "'d rconn"
  assumes "net_ok c" and "readErr c = None" and "wire c = wire c0 @ encode_frames gs" and "answers c0 ps gs"
    and "maskFrames c = maskFrames c0"
  obtains c' where "rejectUTF8 i c = Some c'" and "bad_text_closed c0 c'"
proof -
  let ?m = "FormatCloseMessage CloseInvalidFramePayloadData ''''"
  define c1 where "c1 = set_failed i c"
  define c2 where "c2 = after_control CloseMessage ?m (Some (now c1 + writeWait)) c1"
  have nk: "net_ok c1" and f: "now c1 = now c" "wire c1 = wire c" "readErr c1 = None" "maskFrames c1 = maskFrames c"
    using assms(1,2) by (simp_all add: c1_def set_failed_def net_ok_def maskFrames_def)
  have "length ?m \<le> maxControlFramePayloadSize"
    by (simp add: FormatCloseMessage_def close_codes maxControlFramePayloadSize_def bytes_of_string_def)
  then have "WriteControl CloseMessage ?m (Some (now c1 + writeWait)) c1 = Some (None, c2)"
    unfolding c2_def by (intro WriteControl_ok nk) (simp_all add: isControl_def writeWait_def)
  moreover have "readErr c2 = None" using f by (simp add: c2_def after_control_def)
  ultimately have "rejectUTF8 i c = Some (c2\<lparr>readErr := Some ErrInvalidUTF8\<rparr>)"
    by (simp add: rejectUTF8_def c1_def)
  moreover have "bad_text_closed c0 (c2\<lparr>readErr := Some ErrInvalidUTF8\<rparr>)"
    unfolding bad_text_closed_def
  proof (intro conjI exI)
    let ?k = "if maskFrames c1 then Some (maskRand c1 (maskIdx c1)) else None"
    show "answers c0 ps gs" by (rule assms)
    show "(?k \<noteq> None) = maskFrames c0" using f(4) assms(5) by (simp del: not_None_eq)
    show "wire (c2\<lparr>readErr := Some ErrInvalidUTF8\<rparr>) = wire c0 @ encode_frames gs @ encode_frame (single_frame CloseMessage ?m ?k)"
      using assms(3) f(2) by (simp add: c2_def after_control_def control_frame_def)
  qed (simp_all add: c2_def after_control_def)
  ultimately show thesis using that by blast
qed


section \<open>The validator above any reader\<close>

lemma readerRead_checked:
  "rfailed (readers c ! i) = Some False \<Longrightarrow> readerRead ops h i n c = checkedRead i (decRead ops h i) n c"
  by (simp add: readerRead_def)

text \<open>The validator's state, on a connection that works and has written answers only since \<open>c0\<close>.\<close>

definition validates :: "'d rconn \<Rightarrow> nat \<Rightarrow> rune \<Rightarrow> 'd rconn \<Rightarrow> bool" where
  "validates c0 st x c \<longleftrightarrow>
     readUTF8State c = st \<and> readUTF8Codepoint c = x \<and> net_ok c \<and> readErr c = None \<and>
     maskFrames c = maskFrames c0 \<and> (\<exists>gs qs. wire c = wire c0 @ encode_frames gs \<and> answers c0 qs gs)"

text \<open>\<open>left st x D c\<close>: the reader below has \<open>D\<close> left, and the validator is in the state \<open>(st, x)\<close>.\<close>

definition text_in :: "(nat \<Rightarrow> rune \<Rightarrow> bytes \<Rightarrow> 'd rconn \<Rightarrow> bool) \<Rightarrow> bytes \<Rightarrow> bytes \<Rightarrow> 'd rconn \<Rightarrow> bool" where
  "text_in left msg D c \<longleftrightarrow>
     (\<exists>seen st x. left st x D c \<and> msg = seen @ D \<and> dfa_run utf8Accept 0 seen = (st, x) \<and> st \<noteq> utf8Reject)"

definition text_end ::
  "(nat \<Rightarrow> rune \<Rightarrow> 'd rconn \<Rightarrow> bool) \<Rightarrow> 'd rconn \<Rightarrow> bytes \<Rightarrow> bytes \<Rightarrow> gerror \<Rightarrow> 'd rconn \<Rightarrow> bool" where
  "text_end over c0 msg D e c \<longleftrightarrow>
     (if utf8_text msg then e = IoEOF \<and> D = [] \<and> (\<exists>st x. over st x c)
      else e = ErrInvalidUTF8 \<and> bad_text_closed c0 c)"

lemma text_state_bound: "dfa_run utf8Accept 0 p = (st, x) \<Longrightarrow> st < 9"
  using run_bound [of utf8Accept 0 p] by (simp add: utf8Accept_def)

lemma reject_validates:
  assumes "validates c0 st x c"
  obtains c' where "rejectUTF8 i (utf8_at a b c) = Some c'" and "bad_text_closed c0 c'"
proof -
  obtain gs qs where w: "wire c = wire c0 @ encode_frames gs" "answers c0 qs gs" using assms by (auto simp: validates_def)
  show thesis
    by (rule reject_ok [of "utf8_at a b c" c0 gs qs i]) (use assms w that in \<open>auto simp: validates_def\<close>)
qed

locale text_source =
  fixes rd :: "'d rconn io_reader" and c0 :: "'d rconn"
    and left :: "nat \<Rightarrow> rune \<Rightarrow> bytes \<Rightarrow> 'd rconn \<Rightarrow> bool" and over :: "nat \<Rightarrow> rune \<Rightarrow> 'd rconn \<Rightarrow> bool"
  assumes left_step: "left st x D c \<Longrightarrow> 0 < n \<Longrightarrow>
      (\<exists>d D' c'. rd n c = Some ((d, None), c') \<and> d \<noteq> [] \<and> length d \<le> n \<and> D = d @ D' \<and> left st x D' c') \<or>
      (\<exists>c'. rd n c = Some (([], Some IoEOF), c') \<and> D = [] \<and> over st x c')"
    and left_move: "left st x D c \<Longrightarrow> left a b D (utf8_at a b c)"
    and left_validates: "left st x D c \<Longrightarrow> validates c0 st x c"
    and over_validates: "over st x c \<Longrightarrow> validates c0 st x c"
begin

lemma checked_piece:
  assumes t: "left st x D c" "msg = seen @ D" "dfa_run utf8Accept 0 seen = (st, x)" "st \<noteq> utf8Reject"
    and r: "rd n c = Some ((d, None), c1)" "d \<noteq> []" "length d \<le> n" "D = d @ D'" "left st x D' c1"
  shows "(\<exists>d D' c'. checkedRead i rd n c = Some ((d, None), c') \<and> d \<noteq> [] \<and> length d \<le> n \<and> D = d @ D' \<and>
      text_in left msg D' c') \<or>
    (\<exists>e c'. checkedRead i rd n c = Some (([], Some e), c') \<and> text_end over c0 msg D e c')"
proof -
  have b: "st < 9" by (rule text_state_bound [OF t(3)])
  obtain st' x' where run': "dfa_run st x d = (st', x')" by fastforce
  obtain sc xc where sc: "readScan st x d = (sc, xc)" by fastforce
  have v: "validates c0 st x c1" by (rule left_validates [OF r(5)])
  have full: "dfa_run utf8Accept 0 (seen @ d) = (st', x')" using t(3) run' by (simp add: dfa_run_append)
  have ch: "checkedRead i rd n c = (if sc = utf8Reject
      then do { c3 \<leftarrow> rejectUTF8 i (utf8_at sc xc c1); Some (([], Some ErrInvalidUTF8), c3) }
      else Some ((d, None), utf8_at sc xc c1))"
    using v sc r(1) by (simp add: checkedRead_def validates_def utf8_at_def)
  show ?thesis
  proof (cases "st' = utf8Reject")
    case True
    then have s: "sc = utf8Reject" using readScan_rejects [OF b t(4), of x d] run' sc by simp
    obtain c3 where rj: "rejectUTF8 i (utf8_at sc xc c1) = Some c3" and bc: "bad_text_closed c0 c3"
      by (rule reject_validates [OF v])
    have "\<not> utf8_text msg" using prefix_not_rejected [of "seen @ d" D' 0] full True r(4) t(2) by auto
    then have "text_end over c0 msg D ErrInvalidUTF8 c3" using bc by (simp add: text_end_def)
    moreover have "checkedRead i rd n c = Some (([], Some ErrInvalidUTF8), c3)" using rj s ch by simp
    ultimately show ?thesis by blast
  next
    case False
    then have sc': "sc = st'" "xc = x'" using readScan_run [OF b, of x d] run' sc by simp_all
    have "text_in left msg D' (utf8_at st' x' c1)"
      unfolding text_in_def using left_move [OF r(5)] t(2) r(4) full False by (auto intro!: exI [of _ "seen @ d"])
    then show ?thesis using ch sc' False r(2-4) by auto
  qed
qed

lemma checked_end:
  assumes t: "left st x D c" "msg = seen @ D" "dfa_run utf8Accept 0 seen = (st, x)" "st \<noteq> utf8Reject"
    and r: "rd n c = Some (([], Some IoEOF), c1)" "D = []" "over st x c1"
  shows "\<exists>e c'. checkedRead i rd n c = Some (([], Some e), c') \<and> text_end over c0 msg D e c'"
proof -
  have v: "validates c0 st x c1" by (rule over_validates [OF r(3)])
  have same: "utf8_at st x c1 = c1" using v by (simp add: utf8_at_def validates_def)
  have ch: "checkedRead i rd n c = (if st \<noteq> utf8Accept
      then do { c3 \<leftarrow> rejectUTF8 i c1; Some (([], readErr c3), c3) } else Some (([], Some IoEOF), c1))"
    using v r(1) t(4) same by (simp add: checkedRead_def validates_def utf8_at_def)
  show ?thesis
  proof (cases "st = utf8Accept")
    case True
    then have "utf8_text msg" using run_sound [of 0 seen] t r(2) by (simp add: utf8Accept_def)
    then have "text_end over c0 msg D IoEOF c1" using r by (auto simp: text_end_def)
    then show ?thesis using ch True by auto
  next
    case False
    obtain c3 where rj: "rejectUTF8 i c1 = Some c3" and bc: "bad_text_closed c0 c3"
      by (rule reject_validates [OF v, of i st x]) (simp add: same)
    have "\<not> utf8_text msg" using run_complete [of msg 0] t r(2) False by (auto simp: utf8Accept_def)
    then have "text_end over c0 msg D ErrInvalidUTF8 c3" using bc by (simp add: text_end_def)
    moreover have "checkedRead i rd n c = Some (([], Some ErrInvalidUTF8), c3)"
      using ch False rj bc by (simp add: bad_text_closed_def)
    ultimately show ?thesis by blast
  qed
qed

lemma checked_read:
  assumes "text_in left msg D c" and "0 < n"
  shows "(\<exists>d D' c'. checkedRead i rd n c = Some ((d, None), c') \<and> d \<noteq> [] \<and> length d \<le> n \<and> D = d @ D' \<and>
      text_in left msg D' c') \<or>
    (\<exists>e c'. checkedRead i rd n c = Some (([], Some e), c') \<and> text_end over c0 msg D e c')"
proof -
  obtain seen st x where t: "left st x D c" "msg = seen @ D" "dfa_run utf8Accept 0 seen = (st, x)" "st \<noteq> utf8Reject"
    using assms(1) by (auto simp: text_in_def)
  from left_step [OF t(1) assms(2)] show ?thesis
  proof (elim disjE exE conjE)
    fix d D' c1
    assume "rd n c = Some ((d, None), c1)" "d \<noteq> []" "length d \<le> n" "D = d @ D'" "left st x D' c1"
    then show ?thesis by (rule checked_piece [OF t])
  next
    fix c1
    assume "rd n c = Some (([], Some IoEOF), c1)" "D = []" "over st x c1"
    from checked_end [OF t this] show ?thesis by blast
  qed
qed

end

sublocale text_source \<subseteq> checked: byte_reader "checkedRead i rd" "text_in left msg" "text_end over c0 msg" for i msg
  by unfold_locales (rule checked_read)

section \<open>The validator above the message reader\<close>

lemma readerRead_plain:
  "readers c ! i = \<lparr>rmsg = m, dec = NoDec, rfailed = None\<rparr> \<Longrightarrow> readerRead ops h i n c = mrRead h m n c"
  by (simp add: readerRead_def decRead_def)

lemma decRead_plain:
  "dec (readers c ! i) = NoDec \<Longrightarrow> decRead ops h i n c = mrRead h (rmsg (readers c ! i)) n c"
  by (simp add: decRead_def)

lemma message_left_fields:
  assumes "message_left c0 m ps R D c"
  shows "net_ok c" "readErr c = None" "kept c0 c" "\<exists>gs qs. wire c = wire c0 @ encode_frames gs \<and> answers c0 qs gs"
  using assms unfolding message_left_def message_at_def can_read_def by blast+

lemma validates_left:
  assumes "message_left (utf8_at st x c0) m ps R D c"
  shows "validates c0 st x c"
  using message_left_fields [OF assms] kept_mask(1) [OF message_left_fields(3) [OF assms]]
  by (simp add: validates_def kept_def utf8_at_def answers_def maskFrames_def)

lemma validates_over:
  assumes "message_read (utf8_at st x c0) ps R c"
  shows "validates c0 st x c"
  using assms by (auto simp: message_read_def validates_def kept_def utf8_at_def answers_def maskFrames_def can_read_def)

interpretation ts: text_source "mrRead defaultHandlers m" c0 "\<lambda>st x. message_left (utf8_at st x c0) m ps R"
    "\<lambda>st x. message_read (utf8_at st x c0) ps R"
  for c0 :: "'d rconn" and m ps R
proof unfold_locales
  fix st x D and c :: "'d rconn" and n :: nat
  assume l: "message_left (utf8_at st x c0) m ps R D c" and n: "0 < n"
  show "(\<exists>d D' c'. mrRead defaultHandlers m n c = Some ((d, None), c') \<and> d \<noteq> [] \<and> length d \<le> n \<and> D = d @ D' \<and>
      message_left (utf8_at st x c0) m ps R D' c') \<or>
    (\<exists>c'. mrRead defaultHandlers m n c = Some (([], Some IoEOF), c') \<and> D = [] \<and> message_read (utf8_at st x c0) ps R c')"
    using mr.rd_left [OF l n] by (auto simp: message_over_def)
qed (simp_all add: utf8_at_left validates_left validates_over)

text \<open>In the middle of a text message \<open>msg\<close> read through validator \<open>i\<close>; the connection \<open>c0\<close> opened it.\<close>

definition text_left ::
  "'d rconn \<Rightarrow> nat \<Rightarrow> nat \<Rightarrow> bytes list \<Rightarrow> bytes \<Rightarrow> bytes \<Rightarrow> bytes \<Rightarrow> 'd rconn \<Rightarrow> bool" where
  "text_left c0 i m ps R msg D c \<longleftrightarrow>
     readers c0 ! i = \<lparr>rmsg = m, dec = NoDec, rfailed = Some False\<rparr> \<and>
     text_in (\<lambda>st x. message_left (utf8_at st x c0) m ps R) msg D c"

definition text_over ::
  "'d rconn \<Rightarrow> bytes list \<Rightarrow> bytes \<Rightarrow> bytes \<Rightarrow> bytes \<Rightarrow> gerror \<Rightarrow> 'd rconn \<Rightarrow> bool" where
  "text_over c0 ps R msg D e c \<longleftrightarrow> text_end (\<lambda>st x. message_read (utf8_at st x c0) ps R) c0 msg D e c"

lemma text_read:
  assumes l: "text_left c0 i m ps R msg D c" and n: "0 < n"
  shows "(\<exists>d D' c'. readerRead ops defaultHandlers i n c = Some ((d, None), c') \<and> d \<noteq> [] \<and> length d \<le> n \<and>
      D = d @ D' \<and> text_left c0 i m ps R msg D' c') \<or>
    (\<exists>e c'. readerRead ops defaultHandlers i n c = Some (([], Some e), c') \<and> text_over c0 ps R msg D e c')"
proof -
  have t: "text_in (\<lambda>st x. message_left (utf8_at st x c0) m ps R) msg D c"
    and r0: "readers c0 ! i = \<lparr>rmsg = m, dec = NoDec, rfailed = Some False\<rparr>"
    using l by (simp_all add: text_left_def)
  obtain st x where "message_left (utf8_at st x c0) m ps R D c" using t by (auto simp: text_in_def)
  then have "readers c ! i = \<lparr>rmsg = m, dec = NoDec, rfailed = Some False\<rparr>"
    using r0 message_left_fields(3) by (fastforce simp: kept_def)
  then have "readerRead ops defaultHandlers i n c = checkedRead i (mrRead defaultHandlers m) n c"
    by (simp add: readerRead_checked checkedRead_def decRead_plain)
  with ts.checked_read [OF t n, of i] r0 show ?thesis unfolding text_left_def text_over_def by simp
qed

lemma text_left_start:
  assumes "message_left c m ps R msg c" and "readers c ! i = \<lparr>rmsg = m, dec = NoDec, rfailed = Some False\<rparr>"
    and "utf8_at utf8Accept 0 c = c"
  shows "text_left c i m ps R msg msg c"
  using assms unfolding text_left_def text_in_def
  by (auto simp: utf8Accept_def utf8Reject_def intro!: exI [of _ "[]"])

lemma text_over_cases:
  "utf8_text msg \<Longrightarrow> text_over c0 ps R msg D e c \<longleftrightarrow> e = IoEOF \<and> D = [] \<and> (\<exists>st x. message_read (utf8_at st x c0) ps R c)"
  "\<not> utf8_text msg \<Longrightarrow> text_over c0 ps R msg D e c \<longleftrightarrow> e = ErrInvalidUTF8 \<and> bad_text_closed c0 c"
  by (simp_all add: text_over_def text_end_def)

interpretation tr: byte_reader "readerRead ops defaultHandlers i" "text_left c0 i m ps R msg" "text_over c0 ps R msg"
  for ops :: "'d inflate_ops" and i m c0 ps R msg
  by unfold_locales (rule text_read)

end
