(* ===== verification/Reading.thy ===== *)
theory Reading
  imports TextReader
begin

text \<open>
  \<open>NextReader\<close> and \<open>ReadMessage\<close>: a message on the wire is returned whole, with its type, and the
  connection is ready for the next one; text that is not UTF-8 fails the connection.
\<close>

section \<open>Between messages\<close>

definition between_messages :: "'d rconn \<Rightarrow> bool" where
  "between_messages c \<longleftrightarrow> can_read c \<and> readErr c = None \<and> readRemaining c = 0 \<and> readFinal c"

text \<open>The frames of a message of type \<open>t\<close>, compressed or not, with pings and pongs before and between
  its frames.\<close>

fun incoming :: "int \<Rightarrow> bool \<Rightarrow> frame list \<Rightarrow> bool" where
  "incoming t z [] \<longleftrightarrow> False"
| "incoming t z (f # fs) \<longleftrightarrow>
     (if isControl (opcode f) then opcode f \<noteq> CloseMessage \<and> incoming t z fs
      else isData t \<and> opcode f = t \<and> rsv1 f = z \<and> rest_ok (fin f) fs)"

text \<open>The fields that no read changes.\<close>

definition same_setup :: "'a conn_scheme \<Rightarrow> 'b conn_scheme \<Rightarrow> bool" where
  "same_setup c c' \<longleftrightarrow>
     isServer c' = isServer c \<and> disableMask c' = disableMask c \<and>
     newDecompressionReader c' = newDecompressionReader c \<and> readLimit c' = readLimit c \<and>
     rbufSize c' = rbufSize c \<and> skipUTF8Validation c' = skipUTF8Validation c \<and> now c' = now c \<and>
     write_side c' = write_side c \<and> readErrCount c' \<le> readErrCount c"

lemma same_setup_trans: "same_setup a b \<Longrightarrow> same_setup b c \<Longrightarrow> same_setup a c"
  by (simp add: same_setup_def)

lemma kept_setup: "kept c c' \<Longrightarrow> same_setup c c'"
  by (simp add: kept_def same_setup_def)

lemma setup_rules:
  assumes "same_setup c (c' :: 'a conn_scheme)"
  shows "frame_for c' = frame_for c" "limit_ok c' = limit_ok c" "answers c' = answers c"
    "validating t c' = validating t c"
  using assms by (auto simp: same_setup_def frame_for_def limit_ok_def answers_def maskFrames_def validating_def fun_eq_iff)

section \<open>\<open>NextReader\<close>\<close>

lemma masked_raw:
  assumes "header_read f r c c'" and "is_masked f = isServer c"
  shows "avail c' = masked_rest c' (payload f) @ r"
  using assms by (cases "mkey f") (auto simp: header_read_def masked_rest_def raw_payload_def is_masked_def kept_def)

lemma count_upd [simp]:
  "kept c c' \<Longrightarrow> kept c (c'\<lparr>readErrCount := 0\<rparr>)" "avail (c'\<lparr>readErrCount := n\<rparr>) = avail c'"
  "input_ok (c'\<lparr>readErrCount := n\<rparr>) = input_ok c'" "masked_rest (c'\<lparr>readErrCount := n\<rparr>) = masked_rest c'"
  by (simp_all add: kept_def net_ok_def avail_def input_ok_def masked_rest_def fun_eq_iff)

text \<open>The loop has found the message: the first data frame of it has been read, up to its payload \<open>d\<close>.\<close>

definition found ::
  "'d inflate_ops \<Rightarrow> 'd rconn \<Rightarrow> int \<Rightarrow> bool \<Rightarrow> bytes \<Rightarrow> bytes \<Rightarrow> bytes list \<Rightarrow> 'd rconn \<Rightarrow> bytes \<Rightarrow> frame list \<Rightarrow> nat \<Rightarrow>
    bytes list \<Rightarrow> frame list \<Rightarrow> bool" where
  "found ops c t z R data allpings c1 d fs' n qs gs \<longleftrightarrow>
     nextLoop ops defaultHandlers c = Some (openReader ops t c1) \<and> can_read c1 \<and> kept c c1 \<and>
     readRemaining c1 = of_nat (length d) \<and> avail c1 = masked_rest c1 d @ encode_frames fs' @ R \<and>
     rest_ok (readFinal c1) fs' \<and> list_all (frame_for c1) fs' \<and> readLength c1 = of_nat n \<and>
     limit_ok c1 (n + length (frame_data (data_frames fs'))) \<and> length d \<le> n \<and>
     readDecompress c1 = z \<and> wire c1 = wire c @ encode_frames gs \<and> answers c qs gs \<and>
     allpings = qs @ pings fs' \<and> data = d @ frame_data (data_frames fs')"

definition finds :: "'d inflate_ops \<Rightarrow> 'd rconn \<Rightarrow> int \<Rightarrow> bool \<Rightarrow> bytes \<Rightarrow> bytes \<Rightarrow> bytes list \<Rightarrow> bool" where
  "finds ops c t z R data ps \<longleftrightarrow> (\<exists>c1 d fs' n qs gs. found ops c t z R data ps c1 d fs' n qs gs)"

lemma finds_later:
  assumes f: "finds ops c2 t z R data ps" and n: "nextLoop ops defaultHandlers c = nextLoop ops defaultHandlers c2"
    and k: "kept c c2" and w: "wire c2 = wire c @ encode_frames fs1" and a: "answers c ps1 fs1"
  shows "finds ops c t z R data (ps1 @ ps)"
proof -
  obtain c1 d fs' m qs gs where 1: "found ops c2 t z R data ps c1 d fs' m qs gs" using f by (auto simp: finds_def)
  have "answers c (ps1 @ qs) (fs1 @ gs)"
    using answers_append [OF a] 1 unfolding found_def kept_mask(2) [OF k] by blast
  then have "found ops c t z R data (ps1 @ ps) c1 d fs' m (ps1 @ qs) (fs1 @ gs)"
    using 1 n w kept_trans [OF k] unfolding found_def by auto
  then show ?thesis unfolding finds_def by blast
qed

text \<open>The connection \<open>c\<close>, from which frames are read as from \<open>c0\<close>.\<close>

definition at_frames :: "'d rconn \<Rightarrow> 'd rconn \<Rightarrow> frame list \<Rightarrow> bytes \<Rightarrow> nat \<Rightarrow> bool" where
  "at_frames c c0 fs R n \<longleftrightarrow>
     can_read c \<and> readErr c = None \<and> skips c c0 \<and> input_ok c0 \<and> avail c0 = encode_frames fs @ R \<and>
     list_all (frame_for c) fs \<and> readLength c = of_nat n \<and> limit_ok c (n + length (frame_data (data_frames fs)))"

lemma after_control_frame:
  fixes c :: "'d rconn"
  assumes c: "at_frames c c0 (f # fs) R n" and t: "opcode f = PingMessage \<or> opcode f = PongMessage"
  obtains c2 fs1 where "nextLoop ops defaultHandlers c = nextLoop ops defaultHandlers c2" and "kept c c2"
    and "wire c2 = wire c @ encode_frames fs1" and "answers c (pings [f]) fs1"
    and "at_frames c2 c2 fs R n" and "readFinal c2 = readFinal c" and "readErrCount c2 = 0"
proof -
  have ctl: "isControl (opcode f)" using t by (auto simp: isControl_def)
  have cr: "can_read c" and re: "readErr c = None" and i: "input_ok c0" and sk: "skips c c0"
    and f: "frame_for c f" "list_all (frame_for c) fs" and a: "avail c0 = encode_frame f @ encode_frames fs @ R"
    and rl: "readLength c = of_nat n" "limit_ok c (n + length (frame_data (data_frames (f # fs))))"
    using c by (simp_all add: at_frames_def)
  obtain c1 fs1 where adv: "advanceFrame defaultHandlers c = Some ((opcode f, None), c1)"
    and c1: "avail c1 = encode_frames fs @ R" "input_ok c1" "kept c c1" "readRemaining c1 = 0" "readFinal c1 = readFinal c"
      "readLength c1 = readLength c" "wire c1 = wire c @ encode_frames fs1" "answers c (pings [f]) fs1"
    by (rule advance_control_from [OF f(1) t cr sk i a])
  define c2 where "c2 = c1\<lparr>readErrCount := 0\<rparr>"
  have k2: "kept c c2" using c1(3) by (simp add: c2_def)
  have i2: "input_ok c2" "avail c2 = avail c1" "readRemaining c2 = 0" using c1 by (simp_all add: c2_def)
  have "at_frames c2 c2 fs R n"
    unfolding at_frames_def
  proof (intro conjI)
    show "can_read c2" by (rule kept_can_read [OF k2 i2(1) cr])
    show "readErr c2 = None" using k2 re by (simp add: kept_def)
    show "skips c2 c2" by (rule skips_none [OF i2(3)])
    show "list_all (frame_for c2) fs" using f(2) kept_frame_for [OF k2] by simp
    show "limit_ok c2 (n + length (frame_data (data_frames fs)))" using rl(2) ctl kept_limit [OF k2] by simp
  qed (use i2 c1 rl(1) in \<open>simp_all add: c2_def\<close>)
  moreover have "nextLoop ops defaultHandlers c = nextLoop ops defaultHandlers c2"
    using adv re not_both(1) [OF ctl] by (subst nextLoop.simps) (simp add: c2_def)
  ultimately show thesis using that k2 c1(5,7,8) by (simp add: c2_def)
qed

lemma nextLoop_ok:
  fixes c :: "'d rconn"
  assumes "at_frames c c0 fs R n" and "readFinal c" and "incoming t z fs"
  shows "finds ops c t z R (frame_data (data_frames fs)) (pings fs)"
  using assms
proof (induction fs arbitrary: c c0)
  case (Cons f fs c c0)
  show ?case
  proof (cases "isControl (opcode f)")
    case ctl: True
    then have t: "opcode f = PingMessage \<or> opcode f = PongMessage" and i: "incoming t z fs"
      using Cons.prems(3) by (auto simp: isControl_def)
    obtain c2 fs1 where n: "nextLoop ops defaultHandlers c = nextLoop ops defaultHandlers c2" and k: "kept c c2"
      "wire c2 = wire c @ encode_frames fs1" "answers c (pings [f]) fs1" and c2: "at_frames c2 c2 fs R n" "readFinal c2"
      using after_control_frame [OF Cons.prems(1) t, of ops] Cons.prems(2) by metis
    have "finds ops c t z R (frame_data (data_frames fs)) (pings [f] @ pings fs)"
      by (rule finds_later [OF Cons.IH [OF c2 i] n k])
    then show ?thesis using ctl by (simp split: if_splits)
  next
    case False
    have cr: "can_read c" and re: "readErr c = None" and i: "input_ok c0" and sk: "skips c c0"
      and f: "frame_for c f" "list_all (frame_for c) fs" and a: "avail c0 = encode_frame f @ encode_frames fs @ R"
      and rl: "readLength c = of_nat n" "limit_ok c (n + length (frame_data (data_frames (f # fs))))"
      using Cons.prems(1) by (simp_all add: at_frames_def)
    have t: "isData t" "opcode f = t" "rsv1 f = z" "rest_ok (fin f) fs" using Cons.prems(3) False by simp_all
    have it: "in_turn (readFinal c) f" using Cons.prems(2) t by (simp add: in_turn_def)
    have l: "limit_ok c (n + length (payload f))" by (rule limit_le [OF rl(2)]) (use False in simp)
    obtain c1 where adv: "advanceFrame defaultHandlers c = Some ((opcode f, None), c1)"
      and hr: "header_read f (encode_frames fs @ R) c (c1\<lparr>readLength := readLength c\<rparr>)"
      and rl1: "readLength c1 = of_nat (n + length (payload f))"
      by (rule advance_data_from [OF f(1) it False cr sk i a rl(1) l])
    define c2 where "c2 = c1\<lparr>readErrCount := 0\<rparr>"
    have "kept c c1" using hr by (simp add: header_read_def)
    then have k2: "kept c c2" by (simp add: c2_def)
    have m: "is_masked f = isServer c" using f(1) by (simp add: frame_for_def)
    have i2: "input_ok c2" "avail c2 = masked_rest c2 (payload f) @ encode_frames fs @ R"
      "readRemaining c2 = of_nat (length (payload f))" "readFinal c2 = fin f" "readDecompress c2 = z" "wire c2 = wire c"
      "readLength c2 = of_nat (n + length (payload f))"
      using hr masked_raw [OF hr m] False t(3) rl1
      by (simp_all add: c2_def header_read_def final_after_def masked_rest_def)
    have "found ops c t z R (frame_data (data_frames (f # fs))) (pings (f # fs)) c2 (payload f) fs (n + length (payload f)) [] []"
      unfolding found_def
    proof (intro conjI)
      show "nextLoop ops defaultHandlers c = Some (openReader ops t c2)"
        using adv re t by (subst nextLoop.simps) (simp add: c2_def)
      show "can_read c2" by (rule kept_can_read [OF k2 i2(1) cr])
      show "list_all (frame_for c2) fs" using f(2) kept_frame_for [OF k2] by simp
      show "limit_ok c2 (n + length (payload f) + length (frame_data (data_frames fs)))"
        using rl(2) False kept_limit [OF k2] by (simp add: add.assoc)
      show "pings (f # fs) = [] @ pings fs" "frame_data (data_frames (f # fs)) = payload f @ frame_data (data_frames fs)"
        using False by (auto simp: isControl_def)
    qed (use k2 i2 t(4) in simp_all)
    then show ?thesis unfolding finds_def by blast
  qed
qed simp

text \<open>Before the message, the rest of the one before is skipped; its length counts.\<close>

lemma nextLoop_skips:
  fixes c :: "'d rconn"
  assumes "at_frames c c0 (fs1 @ fs) R n" and "rest_ok (readFinal c) fs1" and "incoming t z fs"
  shows "finds ops c t z R (frame_data (data_frames fs)) (pings fs1 @ pings fs)"
  using assms
proof (induction fs1 arbitrary: c c0 n)
  case Nil
  then show ?case using nextLoop_ok [of c c0 fs R n t z ops] by simp
next
  case (Cons f fs1 c c0 n)
  have nf: "\<not> readFinal c" using Cons.prems(2) by simp
  show ?case
  proof (cases "isControl (opcode f)")
    case ctl: True
    then have t: "opcode f = PingMessage \<or> opcode f = PongMessage" and r: "rest_ok False fs1"
      using Cons.prems(2) by (auto simp: isControl_def)
    obtain c2 gs where n: "nextLoop ops defaultHandlers c = nextLoop ops defaultHandlers c2" and k: "kept c c2"
      "wire c2 = wire c @ encode_frames gs" "answers c (pings [f]) gs" and c2: "at_frames c2 c2 (fs1 @ fs) R n"
      "readFinal c2 = readFinal c"
      using after_control_frame [of c c0 f "fs1 @ fs" R n ops] Cons.prems(1) t by (metis append_Cons)
    have "rest_ok (readFinal c2) fs1" using r c2(2) nf by simp
    from finds_later [OF Cons.IH [OF c2(1) this Cons.prems(3)] n k] show ?thesis by (simp split: if_splits)
  next
    case False
    then have t: "opcode f = continuationFrame" "rest_ok (fin f) fs1" using Cons.prems(2) by simp_all
    have nd: "\<not> isData (opcode f)" using t(1) not_both(3) by blast
    have cr: "can_read c" and re: "readErr c = None" and i: "input_ok c0" and sk: "skips c c0"
      and f: "frame_for c f" "list_all (frame_for c) (fs1 @ fs)"
      and a: "avail c0 = encode_frame f @ encode_frames (fs1 @ fs) @ R"
      and rl: "readLength c = of_nat n" "limit_ok c (n + length (frame_data (data_frames (f # fs1 @ fs))))"
      using Cons.prems(1) by (simp_all add: at_frames_def)
    have it: "in_turn (readFinal c) f" using nf nd by (simp add: in_turn_def)
    have l: "limit_ok c (n + length (payload f))" by (rule limit_le [OF rl(2)]) (use False in simp)
    obtain c1 where adv: "advanceFrame defaultHandlers c = Some ((opcode f, None), c1)"
      and hr: "header_read f (encode_frames (fs1 @ fs) @ R) c (c1\<lparr>readLength := readLength c\<rparr>)"
      and rl1: "readLength c1 = of_nat (n + length (payload f))"
      by (rule advance_data_from [OF f(1) it False cr sk i a rl(1) l])
    define c2 where "c2 = c1\<lparr>readErrCount := 0\<rparr>"
    have k2: "kept c c2" using hr by (simp add: header_read_def c2_def)
    have m: "is_masked f = isServer c" using f(1) by (simp add: frame_for_def)
    have i2: "input_ok c2" "avail c2 = masked_rest c2 (payload f) @ encode_frames (fs1 @ fs) @ R"
      "readRemaining c2 = of_nat (length (payload f))" "readFinal c2 = fin f" "wire c2 = wire c @ encode_frames []"
      "readLength c2 = of_nat (n + length (payload f))"
      using hr masked_raw [OF hr m] False rl1
      by (simp_all add: c2_def header_read_def final_after_def masked_rest_def)
    have p: "length (payload f) < 2 ^ 63" using l by (simp add: limit_ok_def)
    have pl: "length (masked_rest c2 (payload f)) = length (payload f)" by (simp add: masked_rest_def length_xor_mask)
    obtain c3 where c3: "skips c2 c3" "avail c3 = encode_frames (fs1 @ fs) @ R" "input_ok c3"
      by (rule skips_payload [OF i2(1), of "masked_rest c2 (payload f)"]) (use i2(2,3) p pl in simp_all)
    have "at_frames c2 c3 (fs1 @ fs) R (n + length (payload f))"
      unfolding at_frames_def
    proof (intro conjI)
      show "can_read c2" by (rule kept_can_read [OF k2 i2(1) cr])
      show "readErr c2 = None" using k2 re by (simp add: kept_def)
      show "list_all (frame_for c2) (fs1 @ fs)" using f(2) kept_frame_for [OF k2] by simp
      show "limit_ok c2 (n + length (payload f) + length (frame_data (data_frames (fs1 @ fs))))"
        using rl(2) False kept_limit [OF k2] by (simp add: add.assoc)
    qed (use c3 i2 in simp_all)
    moreover have "rest_ok (readFinal c2) fs1" using t(2) i2(4) by simp
    moreover have "nextLoop ops defaultHandlers c = nextLoop ops defaultHandlers c2"
      using adv re nd by (subst nextLoop.simps) (simp add: c2_def)
    ultimately have "finds ops c t z R (frame_data (data_frames fs)) ([] @ pings fs1 @ pings fs)"
      using finds_later [OF Cons.IH _ k2 i2(5) answers_Nil [of c]] Cons.prems(3) by blast
    then show ?thesis using False by (auto simp: isControl_def)
  qed
qed

text \<open>\<open>NextReader\<close> first closes the reader before.\<close>

definition fresh :: "'d rconn \<Rightarrow> 'd rconn" where
  "fresh c = (case reader c of None \<Rightarrow> c | Some i \<Rightarrow> (readerClose i c)\<lparr>reader := None\<rparr>)
     \<lparr>messageReader := None, readLength := 0\<rparr>"

lemma NextReader_fresh: "NextReader ops h c = nextLoop ops h (fresh c)"
  by (simp add: NextReader_def fresh_def Let_def)

lemma readerClose_fields:
  "\<exists>rs. readerClose i c = c\<lparr>readers := rs\<rparr>"
  by (cases "dec (readers c ! i)") (auto simp: readerClose_def set_dec_def intro: exI [of _ "readers c"])

lemma fresh_fields:
  "\<exists>rs. fresh c = c\<lparr>readers := rs, reader := None, messageReader := None, readLength := 0\<rparr>"
proof (cases "reader c")
  case None
  then have "fresh c = c\<lparr>readers := readers c, reader := None, messageReader := None, readLength := 0\<rparr>"
    by (simp add: fresh_def)
  then show ?thesis by blast
next
  case (Some i)
  obtain rs where "readerClose i c = c\<lparr>readers := rs\<rparr>" using readerClose_fields by blast
  then have "fresh c = c\<lparr>readers := rs, reader := None, messageReader := None, readLength := 0\<rparr>"
    using Some by (simp add: fresh_def)
  then show ?thesis by blast
qed

lemma fresh_between:
  assumes "between_messages c"
  shows "between_messages (fresh c)" "avail (fresh c) = avail c" "same_setup c (fresh c)" "wire (fresh c) = wire c"
    "readLength (fresh c) = 0"
proof -
  obtain rs where f: "fresh c = c\<lparr>readers := rs, reader := None, messageReader := None, readLength := 0\<rparr>"
    using fresh_fields by blast
  show "between_messages (fresh c)" "avail (fresh c) = avail c" "same_setup c (fresh c)" "wire (fresh c) = wire c"
    "readLength (fresh c) = 0"
    unfolding f using assms
    by (simp_all add: between_messages_def can_read_def input_ok_def net_ok_def avail_def same_setup_def)
qed

text \<open>The reader of an uncompressed message.\<close>

definition opened_by :: "'d rconn \<Rightarrow> 'd rconn \<Rightarrow> bytes list \<Rightarrow> bool" where
  "opened_by c c' qs \<longleftrightarrow> same_setup c c' \<and> (\<exists>gs. wire c' = wire c @ encode_frames gs \<and> answers c qs gs)"

text \<open>The decompressor a reader is opened with.\<close>

definition first_dec :: "'d inflate_ops \<Rightarrow> bool \<Rightarrow> comp_fn \<Rightarrow> nat \<Rightarrow> 'd decWrapper" where
  "first_dec ops z fn m =
     (if \<not> z then NoDec else if fn = TakeoverFn then TakeDec True else PoolDec (Some (newFlateReader ops [] m)))"

lemma openReader_eq:
  assumes "(t = TextMessage \<and> \<not> skipUTF8Validation c) = v" and "m = length (readers c)"
  shows "openReader ops t c = (NextOk t m,
    c\<lparr>reader := Some m, messageReader := Some m, readUTF8State := (if v then utf8Accept else readUTF8State c),
      readUTF8Codepoint := (if v then 0 else readUTF8Codepoint c),
      readers := readers c @ [\<lparr>rmsg = m, dec = first_dec ops (readDecompress c) (newDecompressionReader c) m,
        rfailed = (if v then Some False else None)\<rparr>],
      rfactory := (if readDecompress c \<and> newDecompressionReader c = TakeoverFn
        then Some (newFlateReader ops (rwindow c) m) else rfactory c)\<rparr>)"
  using assms
  by (cases "newDecompressionReader c") (auto simp: openReader_def Let_def first_dec_def new_dec_defs)

text \<open>A reader for a message of type \<open>t\<close> with the frame data \<open>data\<close> has been opened.\<close>

definition opened_at ::
  "'d inflate_ops \<Rightarrow> 'd rconn \<Rightarrow> int \<Rightarrow> bool \<Rightarrow> bytes \<Rightarrow> bytes \<Rightarrow> 'd rconn \<Rightarrow> nat \<Rightarrow> bytes list \<Rightarrow> bytes list \<Rightarrow> bool" where
  "opened_at ops c t z R data c' m qs ps \<longleftrightarrow>
     NextReader ops defaultHandlers c = Some (NextOk t m, c') \<and> opened_by c c' qs \<and>
     message_left c' m ps R data c' \<and> m < length (readers c') \<and>
     readers c' ! m = \<lparr>rmsg = m, dec = first_dec ops z (newDecompressionReader c) m,
       rfailed = (if validating t c then Some False else None)\<rparr> \<and>
     (validating t c \<longrightarrow> utf8_at utf8Accept 0 c' = c') \<and> rwindow c' = rwindow c \<and>
     (z \<and> newDecompressionReader c = TakeoverFn \<longrightarrow> rfactory c' = Some (newFlateReader ops (rwindow c) m))"

definition opens_reader :: "'d inflate_ops \<Rightarrow> 'd rconn \<Rightarrow> int \<Rightarrow> bool \<Rightarrow> bytes \<Rightarrow> bytes \<Rightarrow> bytes list \<Rightarrow> bool" where
  "opens_reader ops c t z R data allpings \<longleftrightarrow>
     (\<exists>c' m qs ps. opened_at ops c t z R data c' m qs ps \<and> allpings = qs @ ps)"

lemma finds_opens:
  fixes c :: "'d rconn"
  assumes f: "finds ops (fresh c) t z R data allpings" and e: "readErr c = None"
  shows "opens_reader ops c t z R data allpings"
proof -
  obtain c1 d fs' k qs gs where n: "nextLoop ops defaultHandlers (fresh c) = Some (openReader ops t c1)"
    and c1: "can_read c1" "kept (fresh c) c1" "readRemaining c1 = of_nat (length d)"
      "avail c1 = masked_rest c1 d @ encode_frames fs' @ R" "rest_ok (readFinal c1) fs'" "list_all (frame_for c1) fs'"
      "readLength c1 = of_nat k" "readDecompress c1 = z" "wire c1 = wire (fresh c) @ encode_frames gs"
      "answers (fresh c) qs gs" "allpings = qs @ pings fs'" "data = d @ frame_data (data_frames fs')"
      "limit_ok c1 (k + length (frame_data (data_frames fs')))" "length d \<le> k"
    using f by (auto simp: finds_def found_def)
  obtain rs where fc: "fresh c = c\<lparr>readers := rs, reader := None, messageReader := None, readLength := 0\<rparr>"
    using fresh_fields by blast
  have fr: "same_setup c (fresh c)" "wire (fresh c) = wire c" by (simp_all add: fc same_setup_def)
  define m where "m = length (readers c1)"
  define v where "v = validating t c"
  have s1: "same_setup c c1" by (rule same_setup_trans [OF fr(1) kept_setup [OF c1(2)]])
  have v': "(t = TextMessage \<and> \<not> skipUTF8Validation c1) = v"
    using s1 by (auto simp: v_def validating_def same_setup_def)
  have nd: "newDecompressionReader c1 = newDecompressionReader c" using s1 by (simp add: same_setup_def)
  have w: "rwindow c1 = rwindow c" using c1(2) by (simp add: fc kept_def)
  define c' where "c' = snd (openReader ops t c1)"
  have o: "openReader ops t c1 = (NextOk t m, c')" by (simp add: c'_def openReader_eq [OF v' m_def])
  have c': "c' = c1\<lparr>reader := Some m, messageReader := Some m, readUTF8State := (if v then utf8Accept else readUTF8State c1),
                 readUTF8Codepoint := (if v then 0 else readUTF8Codepoint c1),
                 readers := readers c1 @ [\<lparr>rmsg = m, dec = first_dec ops z (newDecompressionReader c) m,
                   rfailed = (if v then Some False else None)\<rparr>],
                 rfactory := (if z \<and> newDecompressionReader c = TakeoverFn
                   then Some (newFlateReader ops (rwindow c) m) else rfactory c1)\<rparr>"
    unfolding c'_def openReader_eq [OF v' m_def] nd c1(8) w by simp
  have sim: "can_read c' = can_read c1" "readErr c' = readErr c1" "readRemaining c' = readRemaining c1"
    "avail c' = avail c1" "masked_rest c' = masked_rest c1" "readFinal c' = readFinal c1" "frame_for c' = frame_for c1"
    "readLength c' = readLength c1" "limit_ok c' = limit_ok c1" "wire c' = wire c1" "same_setup c c' = same_setup c c1"
    unfolding c'
    by (simp_all add: can_read_def input_ok_def net_ok_def avail_def masked_rest_def frame_for_def limit_ok_def
        fun_eq_iff same_setup_def)
  have re: "readErr c1 = None" using c1(2) e by (simp add: fc kept_def)
  have ml: "message_left c' m (pings fs') R data c'"
  proof (rule message_leftI)
    show "can_read c'" "readErr c' = None" "readRemaining c' = of_nat (length d)" "readLength c' = of_nat k"
      "avail c' = masked_rest c' d @ encode_frames fs' @ R" "rest_ok (readFinal c') fs'" "list_all (frame_for c') fs'"
      "limit_ok c' (k + length (frame_data (data_frames fs')))"
      using sim c1 re by simp_all
    show "length d < 2 ^ 63" using c1(13,14) by (simp add: limit_ok_def)
    show "wire c' = wire c' @ encode_frames []" "answers c' [] []" by simp_all
    show "messageReader c' = Some m" by (simp add: c')
  qed (use c1(12) in simp_all)
  have "opened_by c c' qs"
    using s1 sim fr(2) c1(9,10) setup_rules(3) [OF fr(1)] unfolding opened_by_def by auto
  moreover have "NextReader ops defaultHandlers c = Some (NextOk t m, c')" using n o by (simp add: NextReader_fresh)
  moreover have "m < length (readers c')" "readers c' ! m = \<lparr>rmsg = m, dec = first_dec ops z (newDecompressionReader c) m,
      rfailed = (if v then Some False else None)\<rparr>"
    by (simp_all add: c' m_def)
  moreover have "v \<longrightarrow> utf8_at utf8Accept 0 c' = c'" by (simp add: c' utf8_at_def)
  moreover have "rwindow c' = rwindow c"
    "z \<and> newDecompressionReader c = TakeoverFn \<longrightarrow> rfactory c' = Some (newFlateReader ops (rwindow c) m)"
    by (simp_all add: c' w)
  ultimately have "opened_at ops c t z R data c' m qs (pings fs')" using ml unfolding opened_at_def v_def by blast
  then show ?thesis using c1(11) unfolding opens_reader_def by blast
qed

lemma NextReader_opens:
  fixes c :: "'d rconn"
  assumes "between_messages c" and "avail c = encode_frames fs @ R" and "incoming t z fs"
    and "list_all (frame_for c) fs" and "limit_ok c (length (frame_data (data_frames fs)))"
  shows "opens_reader ops c t z R (frame_data (data_frames fs)) (pings fs)"
proof (rule finds_opens)
  note fr = fresh_between [OF assms(1)]
  have "at_frames (fresh c) (fresh c) fs R 0"
    unfolding at_frames_def
  proof (intro conjI)
    show "skips (fresh c) (fresh c)" by (rule skips_none) (use fr(1) in \<open>simp add: between_messages_def\<close>)
    show "list_all (frame_for (fresh c)) fs" using assms(4) setup_rules(1) [OF fr(3)] by simp
    show "limit_ok (fresh c) (0 + length (frame_data (data_frames fs)))" using assms(5) setup_rules(2) [OF fr(3)] by simp
  qed (use fr assms(2) in \<open>simp_all add: between_messages_def can_read_def\<close>)
  then show "finds ops (fresh c) t z R (frame_data (data_frames fs)) (pings fs)"
    by (rule nextLoop_ok) (use fr(1) assms(3) in \<open>simp_all add: between_messages_def\<close>)
  show "readErr c = None" using assms(1) by (simp add: between_messages_def)
qed

text \<open>In the middle of a message \<open>m\<close>, of which the application has not read \<open>D\<close>: \<open>NextReader\<close> skips it.\<close>

lemma NextReader_skips:
  fixes c :: "'d rconn"
  assumes ml: "message_left cm m ps (encode_frames fs @ R) D c" and i: "incoming t z fs"
    and f: "list_all (frame_for c) fs" and l: "limit_ok c (length D + length (frame_data (data_frames fs)))"
  shows "\<exists>qs ps'. ps = qs @ ps' \<and> opens_reader ops c t z R (frame_data (data_frames fs)) (ps' @ pings fs)"
proof -
  obtain d fs1 n qs gs where c: "can_read c" "readErr c = None" "D = d @ frame_data (data_frames fs1)" "length d < 2 ^ 63"
      "readRemaining c = of_nat (length d)" "avail c = masked_rest c d @ encode_frames fs1 @ encode_frames fs @ R"
      "rest_ok (readFinal c) fs1" "list_all (frame_for c) fs1" "ps = qs @ pings fs1"
    using ml by (auto simp: message_left_def message_at_def)
  obtain rs where fc: "fresh c = c\<lparr>readers := rs, reader := None, messageReader := None, readLength := 0\<rparr>"
    using fresh_fields by blast
  have fr: "same_setup c (fresh c)" by (simp add: fc same_setup_def)
  have fa: "input_ok (fresh c)" "can_read (fresh c)" "avail (fresh c) = avail c" "readRemaining (fresh c) = readRemaining c"
    "readFinal (fresh c) = readFinal c" "readErr (fresh c) = None"
    using c(1,2) by (simp_all add: fc can_read_def input_ok_def net_ok_def avail_def)
  have ln: "length (masked_rest c d) = length d" by (simp add: masked_rest_def length_xor_mask)
  obtain c0 where c0: "skips (fresh c) c0" "avail c0 = encode_frames fs1 @ encode_frames fs @ R" "input_ok c0"
    by (rule skips_payload [OF fa(1), of "masked_rest c d"]) (use fa(3,4) c(4-6) ln in simp_all)
  have "at_frames (fresh c) c0 (fs1 @ fs) R 0"
    unfolding at_frames_def
  proof (intro conjI)
    show "list_all (frame_for (fresh c)) (fs1 @ fs)" using c(8) f setup_rules(1) [OF fr] by simp
    have "limit_ok c (length (frame_data (data_frames (fs1 @ fs))))" by (rule limit_le [OF l]) (simp add: c(3))
    then show "limit_ok (fresh c) (0 + length (frame_data (data_frames (fs1 @ fs))))"
      using setup_rules(2) [OF fr] by simp
    show "readLength (fresh c) = of_nat 0" by (simp add: fc)
  qed (use fa c0 in simp_all)
  then have "finds ops (fresh c) t z R (frame_data (data_frames fs)) (pings fs1 @ pings fs)"
    by (rule nextLoop_skips) (use fa(5) c(7) i in simp_all)
  from finds_opens [OF this c(2)] show ?thesis using c(9) by blast
qed

lemma NextReader_ok:
  fixes c :: "'d rconn"
  assumes "between_messages c" and "avail c = encode_frames fs @ R" and "incoming t False fs"
    and "list_all (frame_for c) fs" and "limit_ok c (length (frame_data (data_frames fs)))"
  obtains c' m qs ps where "NextReader ops defaultHandlers c = Some (NextOk t m, c')" and "opened_by c c' qs"
    and "message_left c' m ps R (frame_data (data_frames fs)) c'" and "pings fs = qs @ ps" and "m < length (readers c')"
    and "readers c' ! m = \<lparr>rmsg = m, dec = NoDec, rfailed = (if validating t c then Some False else None)\<rparr>"
    and "validating t c \<longrightarrow> utf8_at utf8Accept 0 c' = c'"
proof -
  obtain c' m qs ps where "opened_at ops c t False R (frame_data (data_frames fs)) c' m qs ps" "pings fs = qs @ ps"
    using NextReader_opens [OF assms, of ops] by (auto simp: opens_reader_def)
  then show thesis
    by (intro that [of m c' qs ps]) (simp_all add: opened_at_def first_dec_def)
qed

section \<open>\<open>ReadMessage\<close>\<close>

definition plain_left :: "'d rconn \<Rightarrow> nat \<Rightarrow> bytes list \<Rightarrow> bytes \<Rightarrow> bytes \<Rightarrow> 'd rconn \<Rightarrow> bool" where
  "plain_left c0 m ps R D c \<longleftrightarrow>
     readers c0 ! m = \<lparr>rmsg = m, dec = NoDec, rfailed = None\<rparr> \<and> message_left c0 m ps R D c"

interpretation pr: byte_reader "readerRead ops defaultHandlers m" "plain_left c0 m ps R" "message_over c0 ps R"
  for ops :: "'d inflate_ops" and c0 m ps R
proof unfold_locales
  fix D and n :: nat and c :: "'d rconn"
  assume l: "plain_left c0 m ps R D c" and n: "0 < n"
  then have ml: "message_left c0 m ps R D c" and "readers c ! m = \<lparr>rmsg = m, dec = NoDec, rfailed = None\<rparr>"
    using message_left_fields(3) [of c0 m ps R D c] by (simp_all add: plain_left_def kept_def)
  then have "readerRead ops defaultHandlers m n c = mrRead defaultHandlers m n c" by (simp add: readerRead_plain)
  with mr.rd_left [OF ml n] l
  show "(\<exists>d D' s'. readerRead ops defaultHandlers m n c = Some ((d, None), s') \<and> d \<noteq> [] \<and> length d \<le> n \<and>
      D = d @ D' \<and> plain_left c0 m ps R D' s') \<or>
    (\<exists>e s'. readerRead ops defaultHandlers m n c = Some (([], Some e), s') \<and> message_over c0 ps R D e s')"
    by (simp add: plain_left_def)
qed

lemma message_read_between:
  assumes "message_read (utf8_at st x c0) ps R c"
  shows "between_messages c" "avail c = R" "opened_by c0 c ps" "rwindow c = rwindow c0"
proof -
  show "between_messages c" "avail c = R" using assms by (simp_all add: message_read_def between_messages_def)
  have "kept ((utf8_at st x c0)\<lparr>messageReader := None\<rparr>) c" using assms by (simp add: message_read_def)
  then show "rwindow c = rwindow c0" by (simp add: kept_def utf8_at_def)
  have "kept ((utf8_at st x c0)\<lparr>messageReader := None\<rparr>) c" using assms by (simp add: message_read_def)
  then have "same_setup c0 c" by (simp add: kept_def same_setup_def utf8_at_def)
  then show "opened_by c0 c ps" using assms by (auto simp: message_read_def opened_by_def)
qed

lemma utf8_at_same: "utf8_at (readUTF8State c) (readUTF8Codepoint c) c = c"
  by (simp add: utf8_at_def)

lemma opened_by_trans: "opened_by a b ps \<Longrightarrow> opened_by b c qs \<Longrightarrow> opened_by a c (ps @ qs)"
proof -
  assume 1: "opened_by a b ps" and 2: "opened_by b c qs"
  from 1 obtain gs where g: "same_setup a b" "wire b = wire a @ encode_frames gs" "answers a ps gs"
    by (auto simp: opened_by_def)
  from 2 obtain hs where h: "same_setup b c" "wire c = wire b @ encode_frames hs" "answers b qs hs"
    by (auto simp: opened_by_def)
  have "answers a (ps @ qs) (gs @ hs)" using answers_append [OF g(3)] h(3) setup_rules(3) [OF g(1)] by simp
  moreover have "wire c = wire a @ encode_frames (gs @ hs)" using g h by simp
  ultimately show ?thesis using same_setup_trans [OF g(1) h(1)] unfolding opened_by_def by blast
qed

lemma ReadMessage_from:
  fixes c :: "'d rconn"
  assumes oa: "opened_at ops c t False R msg c1 m qs ps" and g: "grows_buffer grow"
  shows "\<exists>p e c'. ReadMessage ops defaultHandlers grow c = Some (ReadDone t p e, c') \<and>
    (if validating t c \<and> \<not> utf8_text msg then e = Some ErrInvalidUTF8 \<and> (\<exists>q. msg = p @ q) \<and>
       readErr c' = Some ErrInvalidUTF8 \<and> (\<exists>c0 qs. opened_by c c0 qs \<and> bad_text_closed c0 c')
     else e = None \<and> p = msg \<and> between_messages c' \<and> avail c' = R \<and> opened_by c c' (qs @ ps) \<and>
       rwindow c' = rwindow c)"
proof -
  have nr: "NextReader ops defaultHandlers c = Some (NextOk t m, c1)" and o: "opened_by c c1 qs"
    and w: "rwindow c1 = rwindow c" and ml: "message_left c1 m ps R msg c1"
    and rd: "readers c1 ! m = \<lparr>rmsg = m, dec = NoDec, rfailed = (if validating t c then Some False else None)\<rparr>"
    and u: "validating t c \<longrightarrow> utf8_at utf8Accept 0 c1 = c1"
    using oa by (simp_all add: opened_at_def first_dec_def)
  have rm: "ReadMessage ops defaultHandlers grow c = Some (ReadDone t p e, c')"
    if "IoReadAll (readerRead ops defaultHandlers m) grow c1 = Some ((p, e), c')" for p e c'
    using nr that by (simp add: ReadMessage_def)
  show ?thesis
  proof (cases "validating t c")
    case False
    then have "plain_left c1 m ps R msg c1" using ml rd by (simp add: plain_left_def)
    from pr.ReadAll_left [OF this g, of ops] obtain p D' e c' where
      ra: "IoReadAll (readerRead ops defaultHandlers m) grow c1 = Some ((p, if e = IoEOF then None else Some e), c')"
      and "msg = p @ D'" and ov: "message_over c1 ps R D' e c'" by metis
    then have x: "e = IoEOF" "p = msg" "message_read (utf8_at (readUTF8State c1) (readUTF8Codepoint c1) c1) ps R c'"
      by (simp_all add: message_over_def utf8_at_same)
    show ?thesis
      using rm [OF ra] x(1,2) False message_read_between [OF x(3)] opened_by_trans [OF o] w by auto
  next
    case True
    then have "text_left c1 m m ps R msg msg c1"
      using ml rd u by (simp add: text_left_start)
    from tr.ReadAll_left [OF this g, of ops] obtain p D' e c' where
      ra: "IoReadAll (readerRead ops defaultHandlers m) grow c1 = Some ((p, if e = IoEOF then None else Some e), c')"
      and m: "msg = p @ D'" and ov: "text_over c1 ps R msg D' e c'" by metis
    show ?thesis
    proof (cases "utf8_text msg")
      case True
      then obtain st x where x: "e = IoEOF" "p = msg" "message_read (utf8_at st x c1) ps R c'"
        using ov m by (auto simp: text_over_cases)
      show ?thesis
        using rm [OF ra] x(1,2) True message_read_between [OF x(3)] opened_by_trans [OF o] w by auto
    next
      case bad: False
      then have x: "e = ErrInvalidUTF8" "bad_text_closed c1 c'" using ov bad by (simp_all add: text_over_cases)
      have re: "readErr c' = Some ErrInvalidUTF8" using x(2) by (simp add: bad_text_closed_def)
      have "ReadMessage ops defaultHandlers grow c = Some (ReadDone t p (Some ErrInvalidUTF8), c')"
        using rm [OF ra] x(1) by simp
      then show ?thesis using re m o x(2) bad True by auto
    qed
  qed
qed

lemma ReadMessage_ok:
  fixes c :: "'d rconn"
  assumes "between_messages c" and "avail c = encode_frames fs @ R" and "incoming t False fs"
    and "list_all (frame_for c) fs" and msg: "frame_data (data_frames fs) = msg" and "limit_ok c (length msg)"
    and g: "grows_buffer grow"
  shows "\<exists>p e c'. ReadMessage ops defaultHandlers grow c = Some (ReadDone t p e, c') \<and>
    (if validating t c \<and> \<not> utf8_text msg then e = Some ErrInvalidUTF8 \<and> (\<exists>q. msg = p @ q) \<and>
       readErr c' = Some ErrInvalidUTF8 \<and> (\<exists>c0 qs. opened_by c c0 qs \<and> bad_text_closed c0 c')
     else e = None \<and> p = msg \<and> between_messages c' \<and> avail c' = R \<and> opened_by c c' (pings fs))"
proof -
  obtain c1 m qs ps where "opened_at ops c t False R msg c1 m qs ps" "pings fs = qs @ ps"
    using NextReader_opens [OF assms(1-4), of ops] assms(6) msg by (auto simp: opens_reader_def)
  then show ?thesis using ReadMessage_from [OF _ g, of ops c t R msg c1 m qs ps] by (simp split: if_splits) blast+
qed

text \<open>The frames a writer makes of a message are frames a reader takes.\<close>

lemma fragments_rest:
  assumes "fragments continuationFrame False gs" and "opcode l = continuationFrame" and "fin l"
  shows "rest_ok False (gs @ [l])"
  using assms by (induction gs) (auto simp: message_types isControl_def)

lemma message_incoming:
  assumes m: "message_frames t z msg fs" and t: "isData t"
  shows "incoming t z fs" "data_frames fs = fs" "pings fs = []" "list_all (\<lambda>f. opcode f = t \<or> opcode f = continuationFrame) fs"
    "z \<or> list_all (\<lambda>f. \<not> rsv1 f) fs"
proof -
  obtain gs l where fs: "fs = gs @ [l]" and g: "fragments t z gs" and l: "opcode l = next_type t gs" "rsv1 l = next_rsv1 z gs" "fin l"
    using m by (auto simp: message_frames_def)
  have ops: "fragments t z gs \<Longrightarrow> list_all (\<lambda>f. opcode f = t \<or> opcode f = continuationFrame) gs" for t z gs
    by (induction gs arbitrary: t z) (auto simp: list_all_iff)
  have rsv: "fragments t False gs \<Longrightarrow> list_all (\<lambda>f. \<not> rsv1 f) gs" for t gs
    by (induction gs arbitrary: t) auto
  have nc: "\<not> isControl t" "\<not> isControl continuationFrame" "t \<noteq> PingMessage" "continuationFrame \<noteq> PingMessage"
    using t by (auto simp: isData_def isControl_def message_types)
  show op: "list_all (\<lambda>f. opcode f = t \<or> opcode f = continuationFrame) fs"
    using ops [OF g] l(1) by (auto simp: fs next_type_def)
  then show "data_frames fs = fs" "pings fs = []"
    using nc by (auto simp: data_frames_def pings_def list_all_iff filter_id_conv filter_empty_conv)
  show "z \<or> list_all (\<lambda>f. \<not> rsv1 f) fs"
    using rsv [of t gs] g l(2) by (cases z) (auto simp: fs next_rsv1_def)
  show "incoming t z fs"
  proof (cases gs)
    case Nil
    then show ?thesis using t l nc by (simp add: fs)
  next
    case (Cons f gs')
    then show ?thesis
      using t l nc g fragments_rest [of gs' l] by (simp add: fs next_type_def)
  qed
qed

lemma message_frame_for:
  assumes "message_frames t z msg fs" and "isData t" and "list_all (\<lambda>f. is_masked f = isServer c) fs"
    and "length msg < 2 ^ 63" and "z \<longrightarrow> newDecompressionReader c \<noteq> NilFn"
  shows "list_all (frame_for c) fs"
proof -
  have len: "length (payload f) \<le> length msg" if f: "f \<in> set fs" for f
  proof -
    obtain as bs where "fs = as @ f # bs" using f by (meson split_list)
    then show ?thesis using assms(1) by (auto simp: message_frames_def)
  qed
  note mi = message_incoming [OF assms(1,2)]
  show ?thesis
    unfolding list_all_iff
  proof
    fix f assume f: "f \<in> set fs"
    have "opcode f = t \<or> opcode f = continuationFrame" using mi(4) f by (simp add: list_all_iff)
    then have "known_opcode (opcode f)" "\<not> isControl (opcode f)"
      using assms(2) by (auto simp: known_opcode_def isData_def isControl_def message_types)
    then show "frame_for c f"
      using len [OF f] mi(5) f assms by (auto simp: frame_for_def list_all_iff)
  qed
qed

section \<open>A new connection\<close>

definition newRConn ::
  "bool \<Rightarrow> int \<Rightarrow> int \<Rightarrow> bool \<Rightarrow> (nat \<times> bytes) option \<Rightarrow> bytes option \<Rightarrow> environment \<Rightarrow> 'd rconn" where
  "newRConn server readBufferSize writeBufferSize writeBufferPool br wbuf env =
     conn.extend (newConn server readBufferSize writeBufferSize writeBufferPool br wbuf env)
       (rconn.fields [] None [])"

lemmas new_rconn_defs = newRConn_def newConn_def conn.extend_def rconn.fields_def quiet_def Let_def

lemma new_between:
  assumes "live (envIn env)" and "envNet env = []"
  shows "between_messages (newRConn server rs ws pool None wbuf env)"
    "avail (newRConn server rs ws pool None wbuf env) = upto_err (envIn env)"
  using assms
  by (auto simp: new_rconn_defs between_messages_def can_read_def input_ok_def net_ok_def avail_def
      maxControlFramePayloadSize_def defaultReadBufferSize_def)

text \<open>A decompressor that is never asked, and peers of the sample writers with one byte per read.\<close>

definition no_inflate :: "unit inflate_ops" where
  "no_inflate = \<lparr>inf_reset = (\<lambda>d. ()), inf_step = (\<lambda>n z. Yield [] (Some IoEOF) ())\<rparr>"

definition drip :: "bytes \<Rightarrow> source" where
  "drip p = map (\<lambda>b. ([b], None)) p"

lemma live_drip [simp]: "live (drip p)" "upto_err (drip p) = p"
  by (induction p) (simp_all add: live_def drip_def)

definition reader_of :: "bool \<Rightarrow> bytes \<Rightarrow> unit rconn" where
  "reader_of server p = newRConn server 0 0 False None None (quiet\<lparr>envIn := drip p\<rparr>)"

lemma reader_of_simps [simp]:
  "between_messages (reader_of server p)" "avail (reader_of server p) = p" "isServer (reader_of server p) = server"
  "readLimit (reader_of server p) = 0" "newDecompressionReader (reader_of server p) = NilFn"
  "skipUTF8Validation (reader_of server p) = False" "wire (reader_of server p) = []"
  "disableMask (reader_of server p) = False" "maskIdx (reader_of server p) = 0"
  by (simp_all add: reader_of_def new_between quiet_def) (simp_all add: new_rconn_defs)

lemma reader_of_limit [simp]: "limit_ok (reader_of server p) n = (n < 2 ^ 63)"
  by (simp add: limit_ok_def)

section \<open>Properties\<close>

text \<open>A ping, the first fragment, another ping, and the last fragment, from a server.\<close>

definition sample_frames :: "frame list" where
  "sample_frames =
     [single_frame PingMessage [1] None,
      \<lparr>fin = False, rsv1 = False, opcode = TextMessage, mkey = None, payload = bytes_of_string ''he''\<rparr>,
      single_frame PingMessage [2, 3] None,
      \<lparr>fin = True, rsv1 = False, opcode = continuationFrame, mkey = None, payload = bytes_of_string ''y''\<rparr>]"

lemma sample_frames_ok:
  "incoming TextMessage False sample_frames"
  "list_all (frame_for (reader_of False p)) sample_frames"
  "frame_data (data_frames sample_frames) = bytes_of_string ''hey''"
  by (simp_all add: sample_frames_def single_frame_def message_types isControl_def isData_def frame_for_def
      known_opcode_def is_masked_def maxControlFramePayloadSize_def bytes_of_string_def)

text \<open>C9: what one connection writes, the other reads. When WriteMessage has written a message without
  compression and the peer's input is what it put on the wire, whatever follows it and however the
  network cuts it, ReadMessage on the peer returns the same type and the same bytes, with nothing
  written in answer, and the peer is ready for what follows.\<close>

theorem write_then_read:
  fixes r :: "'d rconn"
  assumes "idle w" and "isData t" and "factory_ok w" and "\<not> compressing t w" and "t = TextMessage \<Longrightarrow> utf8_text msg"
    and "between_messages r" and "isServer r = maskFrames w" and "limit_ok r (length msg)" and "grows_buffer grow"
    and "WriteMessage ops t msg w = Some (None, w')" and "wire w @ avail r = wire w' @ R"
  shows "\<exists>r'. ReadMessage iops defaultHandlers grow r = Some (ReadDone t msg None, r') \<and>
    between_messages r' \<and> avail r' = R \<and> wire r' = wire r"
proof -
  obtain w2 fs data where wr: "WriteMessage ops t msg w = Some (None, w2)"
    and ms: "message_sent t (compressing t w) data fs w w2"
    and ca: "carried ops (start_state ops w) (compressing t w) [msg] data"
    by (rule WriteMessage_ok [OF assms(1,2,3), of msg ops]) (use assms(4,5) in \<open>auto simp: validating_def\<close>)
  have d: "data = msg" "w2 = w'" using ca assms(4,10) wr by (simp_all add: carried_def)
  have m: "message_frames t False msg fs" and k: "list_all (\<lambda>f. is_masked f = isServer r) fs"
    and wi: "wire w' = wire w @ encode_frames fs"
    using ms d assms(4,7) by (simp_all add: message_sent_def)
  have a: "avail r = encode_frames fs @ R" using wi assms(11) by simp
  have "length msg < 2 ^ 63" using assms(8) by (simp add: limit_ok_def)
  then have ff: "list_all (frame_for r) fs" by (intro message_frame_for [OF m assms(2) k]) simp_all
  note mi = message_incoming [OF m assms(2)]
  have fd: "frame_data (data_frames fs) = msg" using mi(2) m by (auto simp: message_frames_def)
  have "validating t r \<Longrightarrow> utf8_text msg" using assms(5) by (simp add: validating_def)
  then obtain r' where x: "ReadMessage iops defaultHandlers grow r = Some (ReadDone t msg None, r')"
    "between_messages r'" "avail r' = R" "opened_by r r' (pings fs)"
    using ReadMessage_ok [OF assms(6) a mi(1) ff fd assms(8,9), of iops] by (auto split: if_splits)
  have "wire r' = wire r" using x(4) mi(3) by (auto simp: opened_by_def answers_def)
  with x show ?thesis by blast
qed

text \<open>The sample client after it has sent a text, and a server that gets what it sent and more.\<close>

definition sample_sent :: "bytes wconn" where
  "sample_sent = snd (the (WriteMessage stored_ops TextMessage (bytes_of_string ''hi'') client0))"

lemma sample_sent_ok: "WriteMessage stored_ops TextMessage (bytes_of_string ''hi'') client0 = Some (None, sample_sent)"
proof -
  have "utf8_text (bytes_of_string ''hi'')" by (rule utf8_text_ascii) (simp add: bytes_of_string_def)
  then obtain w' where "WriteMessage stored_ops TextMessage (bytes_of_string ''hi'') client0 = Some (None, w')"
    using WriteMessage_ok [of client0 TextMessage "bytes_of_string ''hi''" stored_ops]
    by (auto simp: isData_def compressing_def)
  then show ?thesis by (simp add: sample_sent_def)
qed

lemma write_then_read_witness:
  "\<exists>r'. ReadMessage no_inflate defaultHandlers (\<lambda>n. 2 * n + 1) (reader_of True (wire sample_sent @ [1, 2])) =
      Some (ReadDone TextMessage (bytes_of_string ''hi'') None, r') \<and>
    between_messages r' \<and> avail r' = [1, 2] \<and> wire r' = wire (reader_of True (wire sample_sent @ [1, 2]))"
proof (rule write_then_read [OF _ _ _ _ _ _ _ _ _ sample_sent_ok])
  show "utf8_text (bytes_of_string ''hi'')" by (rule utf8_text_ascii) (simp add: bytes_of_string_def)
  show "isServer (reader_of True (wire sample_sent @ [1, 2])) = maskFrames client0"
    by (simp add: maskFrames_def) (simp add: client0_def new_conn_defs)
  show "wire client0 @ avail (reader_of True (wire sample_sent @ [1, 2])) = wire sample_sent @ [1, 2]"
    by simp (simp add: client0_def new_conn_defs)
qed (simp_all add: isData_def compressing_def grows_buffer_def bytes_of_string_def)

text \<open>C16: read errors are permanent. Once a read error is set, NextReader returns that error, reads
  nothing from the network and sends nothing, and counts the call; the thousandth call panics. A
  reader of an earlier message gives the end of its data.\<close>

theorem read_error_is_permanent:
  assumes "readErr c = Some e"
  shows "\<exists>c'. NextReader ops h c =
      Some (if readErrCount c + 1 \<ge> 1000 then NextPanic else NextErr e, c') \<and>
    readErr c' = Some e \<and> readErrCount c' = readErrCount c + 1 \<and> messageReader c' = None \<and>
    rin c' = rin c \<and> rbuf c' = rbuf c \<and> wire c' = wire c \<and>
    (\<forall>m n. mrRead h m n c' = Some (([], Some IoEOF), c'))"
proof -
  obtain rs where f: "fresh c = c\<lparr>readers := rs, reader := None, messageReader := None, readLength := 0\<rparr>"
    using fresh_fields by blast
  show ?thesis
    unfolding NextReader_fresh f
    by (subst nextLoop.simps) (simp add: assms failedRead_def mrRead_def)
qed

definition failed_reader :: "unit rconn" where
  "failed_reader = (reader_of False [])\<lparr>readErr := Some ErrReadLimit\<rparr>"

lemma read_error_is_permanent_witness:
  "\<exists>c'. NextReader no_inflate defaultHandlers failed_reader =
      Some (if readErrCount failed_reader + 1 \<ge> 1000 then NextPanic else NextErr ErrReadLimit, c') \<and>
    readErr c' = Some ErrReadLimit \<and> readErrCount c' = readErrCount failed_reader + 1 \<and> messageReader c' = None \<and>
    rin c' = rin failed_reader \<and> rbuf c' = rbuf failed_reader \<and> wire c' = wire failed_reader \<and>
    (\<forall>m n. mrRead defaultHandlers m n c' = Some (([], Some IoEOF), c'))"
  by (rule read_error_is_permanent) (simp add: failed_reader_def)

end
