(* ===== verification/ReadErrors.thy ===== *)
theory ReadErrors
  imports Reading
begin

text \<open>
  What the frame reader does with frames it must refuse, with messages over the read limit, with
  close frames, and with errors of the network.
\<close>

section \<open>Close frames the connection sends\<close>

text \<open>A close frame on a connection whose write side works.\<close>

lemma close_sent:
  assumes "net_ok c" and "length p \<le> maxControlFramePayloadSize"
  shows "WriteControl CloseMessage p (Some (now c + writeWait)) c =
    Some (None, after_control CloseMessage p (Some (now c + writeWait)) c)"
  by (rule WriteControl_ok) (use assms in \<open>simp_all add: isControl_def writeWait_def\<close>)

lemma close_wire:
  "wire (after_control CloseMessage p d c) = wire c @ encode_frame (control_frame CloseMessage p c)"
  "writeErr (after_control CloseMessage p d c) = Some ErrCloseSent"
  by (simp_all add: after_control_def)

definition close_reason :: "int \<Rightarrow> string \<Rightarrow> bytes" where
  "close_reason code text = take maxControlFramePayloadSize (FormatCloseMessage code text)"

lemma protocolError_ok:
  assumes "net_ok c"
  shows "protocolError msg c =
    Some ((noFrame, Some (ErrNew (''websocket: '' @ msg))),
          after_control CloseMessage (close_reason CloseProtocolError msg) (Some (now c + writeWait)) c)"
proof -
  have "(if length (FormatCloseMessage CloseProtocolError msg) > maxControlFramePayloadSize
      then take maxControlFramePayloadSize (FormatCloseMessage CloseProtocolError msg)
      else FormatCloseMessage CloseProtocolError msg) = close_reason CloseProtocolError msg"
    by (simp add: close_reason_def)
  moreover have "length (close_reason CloseProtocolError msg) \<le> maxControlFramePayloadSize"
    by (simp add: close_reason_def)
  ultimately show ?thesis
    using close_sent [OF assms] by (simp add: protocolError_def handleProtocolError_def failWith_def Let_def)
qed

section \<open>The two header bytes\<close>

text \<open>C17: the header check accepts exactly the headers the protocol allows here: a known opcode, the
  reserved bits 2 and 3 clear, bit 1 clear unless compression was negotiated, control frames final and
  at most 125 bytes long, a data frame only after a final frame and a continuation only after one that
  was not final, and the mask bit set exactly on a server. The first reserved bit is not restricted
  to the first frame of a message.\<close>

theorem header_accepted_iff:
  assumes "uint (b0 AND 0xf) = t"
  shows "fst (checkHeader (parseHeader b0 b1) c) = [] \<longleftrightarrow>
    (t \<in> {0, 1, 2, 8, 9, 10} \<and> b0 AND 0x20 = 0 \<and> b0 AND 0x10 = 0 \<and>
     (b0 AND 0x40 = 0 \<or> newDecompressionReader c \<noteq> NilFn) \<and>
     (t < 8 \<or> b0 AND 0x80 \<noteq> 0 \<and> unat (b1 AND 0x7f) \<le> 125) \<and>
     (t \<noteq> 1 \<and> t \<noteq> 2 \<or> readFinal c) \<and> (t \<noteq> 0 \<or> \<not> readFinal c) \<and>
     (b1 AND 0x80 \<noteq> 0) = isServer c)"
proof -
  define x :: int64 where "x = ucast (b1 AND 0x7f)"
  have le: "b1 AND 0x7f \<le> 0x7f" by (rule word_and_le1)
  then have lt: "unat (b1 AND 0x7f) < 128" by (simp add: word_le_nat_alt)
  have "x = of_nat (unat (b1 AND 0x7f))" by (simp only: x_def of_nat_unat)
  then obtain m where m: "x = of_nat m" "unat (b1 AND 0x7f) = m" "m < 2 ^ 63" using lt by force
  have neg: "(x <s 0) = False" using int64_of_nat(4) [OF m(3)] m(1) by simp
  have big: "(of_nat maxControlFramePayloadSize <s x) = (125 < m)"
    using int64_of_nat(1) [OF m(3)] by (simp add: m(1) word_sless_alt maxControlFramePayloadSize_def)
  have t: "isControl u = (u \<in> {8, 9, 10})" "isData u = (u \<in> {1, 2})" "(u = continuationFrame) = (u = 0)" for u
    by (auto simp: isControl_def isData_def message_types)
  note d = checkHeader_def parseHeader_def x_def [symmetric] setReadRemaining_def neg assms finalBit_def rsv1Bit_def
    rsv2Bit_def rsv3Bit_def maskBit_def t Let_def
  consider "t \<in> {8, 9, 10}" | "t \<in> {1, 2}" | "t = 0" | "t \<notin> {0, 1, 2, 8, 9, 10}" by blast
  then show ?thesis
  proof cases
    case 1
    then have "\<not> t < 8" "t \<noteq> 0" "t \<noteq> 1" "t \<noteq> 2" by auto
    then show ?thesis using 1 big m(2) by (simp add: d split_beta)
  next
    case 2
    then have "t \<notin> {8, 9, 10}" "t < 8" "t \<noteq> 0" by auto
    then show ?thesis using 2 by (simp add: d split_beta)
  next
    case 3
    then show ?thesis by (simp add: d split_beta)
  next
    case 4
    then show ?thesis by (simp add: d split_beta)
  qed
qed

lemma header_accepted_iff_witness:
  "fst (checkHeader (parseHeader 0xC1 0x85) (reader_of True [])) = [] \<longleftrightarrow>
    ((1 :: int) \<in> {0, 1, 2, 8, 9, 10} \<and> (0xC1 :: byte) AND 0x20 = 0 \<and> (0xC1 :: byte) AND 0x10 = 0 \<and>
     ((0xC1 :: byte) AND 0x40 = 0 \<or> newDecompressionReader (reader_of True []) \<noteq> NilFn) \<and>
     ((1 :: int) < 8 \<or> (0xC1 :: byte) AND 0x80 \<noteq> 0 \<and> unat ((0x85 :: byte) AND 0x7f) \<le> 125) \<and>
     ((1 :: int) \<noteq> 1 \<and> (1 :: int) \<noteq> 2 \<or> readFinal (reader_of True [])) \<and>
     ((1 :: int) \<noteq> 0 \<or> \<not> readFinal (reader_of True [])) \<and>
     ((0x85 :: byte) AND 0x80 \<noteq> 0) = isServer (reader_of True []))"
  by (rule header_accepted_iff) simp

section \<open>A header that is refused\<close>

lemma checkHeader_cong:
  assumes "newDecompressionReader c' = newDecompressionReader c" and "readFinal c' = readFinal c" and "isServer c' = isServer c"
    and "readRemaining c' = readRemaining c"
  shows "fst (checkHeader h c') = fst (checkHeader h c)"
  using assms by (simp add: checkHeader_def setReadRemaining_def Let_def split_beta)

lemma checkHeader_fields:
  "\<exists>a b d. snd (checkHeader h c) = c\<lparr>readRemaining := a, readDecompress := b, readFinal := d\<rparr>"
proof -
  define P where "P x \<longleftrightarrow> (\<exists>a b d. x = c\<lparr>readRemaining := a, readDecompress := b, readFinal := d\<rparr>)" for x
  have "c = c\<lparr>readRemaining := readRemaining c, readDecompress := readDecompress c, readFinal := readFinal c\<rparr>" by simp
  then have P: "P c" unfolding P_def by blast
  have u: "P (x\<lparr>readRemaining := a\<rparr>)" "P (x\<lparr>readDecompress := b\<rparr>)" "P (x\<lparr>readFinal := d\<rparr>)" if x: "P x" for x a b d
  proof -
    obtain a' b' d' where "x = c\<lparr>readRemaining := a', readDecompress := b', readFinal := d'\<rparr>"
      using x unfolding P_def by blast
    then have "x\<lparr>readRemaining := a\<rparr> = c\<lparr>readRemaining := a, readDecompress := b', readFinal := d'\<rparr>"
      "x\<lparr>readDecompress := b\<rparr> = c\<lparr>readRemaining := a', readDecompress := b, readFinal := d'\<rparr>"
      "x\<lparr>readFinal := d\<rparr> = c\<lparr>readRemaining := a', readDecompress := b', readFinal := d\<rparr>"
      by simp_all
    then show "P (x\<lparr>readRemaining := a\<rparr>)" "P (x\<lparr>readDecompress := b\<rparr>)" "P (x\<lparr>readFinal := d\<rparr>)"
      unfolding P_def by blast+
  qed
  have "P (snd (checkHeader h c))"
    unfolding checkHeader_def setReadRemaining_def Let_def by (simp add: split_beta P u)
  then show ?thesis unfolding P_def .
qed

lemma header_refused:
  fixes c :: "'d rconn"
  assumes c: "can_read c" "readRemaining c = 0" and a: "avail c = [b0, b1] @ r"
    and e: "fst (checkHeader (parseHeader b0 b1) c) = es" "es \<noteq> []"
  obtains c' k where "advanceFrame h c = Some ((noFrame, Some (ErrNew (''websocket: '' @ joinErrors es))), c')"
    and "writeErr c' = Some ErrCloseSent" and "(k \<noteq> None) = maskFrames c" and "readErrCount c' = readErrCount c"
    and "wire c' = wire c @ encode_frame (single_frame CloseMessage (close_reason CloseProtocolError (joinErrors es)) k)"
proof -
  have i: "input_ok c" "2 \<le> rbufSize c" using c by (simp_all add: can_read_def maxControlFramePayloadSize_def)
  obtain c1 where r1: "conn_read 2 c = (([b0, b1], None), c1)" and k1: "kept c c1" and s1: "same_frame c c1"
    and w1: "wire c1 = wire c" and n1: "readErrCount c1 = readErrCount c"
  proof -
    obtain c2 where "brPeek 2 c = (take 2 (avail c), None, c2)" "same_but_input c c2"
      by (rule brPeek_avail [OF i(1,2)]) (use a in auto)
    then have "conn_read 2 c = (([b0, b1], None), c2\<lparr>rbuf := drop 2 (rbuf c2)\<rparr>)"
      "same_but_input c (c2\<lparr>rbuf := drop 2 (rbuf c2)\<rparr>)"
      using a same_but_input_trans [OF _ same_but_input_upd(4)] by (auto simp: conn_read_def numeral_2_eq_2)
    moreover have "readErrCount x = readErrCount c" if "same_but_input c x" for x
      using that by (auto simp: same_but_input_def)
    ultimately show thesis using that input_kept by blast
  qed
  obtain x y z where c2: "snd (checkHeader (parseHeader b0 b1) c1) = c1\<lparr>readRemaining := x, readDecompress := y, readFinal := z\<rparr>"
    using checkHeader_fields by blast
  define c2 where "c2 = c1\<lparr>readRemaining := x, readDecompress := y, readFinal := z\<rparr>"
  have "fst (checkHeader (parseHeader b0 b1) c1) = es"
    using checkHeader_cong [of c1 c] k1 s1 e(1) by (simp add: kept_def same_frame_def)
  then have ch: "checkHeader (parseHeader b0 b1) c1 = (es, c2)" using c2 by (simp add: c2_def prod_eq_iff)
  have nk: "net_ok c2" "wire c2 = wire c" "maskFrames c2 = maskFrames c" "readErrCount c2 = readErrCount c"
    using c k1 w1 n1 by (simp_all add: c2_def kept_def can_read_def net_ok_def maskFrames_def)
  let ?c' = "after_control CloseMessage (close_reason CloseProtocolError (joinErrors es)) (Some (now c2 + writeWait)) c2"
  have "advanceFrame h c = protocolError (joinErrors es) c2"
    using c(2) r1 ch e(2) by (simp add: advanceFrame_def readFrame_def)
  then have "advanceFrame h c = Some ((noFrame, Some (ErrNew (''websocket: '' @ joinErrors es))), ?c')"
    using protocolError_ok [OF nk(1)] by simp
  then show thesis
    by (rule that [of ?c' "if maskFrames c2 then Some (maskRand c2 (maskIdx c2)) else None"])
      (use nk in \<open>simp_all add: close_wire control_frame_def after_control_def del: not_None_eq\<close>)
qed

text \<open>A frame that ends the connection: the error is kept.\<close>

lemma NextReader_fails:
  fixes c :: "'d rconn"
  assumes "advanceFrame h (fresh c) = Some ((t, Some e), c')" and "readErr c = None" and "\<not> isTimeout e"
    and "readErrCount c' < 999"
  shows "NextReader ops h c = Some (NextErr e, c'\<lparr>readErr := Some e, readErrCount := readErrCount c' + 1\<rparr>)"
proof -
  obtain rs where f: "fresh c = c\<lparr>readers := rs, reader := None, messageReader := None, readLength := 0\<rparr>"
    using fresh_fields by blast
  have "readErr (fresh c) = None" "\<not> 999 \<le> readErrCount c'" using assms(2,4) f by simp_all
  then show ?thesis
    unfolding NextReader_fresh by (subst nextLoop.simps) (simp add: assms(1,3) failedRead_def)
qed

lemma fresh_count: "readErrCount (fresh c) = readErrCount c" "readFinal (fresh c) = readFinal c"
proof -
  obtain rs where f: "fresh c = c\<lparr>readers := rs, reader := None, messageReader := None, readLength := 0\<rparr>"
    using fresh_fields by blast
  show "readErrCount (fresh c) = readErrCount c" "readFinal (fresh c) = readFinal c" by (simp_all add: f)
qed

text \<open>C18: a frame whose first two bytes are not allowed ends the connection: NextReader returns an error
  that lists what is wrong, exactly one close frame with code 1002 and the same list (cut to 125 bytes)
  is sent, masked exactly when the connection masks, and both the read side and the write side
  are closed.\<close>

theorem bad_header_closes:
  fixes c :: "'d rconn"
  assumes "between_messages c" and "avail c = [b0, b1] @ r" and "fst (checkHeader (parseHeader b0 b1) c) = es"
    and "es \<noteq> []" and "readErrCount c < 999"
  shows "\<exists>c' k. NextReader ops h c = Some (NextErr (ErrNew (''websocket: '' @ joinErrors es)), c') \<and>
    readErr c' = Some (ErrNew (''websocket: '' @ joinErrors es)) \<and> writeErr c' = Some ErrCloseSent \<and>
    (k \<noteq> None) = maskFrames c \<and>
    wire c' = wire c @ encode_frame \<lparr>fin = True, rsv1 = False, opcode = CloseMessage, mkey = k,
      payload = take 125 (FormatCloseMessage CloseProtocolError (joinErrors es))\<rparr>"
proof -
  note fr = fresh_between [OF assms(1)]
  have s: "same_setup c (fresh c)" by (rule fr(3))
  have f: "can_read (fresh c)" "readRemaining (fresh c) = 0" "readErr c = None"
    using fr(1) assms(1) by (simp_all add: between_messages_def)
  have e: "fst (checkHeader (parseHeader b0 b1) (fresh c)) = es"
    using checkHeader_cong [of "fresh c" c] s assms(1,3) f(2) fresh_count(2) [of c]
    by (simp add: same_setup_def between_messages_def)
  obtain c' k where r: "advanceFrame h (fresh c) = Some ((noFrame, Some (ErrNew (''websocket: '' @ joinErrors es))), c')"
    and c': "writeErr c' = Some ErrCloseSent" "(k \<noteq> None) = maskFrames (fresh c)" "readErrCount c' = readErrCount (fresh c)"
      "wire c' = wire (fresh c) @ encode_frame (single_frame CloseMessage (close_reason CloseProtocolError (joinErrors es)) k)"
    by (rule header_refused [OF f(1,2) _ e assms(4), of r h]) (use fr(2) assms(2) in simp)
  have "NextReader ops h c = Some (NextErr (ErrNew (''websocket: '' @ joinErrors es)),
      c'\<lparr>readErr := Some (ErrNew (''websocket: '' @ joinErrors es)), readErrCount := readErrCount c' + 1\<rparr>)"
    by (rule NextReader_fails [OF r f(3)]) (use c'(3) assms(5) fresh_count [of c] in simp_all)
  moreover have "(k \<noteq> None) = maskFrames c" using c'(2) s by (simp add: maskFrames_def same_setup_def)
  moreover have "wire c' = wire c @ encode_frame \<lparr>fin = True, rsv1 = False, opcode = CloseMessage, mkey = k,
      payload = take 125 (FormatCloseMessage CloseProtocolError (joinErrors es))\<rparr>"
    using c'(4) fr(4) by (simp add: single_frame_def close_reason_def maxControlFramePayloadSize_def)
  ultimately show ?thesis using c'(1)
    by (intro exI [of _ "c'\<lparr>readErr := Some (ErrNew (''websocket: '' @ joinErrors es)), readErrCount := readErrCount c' + 1\<rparr>"]
        exI [of _ k]) simp
qed

lemma bad_header_closes_witness:
  "\<exists>c' k. NextReader no_inflate defaultHandlers (reader_of True ([0xF3, 0x00] @ [])) =
      Some (NextErr (ErrNew (''websocket: '' @
        joinErrors [''RSV1 set'', ''RSV2 set'', ''RSV3 set'', ''bad opcode 3'', ''bad MASK''])), c') \<and>
    readErr c' = Some (ErrNew (''websocket: '' @
        joinErrors [''RSV1 set'', ''RSV2 set'', ''RSV3 set'', ''bad opcode 3'', ''bad MASK''])) \<and>
    writeErr c' = Some ErrCloseSent \<and> (k \<noteq> None) = maskFrames (reader_of True ([0xF3, 0x00] @ [])) \<and>
    wire c' = wire (reader_of True ([0xF3, 0x00] @ [])) @
      encode_frame \<lparr>fin = True, rsv1 = False, opcode = CloseMessage, mkey = k,
      payload = take 125 (FormatCloseMessage CloseProtocolError
        (joinErrors [''RSV1 set'', ''RSV2 set'', ''RSV3 set'', ''bad opcode 3'', ''bad MASK'']))\<rparr>"
proof (rule bad_header_closes)
  have "itoa 3 = ''3''" by code_simp
  then show "fst (checkHeader (parseHeader 0xF3 0) (reader_of True ([0xF3, 0x00] @ []))) =
      [''RSV1 set'', ''RSV2 set'', ''RSV3 set'', ''bad opcode 3'', ''bad MASK'']"
    by (simp add: checkHeader_def parseHeader_def setReadRemaining_def Let_def split_beta isControl_def isData_def
        message_types finalBit_def rsv1Bit_def rsv2Bit_def rsv3Bit_def maskBit_def)
  show "readErrCount (reader_of True ([0xF3, 0x00] @ [])) < 999" by (simp add: reader_of_def new_rconn_defs)
qed simp_all

end
