(* ===== verification/ReadReturns.thy ===== *)
theory ReadReturns
  imports ReadErrors
begin

text \<open>
  That reading ends: whatever the peer sends, valid or not, whatever the state of the connection, the
  loops of discarding, of NextReader, of ReadMessage and of CloseGracefully return on a finite input.
  The measure is the input that is left, counted so that a network read of nothing counts too.
\<close>

section \<open>The measure\<close>

definition inputLeft :: "'a conn_scheme \<Rightarrow> nat" where
  "inputLeft c = length (rbuf c) + (\<Sum>(d, e) \<leftarrow> rin c. Suc (length d))"

lemma srcRead_left:
  assumes "srcRead n s = (d, e, s')"
  shows "(\<Sum>(d, e) \<leftarrow> s'. Suc (length d)) + length d \<le> (\<Sum>(d, e) \<leftarrow> s. Suc (length d))"
    and "0 < n \<Longrightarrow> e = None \<Longrightarrow> (\<Sum>(d, e) \<leftarrow> s'. Suc (length d)) < (\<Sum>(d, e) \<leftarrow> s. Suc (length d))"
  using assms by (cases "(n, s)" rule: srcRead.cases; auto split: if_splits)+

text \<open>Reading leaves everything but the input alone.\<close>

definition reads :: "'a conn_scheme \<Rightarrow> 'a conn_scheme \<Rightarrow> bool" where
  "reads c c' \<longleftrightarrow> same_but_input c c' \<and> inputLeft c' \<le> inputLeft c"

lemma reads_refl [simp]: "reads c c"
  by (simp add: reads_def)

lemma reads_trans: "reads a b \<Longrightarrow> reads b c \<Longrightarrow> reads a c"
  using same_but_input_trans by (auto simp: reads_def)

lemma reads_upd: "length b + (\<Sum>(d, e) \<leftarrow> s. Suc (length d)) \<le> inputLeft c \<Longrightarrow> reads c (c\<lparr>rbuf := b, rerr := e, rin := s\<rparr>)"
  using same_but_input_upd(1) by (simp add: reads_def inputLeft_def)

lemma fill_reads: "reads c (fill k c)"
proof (induction k arbitrary: c)
  case 0
  show ?case using reads_upd [of "rbuf c" "rin c" c] by (simp add: inputLeft_def)
next
  case (Suc k)
  obtain d e s where r: "srcRead (rbufSize c - length (rbuf c)) (rin c) = (d, e, s)" by (metis prod_cases3)
  let ?c1 = "c\<lparr>rbuf := rbuf c @ d, rerr := e, rin := s\<rparr>"
  have "reads c ?c1" by (rule reads_upd) (use srcRead_left(1) [OF r] in \<open>simp add: inputLeft_def\<close>)
  moreover have "fill (Suc k) c = (if e \<noteq> None \<or> d \<noteq> [] then ?c1 else fill k ?c1)" by (simp add: r)
  ultimately show ?case using Suc.IH [of ?c1] reads_trans by (simp add: reads_trans split: if_splits) blast
qed

lemma peekFill_reads: "reads c (peekFill n c)"
proof (induction n c rule: peekFill.induct)
  case (1 n c)
  then show ?case using fill_reads [of c] reads_trans by (subst peekFill.simps) (auto intro: reads_trans)
qed

lemma conn_read_reads:
  assumes "conn_read n c = ((p, err), c')"
  shows "reads c c'" and "err = None \<Longrightarrow> inputLeft c' + n \<le> inputLeft c"
proof -
  obtain q e c1 where b: "brPeek n c = (q, e, c1)" by (metis prod_cases3)
  have c': "c' = c1\<lparr>rbuf := drop (length q) (rbuf c1)\<rparr>" and e: "err = None \<longleftrightarrow> e = None"
    using assms by (auto simp: conn_read_def b Let_def split: if_splits)
  have "c1 = (peekFill n c)\<lparr>rerr := rerr (peekFill n c)\<rparr> \<or> c1 = (peekFill n c)\<lparr>rerr := None\<rparr>"
    using b by (auto simp: brPeek_def Let_def split: if_splits)
  then obtain x where x: "c1 = (peekFill n c)\<lparr>rerr := x\<rparr>" by blast
  have q: "length q = n \<and> n \<le> length (rbuf c1)" if "e = None"
    using b that by (auto simp: brPeek_def Let_def split: if_splits)
  have l: "inputLeft c' = inputLeft (peekFill n c) - min (length q) (length (rbuf c1))"
    by (simp add: c' x inputLeft_def)
  have "c' = (peekFill n c)\<lparr>rbuf := drop (length q) (rbuf c1), rerr := x, rin := rin (peekFill n c)\<rparr>"
    unfolding c' x by (rule conn.equality) simp_all
  moreover have "reads (peekFill n c)
      ((peekFill n c)\<lparr>rbuf := drop (length q) (rbuf c1), rerr := x, rin := rin (peekFill n c)\<rparr>)"
    by (rule reads_upd) (simp add: x inputLeft_def)
  ultimately have "reads (peekFill n c) c'" by simp
  then show "reads c c'" using peekFill_reads reads_trans by blast
  show "inputLeft c' + n \<le> inputLeft c" if "err = None"
  proof -
    have "length q = n" "n \<le> length (rbuf c1)" using q that e by auto
    moreover from this have "n \<le> inputLeft (peekFill n c)" by (simp add: x inputLeft_def)
    ultimately have "inputLeft c' + n = inputLeft (peekFill n c)" using l by simp
    then show ?thesis using peekFill_reads [of c n] by (simp add: reads_def)
  qed
qed

lemma brRead_reads:
  assumes "brRead n c = (d, e, c')"
  shows "reads c c'" and "length d \<le> n" and "0 < n \<Longrightarrow> e = None \<Longrightarrow> inputLeft c' < inputLeft c"
    and "inputLeft c' + length d \<le> inputLeft c"
proof -
  have rw: "reads c (c\<lparr>rin := s\<rparr>)" if "(\<Sum>(d, e) \<leftarrow> s. Suc (length d)) \<le> (\<Sum>(d, e) \<leftarrow> rin c. Suc (length d))" for s
    using that reads_upd [of "rbuf c" s c "rerr c"] by (simp add: inputLeft_def)
  have rb: "reads c (c\<lparr>rbuf := drop n (rbuf c)\<rparr>)"
    using reads_upd [of "drop n (rbuf c)" "rin c" c "rerr c"] by (simp add: inputLeft_def)
  have re: "reads c (c\<lparr>rerr := None\<rparr>)" using reads_upd [of "rbuf c" "rin c" c None] by (simp add: inputLeft_def)
  obtain d1 e1 s1 where s1: "srcRead n (rin c) = (d1, e1, s1)" by (metis prod_cases3)
  obtain d2 e2 s2 where s2: "srcRead (rbufSize c) (rin c) = (d2, e2, s2)" by (metis prod_cases3)
  note l1 = srcRead_left [OF s1] and l2 = srcRead_left [OF s2]
  have r2: "reads c (c\<lparr>rbuf := drop n d2, rerr := e2, rin := s2\<rparr>)" if "rbuf c = []"
    by (rule reads_upd) (use l2(1) that in \<open>simp add: inputLeft_def\<close>)
  show "reads c c'"
    using assms l1 l2 rw rb re r2 by (auto simp: brRead_def s1 s2 split: if_splits)
  show "length d \<le> n" using assms srcRead_length [OF s1] by (auto simp: brRead_def s1 s2 split: if_splits)
  show "inputLeft c' < inputLeft c" if "0 < n" "e = None"
    using assms that l1 l2 by (cases d2) (auto simp: brRead_def s1 s2 inputLeft_def split: if_splits)
  show "inputLeft c' + length d \<le> inputLeft c"
    using assms l1(1) l2(1) by (cases d2) (auto simp: brRead_def s1 s2 inputLeft_def split: if_splits)
qed

lemma discardN_returns: "\<exists>e c'. discardN n c = Some (e, c') \<and> reads c c'"
proof (induction "inputLeft c" arbitrary: n c rule: less_induct)
  case less
  show ?case
  proof (cases "n = 0")
    case False
    obtain d e c1 where b: "brRead (min 8192 n) c = (d, e, c1)" by (metis prod_cases3)
    note r = brRead_reads [OF b]
    have u: "discardN n c = (if n - length d = 0 then Some (None, c1) else if e \<noteq> None then Some (e, c1)
        else discardN (n - length d) c1)"
      using False b by (subst discardN.simps) simp
    show ?thesis
    proof (cases "n - length d = 0 \<or> e \<noteq> None")
      case False
      then have "inputLeft c1 < inputLeft c" using r(3) \<open>n \<noteq> 0\<close> by auto
      from less [OF this, of "n - length d"] False show ?thesis using u r(1) reads_trans by auto
    qed (use u r(1) in auto)
  qed (subst discardN.simps, simp)
qed

section \<open>Frames\<close>

text \<open>What a part of advanceFrame keeps: it consumes input, and leaves the readers and the decompression of
  the connection alone.\<close>

definition goes_on :: "'d rconn \<Rightarrow> 'd rconn \<Rightarrow> bool" where
  "goes_on c c' \<longleftrightarrow> inputLeft c' \<le> inputLeft c \<and> readers c' = readers c \<and>
     newDecompressionReader c' = newDecompressionReader c"

lemma goes_on_refl [simp]: "goes_on c c"
  by (simp add: goes_on_def)

lemma goes_on_trans: "goes_on a b \<Longrightarrow> goes_on b c \<Longrightarrow> goes_on a c"
  by (simp add: goes_on_def)

lemma reads_goes_on: "reads c c' \<Longrightarrow> goes_on c c'"
  by (auto simp: reads_def same_but_input_def goes_on_def)

text \<open>Handlers that return, and leave the input and the readers alone.\<close>

definition returning :: "'d rconn handlers \<Rightarrow> bool" where
  "returning h \<longleftrightarrow>
     (\<forall>code s c. \<exists>e c'. handleClose h code s c = Some (e, c') \<and> goes_on c c' \<and> readDecompress c' = readDecompress c) \<and>
     (\<forall>s c. \<exists>e c'. handlePing h s c = Some (e, c') \<and> goes_on c c' \<and> readDecompress c' = readDecompress c) \<and>
     (\<forall>s c. \<exists>e c'. handlePong h s c = Some (e, c') \<and> goes_on c c' \<and> readDecompress c' = readDecompress c)"

lemma inputLeft_fields: "rbuf c' = rbuf c \<Longrightarrow> rin c' = rin c \<Longrightarrow> inputLeft c' = inputLeft c"
  by (simp add: inputLeft_def)

lemma net_fields [simp]:
  "rbuf (snd (netWrite p c)) = rbuf c" "rin (snd (netWrite p c)) = rin c"
  "newDecompressionReader (snd (netWrite p c)) = newDecompressionReader c" "readErr (snd (netWrite p c)) = readErr c"
  "readDecompress (snd (netWrite p c)) = readDecompress c"
  "rbuf (snd (netSetWriteDeadline t c)) = rbuf c" "rin (snd (netSetWriteDeadline t c)) = rin c"
  "newDecompressionReader (snd (netSetWriteDeadline t c)) = newDecompressionReader c"
  "readErr (snd (netSetWriteDeadline t c)) = readErr c"
  "readDecompress (snd (netSetWriteDeadline t c)) = readDecompress c"
  by (simp_all add: netWrite_def netSetWriteDeadline_def split: list.split net_result.split)

lemma net_readers [simp]:
  "readers (snd (netWrite p c)) = readers c" "readers (snd (netSetWriteDeadline t c)) = readers c"
  "readers (writeFatal e c) = readers c"
  by (simp_all add: netWrite_def netSetWriteDeadline_def writeFatal_def split: list.split net_result.split)

lemma writeFatal_fields [simp]:
  "rbuf (writeFatal e c) = rbuf c" "rin (writeFatal e c) = rin c" "readErr (writeFatal e c) = readErr c"
  "newDecompressionReader (writeFatal e c) = newDecompressionReader c"
  "readDecompress (writeFatal e c) = readDecompress c"
  by (simp_all add: writeFatal_def)

definition write_only :: "'d rconn \<Rightarrow> 'd rconn \<Rightarrow> bool" where
  "write_only c c' \<longleftrightarrow> goes_on c c' \<and> readDecompress c' = readDecompress c \<and> readErr c' = readErr c"

lemma write_only_refl [simp]: "write_only c c"
  by (simp add: write_only_def)

lemma write_only_trans [trans]: "write_only a b \<Longrightarrow> write_only b c \<Longrightarrow> write_only a c"
  by (simp add: write_only_def goes_on_def)

lemma write_onlyI: "rbuf c' = rbuf c \<Longrightarrow> rin c' = rin c \<Longrightarrow> readers c' = readers c \<Longrightarrow>
    newDecompressionReader c' = newDecompressionReader c \<Longrightarrow> readDecompress c' = readDecompress c \<Longrightarrow>
    readErr c' = readErr c \<Longrightarrow> write_only c c'"
  by (simp add: write_only_def goes_on_def inputLeft_def)

lemma write_only_parts:
  "write_only c (snd (netWrite p c))" "write_only c (snd (netSetWriteDeadline t c))" "write_only c (writeFatal e c)"
  "write_only c (snd (newMaskKey c))" "write_only c (c\<lparr>mu := m\<rparr>)"
  by (rule write_onlyI; simp add: newMaskKey_def)+

lemma writeHeld_only: "write_only c (snd (writeHeld t dl b [] c))"
proof -
  obtain e1 c1 where s: "netSetWriteDeadline dl c = (e1, c1)" by fastforce
  obtain e2 c2 where w: "netWrite b c1 = (e2, c2)" by fastforce
  have 1: "write_only c c1" using write_only_parts(2) [of c dl] by (simp add: s)
  then have 2: "write_only c c2" using write_only_parts(1) [of c1 b] write_only_trans by (simp add: w) blast
  have "write_only c (writeFatal e c1)" "write_only c (writeFatal e c2)" for e
    using 1 2 write_only_parts(3) write_only_trans by blast+
  with 1 2 show ?thesis by (simp add: writeHeld_def s w split: option.split)
qed

lemma acquireMu_only: "\<exists>e c'. acquireMu (Some x) c = Some (e, c') \<and> write_only c c'"
proof -
  have "write_only c (c\<lparr>now := x\<rparr>)" by (rule write_onlyI) simp_all
  then show ?thesis using write_only_parts(5) [of c False] by (simp add: acquireMu_def)
qed

lemma WriteControl_returns:
  "\<exists>e c'. WriteControl t d (Some x) c = Some (e, c') \<and> write_only c c'"
proof (cases "isControl t \<and> \<not> length d > maxControlFramePayloadSize")
  case True
  let ?b0 = "of_int t OR finalBit" and ?b1 = "of_nat (length d) OR (if maskFrames c then maskBit else 0)"
  obtain buf c1 where f: "(if maskFrames c then let (key, c') = newMaskKey c in
        ([?b0, ?b1] @ key_bytes key @ fst (maskBytes (littleEndian c) (memAddr c) key 0 d), c')
      else ([?b0, ?b1] @ d, c)) = (buf, c1)" by fastforce
  then have "write_only c c1"
    using write_only_parts(4) [of c] by (auto simp: split_beta Let_def split: if_splits)
  moreover obtain e c2 where a: "acquireMu (Some x) c1 = Some (e, c2)" "write_only c1 c2" using acquireMu_only by blast
  moreover obtain e' c3 where h: "writeHeld t (Some x) buf [] c2 = (e', c3)" by fastforce
  moreover have "write_only c2 (c3\<lparr>mu := True\<rparr>)"
    using writeHeld_only [of c2 t "Some x" buf] write_only_parts(5) [of c3 True] write_only_trans by (simp add: h) blast
  ultimately have "write_only c c2" "write_only c (c3\<lparr>mu := True\<rparr>)" using write_only_trans by blast+
  then show ?thesis using True f a(1) h by (cases e) (simp_all add: WriteControl_def Let_def)
qed (auto simp: WriteControl_def)

lemma default_returning: "returning (defaultHandlers :: 'd rconn handlers)"
proof -
  have "\<exists>e c'. do { (_, c1) \<leftarrow> WriteControl t d (Some x) c; Some (None :: gerror option, c1) } = Some (e, c') \<and> goes_on c c' \<and>
      readDecompress c' = readDecompress c" for t d x and c :: "'d rconn"
    using WriteControl_returns [of t d x c] by (auto simp: write_only_def)
  then show ?thesis
    by (simp add: returning_def defaultHandlers_def defaultCloseHandler_def defaultPingHandler_def defaultPongHandler_def)
qed

text \<open>A part of advanceFrame that returns: with no error it has consumed input, and no compressed frame
  is accepted by a connection that decompresses nothing.\<close>

definition part :: "'d rconn \<Rightarrow> ((int \<times> gerror option) \<times> 'd rconn) option \<Rightarrow> bool" where
  "part c r \<longleftrightarrow> (\<exists>t e c'. r = Some ((t, e), c') \<and> goes_on c c' \<and>
     (e = None \<longrightarrow> newDecompressionReader c = NilFn \<longrightarrow> \<not> readDecompress c \<longrightarrow> \<not> readDecompress c'))"

lemma part_failWith: "goes_on c c' \<Longrightarrow> part c (failWith e c')"
  by (simp add: part_def failWith_def)

lemma part_mono:
  "part c' r \<Longrightarrow> goes_on c c' \<Longrightarrow> (newDecompressionReader c = NilFn \<Longrightarrow> \<not> readDecompress c \<Longrightarrow> \<not> readDecompress c') \<Longrightarrow> part c r"
  unfolding part_def goes_on_def by fastforce

lemma reads_fields: "reads c c' \<Longrightarrow> readDecompress c' = readDecompress c"
  by (auto simp: reads_def same_but_input_def)

lemma part_reads: "part c' r \<Longrightarrow> reads c c' \<Longrightarrow> part c r"
  by (erule part_mono) (simp_all add: reads_goes_on reads_fields)

lemma part_control: "(\<And>e c'. write_only c c' \<Longrightarrow> part c' (f e c')) \<Longrightarrow>
    part c (do { (e, c1) \<leftarrow> WriteControl t d (Some x) c; f e c1 })"
proof -
  assume f: "\<And>e c'. write_only c c' \<Longrightarrow> part c' (f e c')"
  obtain e c' where w: "WriteControl t d (Some x) c = Some (e, c')" "write_only c c'"
    using WriteControl_returns by blast
  then show ?thesis using part_mono [OF f [OF w(2)]] by (simp add: write_only_def)
qed

lemma protocolError_part: "part c (protocolError s c)"
proof -
  let ?data = "FormatCloseMessage CloseProtocolError s"
  obtain e c' where "WriteControl CloseMessage
      (if length ?data > maxControlFramePayloadSize then take maxControlFramePayloadSize ?data else ?data)
      (Some (now c + writeWait)) c = Some (e, c')" "write_only c c'"
    using WriteControl_returns by blast
  then show ?thesis
    by (simp add: protocolError_def handleProtocolError_def Let_def) (simp add: part_failWith write_only_def)
qed

lemma setReadRemaining_goes_on: "goes_on c (snd (setReadRemaining n c))"
  "readDecompress (snd (setReadRemaining n c)) = readDecompress c"
  by (simp_all add: setReadRemaining_def goes_on_def inputLeft_def)

lemma readExtended_part:
  assumes "\<And>c. part c (cont c)"
  shows "part c (readExtended k cont c)"
proof -
  obtain p e c1 where r: "conn_read k c = ((p, e), c1)" by (metis prod.exhaust)
  obtain e2 c2 where s: "setReadRemaining (of_nat (be_val p)) c1 = (e2, c2)" by fastforce
  have "part c1 (failWith x c2)" "part c1 (cont c2)" for x
    using setReadRemaining_goes_on [where c = c1 and n = "of_nat (be_val p)"] part_mono [OF assms] by (simp_all add: s part_failWith)
  moreover have "part c1 (failWith x c1)" for x by (simp add: part_failWith)
  ultimately have "part c1 (readExtended k cont c)"
    by (simp add: readExtended_def r s split: option.split)
  then show ?thesis using part_reads conn_read_reads(1) [OF r] by blast
qed

lemma readLengthField_part: "(\<And>c. part c (cont c)) \<Longrightarrow> part c (readLengthField cont c)"
  by (simp add: readLengthField_def readExtended_part)

lemma readMaskField_part:
  assumes "\<And>c. part c (cont c)"
  shows "part c (readMaskField m cont c)"
proof (cases m)
  case True
  obtain p e c1 where r: "conn_read 4 (c\<lparr>readMaskPos := 0\<rparr>) = ((p, e), c1)" by (metis prod.exhaust)
  have g: "goes_on c (c\<lparr>readMaskPos := 0\<rparr>)" "goes_on c1 (c1\<lparr>readMaskKey := k\<rparr>)" for k
    by (simp_all add: goes_on_def inputLeft_def)
  have "part c1 (case e of Some e \<Rightarrow> failWith e c1 | None \<Rightarrow> cont (c1\<lparr>readMaskKey := key_of_bytes p\<rparr>))"
    using part_mono [OF assms g(2)] by (simp add: part_failWith split: option.split)
  then have "part (c\<lparr>readMaskPos := 0\<rparr>) (readMaskField m cont c)"
    using part_reads conn_read_reads(1) [OF r] True by (simp add: readMaskField_def r) blast
  then show ?thesis using part_mono [OF _ g(1)] by simp
qed (simp add: readMaskField_def assms)

lemma dataFrame_part: "part c (dataFrame t c)"
proof -
  let ?c = "c\<lparr>readLength := readLength c + readRemaining c\<rparr>"
  have g: "goes_on c ?c" by (simp add: goes_on_def inputLeft_def)
  have "part ?c (do { (_, c1) \<leftarrow> WriteControl CloseMessage (FormatCloseMessage CloseMessageTooBig '''')
      (Some (now ?c + writeWait)) ?c; failWith ErrReadLimit c1 })"
    by (rule part_control) (simp add: part_failWith)
  moreover have "part ?c (failWith ErrReadLimit ?c)" by (simp add: part_failWith)
  moreover have "part ?c (Some ((t, None), ?c))" by (simp add: part_def)
  ultimately have "part ?c (dataFrame t c)" by (simp add: dataFrame_def Let_def)
  then show ?thesis using part_mono [OF _ g] by simp
qed

lemma handled_part:
  assumes "\<exists>e c'. r = Some (e, c') \<and> goes_on c c' \<and> readDecompress c' = readDecompress c"
    and "\<And>c'. goes_on c c' \<Longrightarrow> readDecompress c' = readDecompress c \<Longrightarrow> part c (f c')"
  shows "part c (do { (err, c1) \<leftarrow> r; (case err of Some e \<Rightarrow> failWith e c1 | None \<Rightarrow> f c1) })"
  using assms by (auto simp: part_failWith split: option.split)

lemma closeFrame_part: "returning h \<Longrightarrow> part c (closeFrame h p c)"
  unfolding closeFrame_def Let_def
  by (auto simp: protocolError_part returning_def part_failWith intro!: handled_part)

lemma processControl_part: "returning h \<Longrightarrow> part c (processControl h t p c)"
  unfolding processControl_def
  by (auto simp: closeFrame_part returning_def part_def [of c "Some _"] intro!: handled_part)

lemma controlFrame_part:
  assumes "returning h"
  shows "part c (controlFrame h t c)"
proof (cases "0 <s readRemaining c")
  case True
  obtain p e c1 where r: "conn_read (unat (readRemaining c)) c = ((p, e), c1)" by (metis prod.exhaust)
  define c2 where "c2 = snd (setReadRemaining 0 c1)"
  have "part c1 (failWith x c2)" "part c1 (processControl h t q c2)" for x q
    using setReadRemaining_goes_on [where c = c1 and n = 0] part_mono [OF processControl_part [OF assms]]
    by (simp_all add: c2_def part_failWith)
  then have "part c1 (controlFrame h t c)"
    using True by (simp add: controlFrame_def r c2_def [symmetric] Let_def split: option.split)
  then show ?thesis using part_reads conn_read_reads(1) [OF r] by blast
qed (simp add: controlFrame_def processControl_part assms)

text \<open>A whole frame: with no error the input is shorter, and no compressed message is announced on a
  connection that decompresses nothing.\<close>

definition frame_read :: "'d rconn \<Rightarrow> ((int \<times> gerror option) \<times> 'd rconn) option \<Rightarrow> bool" where
  "frame_read c r \<longleftrightarrow> (\<exists>t e c'. r = Some ((t, e), c') \<and> goes_on c c' \<and>
     (e = None \<longrightarrow> inputLeft c' < inputLeft c \<and> (newDecompressionReader c = NilFn \<longrightarrow> \<not> readDecompress c')))"

lemma checkHeader_goes_on:
  assumes "checkHeader hdr c = (errors, c')"
  shows "goes_on c c'" and "newDecompressionReader c = NilFn \<Longrightarrow> \<not> readDecompress c'"
proof -
  have c': "c' = snd (checkHeader hdr c)" using assms by simp
  have "rbuf c' = rbuf c \<and> rin c' = rin c \<and> readers c' = readers c \<and> newDecompressionReader c' = newDecompressionReader c \<and>
      readDecompress c' = (hRsv1 hdr \<and> newDecompressionReader c \<noteq> NilFn)"
    unfolding c' checkHeader_def Let_def setReadRemaining_def by (simp split: if_split)
  then show "goes_on c c'" "newDecompressionReader c = NilFn \<Longrightarrow> \<not> readDecompress c'"
    by (simp_all add: goes_on_def inputLeft_def)
qed

lemma readFrame_read:
  assumes "returning h"
  shows "frame_read c (readFrame h c)"
proof -
  obtain p e c1 where r: "conn_read 2 c = ((p, e), c1)" by (metis prod.exhaust)
  note g = conn_read_reads [OF r]
  show ?thesis
  proof (cases e)
    case (Some x)
    then show ?thesis using reads_goes_on [OF g(1)] by (simp add: readFrame_def r frame_read_def failWith_def)
  next
    case None
    define hdr where "hdr = parseHeader (p ! 0) (p ! 1)"
    obtain errors c2 where k: "checkHeader hdr c1 = (errors, c2)" by fastforce
    note kg = checkHeader_goes_on [OF k]
    define rest where "rest = (if errors \<noteq> [] then protocolError (joinErrors errors) c2
      else readLengthField (readMaskField (hMask hdr)
        (if hType hdr = continuationFrame \<or> isData (hType hdr) then dataFrame (hType hdr)
         else controlFrame h (hType hdr))) c2)"
    have "part c2 rest"
      unfolding rest_def
      by (simp add: protocolError_part readLengthField_part readMaskField_part dataFrame_part controlFrame_part assms)
    moreover have "readFrame h c = rest" by (simp only: readFrame_def r None k hdr_def [symmetric] rest_def Let_def prod.case option.case)
    ultimately obtain t e' c' where p: "readFrame h c = Some ((t, e'), c')" "goes_on c2 c'"
      "e' = None \<Longrightarrow> newDecompressionReader c2 = NilFn \<Longrightarrow> \<not> readDecompress c2 \<Longrightarrow> \<not> readDecompress c'"
      by (auto simp: part_def)
    have "inputLeft c' < inputLeft c" using p(2) kg(1) g(2) None by (simp add: goes_on_def)
    moreover have "goes_on c c1" using g(1) by (rule reads_goes_on)
    ultimately show ?thesis
      using p kg by (auto simp: frame_read_def goes_on_def)
  qed
qed

lemma advanceFrame_read:
  assumes "returning h"
  shows "frame_read c (advanceFrame h c)"
proof (cases "0 <s readRemaining c")
  case True
  obtain e c1 where d: "discardN (unat (readRemaining c)) c = Some (e, c1)" "reads c c1"
    using discardN_returns by blast
  have "goes_on c c1" "inputLeft c1 \<le> inputLeft c" using d(2) reads_goes_on by (auto simp: reads_def)
  moreover have "frame_read c1 (readFrame h c1)" using assms by (rule readFrame_read)
  ultimately show ?thesis
    using True d(1) by (cases e) (auto simp: advanceFrame_def frame_read_def failWith_def goes_on_def)
qed (simp add: advanceFrame_def readFrame_read assms)

section \<open>\<open>NextReader\<close> and \<open>CloseGracefully\<close>\<close>

text \<open>The reader NextReader opens: with no decompressor if the connection has none.\<close>

definition opens :: "'d rconn \<Rightarrow> next_result \<Rightarrow> 'd rconn \<Rightarrow> bool" where
  "opens c r c' \<longleftrightarrow> (\<forall>t i. r = NextOk t i \<longrightarrow>
     inputLeft c' < inputLeft c \<and> i < length (readers c') \<and> newDecompressionReader c' = newDecompressionReader c \<and>
     (newDecompressionReader c = NilFn \<longrightarrow> dec (readers c' ! i) = NoDec) \<and> rfailed (readers c' ! i) \<noteq> Some True)"

lemma openReader_opens:
  assumes "inputLeft c1 < inputLeft c" and "newDecompressionReader c1 = newDecompressionReader c"
    and "newDecompressionReader c = NilFn \<Longrightarrow> \<not> readDecompress c1"
    and "openReader ops t c1 = (r, c')"
  shows "opens c r c'"
  using assms by (auto simp: openReader_def new_dec_defs opens_def Let_def inputLeft_def split: if_splits comp_fn.splits)

lemma failedRead_opens: "failedRead e c1 = (r, c') \<Longrightarrow> opens c r c'"
  by (auto simp: failedRead_def opens_def Let_def split: if_splits)

lemma nextLoop_returns:
  assumes "returning h"
  shows "\<exists>r c'. nextLoop ops h c = Some (r, c') \<and> opens c r c'"
proof (induction "inputLeft c" arbitrary: c rule: less_induct)
  case less
  show ?case
  proof (cases "readErr c")
    case (Some e)
    obtain r c' where "failedRead e c = (r, c')" by fastforce
    then show ?thesis using Some failedRead_opens [of e c r c'] by (subst nextLoop.simps) simp
  next
    case None
    obtain t err c1 where a: "advanceFrame h c = Some ((t, err), c1)" "goes_on c c1"
      "err = None \<Longrightarrow> inputLeft c1 < inputLeft c \<and> (newDecompressionReader c = NilFn \<longrightarrow> \<not> readDecompress c1)"
      using advanceFrame_read [OF assms, of c] by (auto simp: frame_read_def)
    show ?thesis
    proof (cases err)
      case (Some e)
      obtain r c' where "failedRead e (c1\<lparr>readErr := Some e\<rparr>) = (r, c')" by fastforce
      moreover from this have "opens c r c'" by (rule failedRead_opens)
      moreover have "opens c (NextErr e) c1" by (simp add: opens_def)
      ultimately show ?thesis using None a(1) Some by (subst nextLoop.simps) simp
    next
      case e: None
      let ?c2 = "c1\<lparr>readErrCount := 0\<rparr>"
      have s: "inputLeft ?c2 < inputLeft c" "newDecompressionReader ?c2 = newDecompressionReader c"
        "newDecompressionReader c = NilFn \<Longrightarrow> \<not> readDecompress ?c2"
        using a(2,3) e by (auto simp: goes_on_def inputLeft_def)
      have n: "nextLoop ops h c = (if isData t then Some (openReader ops t ?c2) else nextLoop ops h ?c2)"
        using None a(1) e by (subst nextLoop.simps) simp
      show ?thesis
      proof (cases "isData t")
        case True
        obtain r c' where "openReader ops t ?c2 = (r, c')" by fastforce
        with openReader_opens [OF s this] True n show ?thesis by simp
      next
        case False
        obtain r c' where "nextLoop ops h ?c2 = Some (r, c')" "opens ?c2 r c'" using less [OF s(1)] by blast
        moreover have "opens c r c'" using calculation(2) s(1,2) by (auto simp: opens_def)
        ultimately show ?thesis using False n by simp
      qed
    qed
  qed
qed

lemma NextReader_returns:
  assumes "returning h"
  shows "\<exists>r c'. NextReader ops h c = Some (r, c') \<and> opens c r c'"
proof -
  have "inputLeft (fresh c) = inputLeft c" "newDecompressionReader (fresh c) = newDecompressionReader c"
    by (simp_all add: fresh_def readerClose_def set_dec_def inputLeft_def split: option.split decWrapper.split)
  moreover obtain r c' where "nextLoop ops h (fresh c) = Some (r, c')" "opens (fresh c) r c'"
    using nextLoop_returns [OF assms] by blast
  ultimately show ?thesis by (auto simp: NextReader_fresh opens_def)
qed

lemma drain_returns:
  assumes "returning h"
  shows "\<exists>b c'. drain ops h c = Some (b, c')"
proof (induction "inputLeft c" arbitrary: c rule: less_induct)
  case less
  obtain r c1 where n: "NextReader ops h c = Some (r, c1)" "opens c r c1"
    using NextReader_returns [OF assms] by blast
  show ?case
  proof (cases r)
    case (NextOk t i)
    then have "inputLeft c1 < inputLeft c" using n(2) by (simp add: opens_def)
    with less n(1) NextOk show ?thesis by (subst drain.simps) simp
  next
    case (NextErr e)
    with n(1) show ?thesis by (subst drain.simps) auto
  next
    case NextPanic
    with n(1) show ?thesis by (subst drain.simps) auto
  qed
qed

lemma CloseGracefully_returns:
  assumes "returning h"
  shows "\<exists>r. CloseGracefully ops h code reason (Some t) c = Some r"
proof -
  obtain e c1 where w: "WriteControl CloseMessage (FormatCloseMessage code reason) (Some t) c = Some (e, c1)"
    using WriteControl_returns by blast
  obtain b c2 where "drain ops h (SetReadDeadline (Some t) c1) = Some (b, c2)" using drain_returns [OF assms] by blast
  then show ?thesis by (simp add: CloseGracefully_def w Let_def split_beta)
qed

section \<open>\<open>ReadMessage\<close>\<close>

text \<open>A reader without decompressor that has not failed.\<close>

lemma positive_int64:
  assumes "0 <s (x :: int64)"
  shows "0 < unat x" and "sint x = int (unat x)"
proof -
  have s: "0 < sint x" using assms by (simp add: word_sless_alt)
  then have "x \<noteq> 0" by auto
  then show "0 < unat x" by (simp add: unat_gt_0)
  have "\<not> bit (uint x) 63"
  proof
    assume "bit (uint x) 63"
    then have "sint x < 0" by (simp add: sint_uint)
    with s show False by simp
  qed
  then have "sint x = take_bit 63 (uint x)" by (simp add: sint_uint signed_take_bit_eq_if_positive)
  moreover have "take_bit 63 (uint x) = uint x"
  proof (rule bit_eqI)
    fix n
    have "bit (uint x) n \<Longrightarrow> n < 64" using bit_imp_le_length [of x n] by (simp add: bit_uint_iff)
    with \<open>\<not> bit (uint x) 63\<close> show "bit (take_bit 63 (uint x)) n = bit (uint x) n"
      by (cases "n = 63") (auto simp: bit_take_bit_iff)
  qed
  ultimately show "sint x = int (unat x)" by simp
qed

lemma payloadRead_left:
  fixes c :: "'d rconn"
  assumes "payloadRead n c = ((d, e), c')" and "0 < n" and "0 <s readRemaining c"
  shows "readers c' = readers c" and "length d \<le> n" and "e = None \<Longrightarrow> inputLeft c' < inputLeft c"
    and "inputLeft c' + length d \<le> inputLeft c"
proof -
  define n' where "n' = (if sint (readRemaining c) < int n then unat (readRemaining c) else n)"
  obtain d0 e0 c1 where b: "brRead n' c = (d0, e0, c1)" by (metis prod_cases3)
  note r = brRead_reads [OF b]
  have "unat (readRemaining c) \<le> n" if "sint (readRemaining c) < int n"
    using that unfolding positive_int64(2) [OF assms(3)] of_nat_less_iff by (rule less_imp_le)
  then have n': "0 < n'" "n' \<le> n" using assms(2) positive_int64(1) [OF assms(3)] by (auto simp: n'_def)
  have "readers c' = readers c1 \<and> rbuf c' = rbuf c1 \<and> rin c' = rin c1 \<and> length d = length d0 \<and> (e = None \<longrightarrow> e0 = None)"
  proof -
    define same where "same x \<longleftrightarrow> readers x = readers c1 \<and> rbuf x = rbuf c1 \<and> rin x = rin c1 \<and> (readErr x = None \<longrightarrow> e0 = None)"
      for x :: "'d rconn"
    define c2 where "c2 = c1\<lparr>readErr := e0\<rparr>"
    obtain d3 c3 where m: "(if isServer c2 then
          let (r, p) = maskBytes (littleEndian c2) (memAddr c2) (readMaskKey c2) (readMaskPos c2) d0 in (r, c2\<lparr>readMaskPos := p\<rparr>)
        else (d0, c2)) = (d3, c3)" by fastforce
    define c4 where "c4 = snd (setReadRemaining (readRemaining c3 - of_nat (length d0)) c3)"
    define c5 where "c5 = (if 0 <s readRemaining c4 \<and> readErr c4 = Some IoEOF then c4\<lparr>readErr := Some errUnexpectedEOF\<rparr> else c4)"
    have "same c3" "length d3 = length d0"
      using m by (auto simp: same_def c2_def maskBytes_eq length_xor_mask split: if_splits)
    then have "same c4" by (simp add: same_def c4_def setReadRemaining_def)
    then have "same c5" by (simp add: same_def c5_def)
    moreover have "payloadRead n c = ((d3, readErr c5), c5)"
      unfolding payloadRead_def n'_def [symmetric] b Let_def prod.case c2_def [symmetric] m [unfolded Let_def]
        c4_def [symmetric] c5_def ..
    ultimately show ?thesis using assms(1) \<open>length d3 = length d0\<close> by (auto simp: same_def)
  qed
  then have f: "readers c' = readers c1" "inputLeft c' = inputLeft c1" "length d = length d0" "e = None \<Longrightarrow> e0 = None"
    by (auto intro: inputLeft_fields)
  show "readers c' = readers c" using f(1) reads_goes_on [OF r(1)] by (simp add: goes_on_def)
  show "length d \<le> n" using f(3) r(2) n'(2) by simp
  show "inputLeft c' < inputLeft c" if "e = None" using f(2) r(3) [OF n'(1) f(4) [OF that]] by simp
  show "inputLeft c' + length d \<le> inputLeft c" using f(2,3) r(4) by simp
qed

lemma mrLoop_error:
  assumes "readErr c = Some x"
  shows "\<exists>e. mrLoop h m n c = Some (([], Some e), c)"
  using assms by (subst mrLoop.simps) auto

lemma mrLoop_returns:
  assumes "returning h" and "0 < n"
  shows "\<exists>d e c'. mrLoop h m n c = Some ((d, e), c') \<and> readers c' = readers c \<and> length d \<le> n \<and>
    inputLeft c' + length d \<le> inputLeft c \<and> (e = None \<longrightarrow> inputLeft c' < inputLeft c)"
proof (induction "inputLeft c" arbitrary: c rule: less_induct)
  case less
  consider (err) x where "readErr c = Some x" | (data) "readErr c = None" "0 <s readRemaining c" |
    (final) "readErr c = None" "\<not> 0 <s readRemaining c" "readFinal c" |
    (more) "readErr c = None" "\<not> 0 <s readRemaining c" "\<not> readFinal c" by blast
  then show ?case
  proof cases
    case err
    with mrLoop_error [OF err, of h m n] show ?thesis by auto
  next
    case data
    obtain d e c' where p: "payloadRead n c = ((d, e), c')" by (metis prod.exhaust)
    have "mrLoop h m n c = Some ((d, e), c')" using data p by (subst mrLoop.simps) simp
    then show ?thesis using payloadRead_left [OF p assms(2) data(2)] by auto
  next
    case final
    then have "mrLoop h m n c = Some (([], Some IoEOF), c\<lparr>messageReader := None\<rparr>)" by (subst mrLoop.simps) simp
    then show ?thesis by (simp add: inputLeft_def)
  next
    case more
    obtain t err c1 where a: "advanceFrame h c = Some ((t, err), c1)" "goes_on c c1"
      "err = None \<Longrightarrow> inputLeft c1 < inputLeft c"
      using advanceFrame_read [OF assms(1), of c] by (auto simp: frame_read_def)
    define c2 where "c2 = (case err of Some e \<Rightarrow> c1\<lparr>readErr := Some e\<rparr>
      | None \<Rightarrow> if isData t then c1\<lparr>readErr := Some errInternalReader\<rparr> else c1)"
    have n: "mrLoop h m n c = mrLoop h m n c2"
      using more a(1) by (subst mrLoop.simps) (simp add: c2_def)
    have c2: "readers c2 = readers c" "inputLeft c2 \<le> inputLeft c" "readErr c2 = None \<Longrightarrow> inputLeft c2 < inputLeft c"
      using a(2,3) by (auto simp: c2_def goes_on_def inputLeft_def split: option.splits)
    show ?thesis
    proof (cases "readErr c2")
      case (Some x)
      from mrLoop_error [OF this, of h m n] c2 show ?thesis unfolding n by auto
    next
      case None
      from less [OF c2(3) [OF this]] c2 show ?thesis unfolding n by fastforce
    qed
  qed
qed

lemma mrRead_returns:
  assumes "returning h" and "0 < n"
  shows "\<exists>d e c'. mrRead h m n c = Some ((d, e), c') \<and> readers c' = readers c \<and> length d \<le> n \<and>
    inputLeft c' + length d \<le> inputLeft c \<and> (e = None \<longrightarrow> inputLeft c' < inputLeft c)"
  using mrLoop_returns [OF assms, of m c] by (simp add: mrRead_def)

section \<open>Decompressors\<close>

text \<open>A decompressor that gets on: for some measure of its state, a read that yields data lowers it, and what
  it takes in raises it by less than K for each byte.\<close>

definition paced :: "'d inflate_ops \<Rightarrow> ('d \<Rightarrow> nat) \<Rightarrow> nat \<Rightarrow> bool" where
  "paced ops \<mu> K \<longleftrightarrow> 0 < K \<and>
     (\<forall>n z. 0 < n \<longrightarrow>
        (case inf_step ops n z of
           Yield d e z' \<Rightarrow> length d \<le> n \<and> (e = None \<longrightarrow> \<mu> z' < \<mu> z)
         | Pull k g \<Rightarrow> 0 < k \<and>
             (\<forall>d e. \<mu> (g (d, e)) \<le> \<mu> z + K * length d \<and>
                (d \<noteq> [] \<or> e \<noteq> None \<longrightarrow> \<mu> (g (d, e)) < \<mu> z + K * length d))))"

definition tailLeft :: "'d flateReader \<Rightarrow> nat" where
  "tailLeft f = length (case frTail f of None \<Rightarrow> deflateMessageTailRead | Some t \<Rightarrow> t)"

definition flateLeft :: "('d \<Rightarrow> nat) \<Rightarrow> nat \<Rightarrow> 'd flateReader \<Rightarrow> nat" where
  "flateLeft \<mu> K f = K * tailLeft f + \<mu> (fr f)"

lemma tailRead_left:
  assumes "tailRead n f t = ((d, e), f')" and "frTail f = Some t" and "0 < n"
  shows "fr f' = fr f" "length d \<le> n" "tailLeft f' + length d \<le> tailLeft f" "d = [] \<Longrightarrow> e \<noteq> None"
  using assms by (auto simp: tailRead_def tailLeft_def split: if_splits)

lemma multiRead_returns:
  assumes "returning h" and "0 < k"
  shows "\<exists>d e f' c'. multiRead h k f c = Some ((d, e), f', c') \<and> fr f' = fr f \<and> readers c' = readers c \<and> length d \<le> k \<and>
    inputLeft c' + tailLeft f' + length d \<le> inputLeft c + tailLeft f \<and>
    (d = [] \<and> e = None \<longrightarrow> inputLeft c' + tailLeft f' < inputLeft c + tailLeft f)"
proof (cases "frTail f")
  case (Some t)
  obtain d e f' where t: "tailRead k f t = ((d, e), f')" by (metis prod.exhaust)
  from tailRead_left [OF t Some assms(2)] show ?thesis by (auto simp: multiRead_def Some t)
next
  case None
  obtain d e c1 where m: "mrRead h (frMsg f) k c = Some ((d, e), c1)" "readers c1 = readers c" "length d \<le> k"
    "inputLeft c1 + length d \<le> inputLeft c" "e = None \<longrightarrow> inputLeft c1 < inputLeft c"
    using mrRead_returns [OF assms, of "frMsg f" c] by blast
  let ?f1 = "f\<lparr>frTail := Some deflateMessageTailRead\<rparr>"
  have tl: "tailLeft ?f1 = tailLeft f" by (simp add: tailLeft_def None)
  consider (err) "e \<noteq> Some IoEOF" | (last) "e = Some IoEOF" "d \<noteq> []" | (tail) "e = Some IoEOF" "d = []" by blast
  then show ?thesis
  proof cases
    case err
    then show ?thesis using m by (auto simp: multiRead_def None)
  next
    case last
    then show ?thesis using m tl by (auto simp: multiRead_def None Let_def)
  next
    case tail
    obtain d2 e2 f2 where t: "tailRead k ?f1 deflateMessageTailRead = ((d2, e2), f2)" by (metis prod.exhaust)
    have "multiRead h k f c = Some ((d2, e2), f2, c1)" using m(1) tail t by (simp add: multiRead_def None Let_def)
    moreover have "fr f2 = fr f" "length d2 \<le> k" "tailLeft f2 + length d2 \<le> tailLeft f" "d2 = [] \<Longrightarrow> e2 \<noteq> None"
      using tailRead_left [OF t _ assms(2)] tl by simp_all
    ultimately show ?thesis using m(2,4) tail(2)
      by (intro exI [of _ d2] exI [of _ e2] exI [of _ f2] exI [of _ c1]) auto
  qed
qed

lemma flateRead_returns:
  assumes h: "returning h" and n: "0 < n" and p: "paced ops \<mu> K"
  shows "\<exists>d e f' c'. flateRead ops h n f c = Some ((d, e), f', c') \<and> readers c' = readers c \<and> length d \<le> n \<and>
    (e = None \<longrightarrow> K * inputLeft c' + flateLeft \<mu> K f' < K * inputLeft c + flateLeft \<mu> K f)"
proof (induction "K * inputLeft c + flateLeft \<mu> K f" arbitrary: f c rule: less_induct)
  case less
  have s: "case inf_step ops n (fr f) of
      Yield d e z' \<Rightarrow> length d \<le> n \<and> (e = None \<longrightarrow> \<mu> z' < \<mu> (fr f))
    | Pull k g \<Rightarrow> 0 < k \<and> (\<forall>d e. \<mu> (g (d, e)) \<le> \<mu> (fr f) + K * length d \<and>
        (d \<noteq> [] \<or> e \<noteq> None \<longrightarrow> \<mu> (g (d, e)) < \<mu> (fr f) + K * length d))"
    and K: "0 < K"
    using p n by (simp_all add: paced_def)
  show ?case
  proof (cases "inf_step ops n (fr f)")
    case (Yield d e z')
    then show ?thesis using s by (subst flateRead.simps) (simp add: flateLeft_def tailLeft_def)
  next
    case (Pull k g)
    obtain d e f1 c1 where m: "multiRead h k f c = Some ((d, e), f1, c1)" "readers c1 = readers c"
      and a: "inputLeft c1 + tailLeft f1 + length d \<le> inputLeft c + tailLeft f"
        "d = [] \<and> e = None \<longrightarrow> inputLeft c1 + tailLeft f1 < inputLeft c + tailLeft f"
      using multiRead_returns [OF h, of k f c] s Pull by auto
    let ?f2 = "f1\<lparr>fr := g (d, e)\<rparr>"
    have g: "\<mu> (g (d, e)) \<le> \<mu> (fr f) + K * length d" "d \<noteq> [] \<or> e \<noteq> None \<longrightarrow> \<mu> (g (d, e)) < \<mu> (fr f) + K * length d"
      using s Pull by auto
    have l: "K * (inputLeft c1 + tailLeft f1) + \<mu> (g (d, e)) < K * (inputLeft c + tailLeft f) + \<mu> (fr f)"
    proof (cases "d = [] \<and> e = None")
      case True
      then have "inputLeft c1 + tailLeft f1 < inputLeft c + tailLeft f" "\<mu> (g (d, e)) \<le> \<mu> (fr f)"
        using a(2) g(1) by simp_all
      then show ?thesis using mult_less_mono2 [OF _ K] by (intro add_less_le_mono) simp_all
    next
      case False
      have "K * (inputLeft c1 + tailLeft f1 + length d) \<le> K * (inputLeft c + tailLeft f)" using a(1) by (rule mult_le_mono2)
      then show ?thesis using g(2) False by (simp add: distrib_left)
    qed
    then have l': "K * inputLeft c1 + flateLeft \<mu> K ?f2 < K * inputLeft c + flateLeft \<mu> K f"
      by (simp add: flateLeft_def tailLeft_def distrib_left)
    have "flateRead ops h n f c = flateRead ops h n ?f2 c1"
      by (subst flateRead.simps) (simp add: Pull m(1))
    then show ?thesis using less.hyps [OF l'] m(2) l' by fastforce
  qed
qed

section \<open>All readers\<close>

definition readLeft :: "('d \<Rightarrow> nat) \<Rightarrow> nat \<Rightarrow> nat \<Rightarrow> 'd rconn \<Rightarrow> nat" where
  "readLeft \<mu> K i c = K * inputLeft c +
     (case dec (readers c ! i) of
        PoolDec (Some f) \<Rightarrow> flateLeft \<mu> K f
      | TakeDec opn \<Rightarrow> (case rfactory c of Some f \<Rightarrow> flateLeft \<mu> K f | None \<Rightarrow> 0)
      | _ \<Rightarrow> 0)"

definition live_reader :: "'d inflate_ops \<Rightarrow> ('d \<Rightarrow> nat) \<Rightarrow> nat \<Rightarrow> nat \<Rightarrow> 'd rconn \<Rightarrow> bool" where
  "live_reader ops \<mu> K i c \<longleftrightarrow>
     0 < K \<and> i < length (readers c) \<and> rfailed (readers c ! i) \<noteq> Some True \<and>
     (dec (readers c ! i) = NoDec \<or> paced ops \<mu> K)"

definition read_once ::
  "'d inflate_ops \<Rightarrow> ('d \<Rightarrow> nat) \<Rightarrow> nat \<Rightarrow> nat \<Rightarrow> nat \<Rightarrow> 'd rconn \<Rightarrow> ((bytes \<times> gerror option) \<times> 'd rconn) option \<Rightarrow> bool" where
  "read_once ops \<mu> K i n c r \<longleftrightarrow>
     (\<exists>d e c'. r = Some ((d, e), c') \<and> length d \<le> n \<and>
        (e = None \<longrightarrow> readLeft \<mu> K i c' < readLeft \<mu> K i c \<and> live_reader ops \<mu> K i c'))"

lemma read_onceI:
  "r = Some ((d, e), c') \<Longrightarrow> length d \<le> n \<Longrightarrow>
    (e = None \<Longrightarrow> readLeft \<mu> K i c' < readLeft \<mu> K i c \<and> live_reader ops \<mu> K i c') \<Longrightarrow> read_once ops \<mu> K i n c r"
  unfolding read_once_def by blast

lemma decRead_returns:
  assumes "returning h" and "0 < n" and l: "live_reader ops \<mu> K i c"
  shows "read_once ops \<mu> K i n c (decRead ops h i n c)"
proof (cases "dec (readers c ! i)")
  case NoDec
  obtain d e c1 where m: "mrRead h (rmsg (readers c ! i)) n c = Some ((d, e), c1)" "readers c1 = readers c" "length d \<le> n"
    "e = None \<longrightarrow> inputLeft c1 < inputLeft c"
    using mrRead_returns [OF assms(1,2), of "rmsg (readers c ! i)" c] by blast
  show ?thesis
    by (rule read_onceI) (use m l NoDec in \<open>auto simp: decRead_def readLeft_def live_reader_def\<close>)
next
  case (PoolDec x)
  show ?thesis
  proof (cases x)
    case None
    show ?thesis by (rule read_onceI) (use PoolDec None in \<open>auto simp: decRead_def dec_defs\<close>)
  next
    case (Some f)
    have p: "paced ops \<mu> K" using l PoolDec by (simp add: live_reader_def)
    obtain d e f1 c1 where m: "flateRead ops h n f c = Some ((d, e), f1, c1)" "readers c1 = readers c" "length d \<le> n"
      "e = None \<longrightarrow> K * inputLeft c1 + flateLeft \<mu> K f1 < K * inputLeft c + flateLeft \<mu> K f"
      using flateRead_returns [OF assms(1,2) p, of f c] by blast
    show ?thesis
    proof (rule read_onceI)
      show "decRead ops h i n c = Some ((d, e), set_dec i (PoolDec (if e = Some IoEOF then None else Some f1)) c1)"
        using PoolDec Some m(1) by (simp add: decRead_def dec_defs)
    qed (use m(2-4) l PoolDec Some in \<open>auto simp: readLeft_def live_reader_def set_dec_def inputLeft_def\<close>)
  qed
next
  case (TakeDec opn)
  show ?thesis
  proof (cases "rfactory c")
    case None
    show ?thesis by (rule read_onceI) (use TakeDec None in \<open>auto simp: decRead_def dec_defs\<close>)
  next
    case (Some f)
    have p: "paced ops \<mu> K" using l TakeDec by (simp add: live_reader_def)
    obtain d e f1 c1 where m: "flateRead ops h n f c = Some ((d, e), f1, c1)" "readers c1 = readers c" "length d \<le> n"
      "e = None \<longrightarrow> K * inputLeft c1 + flateLeft \<mu> K f1 < K * inputLeft c + flateLeft \<mu> K f"
      using flateRead_returns [OF assms(1,2) p, of f c] by blast
    show ?thesis
    proof (cases opn)
      case False
      show ?thesis by (rule read_onceI) (use TakeDec Some False in \<open>auto simp: decRead_def dec_defs\<close>)
    next
      case True
      show ?thesis
      proof (rule read_onceI)
        show "decRead ops h i n c = Some ((d, e), c1\<lparr>rfactory := Some f1,
            rwindow := (if length d > 0 then appendWindow (rwindow c1) d else rwindow c1)\<rparr>)"
          using TakeDec Some True m(1) by (simp add: decRead_def dec_defs)
      qed (use m(2-4) l TakeDec Some in \<open>auto simp: readLeft_def live_reader_def inputLeft_def\<close>)
    qed
  qed
qed

lemma reader_read:
  assumes "returning h" and "0 < n" and l: "live_reader ops \<mu> K i c"
  shows "read_once ops \<mu> K i n c (readerRead ops h i n c)"
proof (cases "rfailed (readers c ! i)")
  case None
  then show ?thesis using decRead_returns [OF assms] by (simp add: readerRead_def)
next
  case (Some failed)
  then have failed: "\<not> failed" using l by (simp add: live_reader_def)
  obtain d e c1 where m: "decRead ops h i n c = Some ((d, e), c1)" "length d \<le> n"
    "e = None \<Longrightarrow> readLeft \<mu> K i c1 < readLeft \<mu> K i c \<and> live_reader ops \<mu> K i c1"
    using decRead_returns [OF assms] unfolding read_once_def by blast
  obtain st x where s: "readScan (readUTF8State c1) (readUTF8Codepoint c1) d = (st, x)" by fastforce
  let ?c2 = "c1\<lparr>readUTF8State := st, readUTF8Codepoint := x\<rparr>"
  have "\<exists>c3 e'. rejectUTF8 i ?c2 = Some c3 \<and> readErr c3 = Some e'"
  proof -
    let ?c = "set_failed i ?c2"
    obtain e2 c3 where "WriteControl CloseMessage (FormatCloseMessage CloseInvalidFramePayloadData '''')
        (Some (now ?c + writeWait)) ?c = Some (e2, c3)"
      using WriteControl_returns by blast
    then show ?thesis by (cases "readErr c3") (simp_all add: rejectUTF8_def Let_def)
  qed
  then obtain c3 e' where r3: "rejectUTF8 i ?c2 = Some c3" "readErr c3 = Some e'" by blast
  have same: "readLeft \<mu> K i ?c2 = readLeft \<mu> K i c1" "live_reader ops \<mu> K i ?c2 = live_reader ops \<mu> K i c1"
    by (cases "dec (readers c1 ! i)"; simp add: readLeft_def live_reader_def inputLeft_def)+
  have r: "readerRead ops h i n c = (if st = utf8Reject then Some (([], Some ErrInvalidUTF8), c3)
      else if e = Some IoEOF \<and> st \<noteq> utf8Accept then Some (([], Some e'), c3) else Some ((d, e), ?c2))"
    using Some failed m(1) s r3 by (cases "st = utf8Reject") (simp_all add: readerRead_def checkedRead_def Let_def)
  show ?thesis unfolding r read_once_def using m(2,3) same by auto
qed

lemma readAll_returns:
  assumes "returning h" and "grows_buffer grow"
  shows "live_reader ops \<mu> K i c \<Longrightarrow> length acc < cap \<Longrightarrow> \<exists>r. readAll (readerRead ops h i) grow cap acc c = Some r"
proof (induction "readLeft \<mu> K i c" arbitrary: c acc cap rule: less_induct)
  case less
  obtain d e c1 where r: "readerRead ops h i (cap - length acc) c = Some ((d, e), c1)" "length d \<le> cap - length acc"
    "e = None \<longrightarrow> readLeft \<mu> K i c1 < readLeft \<mu> K i c \<and> live_reader ops \<mu> K i c1"
    using reader_read [OF assms(1) _ less.prems(1), of "cap - length acc"] less.prems(2) unfolding read_once_def by fastforce
  show ?case
  proof (cases e)
    case None
    define cap' where "cap' = (if length (acc @ d) = cap then grow cap else cap)"
    have "length (acc @ d) < cap'" using r(2) less.prems(2) assms(2) by (auto simp: cap'_def grows_buffer_def)
    with less.hyps [of c1 "acc @ d" cap'] r(3) None
    obtain q where "readAll (readerRead ops h i) grow cap' (acc @ d) c1 = Some q" by blast
    then show ?thesis using r(1) None by (subst readAll.simps) (simp add: cap'_def)
  qed (use r(1) in \<open>subst readAll.simps, simp\<close>)
qed

lemma ReadMessage_returns:
  assumes "returning h" and "grows_buffer grow" and "newDecompressionReader c = NilFn \<or> paced ops \<mu> K"
  shows "\<exists>r. ReadMessage ops h grow c = Some r"
proof -
  obtain r c1 where n: "NextReader ops h c = Some (r, c1)" "opens c r c1" using NextReader_returns [OF assms(1)] by blast
  show ?thesis
  proof (cases r)
    case (NextOk t i)
    define K' where "K' = (if newDecompressionReader c = NilFn then 1 else K)"
    have "live_reader ops \<mu> K' i c1" using n(2) assms(3) NextOk
      by (auto simp: opens_def live_reader_def paced_def K'_def)
    moreover have "length ([] :: bytes) < 512" by simp
    ultimately obtain q where "IoReadAll (readerRead ops h i) grow c1 = Some q"
      unfolding IoReadAll_def using readAll_returns [OF assms(1,2)] by blast
    with n(1) NextOk show ?thesis by (simp add: ReadMessage_def split_beta)
  qed (use n(1) in \<open>simp_all add: ReadMessage_def\<close>)
qed

text \<open>C20: reading always returns. In whatever state the connection is, whatever bytes the peer sends and
  however the network delivers or refuses them, with handlers that return (the default ones do) and an
  input that ends: NextReader returns, CloseGracefully with a deadline returns, and ReadMessage
  returns, with compression if the decompressor gets on. No sequence of frames makes their loops spin.\<close>

theorem reading_returns:
  assumes "returning h" and "grows_buffer grow" and "newDecompressionReader c = NilFn \<or> paced ops \<mu> K"
  shows "(\<exists>r. NextReader ops h c = Some r) \<and> (\<exists>r. CloseGracefully ops h code reason (Some t) c = Some r) \<and>
    (\<exists>r. ReadMessage ops h grow c = Some r)"
  using NextReader_returns [OF assms(1)] CloseGracefully_returns [OF assms(1)] ReadMessage_returns [OF assms] by blast

text \<open>A connection in the middle of a frame, whose peer sends garbage, and a decompressor that hands on what
  it gets.\<close>

definition copy_inflate :: "(bytes \<times> gerror option) inflate_ops" where
  "copy_inflate =
     \<lparr>inf_reset = (\<lambda>dict. ([], None)),
      inf_step = (\<lambda>n (s, e). if s \<noteq> [] then Yield (take n s) None (drop n s, e)
        else case e of Some x \<Rightarrow> Yield [] (Some x) (s, e) | None \<Rightarrow> Pull 16 (\<lambda>r. r))\<rparr>"

lemma copy_paced: "paced copy_inflate (\<lambda>(s, e). 2 * length s + (if e = None then 1 else 0)) 3"
  by (auto simp: paced_def copy_inflate_def split: option.split)

definition garbage_reader :: "(bytes \<times> gerror option) rconn" where
  "garbage_reader = (newRConn True 0 0 False None None (quiet\<lparr>envIn := drip [0xff, 0xff, 0x80, 0, 1]\<rparr>))
     \<lparr>newDecompressionReader := NoTakeoverFn, readRemaining := 3\<rparr>"

lemma reading_returns_witness:
  "\<exists>r. ReadMessage copy_inflate defaultHandlers (\<lambda>n. 2 * n + 1) garbage_reader = Some r"
proof -
  have "grows_buffer (\<lambda>n. 2 * n + 1)" by (simp add: grows_buffer_def)
  from reading_returns [OF default_returning this disjI2 [OF copy_paced]] show ?thesis by blast
qed

end
