(* ===== verification/WriteSafety.thy ===== *)
theory WriteSafety
  imports WriteMessages
begin

text \<open>
  Invariants of the write side over every sequence of operations, errors of the network included:
  the wire only grows, an error is latched for good, the inner mutex is always given back, and the
  write lock is held exactly while one message writer is open.
\<close>

section \<open>What every write operation respects\<close>

text \<open>What the network answers is used up from the front, and a failure among it leaves the write error set.\<close>

definition latched :: "net_result list \<Rightarrow> net_result list \<Rightarrow> gerror option \<Rightarrow> bool" where
  "latched s s' e \<longleftrightarrow> (\<exists>used. s = used @ s' \<and> ((\<exists>x \<in> set used. x \<noteq> NetOk) \<longrightarrow> e \<noteq> None))"

lemma latched_refl [simp]: "latched s s e"
  by (simp add: latched_def)

lemma latched_mono: "latched s s' e \<Longrightarrow> (e \<noteq> None \<Longrightarrow> e' \<noteq> None) \<Longrightarrow> latched s s' e'"
  by (auto simp: latched_def)

lemma latched_trans: "latched s s1 e1 \<Longrightarrow> latched s1 s2 e2 \<Longrightarrow> (e1 \<noteq> None \<Longrightarrow> e2 \<noteq> None) \<Longrightarrow> latched s s2 e2"
  unfolding latched_def by (elim exE, rename_tac u v, rule_tac x = "u @ v" in exI) auto

definition grows :: "'a conn_scheme \<Rightarrow> 'a conn_scheme \<Rightarrow> bool" where
  "grows c c' \<longleftrightarrow>
     (\<exists>s. wire c' = wire c @ s) \<and>
     (writeErr c \<noteq> None \<longrightarrow> writeErr c' = writeErr c \<and> wire c' = wire c) \<and>
     (mu c \<longrightarrow> mu c') \<and> read_side c' = read_side c \<and> netClosed c' = netClosed c \<and>
     latched (netScript c) (netScript c') (writeErr c')"

lemma grows_refl [simp]: "grows c c"
  by (simp add: grows_def)

lemma grows_trans: "grows a b \<Longrightarrow> grows b c \<Longrightarrow> grows a c"
  using latched_trans [of "netScript a" "netScript b" "writeErr b" "netScript c" "writeErr c"] by (auto simp: grows_def)

text \<open>As \<open>grows\<close>, and the lock and the writers stay as they are.\<close>

definition quietly :: "'a conn_scheme \<Rightarrow> 'a conn_scheme \<Rightarrow> bool" where
  "quietly c c' \<longleftrightarrow> grows c c' \<and> write_side c' = write_side c \<and> writeMu c' = writeMu c \<and> writer c' = writer c \<and> conn.more c' = conn.more c"

lemma more_writers:
  "conn.more c' = conn.more c \<Longrightarrow> writers c' = writers (c :: 'z wconn)"
  "conn.more c' = conn.more c \<Longrightarrow> factory c' = factory (c :: 'z wconn)"
  by (cases c; cases c'; simp)+

lemma quietly_writers:
  fixes c :: "'z wconn"
  shows "quietly c c' \<Longrightarrow> writers c' = writers c" "quietly c c' \<Longrightarrow> factory c' = factory c"
  using more_writers [of c' c] by (simp_all add: quietly_def)

lemma quietly_refl [simp]: "quietly c c"
  by (simp add: quietly_def)

lemma quietly_trans: "quietly a b \<Longrightarrow> quietly b c \<Longrightarrow> quietly a c"
  by (auto simp: quietly_def dest: grows_trans)

lemma read_side_steps [simp]: "read_side (writeFatal e c) = read_side c" "read_side (after_end c) = read_side c"
  by (simp_all add: writeFatal_def after_end_def Let_def)

text \<open>The network calls: nothing but the wire and the environment changes.\<close>

definition touches :: "'a conn_scheme \<Rightarrow> 'a conn_scheme \<Rightarrow> bool" where
  "touches c c' \<longleftrightarrow> (\<exists>s. wire c' = wire c @ s) \<and> writeErr c' = writeErr c \<and> mu c' = mu c \<and>
     writeMu c' = writeMu c \<and> writer c' = writer c \<and> conn.more c' = conn.more c \<and> read_side c' = read_side c \<and>
     netClosed c' = netClosed c \<and> write_side c' = write_side c"

lemma touches_refl [simp]: "touches c c"
  by (simp add: touches_def)

lemma touches_trans: "touches a b \<Longrightarrow> touches b c \<Longrightarrow> touches a c"
  by (auto simp: touches_def)

lemma netWrite_touches: "netWrite p c = (e, c') \<Longrightarrow> touches c c'"
  by (auto simp: netWrite_def touches_def split: list.splits net_result.splits)

lemma writeBufs_touches: "writeBufs bs c = (e, c') \<Longrightarrow> touches c c'"
proof (induction bs arbitrary: c)
  case Nil
  then show ?case by simp
next
  case (Cons b bs)
  then show ?case
    by (auto split: prod.splits option.splits dest!: netWrite_touches intro: touches_trans)
qed

lemma netSetWriteDeadline_touches: "netSetWriteDeadline d c = (e, c') \<Longrightarrow> touches c c' \<and> wire c' = wire c"
  by (auto simp: netSetWriteDeadline_def touches_def split: list.splits net_result.splits)

lemma writeFatal_simps [simp]:
  "write_side (writeFatal e c) = write_side c" "netScript (writeFatal e c) = netScript c" "netClosed (writeFatal e c) = netClosed c" "writeErr (writeFatal e c) \<noteq> None"
  "wire (writeFatal e c) = wire c" "mu (writeFatal e c) = mu c" "writeMu (writeFatal e c) = writeMu c"
  "writer (writeFatal e c) = writer c" "conn.more (writeFatal e c) = conn.more c" "writeErr c \<noteq> None \<Longrightarrow> writeErr (writeFatal e c) = writeErr c"
  by (simp_all add: writeFatal_def)

lemma net_latched:
  "netWrite p c = (e, c') \<Longrightarrow> latched (netScript c) (netScript c') e"
  "netSetWriteDeadline t c = (e, c') \<Longrightarrow> latched (netScript c) (netScript c') e"
proof -
  show "netWrite p c = (e, c') \<Longrightarrow> latched (netScript c) (netScript c') e"
    by (auto simp: netWrite_def split: list.splits net_result.splits) (auto simp: latched_def)
  show "netSetWriteDeadline t c = (e, c') \<Longrightarrow> latched (netScript c) (netScript c') e"
    by (auto simp: netSetWriteDeadline_def split: list.splits net_result.splits) (auto simp: latched_def)
qed

lemma writeBufs_latched: "writeBufs bs c = (e, c') \<Longrightarrow> latched (netScript c) (netScript c') e"
proof (induction bs arbitrary: c)
  case (Cons b bs)
  obtain e1 c1 where w: "netWrite b c = (e1, c1)" by fastforce
  show ?case
  proof (cases e1)
    case None
    then show ?thesis using Cons w latched_trans [OF net_latched(1) [OF w]] by simp
  next
    case (Some x)
    then show ?thesis using Cons.prems w net_latched(1) [OF w] by simp
  qed
qed simp

text \<open>With the inner mutex held.\<close>

definition held_quietly :: "'a conn_scheme \<Rightarrow> 'a conn_scheme \<Rightarrow> bool" where
  "held_quietly c c' \<longleftrightarrow> (\<exists>s. wire c' = wire c @ s) \<and>
     (writeErr c \<noteq> None \<longrightarrow> writeErr c' = writeErr c \<and> wire c' = wire c) \<and>
     writeMu c' = writeMu c \<and> writer c' = writer c \<and> conn.more c' = conn.more c \<and> read_side c' = read_side c \<and>
     netClosed c' = netClosed c \<and> latched (netScript c) (netScript c') (writeErr c') \<and>
     write_side c' = write_side c"

lemma writeHeld_quietly:
  assumes "writeHeld t d p q c = (e, c')"
  shows "held_quietly c c'"
proof (cases "writeErr c")
  case (Some x)
  then show ?thesis using assms by (auto simp: writeHeld_def held_quietly_def)
next
  case None
  obtain e1 c1 where sd: "netSetWriteDeadline d c = (e1, c1)" by fastforce
  note t1 = netSetWriteDeadline_touches [OF sd]
  show ?thesis
  proof (cases e1)
    case (Some x)
    then have "c' = writeFatal x c1" using assms None sd by (simp add: writeHeld_def)
    moreover have "latched (netScript c) (netScript c1) (writeErr (writeFatal x c1))"
      by (rule latched_mono [OF net_latched(2) [OF sd]]) simp
    ultimately show ?thesis using t1 None by (simp add: held_quietly_def touches_def)
  next
    case n1: None
    obtain e2 c2 where w: "(if length q = 0 then netWrite p c1 else writeBufs [p, q] c1) = (e2, c2)" by fastforce
    have t2: "touches c1 c2"
      using w netWrite_touches [of p c1 e2 c2] writeBufs_touches [of "[p, q]" c1 e2 c2]
      by (auto split: if_splits)
    have "c' = (case e2 of Some x \<Rightarrow> writeFatal x c2
        | None \<Rightarrow> if t = CloseMessage then writeFatal ErrCloseSent c2 else c2)"
      using assms None sd n1 w by (cases e2) (auto simp: writeHeld_def)
    then have le: "e2 \<noteq> None \<Longrightarrow> writeErr c' \<noteq> None" and "wire c' = wire c2" "writeMu c' = writeMu c2" "writer c' = writer c2"
      "conn.more c' = conn.more c2" "read_side c' = read_side c2" "netClosed c' = netClosed c2" "netScript c' = netScript c2"
      "write_side c' = write_side c2"
      by (cases e2; simp)+
    moreover have "latched (netScript c) (netScript c2) e2"
    proof (rule latched_trans [OF net_latched(2) [OF sd]])
      show "latched (netScript c1) (netScript c2) e2"
        using w net_latched(1) [of p c1 e2 c2] writeBufs_latched [of "[p, q]" c1 e2 c2] by (auto split: if_splits)
    qed (use n1 in simp)
    then have "latched (netScript c) (netScript c2) (writeErr c')" by (rule latched_mono) (rule le)
    ultimately show ?thesis using touches_trans [of c c1 c2] t1 t2 None by (auto simp: held_quietly_def touches_def)
  qed
qed

lemma held_quietly_mu:
  "held_quietly (c\<lparr>mu := False\<rparr>) c' \<Longrightarrow> quietly c (c'\<lparr>mu := True\<rparr>)"
  by (auto simp: held_quietly_def quietly_def grows_def)

lemma conn_write_quietly:
  assumes "conn_write t d p q c = Some (e, c')"
  shows "quietly c c'"
proof -
  obtain e1 c1 where w: "writeHeld t d p q (c\<lparr>mu := False\<rparr>) = (e1, c1)" by fastforce
  then have "c' = c1\<lparr>mu := True\<rparr>"
    using assms by (auto simp: conn_write_def acquireMu_def split: if_splits)
  then show ?thesis using held_quietly_mu [OF writeHeld_quietly [OF w]] by simp
qed

lemma quietly_idx [simp]:
  "quietly (c\<lparr>maskIdx := i\<rparr>) c' = quietly c c'" "quietly c (c'\<lparr>now := t\<rparr>) = quietly c c'"
  "quietly c (c\<lparr>maskIdx := i\<rparr>)"
  by (simp_all add: quietly_def grows_def)

text \<open>The part of \<open>WriteControl\<close> after the frame is built.\<close>

lemma control_tail_quietly:
  assumes "do { (err, c2) \<leftarrow> acquireMu d c;
      (case err of Some x \<Rightarrow> Some (Some x, c2)
       | None \<Rightarrow> (let (err', c3) = writeHeld t d buf [] c2 in Some (err', c3\<lparr>mu := True\<rparr>))) } = Some (e, c')"
  shows "quietly c c'"
proof -
  obtain e1 c2 where a: "acquireMu d c = Some (e1, c2)"
    and r: "(case e1 of Some x \<Rightarrow> Some (Some x, c2)
       | None \<Rightarrow> (let (err', c3) = writeHeld t d buf [] c2 in Some (err', c3\<lparr>mu := True\<rparr>))) = Some (e, c')"
    using assms by (auto split: Option.bind_splits)
  show ?thesis
  proof (cases e1)
    case (Some x)
    then have "c' = c2" using r by simp
    moreover have "c2 = c \<or> (\<exists>t. c2 = c\<lparr>now := t\<rparr>)"
      using a Some by (auto simp: acquireMu_def split: option.splits if_splits)
    ultimately show ?thesis by auto
  next
    case None
    then have c2: "c2 = c\<lparr>mu := False\<rparr>"
      using a by (auto simp: acquireMu_def errWriteTimeout_def split: option.splits if_splits)
    obtain e3 c3 where w: "writeHeld t d buf [] c2 = (e3, c3)" by fastforce
    then have "c' = c3\<lparr>mu := True\<rparr>" using r None by simp
    then show ?thesis using held_quietly_mu writeHeld_quietly [OF w] c2 by blast
  qed
qed

lemma WriteControl_quietly:
  assumes "WriteControl t data d c = Some (e, c')"
  shows "quietly c c'"
proof (cases "isControl t \<and> length data \<le> maxControlFramePayloadSize")
  case False
  then show ?thesis using assms by (auto simp: WriteControl_def split: if_splits)
next
  case True
  then have nc: "\<not> \<not> isControl t" "\<not> maxControlFramePayloadSize < length data" by simp_all
  show ?thesis
    using assms control_tail_quietly [of d "c\<lparr>maskIdx := Suc (maskIdx c)\<rparr>" t _ e c']
      control_tail_quietly [of d c t _ e c']
    unfolding WriteControl_def if_not_P [OF nc(1)] if_not_P [OF nc(2)] Let_def newMaskKey_def
    by (cases "maskFrames c") simp_all
qed

section \<open>What latches an error\<close>

text \<open>The result of writing a frame: a close frame that is sent leaves ErrCloseSent; an error is the write error
  from then on, unless it came before anything was tried.\<close>

definition latches :: "int \<Rightarrow> 'a conn_scheme \<Rightarrow> (gerror option \<times> 'a conn_scheme) option \<Rightarrow> bool" where
  "latches t c r \<longleftrightarrow>
     (\<forall>e c'. r = Some (e, c') \<longrightarrow>
       (case e of
          None \<Rightarrow> writeErr c = None \<and> (t = CloseMessage \<longrightarrow> writeErr c' = Some ErrCloseSent)
        | Some x \<Rightarrow> writeErr c' = Some x \<or> wire c' = wire c \<and> netScript c' = netScript c \<and> writeErr c' = writeErr c))"

lemma writeHeld_latches:
  assumes "writeHeld t d p q c = (e, c')"
  shows "case e of
      None \<Rightarrow> writeErr c = None \<and> (t = CloseMessage \<longrightarrow> writeErr c' = Some ErrCloseSent)
    | Some x \<Rightarrow> writeErr c' = Some x"
proof (cases "writeErr c")
  case None
  obtain e1 c1 where sd: "netSetWriteDeadline d c = (e1, c1)" by fastforce
  obtain e2 c2 where w: "(if length q = 0 then netWrite p c1 else writeBufs [p, q] c1) = (e2, c2)" by fastforce
  have "touches c c1" "touches c1 c2"
    using netSetWriteDeadline_touches [OF sd] w netWrite_touches [of p c1 e2 c2] writeBufs_touches [of "[p, q]" c1 e2 c2]
    by (auto split: if_splits)
  then have "writeErr c1 = None" "writeErr c2 = None" using None by (simp_all add: touches_def)
  then show ?thesis using assms None sd w
    by (cases e1; cases e2) (auto simp: writeHeld_def writeFatal_def)
next
  case (Some x)
  then have "e = Some x" "c' = c" using assms by (simp_all add: writeHeld_def)
  then show ?thesis using Some by simp
qed

lemma conn_write_latches: "latches t c (conn_write t d p q c)"
proof (cases "mu c")
  case True
  obtain e c1 where w: "writeHeld t d p q (c\<lparr>mu := False\<rparr>) = (e, c1)" by fastforce
  then have "conn_write t d p q c = Some (e, c1\<lparr>mu := True\<rparr>)" using True by (simp add: conn_write_def acquireMu_def)
  then show ?thesis using writeHeld_latches [OF w] by (cases e) (simp_all add: latches_def)
qed (simp add: conn_write_def acquireMu_def latches_def)

lemma control_tail_latches:
  assumes "wire c = wire c0" and "netScript c = netScript c0" and "writeErr c = writeErr c0"
  shows "latches t c0 (do { (err, c2) \<leftarrow> acquireMu d c;
      (case err of Some x \<Rightarrow> Some (Some x, c2)
       | None \<Rightarrow> (let (err', c3) = writeHeld t d buf [] c2 in Some (err', c3\<lparr>mu := True\<rparr>))) })"
  unfolding latches_def
proof (intro allI impI)
  fix e c'
  assume r: "do { (err, c2) \<leftarrow> acquireMu d c;
      (case err of Some x \<Rightarrow> Some (Some x, c2)
       | None \<Rightarrow> (let (err', c3) = writeHeld t d buf [] c2 in Some (err', c3\<lparr>mu := True\<rparr>))) } = Some (e, c')"
  obtain e1 c2 where a: "acquireMu d c = Some (e1, c2)" using r by (auto split: Option.bind_splits)
  have c2: "wire c2 = wire c0" "netScript c2 = netScript c0" "writeErr c2 = writeErr c0"
    using a assms by (auto simp: acquireMu_def split: option.splits if_splits)
  show "case e of None \<Rightarrow> writeErr c0 = None \<and> (t = CloseMessage \<longrightarrow> writeErr c' = Some ErrCloseSent)
    | Some x \<Rightarrow> writeErr c' = Some x \<or> wire c' = wire c0 \<and> netScript c' = netScript c0 \<and> writeErr c' = writeErr c0"
  proof (cases e1)
    case None
    obtain e3 c3 where w: "writeHeld t d buf [] c2 = (e3, c3)" by fastforce
    then have "e = e3" "c' = c3\<lparr>mu := True\<rparr>" using r a None by simp_all
    with writeHeld_latches [OF w] c2 show ?thesis by (cases e3) simp_all
  next
    case (Some x)
    then show ?thesis using r a c2 by auto
  qed
qed

lemma WriteControl_latches: "latches t c (WriteControl t p d c)"
proof (cases "isControl t \<and> length p \<le> maxControlFramePayloadSize")
  case False
  then show ?thesis by (auto simp: WriteControl_def latches_def split: if_splits)
next
  case True
  then have nc: "\<not> \<not> isControl t" "\<not> maxControlFramePayloadSize < length p" by simp_all
  show ?thesis
    unfolding WriteControl_def if_not_P [OF nc(1)] if_not_P [OF nc(2)] Let_def newMaskKey_def
    by (cases "maskFrames c") (simp_all add: control_tail_latches [unfolded Let_def])
qed

section \<open>Message writers\<close>

text \<open>A step of a message writer: one that has ended does nothing to the lock; an open one either stays
  open with the lock held or ends and gives the lock back.\<close>

definition mw_step :: "(messageWriter \<times> 'z wconn) \<Rightarrow> (messageWriter \<times> 'z wconn) \<Rightarrow> bool" where
  "mw_step s s' \<longleftrightarrow> (case (s, s') of ((w, c), (w', c')) \<Rightarrow>
     grows c c' \<and> writers c' = writers c \<and> factory c' = factory c \<and>
     (werr w \<noteq> None \<longrightarrow> werr w' \<noteq> None \<and> writeMu c' = writeMu c \<and> writer c' = writer c) \<and>
     (werr w = None \<and> \<not> writeMu c \<longrightarrow>
        werr w' = None \<and> \<not> writeMu c' \<and> writer c' = writer c \<or> werr w' \<noteq> None \<and> writeMu c' \<and> writer c' = None))"

lemma mw_step_refl [simp]: "mw_step s s"
  by (cases s) (auto simp: mw_step_def)

lemma mw_step_trans: "mw_step a b \<Longrightarrow> mw_step b c \<Longrightarrow> mw_step a c"
  by (cases a; cases b; cases c) (auto simp: mw_step_def dest: grows_trans)

lemma mw_step_quietly: "quietly c c' \<Longrightarrow> werr w' = werr w \<Longrightarrow> mw_step (w, c) (w', c')"
  using quietly_writers [of c c'] by (auto simp: mw_step_def quietly_def)

lemma mw_step_buf [simp]:
  "mw_step s (w, c\<lparr>writeBuf := b\<rparr>) = mw_step s (w, c)"
  "mw_step s (w\<lparr>pos := p\<rparr>, c) = mw_step s (w, c)"
  "mw_step s (w\<lparr>compress := z\<rparr>, c) = mw_step s (w, c)"
  "mw_step s (w\<lparr>frameType := t\<rparr>, c) = mw_step s (w, c)"
  by (cases s; simp add: mw_step_def grows_def)+

lemma endMessage_step:
  assumes "endMessage err w c = Some (w', c')"
  shows "mw_step (w, c) (w', c') \<and> werr w' \<noteq> None"
proof (cases "werr w")
  case (Some x)
  then show ?thesis using assms by (simp add: endMessage_def)
next
  case None
  then have "\<not> writeMu c" "w' = w\<lparr>werr := Some err\<rparr>" "c' = after_end c"
    using assms by (auto simp: endMessage_def releaseWriteMu_def after_end_def Let_def split: if_splits)
  moreover have "writers (after_end c) = writers c" "factory (after_end c) = factory c" "netClosed (after_end c) = netClosed c"
    "netScript (after_end c) = netScript c"
    by (simp_all add: after_end_def Let_def)
  ultimately show ?thesis using None by (simp add: mw_step_def grows_def)
qed

lemma buildFrame_quietly:
  assumes "buildFrame final len w c = (p, b, c')"
  shows "quietly c c'"
proof -
  obtain fp hdr where h: "frameHeader
      (of_int (frameType w) OR (if final then finalBit else 0) OR (if compress w then rsv1Bit else 0))
      (if maskFrames c then maskBit else 0) len (maskFrames c) = (fp, hdr)" by fastforce
  show ?thesis
    using assms unfolding buildFrame_def Let_def h split_conv newMaskKey_def
    by (cases "maskFrames c") auto
qed

lemma flushFrame_step:
  assumes "flushFrame final extra w c = Some (e, w', c')"
  shows "mw_step (w, c) (w', c')" and "final \<or> e \<noteq> None \<Longrightarrow> werr w' \<noteq> None"
proof -
  define len where "len = pos w - maxFrameHeaderSize + length extra"
  obtain fp buf c1 where b: "buildFrame final len w c = (fp, buf, c1)" by (metis prod_cases3)
  define w1 where "w1 = w\<lparr>compress := False\<rparr>"
  define c2 where "c2 = c1\<lparr>writeBuf := Some buf\<rparr>"
  have s2: "mw_step (w, c) (w1, c2)"
    using mw_step_quietly [OF buildFrame_quietly [OF b], of w w] by (simp add: w1_def c2_def)
  have "mw_step (w, c) (w', c') \<and> (final \<or> e \<noteq> None \<longrightarrow> werr w' \<noteq> None)"
  proof (cases "isControl (frameType w) \<and> (\<not> final \<or> len > maxControlFramePayloadSize)")
    case True
    then have "endMessage ErrInvalidControlFrame w c = Some (w', c')"
      using assms unfolding flushFrame_def len_def [symmetric] Let_def if_P [OF True]
      by (auto split: Option.bind_splits)
    then show ?thesis using endMessage_step by blast
  next
    case ctl: False
    note u = flushFrame_def len_def [symmetric] Let_def if_not_P [OF ctl] b split_conv
      w1_def [symmetric] c2_def [symmetric]
    show ?thesis
    proof (cases "maskFrames c \<and> 0 < length extra")
      case True
      then have "endMessage errExtraClientMode w1 (writeFatal errExtraClientMode c2) = Some (w', c')"
        using assms unfolding u if_P [OF True] by (auto split: Option.bind_splits)
      from endMessage_step [OF this] have s: "mw_step (w1, writeFatal errExtraClientMode c2) (w', c')"
        and e: "werr w' \<noteq> None" by simp_all
      have "quietly c2 (writeFatal errExtraClientMode c2)" by (simp add: quietly_def grows_def)
      then show ?thesis using mw_step_trans [OF s2 mw_step_trans [OF mw_step_quietly s]] e by blast
    next
      case ex: False
      obtain e3 c3 where w: "conn_write (frameType w1) (writeDeadline c2) (slice fp (pos w1) buf) extra c2 = Some (e3, c3)"
        and r: "(case e3 of
             Some e \<Rightarrow> do { (w2, c4) \<leftarrow> endMessage e w1 c3; Some (Some e, w2, c4) }
           | None \<Rightarrow>
               if final then do { (w2, c4) \<leftarrow> endMessage ErrWriteClosed w1 c3; Some (None, w2, c4) }
               else Some (None, w1\<lparr>pos := maxFrameHeaderSize, frameType := continuationFrame\<rparr>, c3)) = Some (e, w', c')"
        using assms unfolding u if_not_P [OF ex] by (auto split: Option.bind_splits)
      have s3: "mw_step (w, c) (w1, c3)"
        using mw_step_trans [OF s2 mw_step_quietly [OF conn_write_quietly [OF w]]] by blast
      show ?thesis
      proof (cases "e3 = None \<and> \<not> final")
        case True
        then show ?thesis using r s3 by auto
      next
        case False
        then obtain x where "endMessage x w1 c3 = Some (w', c')"
          using r by (auto split: option.splits Option.bind_splits)
        then show ?thesis using endMessage_step mw_step_trans [OF s3] by blast
      qed
    qed
  qed
  then show "mw_step (w, c) (w', c')" and "final \<or> e \<noteq> None \<Longrightarrow> werr w' \<noteq> None" by blast+
qed

lemma ncopy_step:
  assumes "ncopy lim w c = Some (r, w', c')"
  shows "mw_step (w, c) (w', c')"
  using assms flushFrame_step(1) [of False "[]" w c]
  by (auto simp: ncopy_def Let_def split: Option.bind_splits option.splits if_splits)

lemma mwCopy_steps: "mwCopy p w c = Some y \<Longrightarrow> mw_step (w, c) (snd y)"
proof (erule mwCopy.raw_induct [rotated])
  fix mwc p w c y
  assume IH: "\<And>p w c y. mwc p w c = Some y \<Longrightarrow> mw_step (w, c) (snd y)"
    and b: "(if p = [] then Some (None, w, c)
      else Option.bind (ncopy (length p) w c) (\<lambda>((n, err), w1, c1).
             if err \<noteq> None then Some (err, w1, c1)
             else mwc (drop n p) (w1\<lparr>pos := pos w1 + n\<rparr>)
                    (c1\<lparr>writeBuf := Some (copy_at (pos w1) (take n p) (bufOf c1))\<rparr>))) = Some y"
  show "mw_step (w, c) (snd y)"
  proof (cases "p = []")
    case True
    then show ?thesis using b by auto
  next
    case False
    then obtain n e1 w1 c1 where n: "ncopy (length p) w c = Some ((n, e1), w1, c1)"
      and r: "(if e1 \<noteq> None then Some (e1, w1, c1)
             else mwc (drop n p) (w1\<lparr>pos := pos w1 + n\<rparr>)
                    (c1\<lparr>writeBuf := Some (copy_at (pos w1) (take n p) (bufOf c1))\<rparr>)) = Some y"
      using b by (auto split: Option.bind_splits)
    have s: "mw_step (w, c) (w1, c1)" by (rule ncopy_step [OF n])
    show ?thesis
    proof (cases e1)
      case (Some x)
      then show ?thesis using r s by auto
    next
      case None
      then have "mw_step (w1\<lparr>pos := pos w1 + n\<rparr>,
          c1\<lparr>writeBuf := Some (copy_at (pos w1) (take n p) (bufOf c1))\<rparr>) (snd y)"
        using IH r by simp
      then show ?thesis by (rule mw_step_trans [rotated]) (use s in simp)
    qed
  qed
qed

lemma mwCopy_step: "mwCopy p w c = Some (e, w', c') \<Longrightarrow> mw_step (w, c) (w', c')"
  by (drule mwCopy_steps) simp

lemma mwReadFrom_steps: "mwReadFrom_loop nn r w c = Some y \<Longrightarrow> mw_step (w, c) (snd (snd y))"
proof (erule mwReadFrom_loop.raw_induct [rotated])
  fix rl nn r w c y
  assume IH: "\<And>nn r w c y. rl nn r w c = Some y \<Longrightarrow> mw_step (w, c) (snd (snd y))"
    and b: "Option.bind (if payloadRoom w c = 0 then flushFrame False [] w c else Some (None, w, c))
       (\<lambda>(err, w1, c1).
          if err \<noteq> None then Some ((nn, err), r, w1, c1)
          else
            let (d, e, r1) = srcRead (payloadRoom w1 c1) r;
                c2 = c1\<lparr>writeBuf := Some (copy_at (pos w1) d (bufOf c1))\<rparr>;
                w2 = w1\<lparr>pos := pos w1 + length d\<rparr>
            in if e \<noteq> None then Some ((nn + length d, if e = Some IoEOF then None else e), r1, w2, c2)
               else rl (nn + length d) r1 w2 c2) = Some y"
  obtain e1 w1 c1 where f: "(if payloadRoom w c = 0 then flushFrame False [] w c else Some (None, w, c)) = Some (e1, w1, c1)"
    using b by (auto split: Option.bind_splits)
  have s: "mw_step (w, c) (w1, c1)"
    using f flushFrame_step(1) [of False "[]" w c e1 w1 c1] by (auto split: if_splits)
  show "mw_step (w, c) (snd (snd y))"
  proof (cases e1)
    case (Some x)
    then show ?thesis using b f s by auto
  next
    case None
    obtain d e r1 where rd: "srcRead (payloadRoom w1 c1) r = (d, e, r1)" by (metis prod_cases3)
    define c2 where "c2 = c1\<lparr>writeBuf := Some (copy_at (pos w1) d (bufOf c1))\<rparr>"
    define w2 where "w2 = w1\<lparr>pos := pos w1 + length d\<rparr>"
    have s2: "mw_step (w, c) (w2, c2)" using s by (simp add: w2_def c2_def)
    have "(if e \<noteq> None then Some ((nn + length d, if e = Some IoEOF then None else e), r1, w2, c2)
               else rl (nn + length d) r1 w2 c2) = Some y"
      using b unfolding f w2_def c2_def by (simp add: None rd Let_def)
    then show ?thesis using s2 IH mw_step_trans [OF s2] by (auto split: if_splits)
  qed
qed

lemma mwWrite_step: "mwWrite p w c = Some (r, w', c') \<Longrightarrow> mw_step (w, c) (w', c')"
  using flushFrame_step(1) [of False p w c] mwCopy_step [of p w c]
  by (auto simp: mwWrite_def split: Option.bind_splits if_splits)

lemma mwWriteString_step: "mwWriteString p w c = Some (r, w', c') \<Longrightarrow> mw_step (w, c) (w', c')"
  using mwCopy_step [of "bytes_of_string p" w c]
  by (auto simp: mwWriteString_def split: Option.bind_splits if_splits)

lemma mwReadFrom_step: "mwReadFrom src w c = Some (r, src', w', c') \<Longrightarrow> mw_step (w, c) (w', c')"
  using mwReadFrom_steps [of 0 src w c] by (fastforce simp: mwReadFrom_def split: if_splits)

lemma mwClose_step:
  "mwClose w c = Some (e, w', c') \<Longrightarrow> mw_step (w, c) (w', c')"
  "mwClose w c = Some (e, w', c') \<Longrightarrow> werr w' \<noteq> None"
proof -
  assume a: "mwClose w c = Some (e, w', c')"
  have "mw_step (w, c) (w', c') \<and> werr w' \<noteq> None"
  proof (cases "werr w")
    case None
    then have "flushFrame True [] w c = Some (e, w', c')" using a by (simp add: mwClose_def)
    then show ?thesis using flushFrame_step by blast
  next
    case (Some x)
    then have "w' = w" "c' = c" using a by (simp_all add: mwClose_def)
    then show ?thesis using Some by simp
  qed
  then show "mw_step (w, c) (w', c')" "werr w' \<noteq> None" by simp_all
qed

section \<open>The compressor\<close>

text \<open>Whatever relation the writes of a destination respect, the compressor's do.\<close>

locale stepping_sink =
  fixes put :: "'s sink" and step :: "'s \<Rightarrow> 's \<Rightarrow> bool"
  assumes put_step: "put p s = Some (r, s') \<Longrightarrow> step s s'"
    and step_refl: "step s s"
    and step_trans: "step s s1 \<Longrightarrow> step s1 s2 \<Longrightarrow> step s s2"

context stepping_sink
begin

lemma truncWrite_step:
  assumes "truncWrite put p t s = Some (r, t', s')"
  shows "step s s'"
proof -
  obtain n t1 where f: "truncFill p t = (n, t1)" by fastforce
  show ?thesis
    using assms unfolding truncWrite_def Let_def f split_conv
    by (auto split: if_splits Option.bind_splits intro: step_refl dest!: put_step intro: step_trans)
qed

lemma feed_step: "feed put ps t s = Some (e, t', s') \<Longrightarrow> step s s'"
proof (induction ps arbitrary: t s)
  case Nil
  then show ?case by (simp add: step_refl)
next
  case (Cons p ps)
  obtain n e1 t1 s1 where t: "truncWrite put p t s = Some ((n, e1), t1, s1)"
    and r: "(if e1 \<noteq> None then Some (e1, t1, s1) else feed put ps t1 s1) = Some (e, t', s')"
    using Cons.prems by (auto split: Option.bind_splits)
  have "s' = s1 \<or> step s1 s'" using r Cons.IH [of t1 s1] by (auto split: if_splits)
  then show ?case using truncWrite_step [OF t] step_trans by blast
qed

lemma flateWrite_step: "flateWrite ops put p f s = Some (r, f', s') \<Longrightarrow> step s s'"
  by (auto simp: flateWrite_def split_beta split: if_splits Option.bind_splits intro: step_refl feed_step)

lemma flateFlush_step: "flateFlush ops put f s = Some (e, f', s') \<Longrightarrow> step s s'"
  by (auto simp: flateFlush_def split_beta split: if_splits Option.bind_splits intro: step_refl feed_step)

lemma flateClose_step:
  assumes "flateClose ops put cls f s = Some (e, f', s')" and "\<And>s e s'. cls s = Some (e, s') \<Longrightarrow> step s s'"
  shows "step s s'"
  using assms(1)
  by (auto simp: flateClose_def split: if_splits Option.bind_splits dest!: flateFlush_step assms(2)
      intro: step_trans)

end

interpretation ss: stepping_sink mwPut "mw_step :: (messageWriter \<times> 'z wconn) \<Rightarrow> _"
proof unfold_locales
  fix p r and s s' :: "messageWriter \<times> 'z wconn"
  assume "mwPut p s = Some (r, s')"
  then show "mw_step s s'"
    by (cases s; cases s') (auto simp: mwPut_def split: Option.bind_splits intro: mwWrite_step)
qed (auto intro: mw_step_trans)

lemma mwCls_step: "mwCls s = Some (e, s') \<Longrightarrow> mw_step s s'"
  by (cases s; cases s') (auto simp: mwCls_def intro: mwClose_step(1))

section \<open>The write lock and the open writer\<close>

text \<open>The lock is free and no writer is open, or it is held and exactly one is, the current one.\<close>

definition ended :: "'z wconn \<Rightarrow> nat \<Rightarrow> bool" where
  "ended c i \<longleftrightarrow> werr (mw (writers c ! i)) \<noteq> None"

definition lock_inv :: "'z wconn \<Rightarrow> bool" where
  "lock_inv c \<longleftrightarrow>
     (if writeMu c then writer c = None \<and> list_all (ended c) [0..<length (writers c)]
      else \<exists>j<length (writers c). writer c = Some j \<and> \<not> ended c j \<and>
        list_all (\<lambda>i. i \<noteq> j \<longrightarrow> ended c i) [0..<length (writers c)]) \<and>
     (factory c \<noteq> None \<longrightarrow> snd (the (factory c)) < length (writers c))"

text \<open>What an operation on a writer, or a control frame, keeps.\<close>

definition keeps :: "'z wconn \<Rightarrow> 'z wconn \<Rightarrow> bool" where
  "keeps c c' \<longleftrightarrow> grows c c' \<and> length (writers c') = length (writers c) \<and> lock_inv c'"

lemma keeps_refl: "lock_inv c \<Longrightarrow> keeps c c"
  by (simp add: keeps_def)

lemma keeps_trans: "keeps a b \<Longrightarrow> keeps b c \<Longrightarrow> keeps a c"
  by (auto simp: keeps_def dest: grows_trans)

lemma set_fields [simp]:
  "writeMu (set_mw i w c) = writeMu c" "writer (set_mw i w c) = writer c"
  "writeMu (set_comp i x c) = writeMu c" "writer (set_comp i x c) = writer c"
  "writeMu (set_utf8 i u c) = writeMu c" "writer (set_utf8 i u c) = writer c"
  "length (writers (set_utf8 i u c)) = length (writers c)"
  by (simp_all add: set_mw_def set_comp_def set_utf8_def)

lemma mw_list_update [simp]:
  "mw (xs[i := (xs ! i)\<lparr>comp := x\<rparr>] ! k) = mw (xs ! k)"
  "mw (xs[i := (xs ! i)\<lparr>utf8 := u\<rparr>] ! k) = mw (xs ! k)"
proof -
  show "mw (xs[i := (xs ! i)\<lparr>comp := x\<rparr>] ! k) = mw (xs ! k)"
    by (cases "i < length xs") (auto simp: nth_list_update list_update_beyond)
  show "mw (xs[i := (xs ! i)\<lparr>utf8 := u\<rparr>] ! k) = mw (xs ! k)"
    by (cases "i < length xs") (auto simp: nth_list_update list_update_beyond)
qed

lemma ended_set [simp]:
  "ended (set_comp i x c) = ended c" "ended (set_utf8 i u c) = ended c"
  "ended (c\<lparr>factory := y\<rparr>) = ended c"
  by (simp_all add: fun_eq_iff ended_def set_comp_def set_utf8_def)

lemma ended_set_mw:
  "i < length (writers c) \<Longrightarrow> ended (set_mw i w c) k = (if k = i then werr w \<noteq> None else ended c k)"
  by (auto simp: ended_def set_mw_def)

lemma lock_inv_upd [simp]:
  "lock_inv (set_comp i x c) = lock_inv c" "lock_inv (set_utf8 i u c) = lock_inv c"
  by (simp_all add: lock_inv_def)

lemma lock_inv_factory: "d < length (writers c) \<Longrightarrow> lock_inv c \<Longrightarrow> lock_inv (c\<lparr>factory := Some (f, d)\<rparr>)"
  by (simp add: lock_inv_def)

lemma grows_upd [simp]:
  "grows c (set_comp i x c') = grows c c'" "grows c (set_utf8 i u c') = grows c c'"
  "grows c (set_mw i w c') = grows c c'" "grows c (c'\<lparr>factory := y\<rparr>) = grows c c'"
  by (simp_all add: grows_def set_mw_def set_comp_def set_utf8_def)

text \<open>A step of the message writer of writer \<open>i\<close>, stored back.\<close>

lemma step_keeps:
  assumes s: "mw_step (mw (writers c ! i), c) (w', c')" and i: "i < length (writers c)" and l: "lock_inv c"
  shows "keeps c (set_mw i w' c')"
proof -
  have f: "grows c c'" "writers c' = writers c" "factory c' = factory c" using s by (auto simp: mw_step_def)
  have e: "ended (set_mw i w' c') k = (if k = i then werr w' \<noteq> None else ended c k)" for k
    using i f ended_set_mw [of i c' w' k] by (simp add: ended_def)
  have fac: "factory c \<noteq> None \<longrightarrow> snd (the (factory c)) < length (writers c)"
    using l by (simp add: lock_inv_def)
  have "lock_inv (set_mw i w' c')"
  proof (cases "ended c i")
    case True
    then have w': "werr w' \<noteq> None" "writeMu c' = writeMu c" "writer c' = writer c"
      using s by (auto simp: mw_step_def ended_def)
    then have "ended (set_mw i w' c') = ended c" using e True by (simp add: fun_eq_iff)
    then show ?thesis using l w' f by (simp add: lock_inv_def)
  next
    case False
    then have mu: "\<not> writeMu c" using l i by (auto simp: lock_inv_def list_all_iff split: if_splits)
    then obtain j where j: "writer c = Some j" "\<And>k. k < length (writers c) \<Longrightarrow> k \<noteq> j \<Longrightarrow> ended c k"
      using l by (auto simp: lock_inv_def list_all_iff)
    then have "j = i" using False i by blast
    then have others: "k < length (writers c) \<Longrightarrow> k \<noteq> i \<Longrightarrow> ended c k" and wr: "writer c = Some i" for k
      using j by simp_all
    have "werr w' = None \<and> \<not> writeMu c' \<and> writer c' = writer c \<or> werr w' \<noteq> None \<and> writeMu c' \<and> writer c' = None"
      using s mu False by (auto simp: mw_step_def ended_def)
    then show ?thesis
    proof (elim disjE conjE)
      assume "werr w' = None" "\<not> writeMu c'" "writer c' = writer c"
      then show ?thesis using others wr i e f fac by (auto simp: lock_inv_def list_all_iff)
    next
      assume "werr w' \<noteq> None" "writeMu c'" "writer c' = None"
      then show ?thesis using others e f fac by (auto simp: lock_inv_def list_all_iff)
    qed
  qed
  then show ?thesis using f by (simp add: keeps_def)
qed

lemma keeps_upd [simp]:
  "keeps c (set_comp i x c') = keeps c c'" "keeps c (set_utf8 i u c') = keeps c c'"
  "keeps (set_utf8 i u c) c' = keeps c c'"
  by (simp_all add: keeps_def) (simp add: grows_def set_utf8_def)

lemma keeps_factory: "keeps c c' \<Longrightarrow> d < length (writers c) \<Longrightarrow> keeps c (c'\<lparr>factory := Some (f, d)\<rparr>)"
  using lock_inv_factory [of d c' f] by (simp add: keeps_def)

lemma factory_index: "lock_inv c \<Longrightarrow> factory c = Some (f, d) \<Longrightarrow> d < length (writers c)"
  by (simp add: lock_inv_def)

lemma compWrite_keeps:
  assumes "compWrite ops i p c = Some (r, c')" and i: "i < length (writers c)" and l: "lock_inv c"
  shows "keeps c c'"
proof (cases "comp (writers c ! i)")
  case NoComp
  then show ?thesis using assms(1) step_keeps [OF mwWrite_step i l]
    by (auto simp: compWrite_def split: Option.bind_splits)
next
  case (PoolComp opn f)
  then show ?thesis using assms(1) step_keeps [OF ss.flateWrite_step i l] keeps_refl [OF l]
    by (auto simp: compWrite_def split: Option.bind_splits if_splits)
next
  case (TakeComp opn)
  then show ?thesis
    using assms(1) keeps_refl [OF l] factory_index [OF l]
    by (auto simp: compWrite_def split: Option.bind_splits if_splits
        intro!: keeps_factory step_keeps [OF ss.flateWrite_step _ l])
qed

lemma compClose_keeps:
  assumes "compClose ops i c = Some (r, c')" and i: "i < length (writers c)" and l: "lock_inv c"
  shows "keeps c c'"
proof (cases "comp (writers c ! i)")
  case NoComp
  then show ?thesis using assms(1) step_keeps [OF mwClose_step(1) i l]
    by (auto simp: compClose_def split: Option.bind_splits)
next
  case (PoolComp opn f)
  then show ?thesis
    using assms(1) step_keeps [OF ss.flateClose_step [OF _ mwCls_step] i l] keeps_refl [OF l]
    by (auto simp: compClose_def split: Option.bind_splits if_splits)
next
  case (TakeComp opn)
  then show ?thesis
    using assms(1) keeps_refl [OF l] factory_index [OF l]
    by (auto simp: compClose_def split: Option.bind_splits if_splits
        intro!: keeps_factory step_keeps [OF ss.flateClose_step [OF _ mwCls_step] _ l])
qed

lemma pipeWrite_keeps:
  assumes "pipeWrite ops i p c = Some (r, c')" and i: "i < length (writers c)" and l: "lock_inv c"
  shows "keeps c c'"
  using assms(1) compWrite_keeps [OF _ i l] compWrite_keeps [of ops i p "set_utf8 i u c" r c' for u] i l
  by (auto simp: pipeWrite_def keeps_refl split: option.splits if_splits prod.splits)

lemma pipeClose_keeps:
  assumes "pipeClose ops i c = Some (r, c')" and i: "i < length (writers c)" and l: "lock_inv c"
  shows "keeps c c'"
  using assms(1) compClose_keeps [OF _ i l] compClose_keeps [of ops i "set_utf8 i u c" _ c' for u] i l
  by (auto simp: pipeClose_def split: option.splits if_splits Option.bind_splits)

section \<open>Beginning a message\<close>

lemma acquire_cases:
  assumes "acquireWriteMu d c = Some (e, c1)"
  shows "e = None \<and> writeMu c \<and> c1 = c\<lparr>writeMu := False\<rparr> \<or> e \<noteq> None \<and> (c1 = c \<or> (\<exists>t. c1 = c\<lparr>now := t\<rparr>))"
  using assms by (auto simp: acquireWriteMu_def errWriteTimeout_def split: option.splits if_splits)

lemma ended_writers: "writers c' = writers c \<Longrightarrow> ended c' = ended c"
  by (simp add: fun_eq_iff ended_def)

lemma ended_fields [simp]: "ended (c\<lparr>now := t\<rparr>) = ended c" "ended (c\<lparr>writeMu := b\<rparr>) = ended c"
  by (rule ended_writers, simp)+

lemma lock_inv_now [simp]: "lock_inv (c\<lparr>now := t\<rparr>) = lock_inv c"
  by (simp add: lock_inv_def)

lemma grows_fields [simp]:
  "grows c (c'\<lparr>now := t\<rparr>) = grows c c'" "grows c (c'\<lparr>writeMu := b\<rparr>) = grows c c'"
  "grows c (c'\<lparr>writeBuf := x\<rparr>) = grows c c'"
  by (simp_all add: grows_def)

text \<open>With the lock free no writer is left to close.\<close>

lemma free_writer: "lock_inv c \<Longrightarrow> writeMu c \<Longrightarrow> writer c = None"
  by (simp add: lock_inv_def)

lemma beginMessage'_fields:
  assumes "beginMessage' t c = (e, w, c')"
  shows "werr w = None" "grows c c'" "writeMu c' = writeMu c" "writer c' = writer c"
    "writers c' = writers c" "factory c' = factory c"
  using assms
  by (auto simp: beginMessage'_def newMessageWriter_def grows_def Let_def split: if_splits option.splits list.splits)

text \<open>The lock is held and nothing is open: between taking the lock and giving a writer out.\<close>

definition in_between :: "'z wconn \<Rightarrow> bool" where
  "in_between c \<longleftrightarrow> \<not> writeMu c \<and> writer c = None \<and> list_all (ended c) [0..<length (writers c)] \<and>
     (factory c \<noteq> None \<longrightarrow> snd (the (factory c)) < length (writers c))"

lemma acquired: "lock_inv c \<Longrightarrow> writeMu c \<Longrightarrow> in_between (c\<lparr>writeMu := False\<rparr>)"
  by (simp add: lock_inv_def in_between_def)

lemma released: "in_between c \<Longrightarrow> lock_inv (c\<lparr>writeMu := True\<rparr>)"
  by (simp add: lock_inv_def in_between_def)

lemma in_between_cong:
  "in_between c \<Longrightarrow> writeMu c' = writeMu c \<Longrightarrow> writer c' = writer c \<Longrightarrow> writers c' = writers c \<Longrightarrow>
   factory c' = factory c \<Longrightarrow> in_between c'"
  by (simp add: in_between_def ended_writers [of c' c])

lemma beginMessage_between:
  assumes "beginMessage ops t c = Some (e, w, c')" and "in_between c"
  shows "werr w = None" "grows c c'" "in_between c'" "writers c' = writers c"
proof -
  have "beginMessage' t c = (e, w, c')" using assms by (simp add: beginMessage_def in_between_def)
  note f = beginMessage'_fields [OF this]
  show "werr w = None" "grows c c'" "in_between c'" "writers c' = writers c"
    using f in_between_cong [OF assms(2), of c'] by simp_all
qed

lemma release_between:
  "in_between c \<Longrightarrow> releaseWriteMu c = Some (c\<lparr>writeMu := True\<rparr>)"
  by (simp add: releaseWriteMu_def in_between_def)

lemma newCompWrapper_fields:
  assumes "newCompWrapper ops i c = (k, c')"
  shows "writers c' = writers c" "writer c' = writer c" "writeMu c' = writeMu c" "grows c c'"
    "factory c' = factory c \<or> (\<exists>f. factory c' = Some (f, i))"
  using assms by (auto simp: newCompWrapper_def Let_def grows_def split: comp_fn.splits)

lemma NextWriter_keeps:
  assumes "NextWriter ops t c = Some (r, c')" and l: "lock_inv c"
  shows "grows c c' \<and> lock_inv c'"
proof -
  obtain e1 c1 where a: "acquireWriteMu (writeDeadline c) c = Some (e1, c1)"
    using assms(1) by (auto simp: NextWriter_def split: Option.bind_splits)
  show ?thesis
  proof (cases e1)
    case (Some x)
    then have "c' = c1" using assms(1) a by (simp add: NextWriter_def)
    then show ?thesis using acquire_cases [OF a] Some l by auto
  next
    case None
    then have c1: "writeMu c" "c1 = c\<lparr>writeMu := False\<rparr>" using acquire_cases [OF a] by auto
    have b1: "in_between c1" using acquired [OF l] c1 by simp
    have g1: "grows c c1" using c1 by simp
    obtain e2 w c2 where b: "beginMessage ops t c1 = Some (e2, w, c2)"
      using assms(1) a None by (auto simp: NextWriter_def split: Option.bind_splits)
    note b2 = beginMessage_between [OF b b1]
    have g2: "grows c c2" using grows_trans [OF g1 b2(2)] .
    show ?thesis
    proof (cases e2)
      case (Some x)
      then have "c' = c2\<lparr>writeMu := True\<rparr>"
        using assms(1) a None b release_between [OF b2(3)] by (simp add: NextWriter_def)
      then show ?thesis using released [OF b2(3)] g2 by simp
    next
      case n2: None
      define i where "i = length (writers c2)"
      obtain z c3 where z: "(if compressing t c2 then newCompWrapper ops i c2 else (NoComp, c2)) = (z, c3)"
        by fastforce
      define u where "u = (if validating t c2
        then Some \<lparr>uwState = utf8Accept, uwCodepoint = 0, uwFailed = False\<rparr> else None)"
      have c': "c' = c3\<lparr>writer := Some i,
          writers := writers c3 @ [\<lparr>mw = w\<lparr>compress := compressing t c2\<rparr>, comp = z, utf8 = u\<rparr>]\<rparr>"
        using assms(1) a None b n2 z
        by (cases "compressing t c2") (auto simp: NextWriter_def Let_def i_def [symmetric] u_def [symmetric])
      have c3: "writers c3 = writers c2" "writeMu c3 = writeMu c2" "grows c2 c3"
        "factory c3 = factory c2 \<or> (\<exists>f. factory c3 = Some (f, i))"
        using z newCompWrapper_fields [of ops i c2 z c3] by (auto split: if_splits)
      have e: "ended c' k = (if k = i then False else ended c2 k)" if "k \<le> i" for k
        using that b2(1) c3 by (auto simp: ended_def c' i_def nth_append)
      have "lock_inv c'"
        using b2(3) c3 e by (auto simp: lock_inv_def in_between_def c' i_def list_all_iff)
      moreover have "grows c c'" using grows_trans [OF g2 c3(3)] by (simp add: c' grows_def)
      ultimately show ?thesis by simp
    qed
  qed
qed

lemma fastMessage_keeps:
  assumes "fastMessage ops t data c = Some (r, c')" and l: "lock_inv c"
  shows "grows c c' \<and> lock_inv c'"
proof -
  obtain e1 c1 where a: "acquireWriteMu (writeDeadline c) c = Some (e1, c1)"
    using assms(1) by (auto simp: fastMessage_def split: Option.bind_splits)
  show ?thesis
  proof (cases e1)
    case (Some x)
    then have "c' = c1" using assms(1) a by (simp add: fastMessage_def)
    then show ?thesis using acquire_cases [OF a] Some l by auto
  next
    case None
    then have c1: "writeMu c" "c1 = c\<lparr>writeMu := False\<rparr>" using acquire_cases [OF a] by auto
    have b1: "in_between c1" using acquired [OF l] c1 by simp
    have g1: "grows c c1" using c1 by simp
    obtain e2 w c2 where b: "beginMessage ops t c1 = Some (e2, w, c2)"
      using assms(1) a None by (auto simp: fastMessage_def split: Option.bind_splits)
    note b2 = beginMessage_between [OF b b1]
    have g2: "grows c c2" using grows_trans [OF g1 b2(2)] .
    show ?thesis
    proof (cases e2)
      case (Some x)
      then have "c' = c2\<lparr>writeMu := True\<rparr>"
        using assms(1) a None b release_between [OF b2(3)] by (simp add: fastMessage_def)
      then show ?thesis using released [OF b2(3)] g2 by simp
    next
      case n2: None
      define n where "n = min (length (bufOf c2) - pos w) (length data)"
      define c3 where "c3 = c2\<lparr>writeBuf := Some (copy_at (pos w) data (bufOf c2))\<rparr>"
      obtain w' where fl: "flushFrame True (drop n data) (w\<lparr>pos := pos w + n\<rparr>) c3 = Some (r, w', c')"
        using assms(1) a None b n2
        by (auto simp: fastMessage_def Let_def n_def c3_def split: Option.bind_splits)
      note s = flushFrame_step [OF fl]
      have w': "werr w' \<noteq> None" using s(2) by simp
      have "in_between c3" using in_between_cong [OF b2(3), of c3] by (simp add: c3_def)
      then have "lock_inv c'"
        using s(1) w' b2(1) by (auto simp: mw_step_def in_between_def lock_inv_def ended_def list_all_iff)
      moreover have "grows c c'"
        using s(1) grows_trans [OF g2] by (auto simp: mw_step_def c3_def grows_def)
      ultimately show ?thesis by simp
    qed
  qed
qed

lemma NextWriter_index:
  "NextWriter ops t c = Some (Inr i, c') \<Longrightarrow> i < length (writers c')"
  using newCompWrapper_fields(1) [of ops]
  by (auto simp: NextWriter_def Let_def split: Option.bind_splits option.splits prod.splits if_splits)

lemma WriteMessage_keeps:
  assumes "WriteMessage ops t data c = Some (r, c')" and l: "lock_inv c"
  shows "grows c c' \<and> lock_inv c'"
proof (cases "validating t c \<and> utf8DFAValidate data \<noteq> utf8Accept")
  case True
  then have "c' = c" using assms(1) by (simp add: WriteMessage_def)
  then show ?thesis using l by simp
next
  case v: False
  show ?thesis
  proof (cases "isServer c \<and> (newCompressionWriter c = NilFn \<or> \<not> enableWriteCompression c) \<and>
              (writeFrameSize c = 0 \<or> length data \<le> writeFrameSize c)")
    case True
    then show ?thesis using assms(1) v fastMessage_keeps [OF _ l]
      unfolding WriteMessage_def if_not_P [OF v] if_P [OF True] by blast
  next
    case False
    obtain w c1 where nw: "NextWriter ops t c = Some (w, c1)"
      using assms(1) unfolding WriteMessage_def if_not_P [OF v] if_not_P [OF False]
      by (auto split: Option.bind_splits)
    note k1 = NextWriter_keeps [OF nw l]
    show ?thesis
    proof (cases w)
      case (Inl e)
      then show ?thesis using assms(1) nw k1
        unfolding WriteMessage_def if_not_P [OF v] if_not_P [OF False] by simp
    next
      case (Inr i)
      obtain n e2 c2 where pw: "pipeWrite ops i data c1 = Some ((n, e2), c2)"
        using assms(1) nw Inr unfolding WriteMessage_def if_not_P [OF v] if_not_P [OF False]
        by (auto split: Option.bind_splits)
      have i: "i < length (writers c1)" using nw Inr NextWriter_index by blast
      have k2: "keeps c1 c2" by (rule pipeWrite_keeps [OF pw i]) (use k1 in simp)
      have "c' = c2 \<or> pipeClose ops i c2 = Some (r, c')"
        using assms(1) nw Inr pw unfolding WriteMessage_def if_not_P [OF v] if_not_P [OF False]
        by (auto split: option.splits)
      then have "keeps c1 c'"
      proof
        assume "pipeClose ops i c2 = Some (r, c')"
        then have "keeps c2 c'" by (rule pipeClose_keeps) (use k2 i in \<open>simp_all add: keeps_def\<close>)
        then show ?thesis using keeps_trans [OF k2] by blast
      qed (use k2 in simp)
      then show ?thesis using k1 grows_trans [of c c1 c'] by (simp add: keeps_def)
    qed
  qed
qed

lemma writePreparedFrame_keeps:
  assumes "writePreparedFrame t data c = Some (r, c')" and l: "lock_inv c"
  shows "grows c c' \<and> lock_inv c'"
proof -
  obtain e1 c1 where a: "acquireWriteMu (writeDeadline c) c = Some (e1, c1)"
    using assms(1) by (auto simp: writePreparedFrame_def split: Option.bind_splits)
  show ?thesis
  proof (cases e1)
    case (Some x)
    then have "c' = c1" using assms(1) a by (simp add: writePreparedFrame_def)
    then show ?thesis using acquire_cases [OF a] Some l by auto
  next
    case None
    then have c1: "writeMu c" "c1 = c\<lparr>writeMu := False\<rparr>" using acquire_cases [OF a] by auto
    have b1: "in_between c1" using acquired [OF l] c1 by simp
    obtain e2 c2 where w: "conn_write t (writeDeadline c) data [] c1 = Some (e2, c2)"
      using assms(1) a None by (auto simp: writePreparedFrame_def split: Option.bind_splits)
    note q = conn_write_quietly [OF w]
    have b2: "in_between c2" using in_between_cong [OF b1, of c2] q quietly_writers [OF q] by (simp add: quietly_def)
    have "c' = c2\<lparr>writeMu := True\<rparr>"
      using assms(1) a None w release_between [OF b2] by (simp add: writePreparedFrame_def)
    moreover have "grows c c2" using q c1 grows_trans [of c c1 c2] by (simp add: quietly_def)
    ultimately show ?thesis using released [OF b2] by simp
  qed
qed

section \<open>The application's operations\<close>

text \<open>One call of the write side's interface that returns, whatever its result, or time passing. The
  direct methods of the message writer are reached on a writer with no layer above it.\<close>

inductive app_step :: "'z flate_ops \<Rightarrow> 'z wconn \<Rightarrow> 'z wconn \<Rightarrow> bool" for ops where
  control: "WriteControl t data d c = Some (r, c') \<Longrightarrow> app_step ops c c'"
| new_writer: "NextWriter ops t c = Some (nw, c') \<Longrightarrow> app_step ops c c'"
| write_bytes: "i < length (writers c) \<Longrightarrow> pipeWrite ops i p c = Some (n, c') \<Longrightarrow> app_step ops c c'"
| write_string: "i < length (writers c) \<Longrightarrow> comp (writers c ! i) = NoComp \<Longrightarrow> utf8 (writers c ! i) = None \<Longrightarrow>
    mwWriteString s (mw (writers c ! i)) c = Some (n, w, c') \<Longrightarrow> app_step ops c (set_mw i w c')"
| read_from: "i < length (writers c) \<Longrightarrow> comp (writers c ! i) = NoComp \<Longrightarrow> utf8 (writers c ! i) = None \<Longrightarrow>
    mwReadFrom src (mw (writers c ! i)) c = Some (n, src', w, c') \<Longrightarrow> app_step ops c (set_mw i w c')"
| close_writer: "i < length (writers c) \<Longrightarrow> pipeClose ops i c = Some (r, c') \<Longrightarrow> app_step ops c c'"
| message: "WriteMessage ops t data c = Some (r, c') \<Longrightarrow> app_step ops c c'"
| prepared: "writePreparedFrame t data c = Some (r, c') \<Longrightarrow> app_step ops c c'"
| set_deadline: "app_step ops c (snd (SetWriteDeadline d c))"
| set_frame_size: "app_step ops c (SetWriteFrameSize n c)"
| set_compression: "app_step ops c (EnableWriteCompression b c)"
| set_level: "app_step ops c (snd (SetCompressionLevel l c))"
| tick: "now c \<le> t \<Longrightarrow> app_step ops c (c\<lparr>now := t\<rparr>)"

inductive_cases app_stepE: "app_step ops c c'"

lemma NextWriter_current:
  "NextWriter ops t c = Some (Inr i, c') \<Longrightarrow> writer c' = Some i"
  by (auto simp: NextWriter_def Let_def split: Option.bind_splits option.splits prod.splits if_splits)

lemma settings_keep:
  "lock_inv (c\<lparr>writeDeadline := d\<rparr>) = lock_inv c" "lock_inv (c\<lparr>writeFrameSize := n\<rparr>) = lock_inv c"
  "lock_inv (c\<lparr>enableWriteCompression := b\<rparr>) = lock_inv c" "lock_inv (c\<lparr>compressionLevel := l\<rparr>) = lock_inv c"
  "grows c (c\<lparr>writeDeadline := d\<rparr>)" "grows c (c\<lparr>writeFrameSize := n\<rparr>)"
  "grows c (c\<lparr>enableWriteCompression := b\<rparr>)" "grows c (c\<lparr>compressionLevel := l\<rparr>)"
  by (simp_all add: lock_inv_def ended_def[abs_def] grows_def)

lemma quietly_lock: "quietly c c' \<Longrightarrow> lock_inv c \<Longrightarrow> lock_inv c'"
  using ended_writers [of c' c] quietly_writers [of c c'] by (simp add: quietly_def lock_inv_def)

lemma app_step_keeps: "app_step ops c c' \<Longrightarrow> lock_inv c \<Longrightarrow> grows c c' \<and> lock_inv c'"
proof (induction rule: app_step.induct)
  case (control t data d c r c')
  note q = WriteControl_quietly [OF control(1)]
  show ?case using q quietly_lock [OF q control(2)] by (simp add: quietly_def)
next
  case (new_writer t c nw c')
  then show ?case using NextWriter_keeps by blast
next
  case (write_bytes i c p n c')
  then show ?case using pipeWrite_keeps [OF write_bytes(2,1)] by (simp add: keeps_def)
next
  case (write_string i c s n w c')
  then show ?case using step_keeps [OF mwWriteString_step [OF write_string(4)]] by (simp add: keeps_def)
next
  case (read_from i c src n src' w c')
  then show ?case using step_keeps [OF mwReadFrom_step [OF read_from(4)]] by (simp add: keeps_def)
next
  case (close_writer i c r c')
  then show ?case using pipeClose_keeps [OF close_writer(2,1)] by (simp add: keeps_def)
next
  case (message t data c r c')
  then show ?case using WriteMessage_keeps by blast
next
  case (prepared t data c r c')
  then show ?case using writePreparedFrame_keeps by blast
qed (simp_all add: SetWriteDeadline_def SetWriteFrameSize_def EnableWriteCompression_def
    SetCompressionLevel_def settings_keep)

lemma app_steps_keep:
  "(app_step ops)\<^sup>*\<^sup>* c c' \<Longrightarrow> lock_inv c \<Longrightarrow> grows c c' \<and> lock_inv c'"
  by (induction rule: rtranclp_induct) (auto dest: app_step_keeps grows_trans)

lemma new_mu [simp]: "mu (newWConn server rs ws pool br wbuf env)"
  by (simp add: new_conn_defs)

lemma new_lock_inv: "lock_inv (newWConn server rs ws pool br wbuf env)"
  by (simp add: lock_inv_def new_conn_defs)

text \<open>The inner mutex taken, a write returns.\<close>

lemma conn_write_total: "mu c \<Longrightarrow> \<exists>e c'. conn_write t d p q c = Some (e, c')"
  by (auto simp: conn_write_def acquireMu_def split: prod.split)

text \<open>The lock's invariant, written out.\<close>

lemma lock_inv_writers:
  assumes l: "lock_inv c" and m: "mu c"
  shows "(writeMu c \<longrightarrow> writer c = None \<and> (\<forall>i<length (writers c). werr (mw (writers c ! i)) \<noteq> None)) \<and>
    (\<not> writeMu c \<longrightarrow> (\<exists>j<length (writers c). writer c = Some j \<and>
      (\<forall>i<length (writers c). werr (mw (writers c ! i)) = None \<longleftrightarrow> i = j))) \<and> mu c"
proof (cases "writeMu c")
  case True
  then show ?thesis using l m by (auto simp: lock_inv_def ended_def list_all_iff)
next
  case False
  then obtain j where "j < length (writers c)" "writer c = Some j" "\<not> ended c j"
    and "\<forall>i<length (writers c). i \<noteq> j \<longrightarrow> ended c i"
    using l by (auto simp: lock_inv_def list_all_iff)
  then show ?thesis using False m unfolding ended_def by blast
qed

end
