(* ===== verification/ReadSafety.thy ===== *)
theory ReadSafety
  imports ReadReturns WriteSafety
begin

text \<open>
  What reads do to the write side of a connection, whatever the peer sends, whatever the network does and
  whatever they return: they send control frames, and nothing else. A relation between two states that
  holds when nothing of the write side changes, and over a control frame, holds over every read.
\<close>

section \<open>Relations that every read respects\<close>

text \<open>Everything a write works with, the wire included.\<close>

definition out_side where
  "out_side c = (write_side c, wire c, writeErr c, mu c, netScript c, netClosed c)"

definition steps_to :: "('s \<Rightarrow> 's \<Rightarrow> bool) \<Rightarrow> 's \<Rightarrow> ('r \<times> 's) option \<Rightarrow> bool" where
  "steps_to R s r \<longleftrightarrow> (\<forall>x s'. r = Some (x, s') \<longrightarrow> R s s')"

lemma steps_toD: "steps_to R s r \<Longrightarrow> r = Some (x, s') \<Longrightarrow> R s s'"
  by (simp add: steps_to_def)

lemma steps_to_Some [simp]: "steps_to R s (Some (x, s')) = R s s'" "steps_to R s None"
  by (simp_all add: steps_to_def)

text \<open>Handlers that respect the relation.\<close>

definition handlers_step :: "('s \<Rightarrow> 's \<Rightarrow> bool) \<Rightarrow> 's handlers \<Rightarrow> bool" where
  "handlers_step R h \<longleftrightarrow>
     (\<forall>code s c. steps_to R c (handleClose h code s c)) \<and> (\<forall>s c. steps_to R c (handlePing h s c)) \<and>
     (\<forall>s c. steps_to R c (handlePong h s c))"

text \<open>The values of the read side that the code relies on without a test: the state of the UTF-8 automaton is a row of
  its table, the position in the mask key one of its four bytes, no more than nothing is left of a frame,
  and the current readers are there.\<close>

definition read_typed :: "'d rconn \<Rightarrow> bool" where
  "read_typed c \<longleftrightarrow> readUTF8State c < 9 \<and> readMaskPos c < 4 \<and> 0 \<le> sint (readRemaining c) \<and>
     (\<forall>i. reader c = Some i \<longrightarrow> i < length (readers c)) \<and> (\<forall>i. messageReader c = Some i \<longrightarrow> i < length (readers c))"

text \<open>A step inside the read side.\<close>

definition small :: "'d rconn \<Rightarrow> 'd rconn \<Rightarrow> bool" where
  "small c c' \<longleftrightarrow> out_side c' = out_side c \<and> (read_typed c \<longrightarrow> read_typed c')"

lemma small_refl [simp]: "small c c"
  by (simp add: small_def)

lemma small_trans: "small a b \<Longrightarrow> small b c \<Longrightarrow> small a c"
  by (simp add: small_def)

lemma small_upd [simp]:
  "small c (c1\<lparr>rbuf := p, rerr := e, rin := s\<rparr>) = small c c1" "small c (c1\<lparr>readErr := x\<rparr>) = small c c1"
  "small c (c1\<lparr>rbuf := p\<rparr>) = small c c1"
  "small c (c1\<lparr>readErrCount := n\<rparr>) = small c c1" "small c (c1\<lparr>readFinal := b\<rparr>) = small c c1"
  "small c (c1\<lparr>readLength := l\<rparr>) = small c c1" "small c (c1\<lparr>readDecompress := b\<rparr>) = small c c1"
  "small c (c1\<lparr>readMaskKey := k\<rparr>) = small c c1" "small c (c1\<lparr>readUTF8Codepoint := u\<rparr>) = small c c1"
  "small c (c1\<lparr>netReadDeadline := t\<rparr>) = small c c1" "small c (c1\<lparr>now := y\<rparr>) = small c c1"
  "small c (c1\<lparr>readLimit := l\<rparr>) = small c c1" "small c (c1\<lparr>rfactory := f\<rparr>) = small c c1"
  "small c (c1\<lparr>rwindow := p\<rparr>) = small c c1"
  by (simp_all add: small_def out_side_def read_typed_def)

lemma small_set [simp]:
  "small c c1 \<Longrightarrow> small c (c1\<lparr>messageReader := None\<rparr>)" "small c c1 \<Longrightarrow> small c (c1\<lparr>readMaskPos := 0\<rparr>)"
  "small c c1 \<Longrightarrow> n < 4 \<Longrightarrow> small c (c1\<lparr>readMaskPos := n\<rparr>)"
  "small c c1 \<Longrightarrow> 0 \<le> sint x \<Longrightarrow> small c (c1\<lparr>readRemaining := x\<rparr>)"
  "small c c1 \<Longrightarrow> length rs = length (readers c1) \<Longrightarrow> small c (c1\<lparr>readers := rs\<rparr>)"
  "small c c1 \<Longrightarrow> small c (c1\<lparr>readers := rs, reader := None, messageReader := None\<rparr>)"
  by (simp_all add: small_def out_side_def read_typed_def)

lemma small_pipes [simp]: "small c c1 \<Longrightarrow> small c (set_dec i x c1)" "small c c1 \<Longrightarrow> small c (set_failed i c1)"
  by (simp_all add: set_dec_def set_failed_def)

lemma reads_small: "reads c c' \<Longrightarrow> small c c'"
  by (auto simp: reads_def same_but_input_def)

lemma input_small:
  "conn_read n c = ((p, err), c') \<Longrightarrow> small c c'"
  "brRead n c = (d, e, c') \<Longrightarrow> small c c'"
  "discardN n c = Some (e, c') \<Longrightarrow> small c c'"
proof -
  show "conn_read n c = ((p, err), c') \<Longrightarrow> small c c'" using conn_read_reads(1) reads_small by blast
  show "brRead n c = (d, e, c') \<Longrightarrow> small c c'" using brRead_reads(1) reads_small by blast
  assume "discardN n c = Some (e, c')"
  moreover obtain e1 c1 where "discardN n c = Some (e1, c1)" "reads c c1" using discardN_returns by blast
  ultimately show "small c c'" using reads_small by simp
qed

lemma remaining_small: "small c c1 \<Longrightarrow> small c (snd (setReadRemaining n c1))"
  by (simp add: setReadRemaining_def word_sless_alt)

lemma check_small: "small c (snd (checkHeader hdr c))"
proof -
  have "small c (snd (setReadRemaining (hLen hdr) c))" by (rule remaining_small) simp
  then show ?thesis by (simp add: checkHeader_def Let_def)
qed

lemma mask_pos_less: "snd (maskBytes le a key n b) < 4"
  by (simp add: maskBytes_def Let_def split_beta and_3_eq_mod_4)

lemma readScan_row: "s < 9 \<Longrightarrow> fst (readScan s x p) < 9"
proof (induction p arbitrary: s x)
  case (Cons b p)
  obtain s' x' where st: "utf8DFAStep s x b = (s', x')" by fastforce
  then have "s' < 9" using dfa_index_in_range [OF Cons.prems, of b x] by simp
  then show ?case using Cons.IH by (simp add: st)
qed simp

locale read_relation =
  fixes step :: "'d rconn \<Rightarrow> 'd rconn \<Rightarrow> bool"
  assumes step_small: "small c c' \<Longrightarrow> step c c'"
    and step_trans: "step a b \<Longrightarrow> step b c \<Longrightarrow> step a c"
    and step_control: "WriteControl t p d c = Some (e, c') \<Longrightarrow> step c c'"
begin

lemma step_refl [simp]: "step c c"
  by (rule step_small) simp

lemma step_then: "step c c1 \<Longrightarrow> small c1 c' \<Longrightarrow> step c c'"
  using step_trans step_small by blast

lemma small_step: "small c c1 \<Longrightarrow> steps_to step c1 r \<Longrightarrow> steps_to step c r"
  using step_trans step_small by (fastforce simp: steps_to_def)

lemma then_step: "step c c1 \<Longrightarrow> steps_to step c1 r \<Longrightarrow> steps_to step c r"
  using step_trans by (fastforce simp: steps_to_def)

lemma steps_bind:
  "steps_to step c r \<Longrightarrow> (\<And>x c'. r = Some (x, c') \<Longrightarrow> steps_to step c' (f (x, c'))) \<Longrightarrow> steps_to step c (Option.bind r f)"
  by (cases r) (auto intro: then_step dest: steps_toD)

lemma control_steps: "steps_to step c (WriteControl t p d c)"
  using step_control by (simp add: steps_to_def)

lemma default_steps: "handlers_step step defaultHandlers"
  unfolding handlers_step_def defaultHandlers_def
  by (auto simp: defaultCloseHandler_def defaultPingHandler_def defaultPongHandler_def intro!: steps_bind control_steps)

lemma failWith_step [simp]: "steps_to step c (failWith e c') = step c c'"
  by (simp add: failWith_def)

lemma protocolError_steps: "steps_to step c (protocolError m c)"
  unfolding protocolError_def handleProtocolError_def Let_def
  by (auto intro!: steps_bind control_steps)

lemma readExtended_steps:
  assumes "\<And>c. steps_to step c (cont c)"
  shows "steps_to step c (readExtended k cont c)"
proof -
  obtain p e c1 where r: "conn_read k c = ((p, e), c1)" by (metis prod.exhaust)
  obtain e' c2 where s: "setReadRemaining (of_nat (be_val p)) c1 = (e', c2)" by fastforce
  have o: "small c c1" by (rule input_small(1) [OF r])
  moreover have "small c c2" using remaining_small [OF o, of "of_nat (be_val p)"] s by simp
  ultimately show ?thesis using small_step [OF _ assms] step_small
    by (simp add: readExtended_def r s split: option.split)
qed

lemma readMaskField_steps:
  assumes "\<And>c. steps_to step c (cont c)"
  shows "steps_to step c (readMaskField m cont c)"
proof (cases m)
  case True
  obtain p e c1 where r: "conn_read 4 (c\<lparr>readMaskPos := 0\<rparr>) = ((p, e), c1)" by (metis prod.exhaust)
  have "small c c1" by (rule small_trans [OF _ input_small(1) [OF r]]) simp
  then show ?thesis using True small_step [OF _ assms] step_small
    by (simp add: readMaskField_def r split: option.split)
qed (simp add: readMaskField_def assms)

lemma dataFrame_steps: "steps_to step c (dataFrame t c)"
proof -
  let ?c = "c\<lparr>readLength := readLength c + readRemaining c\<rparr>"
  have w: "steps_to step c (WriteControl k p d ?c)" for k p d
    by (rule small_step [OF _ control_steps]) simp
  show ?thesis unfolding dataFrame_def Let_def by (auto intro!: steps_bind w step_small)
qed

lemma handled_steps:
  assumes "steps_to step c r" and "\<And>c'. step c' c' \<Longrightarrow> steps_to step c' (f c')"
  shows "steps_to step c (do { (err, c1) \<leftarrow> r; (case err of Some e \<Rightarrow> failWith e c1 | None \<Rightarrow> f c1) })"
  using assms by (auto intro!: steps_bind split: option.split)

lemma closeFrame_steps: "handlers_step step h \<Longrightarrow> steps_to step c (closeFrame h p c)"
  unfolding closeFrame_def Let_def
  by (auto intro!: handled_steps protocolError_steps simp: handlers_step_def)

lemma processControl_steps: "handlers_step step h \<Longrightarrow> steps_to step c (processControl h t p c)"
  unfolding processControl_def
  by (auto intro!: handled_steps closeFrame_steps simp: handlers_step_def)

lemma controlFrame_steps:
  assumes "handlers_step step h"
  shows "steps_to step c (controlFrame h t c)"
proof (cases "0 <s readRemaining c")
  case True
  obtain p e c1 where r: "conn_read (unat (readRemaining c)) c = ((p, e), c1)" by (metis prod.exhaust)
  have o: "small c (snd (setReadRemaining 0 c1))" by (rule remaining_small [OF input_small(1) [OF r]])
  then show ?thesis using True small_step [OF o processControl_steps [OF assms]] step_small
    by (simp add: controlFrame_def r Let_def split: option.split)
qed (simp add: controlFrame_def processControl_steps [OF assms])

lemma readFrame_steps:
  assumes "handlers_step step h"
  shows "steps_to step c (readFrame h c)"
proof -
  obtain p e c1 where r: "conn_read 2 c = ((p, e), c1)" by (metis prod.exhaust)
  obtain es c2 where k: "checkHeader (parseHeader (p ! 0) (p ! 1)) c1 = (es, c2)" by fastforce
  have o1: "small c c1" by (rule input_small(1) [OF r])
  have o2: "small c c2" using small_trans [OF o1] check_small [of c1 "parseHeader (p ! 0) (p ! 1)"] unfolding k snd_conv .
  have l: "steps_to step c2 (readLengthField (readMaskField m
      (if t = continuationFrame \<or> isData t then dataFrame t else controlFrame h t)) c2)" for m t
    unfolding readLengthField_def
    by (auto intro!: readExtended_steps readMaskField_steps dataFrame_steps controlFrame_steps assms)
  have "steps_to step c (if es \<noteq> [] then protocolError (joinErrors es) c2 else readLengthField (readMaskField m
      (if t = continuationFrame \<or> isData t then dataFrame t else controlFrame h t)) c2)" for m t
    using small_step [OF o2 l] small_step [OF o2 protocolError_steps] by (cases "es = []") simp_all
  then show ?thesis unfolding readFrame_def r Let_def split_conv k
    using step_small [OF o1] by (cases e) (simp_all only: option.case failWith_step)
qed

lemma advanceFrame_steps:
  assumes "handlers_step step h"
  shows "steps_to step c (advanceFrame h c)"
proof -
  have "steps_to step c (discardN n c)" for n
    by (auto simp: steps_to_def intro: step_small input_small(3))
  then show ?thesis unfolding advanceFrame_def
    by (auto intro!: handled_steps readFrame_steps assms)
qed

lemma payloadRead_step: "step c (snd (payloadRead n c))"
proof -
  obtain d e c1 where r: "brRead (if sint (readRemaining c) < int n then unat (readRemaining c) else n) c = (d, e, c1)"
    by (metis prod_cases3)
  have o: "small c c1" by (rule input_small(2) [OF r])
  obtain d' q where m: "maskBytes (littleEndian c1) (memAddr c1) (readMaskKey c1) (readMaskPos c1) d = (d', q)" by fastforce
  have "q < 4" using mask_pos_less [of "littleEndian c1" "memAddr c1" "readMaskKey c1" "readMaskPos c1" d] m by simp
  then have "small c (if isServer c1 then c1\<lparr>readErr := e, readMaskPos := q\<rparr> else c1\<lparr>readErr := e\<rparr>)" using o by simp
  from remaining_small [OF this]
  have "small c (snd (setReadRemaining x (if isServer c1 then c1\<lparr>readErr := e, readMaskPos := q\<rparr> else c1\<lparr>readErr := e\<rparr>)))" for x .
  then have "small c (snd (payloadRead n c))"
    by (cases "isServer c1") (simp_all add: payloadRead_def r m Let_def)
  then show ?thesis by (rule step_small)
qed

lemma mrLoop_steps: "mrLoop h m n c = Some y \<Longrightarrow> handlers_step step h \<longrightarrow> step c (snd y)"
proof (erule mrLoop.raw_induct [rotated], intro impI)
  fix loop h m n c y
  assume IH: "\<And>h m n c y. loop h m n c = Some y \<Longrightarrow> handlers_step step h \<longrightarrow> step c (snd y)"
    and b: "(case readErr c of
        Some e \<Rightarrow>
          Some (([], if e = IoEOF \<and> messageReader c = Some m then Some errUnexpectedEOF else Some e), c)
      | None \<Rightarrow>
          if 0 <s readRemaining c then Some (payloadRead n c)
          else if readFinal c then Some (([], Some IoEOF), c\<lparr>messageReader := None\<rparr>)
          else Option.bind (advanceFrame h c) (\<lambda>((t, err), c1).
            loop h m n
              (case err of
                 Some e \<Rightarrow> c1\<lparr>readErr := Some e\<rparr>
               | None \<Rightarrow> if isData t then c1\<lparr>readErr := Some errInternalReader\<rparr> else c1))) = Some y"
    and h: "handlers_step step h"
  consider "snd y = c" | "y = payloadRead n c" | "snd y = c\<lparr>messageReader := None\<rparr>"
    | t err c1 where "advanceFrame h c = Some ((t, err), c1)" and "loop h m n (case err of
                 Some e \<Rightarrow> c1\<lparr>readErr := Some e\<rparr>
               | None \<Rightarrow> if isData t then c1\<lparr>readErr := Some errInternalReader\<rparr> else c1) = Some y"
  proof (cases "readErr c")
    case None
    note step = that
    show thesis
    proof (cases "0 <s readRemaining c \<or> readFinal c")
      case True
      then show thesis using b None step(2,3) by (cases "0 <s readRemaining c") auto
    next
      case False
      then show thesis using b None step(4) by (cases "advanceFrame h c") auto
    qed
  next
    case (Some e)
    then have "snd y = c" using b by auto
    then show thesis by (rule that(1))
  qed
  then show "step c (snd y)"
  proof cases
    case 1
    then show ?thesis by simp
  next
    case 2
    then show ?thesis using payloadRead_step by simp
  next
    case 3
    have "step c (c\<lparr>messageReader := None\<rparr>)" by (rule step_small) simp
    with 3 show ?thesis by simp
  next
    case (4 t err c1)
    have "step c c1" by (rule steps_toD [OF advanceFrame_steps [OF h] 4(1)])
    moreover have "step (case err of Some e \<Rightarrow> c1\<lparr>readErr := Some e\<rparr>
        | None \<Rightarrow> if isData t then c1\<lparr>readErr := Some errInternalReader\<rparr> else c1) (snd y)"
      using IH [OF 4(2)] h by blast
    moreover have "small c1 (case err of Some e \<Rightarrow> c1\<lparr>readErr := Some e\<rparr>
        | None \<Rightarrow> if isData t then c1\<lparr>readErr := Some errInternalReader\<rparr> else c1)"
      by (simp split: option.split)
    ultimately show ?thesis using step_then step_trans by blast
  qed
qed

lemma mrRead_steps: "handlers_step step h \<Longrightarrow> steps_to step c (mrRead h m n c)"
  using mrLoop_steps [of h m n c] by (fastforce simp: mrRead_def steps_to_def)

lemma multiRead_steps:
  assumes "handlers_step step h" and "multiRead h n f c = Some (r, f', c')"
  shows "step c c'"
  using assms(2) steps_toD [OF mrRead_steps [OF assms(1)]]
  by (fastforce simp: multiRead_def Let_def split: option.splits Option.bind_splits prod.splits if_splits)

lemma flateRead_steps: "flateRead ops h n f c = Some y \<Longrightarrow> handlers_step step h \<longrightarrow> step c (snd (snd y))"
proof (erule flateRead.raw_induct [rotated], intro impI)
  fix fl ops h n f c y
  assume IH: "\<And>ops h n f c y. fl ops h n f c = Some y \<Longrightarrow> handlers_step step h \<longrightarrow> step c (snd (snd y))"
    and b: "(case inf_step ops n (fr f) of
        Pull k g \<Rightarrow> Option.bind (multiRead h k f c) (\<lambda>(r, f1, c1). fl ops h n (f1\<lparr>fr := g r\<rparr>) c1)
      | Yield d e z \<Rightarrow> Some ((d, e), f\<lparr>fr := z\<rparr>, c)) = Some y"
    and h: "handlers_step step h"
  show "step c (snd (snd y))"
  proof (cases "inf_step ops n (fr f)")
    case (Pull k g)
    then obtain r f1 c1 where m: "multiRead h k f c = Some (r, f1, c1)" and l: "fl ops h n (f1\<lparr>fr := g r\<rparr>) c1 = Some y"
      using b by (auto split: Option.bind_splits)
    show ?thesis using multiRead_steps [OF h m] IH [OF l] h step_trans by blast
  qed (use b in auto)
qed

lemma flate_steps:
  assumes "handlers_step step h" and "flateRead ops h n f c = Some (r, f', c')"
  shows "step c c'"
  using flateRead_steps [OF assms(2)] assms(1) by simp

lemma decRead_steps:
  assumes h: "handlers_step step h"
  shows "steps_to step c (decRead ops h i n c)"
proof -
  have u: "small c1 (set_dec i x c1)" "small c1 (c1\<lparr>rfactory := f, rwindow := w\<rparr>)" for x c1 f w
    by simp_all
  have p: "steps_to step c (poolRead ops h i n x c)" for x
  proof (cases x)
    case f: (Some f)
    show ?thesis
    proof (cases "flateRead ops h n f c")
      case (Some y)
      obtain d e f1 c1 where y: "y = ((d, e), f1, c1)" by (metis prod.exhaust)
      have "step c c1" using flate_steps [OF h] Some y by simp
      then show ?thesis using Some y f step_then [OF _ u(1)] by (simp add: poolRead_def)
    qed (simp add: poolRead_def f)
  qed (simp add: poolRead_def)
  have t: "steps_to step c (takeoverRead ops h n opn c)" for opn
  proof (cases "rfactory c")
    case f: (Some f)
    show ?thesis
    proof (cases "flateRead ops h n f c")
      case (Some y)
      obtain d e f1 c1 where y: "y = ((d, e), f1, c1)" by (metis prod.exhaust)
      have "step c c1" using flate_steps [OF h] Some y by simp
      then show ?thesis using Some y f step_then [OF _ u(2)] by (simp add: takeoverRead_def)
    qed (simp add: takeoverRead_def f)
  qed (simp add: takeoverRead_def)
  show ?thesis unfolding decRead_def using p t mrRead_steps [OF h] by (simp split: decWrapper.split)
qed

lemma rejectUTF8_step: "rejectUTF8 i c = Some c' \<Longrightarrow> step c c'"
proof -
  assume r: "rejectUTF8 i c = Some c'"
  obtain e c1 where w: "WriteControl CloseMessage (FormatCloseMessage CloseInvalidFramePayloadData '''')
      (Some (now (set_failed i c) + writeWait)) (set_failed i c) = Some (e, c1)"
    and c': "c' = (if readErr c1 = None then c1\<lparr>readErr := Some ErrInvalidUTF8\<rparr> else c1)"
    using r by (auto simp: rejectUTF8_def Let_def split: Option.bind_splits)
  have "small c (set_failed i c)" by simp
  then have "step c c1" using step_control [OF w] step_small step_trans by blast
  then show "step c c'" by (rule step_then) (simp add: c')
qed

lemma checkedRead_steps:
  assumes "\<And>c. steps_to step c (rd n c)"
  shows "steps_to step c (checkedRead i rd n c)"
  unfolding steps_to_def
proof (intro allI impI)
  fix r c'
  assume a: "checkedRead i rd n c = Some (r, c')"
  then obtain d e c1 where r: "rd n c = Some ((d, e), c1)" by (auto simp: checkedRead_def split: Option.bind_splits)
  obtain st x where sc: "readScan (readUTF8State c1) (readUTF8Codepoint c1) d = (st, x)" by fastforce
  define c2 where "c2 = c1\<lparr>readUTF8State := st, readUTF8Codepoint := x\<rparr>"
  have "small c1 c2" using readScan_row [of "readUTF8State c1" "readUTF8Codepoint c1" d] sc
    by (simp add: small_def out_side_def read_typed_def c2_def)
  then have s: "step c c2" by (rule step_then [OF steps_toD [OF assms r]])
  have "c' = c2 \<or> rejectUTF8 i c2 = Some c'"
    using a r sc by (auto simp: checkedRead_def c2_def Let_def split: Option.bind_splits if_splits)
  then show "step c c'" using s rejectUTF8_step step_trans by blast
qed

lemma readerRead_steps:
  assumes "handlers_step step h"
  shows "steps_to step c (readerRead ops h i n c)"
  unfolding readerRead_def
  using decRead_steps [OF assms] checkedRead_steps [of "decRead ops h i"] by (simp split: option.split)

lemma readAll_steps:
  "readAll rd grow cap acc c = Some y \<Longrightarrow> (\<forall>n c. steps_to step c (rd n c)) \<longrightarrow> step c (snd y)"
proof (erule readAll.raw_induct [rotated], intro impI)
  fix ra rd grow cap acc c y
  assume IH: "\<And>rd grow cap acc c y. ra rd grow cap acc c = Some y \<Longrightarrow> (\<forall>n c. steps_to step c (rd n c)) \<longrightarrow> step c (snd y)"
    and b: "Option.bind (rd (cap - length acc) c) (\<lambda>((d, e), s1).
       let acc' = acc @ d in
       if e \<noteq> None then Some ((acc', if e = Some IoEOF then None else e), s1)
       else ra rd grow (if length acc' = cap then grow cap else cap) acc' s1) = Some y"
    and r: "\<forall>n c. steps_to step c (rd n c)"
  obtain d e c1 where s: "rd (cap - length acc) c = Some ((d, e), c1)" using b by (auto split: Option.bind_splits)
  have s1: "step c c1" using steps_toD [OF _ s] r by blast
  show "step c (snd y)"
  proof (cases e)
    case None
    then have "step c1 (snd y)" using b s IH r by (auto simp: Let_def)
    with s1 show ?thesis by (rule step_trans)
  next
    case (Some x)
    then have "snd y = c1" using b s by (auto simp: Let_def)
    then show ?thesis using s1 by simp
  qed
qed

lemma failedRead_small: "small c (snd (failedRead e c))"
  by (simp add: failedRead_def Let_def)

lemma openReader_small: "small c (snd (openReader ops t c))"
  by (simp add: openReader_def Let_def split_beta small_def out_side_def read_typed_def utf8Accept_def less_SucI)

lemma nextLoop_steps: "nextLoop ops h c = Some y \<Longrightarrow> handlers_step step h \<longrightarrow> step c (snd y)"
proof (erule nextLoop.raw_induct [rotated], intro impI)
  fix loop ops h c y
  assume IH: "\<And>ops h c y. loop ops h c = Some y \<Longrightarrow> handlers_step step h \<longrightarrow> step c (snd y)"
    and b: "(case readErr c of
        Some e \<Rightarrow> Some (failedRead e c)
      | None \<Rightarrow>
          Option.bind (advanceFrame h c) (\<lambda>((t, err), c1).
            case err of
              Some e \<Rightarrow>
                if isTimeout e then Some (NextErr e, c1)
                else Some (failedRead e (c1\<lparr>readErr := Some e\<rparr>))
            | None \<Rightarrow>
                (let c2 = c1\<lparr>readErrCount := 0\<rparr> in
                 if isData t then Some (openReader ops t c2) else loop ops h c2))) = Some y"
    and h: "handlers_step step h"
  show "step c (snd y)"
  proof (cases "readErr c")
    case (Some e)
    then have "snd y = snd (failedRead e c)" using b by auto
    then show ?thesis using step_small [OF failedRead_small] by simp
  next
    case None
    then obtain t err c1 where a: "advanceFrame h c = Some ((t, err), c1)" using b by (auto split: Option.bind_splits)
    have s: "step c c1" by (rule steps_toD [OF advanceFrame_steps [OF h] a])
    show ?thesis
    proof (cases err)
      case (Some e)
      then have "snd y = c1 \<or> snd y = snd (failedRead e (c1\<lparr>readErr := Some e\<rparr>))"
        using None a b by (auto split: if_splits)
      then have "small c1 (snd y)" using small_trans [OF _ failedRead_small [of "c1\<lparr>readErr := Some e\<rparr>" e], of c1] by auto
      with s show ?thesis by (rule step_then)
    next
      case e: None
      let ?c2 = "c1\<lparr>readErrCount := 0\<rparr>"
      have s2: "step c ?c2" by (rule step_then [OF s]) simp
      have "Some (openReader ops t ?c2) = Some y \<or> loop ops h ?c2 = Some y"
        using None e a b by (auto simp: Let_def split: if_splits)
      then show ?thesis
      proof
        assume "Some (openReader ops t ?c2) = Some y"
        then have "small ?c2 (snd y)" using openReader_small [of ?c2 ops t] by auto
        with s2 show ?thesis by (rule step_then)
      next
        assume "loop ops h ?c2 = Some y"
        then show ?thesis using IH h step_trans [OF s2] by blast
      qed
    qed
  qed
qed

lemma NextReader_steps:
  assumes "handlers_step step h"
  shows "steps_to step c (NextReader ops h c)"
proof -
  obtain rs where f: "fresh c = c\<lparr>readers := rs, reader := None, messageReader := None, readLength := 0\<rparr>"
    using fresh_fields by blast
  have "steps_to step (fresh c) (nextLoop ops h (fresh c))"
    using nextLoop_steps assms by (fastforce simp: steps_to_def)
  then show ?thesis unfolding NextReader_fresh by (rule small_step [rotated]) (simp add: f)
qed

lemma ReadMessage_steps:
  assumes "handlers_step step h"
  shows "steps_to step c (ReadMessage ops h grow c)"
proof -
  have "steps_to step c1 (IoReadAll (readerRead ops h i) grow c1)" for i c1
    using readAll_steps [of "readerRead ops h i" grow 512 "[]" c1] readerRead_steps [OF assms]
    by (fastforce simp: steps_to_def IoReadAll_def)
  then show ?thesis unfolding ReadMessage_def
    by (auto intro!: steps_bind NextReader_steps assms split: next_result.split)
qed

lemma drain_steps: "drain ops h c = Some y \<Longrightarrow> handlers_step step h \<longrightarrow> step c (snd y)"
proof (erule drain.raw_induct [rotated], intro impI)
  fix loop ops h c y
  assume IH: "\<And>ops h c y. loop ops h c = Some y \<Longrightarrow> handlers_step step h \<longrightarrow> step c (snd y)"
    and b: "Option.bind (NextReader ops h c) (\<lambda>(r, c1).
       case r of NextOk t i \<Rightarrow> loop ops h c1 | NextErr e \<Rightarrow> Some (True, c1) | NextPanic \<Rightarrow> Some (False, c1)) = Some y"
    and h: "handlers_step step h"
  obtain r c1 where n: "NextReader ops h c = Some (r, c1)" using b by (auto split: Option.bind_splits)
  have s: "step c c1" by (rule steps_toD [OF NextReader_steps [OF h] n])
  have "snd y = c1 \<or> loop ops h c1 = Some y" using b n by (auto split: next_result.splits)
  then show "step c (snd y)" using s IH h step_trans [OF s] by fastforce
qed

end

end
