(* ===== verification/Duplex.thy ===== *)
theory Duplex
  imports ReadSafety
begin

text \<open>
  One connection read and written by turns. The operations of the write side work on the connection
  extended by its writers, those of the read side on the connection extended by its readers; here
  both extensions are kept, and any operation of either side may follow any other. The invariants of
  the write side hold over all such sequences.
\<close>

section \<open>A connection with both sides\<close>

text \<open>The connection as the read side has it, with the writers made so far and the compressor.\<close>

type_synonym ('d, 'z) duplex = "'d rconn \<times> ('z, unit) wconn_ext"

definition as_writer :: "('d, 'z) duplex \<Rightarrow> 'z wconn" where
  "as_writer s = conn.extend (conn.truncate (fst s)) (snd s)"

definition from_writer :: "('d, 'z) duplex \<Rightarrow> 'z wconn \<Rightarrow> ('d, 'z) duplex" where
  "from_writer s w = (conn.extend (conn.truncate w) (conn.more (fst s)), conn.more w)"

definition onWriter :: "('z wconn \<Rightarrow> ('r \<times> 'z wconn) option) \<Rightarrow> ('d, 'z) duplex \<Rightarrow> ('r \<times> ('d, 'z) duplex) option" where
  "onWriter f s = do { (r, w) \<leftarrow> f (as_writer s); Some (r, from_writer s w) }"

definition onReader :: "('d rconn \<Rightarrow> ('r \<times> 'd rconn) option) \<Rightarrow> ('d, 'z) duplex \<Rightarrow> ('r \<times> ('d, 'z) duplex) option" where
  "onReader f s = do { (r, c) \<leftarrow> f (fst s); Some (r, (c, snd s)) }"

lemmas duplex_defs = as_writer_def from_writer_def conn.extend_def conn.truncate_def

lemma as_writer_fields [simp]:
  "netClosed (as_writer s) = netClosed (fst s)" "wire (as_writer s) = wire (fst s)" "writeErr (as_writer s) = writeErr (fst s)" "mu (as_writer s) = mu (fst s)"
  "netScript (as_writer s) = netScript (fst s)" "now (as_writer s) = now (fst s)" "isServer (as_writer s) = isServer (fst s)"
  "disableMask (as_writer s) = disableMask (fst s)" "skipUTF8Validation (as_writer s) = skipUTF8Validation (fst s)"
  "writeMu (as_writer s) = writeMu (fst s)" "writer (as_writer s) = writer (fst s)"
  "write_side (as_writer s) = write_side (fst s)" "read_side (as_writer s) = read_side (fst s)" "conn.more (as_writer s) = snd s"
  by (simp_all add: duplex_defs write_side_def read_side_def)

lemma from_writer_fields [simp]:
  "netClosed (fst (from_writer s w)) = netClosed w" "wire (fst (from_writer s w)) = wire w" "writeErr (fst (from_writer s w)) = writeErr w" "mu (fst (from_writer s w)) = mu w"
  "netScript (fst (from_writer s w)) = netScript w" "now (fst (from_writer s w)) = now w"
  "isServer (fst (from_writer s w)) = isServer w" "disableMask (fst (from_writer s w)) = disableMask w"
  "skipUTF8Validation (fst (from_writer s w)) = skipUTF8Validation w"
  "writeMu (fst (from_writer s w)) = writeMu w" "writer (fst (from_writer s w)) = writer w"
  "write_side (fst (from_writer s w)) = write_side w" "read_side (fst (from_writer s w)) = read_side w"
  "conn.more (fst (from_writer s w)) = conn.more (fst s)" "snd (from_writer s w) = conn.more w"
  by (simp_all add: duplex_defs write_side_def read_side_def)

lemma as_from_writer [simp]: "as_writer (from_writer s w) = w"
  by (cases w) (simp add: duplex_defs)

lemma from_as_writer [simp]: "from_writer s (as_writer s) = s"
  by (cases s; cases "fst s") (simp add: duplex_defs)

section \<open>Every sequence of operations\<close>

text \<open>What a read does to the write side: it adds control frames. And it leaves its own state in range.\<close>

definition adds_frames :: "'a conn_scheme \<Rightarrow> 'a conn_scheme \<Rightarrow> bool" where
  "adds_frames c c' \<longleftrightarrow> (\<exists>s. wire c' = wire c @ s) \<and>
     (writeErr c \<noteq> None \<longrightarrow> writeErr c' = writeErr c \<and> wire c' = wire c) \<and>
     (mu c \<longrightarrow> mu c') \<and> writeMu c' = writeMu c \<and> writer c' = writer c \<and> write_side c' = write_side c \<and>
     (netClosed c \<longrightarrow> netClosed c') \<and> (netClosed c' \<or> latched (netScript c) (netScript c') (writeErr c'))"

lemma adds_frames_trans: "adds_frames a b \<Longrightarrow> adds_frames b c \<Longrightarrow> adds_frames a c"
  using latched_trans [of "netScript a" "netScript b" "writeErr b" "netScript c" "writeErr c"]
  by (auto simp: adds_frames_def)

lemma out_adds: "out_side c' = out_side c \<Longrightarrow> adds_frames c c'"
  by (simp add: out_side_def write_side_def adds_frames_def)

lemma quietly_adds: "quietly c c' \<Longrightarrow> adds_frames c c'"
  by (simp add: quietly_def grows_def adds_frames_def)

definition only_controls :: "'d rconn \<Rightarrow> 'd rconn \<Rightarrow> bool" where
  "only_controls c c' \<longleftrightarrow> adds_frames c c' \<and> (read_typed c \<longrightarrow> read_typed c')"

lemma more_readers: "conn.more c' = conn.more c \<Longrightarrow> readers c' = readers (c :: 'd rconn)"
  by (cases c; cases c') simp

lemma read_typed_same:
  "read_side c' = read_side c \<Longrightarrow> conn.more c' = conn.more c \<Longrightarrow> read_typed c' = read_typed c"
  using more_readers [of c' c] by (simp add: read_typed_def read_side_def)

interpretation oc: read_relation only_controls
proof unfold_locales
  fix c c' :: "'d rconn"
  assume "small c c'"
  then show "only_controls c c'" by (simp add: only_controls_def small_def out_adds)
next
  fix a b c :: "'d rconn"
  assume "only_controls a b" "only_controls b c"
  then show "only_controls a c" using adds_frames_trans by (auto simp: only_controls_def)
next
  fix t p d e and c c' :: "'d rconn"
  assume "WriteControl t p d c = Some (e, c')"
  from WriteControl_quietly [OF this] have q: "quietly c c'" .
  then have "read_typed c' = read_typed c" by (intro read_typed_same) (simp_all add: quietly_def grows_def)
  then show "only_controls c c'" using quietly_adds [OF q] by (simp add: only_controls_def)
qed

lemma netClose_controls: "netClose c = (e, c') \<Longrightarrow> only_controls c c'"
  by (auto simp: netClose_def only_controls_def adds_frames_def read_typed_def split: list.splits net_result.splits)

lemma CloseGracefully_steps:
  assumes "handlers_step only_controls h"
  shows "steps_to only_controls c (CloseGracefully ops h code reason d c)"
proof -
  have tl: "steps_to only_controls c2 (do { (returns, c3) \<leftarrow> drain ops h c2;
      if \<not> returns then Some (None, c3) else let (e, c4) = netClose c3 in Some (Some (f e), c4) })" for f c2
  proof (rule oc.steps_bind)
    show "steps_to only_controls c2 (drain ops h c2)" using oc.drain_steps assms by (fastforce simp: steps_to_def)
  qed (auto simp: netClose_controls Let_def split: prod.split)
  have "small c1 (if d \<noteq> None then SetReadDeadline d c1 else c1)" for c1 :: "'a rconn"
    by (simp add: SetReadDeadline_def)
  note st = oc.small_step [OF this tl]
  show ?thesis unfolding CloseGracefully_def Let_def
    by (rule oc.steps_bind [OF oc.control_steps], simp only: prod.case, rule st [unfolded Let_def])
qed

text \<open>One call of either side that returns, whatever its result.\<close>

inductive conn_step ::
  "'z flate_ops \<Rightarrow> 'd inflate_ops \<Rightarrow> 'd rconn handlers \<Rightarrow> ('d, 'z) duplex \<Rightarrow> ('d, 'z) duplex \<Rightarrow> bool" for wops rops h where
  write_op: "app_step wops (as_writer s) w \<Longrightarrow> conn_step wops rops h s (from_writer s w)"
| next_reader: "onReader (NextReader rops h) s = Some (nr, s') \<Longrightarrow> conn_step wops rops h s s'"
| read_bytes: "onReader (readerRead rops h i n) s = Some (r, s') \<Longrightarrow> conn_step wops rops h s s'"
| read_message: "onReader (ReadMessage rops h grow) s = Some (rm, s') \<Longrightarrow> conn_step wops rops h s s'"
| read_limit: "conn_step wops rops h s (SetReadLimit n (fst s), snd s)"
| read_deadline: "conn_step wops rops h s (SetReadDeadline t (fst s), snd s)"
| close_gracefully: "onReader (CloseGracefully rops h code reason t) s = Some (cg, s') \<Longrightarrow> conn_step wops rops h s s'"

text \<open>The invariants of both sides, and what has been put on the wire.\<close>

definition conn_inv :: "('d, 'z) duplex \<Rightarrow> bool" where
  "conn_inv s \<longleftrightarrow> lock_inv (as_writer s) \<and> mu (fst s) \<and> read_typed (fst s)"

definition conn_grows :: "('d, 'z) duplex \<Rightarrow> ('d, 'z) duplex \<Rightarrow> bool" where
  "conn_grows s s' \<longleftrightarrow> (\<exists>p. wire (fst s') = wire (fst s) @ p) \<and>
     (writeErr (fst s) \<noteq> None \<longrightarrow> writeErr (fst s') = writeErr (fst s) \<and> wire (fst s') = wire (fst s)) \<and>
     (netClosed (fst s) \<longrightarrow> netClosed (fst s')) \<and>
     (netClosed (fst s') \<or> latched (netScript (fst s)) (netScript (fst s')) (writeErr (fst s')))"

lemma conn_grows_refl: "conn_grows s s"
  by (simp add: conn_grows_def)

lemma conn_grows_trans: "conn_grows a b \<Longrightarrow> conn_grows b c \<Longrightarrow> conn_grows a c"
  using latched_trans [of "netScript (fst a)" "netScript (fst b)" "writeErr (fst b)" "netScript (fst c)" "writeErr (fst c)"]
  by (auto simp: conn_grows_def)

lemma adds_conn: "adds_frames (fst s) (fst s') \<Longrightarrow> conn_grows s s'"
  by (simp add: adds_frames_def conn_grows_def)

lemma lock_inv_same:
  "writeMu c' = writeMu c \<Longrightarrow> writer c' = writer c \<Longrightarrow> conn.more c' = conn.more c \<Longrightarrow> lock_inv c' = lock_inv c"
  using more_writers [of c' c] ended_writers [of c' c] by (simp add: lock_inv_def)

lemma reading_keeps:
  assumes "conn_inv s" and "only_controls (fst s) c'"
  shows "conn_inv (c', snd s) \<and> conn_grows s (c', snd s)"
proof -
  have g: "adds_frames (fst s) c'" and w: "writeMu c' = writeMu (fst s)" "writer c' = writer (fst s)"
    and t: "read_typed (fst s) \<longrightarrow> read_typed c'"
    using assms(2) by (simp_all add: only_controls_def adds_frames_def)
  have "lock_inv (as_writer (c', snd s)) = lock_inv (as_writer s)" by (rule lock_inv_same) (simp_all add: w)
  then show ?thesis using assms(1) g t adds_conn [of s "(c', snd s)"] by (simp add: conn_inv_def adds_frames_def)
qed

lemma onReader_keeps:
  assumes "conn_inv s" and "onReader f s = Some (r, s')" and "steps_to only_controls (fst s) (f (fst s))"
  shows "conn_inv s' \<and> conn_grows s s'"
proof -
  obtain c' where "f (fst s) = Some (r, c')" and "s' = (c', snd s)"
    using assms(2) by (auto simp: onReader_def split: Option.bind_splits)
  then show ?thesis using reading_keeps [OF assms(1) steps_toD [OF assms(3)]] by simp
qed

lemma conn_step_keeps:
  assumes h: "handlers_step only_controls h"
  shows "conn_step wops rops h s s' \<Longrightarrow> conn_inv s \<Longrightarrow> conn_inv s' \<and> conn_grows s s'"
proof (induction rule: conn_step.induct)
  case (write_op s w)
  have k: "grows (as_writer s) w \<and> lock_inv w"
    using app_step_keeps [OF write_op(1)] write_op(2) by (simp add: conn_inv_def)
  then have "read_typed (fst (from_writer s w)) = read_typed (fst s)"
    by (intro read_typed_same) (simp_all add: grows_def)
  then show ?case using write_op(2) k by (simp add: conn_inv_def conn_grows_def grows_def)
next
  case (next_reader s nr s')
  show ?case by (rule onReader_keeps [OF next_reader(2,1) oc.NextReader_steps [OF h]])
next
  case (read_bytes i n s r s')
  show ?case by (rule onReader_keeps [OF read_bytes(2,1) oc.readerRead_steps [OF h]])
next
  case (read_message grow s rm s')
  show ?case by (rule onReader_keeps [OF read_message(2,1) oc.ReadMessage_steps [OF h]])
next
  case (read_limit s n)
  then show ?case by (intro reading_keeps) (auto simp: SetReadLimit_def intro: oc.step_small)
next
  case (read_deadline s t)
  then show ?case by (intro reading_keeps) (auto simp: SetReadDeadline_def intro: oc.step_small)
next
  case (close_gracefully code reason t s cg s')
  show ?case by (rule onReader_keeps [OF close_gracefully(2,1) CloseGracefully_steps [OF h]])
qed

lemma conn_steps_keep:
  assumes "(conn_step wops rops h)\<^sup>*\<^sup>* s s'" and "handlers_step only_controls h" and "conn_inv s"
  shows "conn_inv s' \<and> conn_grows s s'"
  using assms(1)
proof (induction rule: rtranclp_induct)
  case base
  show ?case using assms(3) conn_grows_refl by simp
next
  case (step s1 s2)
  then show ?case using conn_step_keeps [OF assms(2)] conn_grows_trans by blast
qed

section \<open>Properties\<close>

definition newDuplex ::
  "bool \<Rightarrow> int \<Rightarrow> int \<Rightarrow> bool \<Rightarrow> (nat \<times> bytes) option \<Rightarrow> bytes option \<Rightarrow> environment \<Rightarrow> ('d, 'z) duplex" where
  "newDuplex server readBufferSize writeBufferSize writeBufferPool br wbuf env =
     (newRConn server readBufferSize writeBufferSize writeBufferPool br wbuf env, wconn.fields [] None)"

text \<open>What the handshake settles on a new connection before the application has it: compression each way, and
  the options for the mask and the validation of text.\<close>

definition agreed :: "comp_fn \<Rightarrow> comp_fn \<Rightarrow> bool \<Rightarrow> bool \<Rightarrow> ('d, 'z) duplex \<Rightarrow> ('d, 'z) duplex" where
  "agreed cw dr dm sk s = ((fst s)\<lparr>newCompressionWriter := cw, newDecompressionReader := dr, disableMask := dm,
     skipUTF8Validation := sk\<rparr>, snd s)"

lemma new_duplex:
  "as_writer (newDuplex server rs ws pool br wbuf env) = newWConn server rs ws pool br wbuf env"
  "conn_inv (newDuplex server rs ws pool br wbuf env)"
proof -
  show w: "as_writer (newDuplex server rs ws pool br wbuf env) = newWConn server rs ws pool br wbuf env"
    by (simp add: newDuplex_def newRConn_def newWConn_def as_writer_def conn.extend_def conn.truncate_def)
  have "mu (fst (newDuplex server rs ws pool br wbuf env))" by (simp add: newDuplex_def new_rconn_defs)
  moreover have "read_typed (fst (newDuplex server rs ws pool br wbuf env))"
    by (simp add: newDuplex_def new_rconn_defs read_typed_def)
  ultimately show "conn_inv (newDuplex server rs ws pool br wbuf env)" by (simp add: conn_inv_def w new_lock_inv)
qed

lemma agreed_fields [simp]:
  "as_writer (agreed cw dr dm sk s) = (as_writer s)\<lparr>newCompressionWriter := cw, newDecompressionReader := dr,
     disableMask := dm, skipUTF8Validation := sk\<rparr>"
  "netScript (fst (agreed cw dr dm sk s)) = netScript (fst s)" "wire (fst (agreed cw dr dm sk s)) = wire (fst s)"
  by (simp_all add: agreed_def duplex_defs)

lemma agreed_inv: "conn_inv (agreed cw dr dm sk (newDuplex server rs ws pool br wbuf env))"
proof -
  have "lock_inv (as_writer (agreed cw dr dm sk s)) = lock_inv (as_writer s)" for s :: "('a, 'b) duplex"
    by (rule lock_inv_same) (simp_all add: agreed_def)
  moreover have "conn_inv (newDuplex server rs ws pool br wbuf env :: ('a, 'b) duplex)" by (rule new_duplex(2))
  ultimately show ?thesis
    by (simp add: conn_inv_def agreed_def read_typed_def)
qed

text \<open>C4: one connection, read and written. Over every sequence of calls of both sides on a new connection, with
  whatever the handshake has settled for it (compression either way, masks, validation of text; messages read whole or in pieces, compressed or not, pings answered, close frames, writers, whole
  messages, control frames, settings), network failures included, with the default handlers or any
  that only send control frames: the write lock is held exactly while one message writer is open;
  when it is free no writer is open and none is current, when it is held the current writer is the one
  that is open. So two messages are never written at the same time, and the inner mutex is always
  given back.\<close>

theorem one_open_writer_duplex:
  assumes "(conn_step wops rops h)\<^sup>*\<^sup>* (agreed cw dr dm sk (newDuplex server rs ws pool br wbuf env)) s" and "handlers_step only_controls h"
    and "w = as_writer s"
  shows "(writeMu w \<longrightarrow> writer w = None \<and> (\<forall>i<length (writers w). werr (mw (writers w ! i)) \<noteq> None)) \<and>
    (\<not> writeMu w \<longrightarrow> (\<exists>j<length (writers w). writer w = Some j \<and>
      (\<forall>i<length (writers w). werr (mw (writers w ! i)) = None \<longleftrightarrow> i = j))) \<and> mu w"
proof -
  have "conn_inv s" using conn_steps_keep [OF assms(1,2) agreed_inv] by simp
  then have "lock_inv w" "mu w" using assms(3) by (simp_all add: conn_inv_def)
  then show ?thesis by (rule lock_inv_writers)
qed

text \<open>C5: after an error or a close frame nothing more is sent. Over every sequence of calls of both sides on a
  new connection, with whatever the handshake has settled for it: once a write error is latched, then after any further calls of both sides the error is
  the same and not a single byte has been added to the wire: no pong, no data, no second close frame; and
  without an error, what is on the wire is never taken back. What latches an error: any failure of the
  network among what it has answered to the writes and their deadlines so far (until CloseGracefully
  closes the network connection, whose answer is not a write's); and each of the two functions that write
  frames, for any arguments: a close frame that it sends latches ErrCloseSent, and an error it returns is
  the latched one, unless nothing was tried.\<close>

theorem nothing_after_close:
  assumes "(conn_step wops rops h)\<^sup>*\<^sup>* (agreed cw dr dm sk (newDuplex server rs ws pool br wbuf env)) s" and "(conn_step wops rops h)\<^sup>*\<^sup>* s s'"
    and "handlers_step only_controls h"
  shows "(\<exists>p. wire (fst s') = wire (fst s) @ p) \<and>
    (writeErr (fst s) \<noteq> None \<longrightarrow> writeErr (fst s') = writeErr (fst s) \<and> wire (fst s') = wire (fst s)) \<and>
    (netClosed (fst s) \<or> (\<exists>used. envNet env = used @ netScript (fst s) \<and>
      ((\<exists>k e. NetFail k e \<in> set used) \<longrightarrow> writeErr (fst s) \<noteq> None))) \<and>
    latches t (fst s) (WriteControl t p d (fst s)) \<and> latches t (fst s) (conn_write t d p q (fst s))"
proof -
  let ?s0 = "agreed cw dr dm sk (newDuplex server rs ws pool br wbuf env) :: ('a, 'b) duplex"
  have i: "conn_inv s" and g: "conn_grows ?s0 s" using conn_steps_keep [OF assms(1,3) agreed_inv] by simp_all
  have "netScript (fst ?s0) = envNet env" by (simp add: newDuplex_def new_rconn_defs)
  with g have "netClosed (fst s) \<or> (\<exists>used. envNet env = used @ netScript (fst s) \<and>
      ((\<exists>k e. NetFail k e \<in> set used) \<longrightarrow> writeErr (fst s) \<noteq> None))"
    unfolding conn_grows_def latched_def by (metis net_result.distinct(1))
  moreover have "conn_grows s s'" using conn_steps_keep [OF assms(2,3) i] by simp
  ultimately show ?thesis by (simp add: conn_grows_def WriteControl_latches conn_write_latches)
qed

text \<open>C6: the read side's values stay in their range. Over every sequence of calls of both sides on a new
  connection, whatever the handshake has settled for it, whatever the peer sends, whatever the network and the decompressor do and however the calls
  end: the state of the UTF-8 automaton is a row of its table, so that the validator finds an entry of the
  table for every byte that may come next; the position in the mask key is one of its four bytes; the rest
  of the current frame is not negative, so that it can be the length of a slice and of a skip; and the
  current reader and message reader are readers that exist.\<close>

theorem read_state_in_range:
  assumes "(conn_step wops rops h)\<^sup>*\<^sup>* (agreed cw dr dm sk (newDuplex server rs ws pool br wbuf env)) s" and "handlers_step only_controls h"
    and "c = fst s"
  shows "unat (b :: byte) < length utf8dfaTable \<and>
    256 + readUTF8State c * 16 + unat (utf8dfaTable ! unat b) < length utf8dfaTable \<and>
    readMaskPos c < 4 \<and> 0 \<le> sint (readRemaining c) \<and>
    (\<forall>i. reader c = Some i \<longrightarrow> i < length (readers c)) \<and> (\<forall>i. messageReader c = Some i \<longrightarrow> i < length (readers c))"
proof -
  have "conn_inv s" using conn_steps_keep [OF assms(1,2) agreed_inv] by simp
  then have "read_typed c" using assms(3) by (simp add: conn_inv_def)
  then show ?thesis using dfa_index_in_range [of "readUTF8State c" b 0] by (simp add: read_typed_def)
qed

lemma idle_agreed:
  "idle (c\<lparr>newCompressionWriter := cw, newDecompressionReader := dr, disableMask := dm, skipUTF8Validation := sk\<rparr>) = idle c"
  "factory_ok (c'\<lparr>newCompressionWriter := cw, newDecompressionReader := dr, disableMask := dm, skipUTF8Validation := sk\<rparr>) =
    factory_ok c'"
  by (simp_all add: idle_def net_ok_def deadline_ok_def buffers_ok_def factory_ok_def split: option.split)

text \<open>A client whose peer sends a ping: it opens a writer and then reads; or it sends a close frame first.\<close>

definition pinged :: "(unit, bytes) duplex" where
  "pinged = agreed TakeoverFn TakeoverFn False False (newDuplex False 0 0 False None None (quiet\<lparr>envIn := drip [0x89, 0]\<rparr>))"

lemma pinged_reads:
  "\<exists>r s'. onReader (NextReader no_inflate defaultHandlers) s = Some (r, s') \<and> conn_step stored_ops no_inflate defaultHandlers s s'"
proof -
  obtain r c' where "NextReader no_inflate defaultHandlers (fst s) = Some (r, c')"
    using NextReader_returns [OF default_returning, of no_inflate "fst s"] by blast
  then have "onReader (NextReader no_inflate defaultHandlers) s = Some (r, (c', snd s))" by (simp add: onReader_def)
  then show ?thesis using conn_step.next_reader by blast
qed

lemma one_open_writer_duplex_witness:
  "\<exists>s. (conn_step stored_ops no_inflate defaultHandlers)\<^sup>*\<^sup>* pinged s \<and> \<not> writeMu (as_writer s) \<and>
    (\<exists>j<length (writers (as_writer s)). writer (as_writer s) = Some j \<and>
      (\<forall>i<length (writers (as_writer s)). werr (mw (writers (as_writer s) ! i)) = None \<longleftrightarrow> i = j)) \<and> mu (as_writer s)"
proof -
  have idle: "idle (as_writer pinged)" "factory_ok (as_writer pinged)"
    using new_idle [of "quiet\<lparr>envIn := drip [0x89, 0]\<rparr>" None False 0 0 False None]
    by (simp_all add: pinged_def new_duplex(1) idle_agreed) (simp_all add: quiet_def)
  obtain i w c0 w0 where n: "NextWriter stored_ops BinaryMessage (as_writer pinged) = Some (Inr i, w)"
    and b: "begun stored_ops BinaryMessage (as_writer pinged) w0 c0 i w"
    by (rule NextWriter_begins [OF idle(1), of BinaryMessage stored_ops]) (simp_all add: idle(2) isData_def)
  define s1 where "s1 = from_writer pinged w"
  have 1: "conn_step stored_ops no_inflate defaultHandlers pinged s1"
    unfolding s1_def by (rule conn_step.write_op [OF app_step.new_writer [OF n]])
  obtain r s2 where r: "onReader (NextReader no_inflate defaultHandlers) s1 = Some (r, s2)"
    and 2: "conn_step stored_ops no_inflate defaultHandlers s1 s2" using pinged_reads by blast
  have one: "(conn_step stored_ops no_inflate defaultHandlers)\<^sup>*\<^sup>* pinged s1" using 1 by simp
  have 12: "(conn_step stored_ops no_inflate defaultHandlers)\<^sup>*\<^sup>* pinged s2" using 1 2 by simp
  note inv = one_open_writer_duplex [of stored_ops no_inflate defaultHandlers TakeoverFn TakeoverFn False False False 0 0 False None None
      "quiet\<lparr>envIn := drip [0x89, 0]\<rparr>", folded pinged_def, OF _ oc.default_steps refl]
  have "writer (as_writer s1) = Some i" using NextWriter_current [OF n] by (simp add: s1_def)
  then have "\<not> writeMu (as_writer s1)"
    using inv [OF one] by auto
  moreover have "writeMu (as_writer s2) = writeMu (as_writer s1)"
    using r steps_toD [OF oc.NextReader_steps [OF oc.default_steps]]
    by (fastforce simp: onReader_def only_controls_def adds_frames_def split: Option.bind_splits)
  ultimately show ?thesis using inv [OF 12] 12 by (intro exI [of _ s2] conjI) simp_all
qed

lemma nothing_after_close_witness:
  "\<exists>s s'. writeErr (fst s) = Some ErrCloseSent \<and> wire (fst s) \<noteq> [] \<and> conn_step stored_ops no_inflate defaultHandlers s s' \<and>
    writeErr (fst s') = Some ErrCloseSent \<and> wire (fst s') = wire (fst s)"
proof -
  have nk: "net_ok (as_writer pinged)" by (simp add: pinged_def new_duplex(1) net_ok_def new_conn_defs)
  define w where "w = after_control CloseMessage [] None (as_writer pinged)"
  have "WriteControl CloseMessage [] None (as_writer pinged) = Some (None, w)"
    unfolding w_def by (rule WriteControl_ok) (simp_all add: isControl_def nk)
  then have 1: "(conn_step stored_ops no_inflate defaultHandlers)\<^sup>*\<^sup>* pinged (from_writer pinged w)"
    by (intro r_into_rtranclp conn_step.write_op app_step.control)
  obtain s2 where 2: "conn_step stored_ops no_inflate defaultHandlers (from_writer pinged w) s2" using pinged_reads by blast
  have two: "(conn_step stored_ops no_inflate defaultHandlers)\<^sup>*\<^sup>* (from_writer pinged w) s2" using 2 by simp
  have "writeErr w = Some ErrCloseSent" "wire w \<noteq> []" by (simp_all add: w_def after_control_def encode_frame_def)
  then show ?thesis
    using nothing_after_close [of stored_ops no_inflate defaultHandlers TakeoverFn TakeoverFn False False False 0 0 False None None
      "quiet\<lparr>envIn := drip [0x89, 0]\<rparr>", folded pinged_def, OF 1 two oc.default_steps] 2
    by (intro exI [of _ "from_writer pinged w"] exI [of _ s2]) simp
qed

lemma read_state_in_range_witness:
  "\<exists>s. conn_step stored_ops no_inflate defaultHandlers pinged s \<and>
    256 + readUTF8State (fst s) * 16 + unat (utf8dfaTable ! unat (0xe2 :: 8 word)) < length utf8dfaTable \<and>
    readMaskPos (fst s) < 4 \<and> 0 \<le> sint (readRemaining (fst s))"
proof -
  obtain s where 1: "conn_step stored_ops no_inflate defaultHandlers pinged s" using pinged_reads by blast
  then have "(conn_step stored_ops no_inflate defaultHandlers)\<^sup>*\<^sup>* pinged s" by simp
  from read_state_in_range [OF this [unfolded pinged_def] oc.default_steps refl, of "0xe2"]
  show ?thesis using 1 by blast
qed

end
