(* ===== verification/Closing.thy ===== *)
theory Closing
  imports ReadErrors
begin

text \<open>
  A close frame from the peer: what it says, the close frame that answers it, and the error that the
  application gets. A close frame that may not be sent is answered as a protocol error.
\<close>

section \<open>What a close frame says\<close>

definition close_code :: "bytes \<Rightarrow> int" where
  "close_code p = (if 2 \<le> length p then int (be_val (take 2 p)) else CloseNoStatusReceived)"

definition close_text :: "bytes \<Rightarrow> string" where
  "close_text p = (if 2 \<le> length p then string_of_bytes (drop 2 p) else '''')"

definition close_allowed :: "bytes \<Rightarrow> bool" where
  "close_allowed p \<longleftrightarrow> (2 \<le> length p \<longrightarrow> isValidReceivedCloseCode (close_code p) \<and> utf8_text (drop 2 p))"

lemma close_of_format:
  assumes "isValidReceivedCloseCode code" and "utf8_text (bytes_of_string text)"
  shows "close_code (FormatCloseMessage code text) = code" "close_text (FormatCloseMessage code text) = text"
    "close_allowed (FormatCloseMessage code text)"
proof -
  have r: "0 \<le> code" "code < 65536" "code \<noteq> CloseNoStatusReceived"
    using assms(1)
    by (auto simp: isValidReceivedCloseCode_def validReceivedCloseCodes_def close_codes split: option.splits if_splits)
  have f: "FormatCloseMessage code text = be_bytes 2 (nat code) @ bytes_of_string text"
    using r by (simp add: FormatCloseMessage_def)
  have v: "be_val (be_bytes 2 (nat code)) = nat code" using r by (simp add: be_val_be_bytes)
  show "close_code (FormatCloseMessage code text) = code" using r v by (simp add: f close_code_def)
  then show "close_allowed (FormatCloseMessage code text)" using assms by (simp add: f close_allowed_def)
  show "close_text (FormatCloseMessage code text) = text" by (simp add: f close_text_def)
qed

lemma closeFrame_allowed:
  assumes "close_allowed p" and "net_ok c"
  shows "closeFrame defaultHandlers p c =
    Some ((noFrame, Some (CloseError (close_code p) (close_text p))),
      after_control CloseMessage (FormatCloseMessage (close_code p) '''') (Some (now c + writeWait)) c)"
proof -
  let ?m = "FormatCloseMessage (close_code p) ''''"
  have "length ?m \<le> maxControlFramePayloadSize"
    by (simp add: FormatCloseMessage_def bytes_of_string_def maxControlFramePayloadSize_def)
  from close_sent [OF assms(2) this]
  have "defaultCloseHandler (close_code p) (close_text p) c = Some (None, after_control CloseMessage ?m (Some (now c + writeWait)) c)"
    by (simp add: defaultCloseHandler_def)
  moreover have "closeFrame defaultHandlers p c =
     Option.bind (defaultCloseHandler (close_code p) (close_text p) c) (\<lambda>(err, c1).
       case err of Some e \<Rightarrow> failWith e c1 | None \<Rightarrow> failWith (CloseError (close_code p) (close_text p)) c1)"
    using assms(1) unfolding closeFrame_def Let_def close_allowed_def valid_text close_code_def close_text_def
    by (cases "2 \<le> length p") (simp_all add: defaultHandlers_def string_of_bytes_def cong: option.case_cong)
  ultimately show ?thesis by (simp add: failWith_def)
qed

section \<open>The frames before it\<close>

text \<open>Pings and pongs, then a close frame, where the next message or the rest of one could be.\<close>

definition closing :: "frame list \<Rightarrow> frame \<Rightarrow> bool" where
  "closing fs f \<longleftrightarrow>
     list_all (\<lambda>g. opcode g = PingMessage \<or> opcode g = PongMessage) fs \<and> opcode f = CloseMessage \<and> close_allowed (payload f)"

text \<open>The connection \<open>c'\<close> after the close frame \<open>f\<close> has been answered and its error kept.\<close>

definition closed_by :: "frame list \<Rightarrow> frame \<Rightarrow> bytes \<Rightarrow> 'd rconn \<Rightarrow> 'd rconn \<Rightarrow> bool" where
  "closed_by fs f R c c' \<longleftrightarrow>
     readErr c' = Some (CloseError (close_code (payload f)) (close_text (payload f))) \<and>
     writeErr c' = Some ErrCloseSent \<and> mu c' \<and> avail c' = R \<and> input_ok c' \<and> write_side c' = write_side c \<and> now c' = now c \<and>
     (\<exists>gs k. answers c (pings fs) gs \<and> (k \<noteq> None) = maskFrames c \<and>
       wire c' = wire c @ encode_frames gs @
         encode_frame (single_frame CloseMessage (FormatCloseMessage (close_code (payload f)) '''') k))"

lemma nextLoop_close:
  fixes c :: "'d rconn"
  assumes "at_frames c c0 (fs @ [f]) R n" and "closing fs f" and "readErrCount c < 999"
  shows "\<exists>c'. nextLoop ops defaultHandlers c =
      Some (NextErr (CloseError (close_code (payload f)) (close_text (payload f))), c') \<and> closed_by fs f R c c' \<and>
      readErrCount c' \<le> readErrCount c + 1"
  using assms
proof (induction fs arbitrary: c c0)
  case Nil
  have f: "frame_for c f" "isControl (opcode f)" and t: "opcode f = CloseMessage" "close_allowed (payload f)"
    and c: "can_read c" "readErr c = None" "skips c c0" "input_ok c0" "avail c0 = encode_frame f @ R"
    using Nil by (simp_all add: at_frames_def closing_def isControl_def)
  have rb: "maxControlFramePayloadSize \<le> rbufSize c" using c(1) by (simp add: can_read_def)
  obtain c1 where a: "advanceFrame defaultHandlers c = processControl defaultHandlers (opcode f) (payload f) c1"
    and c1: "avail c1 = R" "input_ok c1" "kept c c1" "wire c1 = wire c" "readErrCount c1 = readErrCount c"
    by (rule advance_payload_from [OF f rb c(3-5)])
  have nk: "net_ok c1" using c1(3) c(1) by (simp add: kept_def can_read_def)
  let ?e = "CloseError (close_code (payload f)) (close_text (payload f))"
  let ?m = "FormatCloseMessage (close_code (payload f)) ''''"
  define c2 where "c2 = after_control CloseMessage ?m (Some (now c1 + writeWait)) c1"
  have "processControl defaultHandlers (opcode f) (payload f) c1 = closeFrame defaultHandlers (payload f) c1"
    by (simp add: processControl_def t message_types)
  then have adv: "advanceFrame defaultHandlers c = Some ((noFrame, Some ?e), c2)"
    using a closeFrame_allowed [OF t(2) nk] by (simp add: c2_def)
  have n: "readErrCount c2 = readErrCount c" using c1(5) by (simp add: c2_def after_control_def)
  let ?c' = "c2\<lparr>readErr := Some ?e, readErrCount := readErrCount c2 + 1\<rparr>"
  have "nextLoop ops defaultHandlers c = Some (NextErr ?e, ?c')"
    using adv c(2) Nil.prems(3) n by (subst nextLoop.simps) (simp add: failedRead_def)
  moreover have "closed_by [] f R c ?c'"
  proof -
    have "wire ?c' = wire c @ encode_frame (control_frame CloseMessage ?m c1)" "writeErr ?c' = Some ErrCloseSent"
      using c1(4) by (simp_all add: c2_def close_wire)
    moreover have "mu ?c'" "write_side ?c' = write_side c" "now ?c' = now c"
      using nk c1(3) by (simp_all add: c2_def after_control_def net_ok_def kept_def)
    moreover have "avail ?c' = avail c2" "input_ok ?c' = input_ok c2" by (simp_all add: avail_def input_ok_def)
    moreover have "avail c2 = R" "input_ok c2" using control_sent(1,2) [OF nk] c1(1,2) by (simp_all add: c2_def)
    moreover have "maskFrames c1 = maskFrames c" using c1(3) by (rule kept_mask(1))
    ultimately show ?thesis
      unfolding closed_by_def control_frame_def
      by (intro conjI exI [of _ "[]"] exI [of _ "if maskFrames c1 then Some (maskRand c1 (maskIdx c1)) else None"]) (simp_all del: not_None_eq)
  qed
  ultimately show ?case using n by (intro exI [of _ ?c']) simp
next
  case (Cons g fs c c0)
  have t: "opcode g = PingMessage \<or> opcode g = PongMessage" and cl: "closing fs f"
    using Cons.prems(2) by (simp_all add: closing_def)
  have at: "at_frames c c0 (g # fs @ [f]) R n" using Cons.prems(1) by simp
  obtain c2 fs1 where n: "nextLoop ops defaultHandlers c = nextLoop ops defaultHandlers c2" and k: "kept c c2"
    and w: "wire c2 = wire c @ encode_frames fs1" and a: "answers c (pings [g]) fs1" and c2: "at_frames c2 c2 (fs @ [f]) R n"
    and rc: "readErrCount c2 = 0"
    by (rule after_control_frame [OF at t, of ops])
  obtain c' where r: "nextLoop ops defaultHandlers c2 =
      Some (NextErr (CloseError (close_code (payload f)) (close_text (payload f))), c')"
    and b: "closed_by fs f R c2 c'" and rc': "readErrCount c' \<le> 1"
    using Cons.IH [OF c2 cl] rc by auto
  obtain gs x where gs: "answers c2 (pings fs) gs" "(x \<noteq> None) = maskFrames c2" "wire c' = wire c2 @ encode_frames gs @
      encode_frame (single_frame CloseMessage (FormatCloseMessage (close_code (payload f)) '''') x)"
    using b unfolding closed_by_def by blast
  have "answers c (pings (g # fs)) (fs1 @ gs)"
    using answers_append [OF a, of "pings fs" gs] gs(1) unfolding kept_mask(2) [OF k] by (simp split: if_splits)
  moreover have "(x \<noteq> None) = maskFrames c" using gs(2) kept_mask(1) [OF k] by simp
  moreover have "wire c' = wire c @ encode_frames (fs1 @ gs) @
      encode_frame (single_frame CloseMessage (FormatCloseMessage (close_code (payload f)) '''') x)" using gs(3) w by simp
  moreover have "write_side c2 = write_side c" "now c2 = now c" using k by (simp_all add: kept_def)
  ultimately have "closed_by (g # fs) f R c c'" using b unfolding closed_by_def by metis
  then show ?case using r n rc' by auto
qed

lemma NextReader_close:
  fixes c :: "'d rconn"
  assumes "between_messages c" and "avail c = encode_frames (fs @ [f]) @ R" and "list_all (frame_for c) (fs @ [f])"
    and cl: "closing fs f" and "readErrCount c < 999"
  shows "\<exists>c'. NextReader ops defaultHandlers c =
      Some (NextErr (CloseError (close_code (payload f)) (close_text (payload f))), c') \<and> closed_by fs f R c c' \<and>
      readErrCount c' \<le> readErrCount c + 1"
proof -
  note fr = fresh_between [OF assms(1)]
  have "data_frames (fs @ [f]) = []"
    using cl by (induction fs) (auto simp: closing_def isControl_def)
  then have l: "limit_ok (fresh c) (0 + length (frame_data (data_frames (fs @ [f]))))" unfolding limit_ok_def by simp linarith
  have at: "at_frames (fresh c) (fresh c) (fs @ [f]) R 0"
    unfolding at_frames_def
  proof (intro conjI)
    show "skips (fresh c) (fresh c)" by (rule skips_none) (use fr(1) in \<open>simp add: between_messages_def\<close>)
    show "list_all (frame_for (fresh c)) (fs @ [f])" using assms(3) setup_rules(1) [OF fr(3)] by simp
  qed (use fr l assms(2) in \<open>simp_all add: between_messages_def can_read_def\<close>)
  obtain c' where "nextLoop ops defaultHandlers (fresh c) =
      Some (NextErr (CloseError (close_code (payload f)) (close_text (payload f))), c')"
    and b: "closed_by fs f R (fresh c) c'" and "readErrCount c' \<le> readErrCount c + 1"
    using nextLoop_close [OF at cl, of ops] assms(5) fresh_count(1) [of c] by auto
  moreover have "closed_by fs f R c c'"
    using b fr(3,4) unfolding closed_by_def setup_rules(3) [OF fr(3)] same_setup_def maskFrames_def by simp
  ultimately show ?thesis by (auto simp: NextReader_fresh)
qed

section \<open>Properties\<close>

text \<open>C13: the peer's close frame is answered. When the input of a connection between messages is pings
  and pongs and then a close frame (with a code that may be received and a UTF-8 text, or with
  neither), however the network cuts it: ReadMessage returns no message but a close error with that
  code and text, the pings are answered in order, then exactly one close frame with the same code
  and no text is sent (an empty one if there was no code), masked exactly when the connection
  masks; the error is kept for the reads, and ErrCloseSent for the writes. What follows the close
  frame is left unread.\<close>

theorem peer_close_answered:
  fixes c :: "'d rconn"
  assumes "between_messages c" and "avail c = encode_frames (fs @ [f]) @ R" and "list_all (frame_for c) (fs @ [f])"
    and "closing fs f" and "readErrCount c < 999"
  shows "\<exists>c' gs k. ReadMessage ops defaultHandlers grow c =
      Some (ReadDone noFrame [] (Some (CloseError (close_code (payload f)) (close_text (payload f)))), c') \<and>
    readErr c' = Some (CloseError (close_code (payload f)) (close_text (payload f))) \<and>
    writeErr c' = Some ErrCloseSent \<and> avail c' = R \<and> (k \<noteq> None) = maskFrames c \<and> map payload gs = pings fs \<and>
    list_all (\<lambda>g. opcode g = PongMessage \<and> fin g) gs \<and>
    wire c' = wire c @ encode_frames gs @ encode_frame \<lparr>fin = True, rsv1 = False, opcode = CloseMessage, mkey = k,
      payload = FormatCloseMessage (close_code (payload f)) ''''\<rparr>"
proof -
  obtain c' where n: "NextReader ops defaultHandlers c =
      Some (NextErr (CloseError (close_code (payload f)) (close_text (payload f))), c')" and b: "closed_by fs f R c c'"
    using NextReader_close [OF assms, of ops] by blast
  obtain gs k where "answers c (pings fs) gs" "(k \<noteq> None) = maskFrames c" "wire c' = wire c @ encode_frames gs @
      encode_frame (single_frame CloseMessage (FormatCloseMessage (close_code (payload f)) '''') k)"
    using b unfolding closed_by_def by blast
  then show ?thesis using n b
    by (intro exI [of _ c'] exI [of _ gs] exI [of _ k])
      (auto simp: ReadMessage_def closed_by_def answers_def single_frame_def list_all_iff)
qed

definition going_away :: frame where
  "going_away = single_frame CloseMessage (FormatCloseMessage CloseGoingAway ''bye'') None"

lemma bye_text: "utf8_text (bytes_of_string ''bye'')"
  by (rule utf8_text_ascii) (simp add: bytes_of_string_def)

lemma going_away_ok:
  "closing [single_frame PingMessage [1] None] going_away"
  "close_code (payload going_away) = CloseGoingAway" "close_text (payload going_away) = ''bye''"
  "list_all (frame_for (reader_of False p)) ([single_frame PingMessage [1] None] @ [going_away])"
proof -
  have "isValidReceivedCloseCode CloseGoingAway"
    by (simp add: isValidReceivedCloseCode_def validReceivedCloseCodes_def close_codes)
  note c = close_of_format [OF this bye_text]
  show "closing [single_frame PingMessage [1] None] going_away" using c(3) by (simp add: closing_def going_away_def single_frame_def)
  show "close_code (payload going_away) = CloseGoingAway" "close_text (payload going_away) = ''bye''"
    using c(1,2) by (simp_all add: going_away_def single_frame_def)
  show "list_all (frame_for (reader_of False p)) ([single_frame PingMessage [1] None] @ [going_away])"
    by (simp add: going_away_def single_frame_def frame_for_def known_opcode_def isControl_def message_types is_masked_def
        maxControlFramePayloadSize_def FormatCloseMessage_def close_codes bytes_of_string_def)
qed

lemma peer_close_answered_witness:
  "\<exists>c' gs k. ReadMessage no_inflate defaultHandlers (\<lambda>n. 2 * n + 1)
      (reader_of False (encode_frames ([single_frame PingMessage [1] None] @ [going_away]) @ [7])) =
      Some (ReadDone noFrame [] (Some (CloseError CloseGoingAway ''bye'')), c') \<and>
    readErr c' = Some (CloseError CloseGoingAway ''bye'') \<and> writeErr c' = Some ErrCloseSent \<and> avail c' = [7] \<and> k \<noteq> None \<and>
    map payload gs = [[1]] \<and> list_all (\<lambda>g. opcode g = PongMessage \<and> fin g) gs \<and>
    wire c' = [] @ encode_frames gs @ encode_frame \<lparr>fin = True, rsv1 = False, opcode = CloseMessage, mkey = k,
      payload = FormatCloseMessage CloseGoingAway ''''\<rparr>"
proof -
  let ?c = "reader_of False (encode_frames ([single_frame PingMessage [1] None] @ [going_away]) @ [7])"
  have "maskFrames ?c" by (simp add: maskFrames_def)
  moreover have "readErrCount ?c < 999" by (simp add: reader_of_def new_rconn_defs)
  moreover have "pings [single_frame PingMessage [1] None] = [[1]]" by (simp add: single_frame_def)
  ultimately show ?thesis
    using peer_close_answered [of ?c "[single_frame PingMessage [1] None]" going_away "[7]" no_inflate "\<lambda>n. 2 * n + 1"]
      going_away_ok by simp
qed

end
