(* ===== verification/MessageReads.thy ===== *)
theory MessageReads
  imports Reading
begin

text \<open>
  Reading one good message in pieces, whether its text is checked or not: what the callers of
  \<open>NextReader\<close> other than \<open>ReadMessage\<close> rest on.
\<close>

definition whole_left :: "'d rconn \<Rightarrow> nat \<Rightarrow> bytes list \<Rightarrow> bytes \<Rightarrow> bytes \<Rightarrow> 'd rconn \<Rightarrow> bool" where
  "whole_left c0 m ps R D c \<longleftrightarrow>
     plain_left c0 m ps R D c \<or> (\<exists>msg. utf8_text msg \<and> text_left c0 m m ps R msg D c)"

definition whole_over :: "'d rconn \<Rightarrow> bytes list \<Rightarrow> bytes \<Rightarrow> bytes \<Rightarrow> gerror \<Rightarrow> 'd rconn \<Rightarrow> bool" where
  "whole_over c0 ps R D e c \<longleftrightarrow> D = [] \<and> e = IoEOF \<and> between_messages c \<and> avail c = R \<and> opened_by c0 c ps"

lemma whole_over_plain: "message_over c0 ps R D e c \<Longrightarrow> whole_over c0 ps R D e c"
proof -
  assume a: "message_over c0 ps R D e c"
  then have "message_read (utf8_at (readUTF8State c0) (readUTF8Codepoint c0) c0) ps R c"
    by (simp add: message_over_def utf8_at_same)
  from message_read_between [OF this] a show ?thesis by (simp add: whole_over_def message_over_def)
qed

lemma whole_over_text: "text_over c0 ps R msg D e c \<Longrightarrow> utf8_text msg \<Longrightarrow> whole_over c0 ps R D e c"
  by (auto simp: text_over_cases whole_over_def message_read_between)

interpretation wr: byte_reader "readerRead ops defaultHandlers m" "whole_left c0 m ps R" "whole_over c0 ps R"
  for ops :: "'d inflate_ops" and c0 m ps R
proof unfold_locales
  fix D and n :: nat and c :: "'d rconn"
  assume l: "whole_left c0 m ps R D c" and n: "0 < n"
  then consider "plain_left c0 m ps R D c" | msg where "utf8_text msg" "text_left c0 m m ps R msg D c"
    by (auto simp: whole_left_def)
  then show "(\<exists>d D' s'. readerRead ops defaultHandlers m n c = Some ((d, None), s') \<and> d \<noteq> [] \<and> length d \<le> n \<and>
      D = d @ D' \<and> whole_left c0 m ps R D' s') \<or>
    (\<exists>e s'. readerRead ops defaultHandlers m n c = Some (([], Some e), s') \<and> whole_over c0 ps R D e s')"
  proof cases
    case 1
    from pr.rd_left [OF this n] show ?thesis by (metis whole_left_def whole_over_plain)
  next
    case 2
    from tr.rd_left [OF this(2) n] show ?thesis by (metis whole_left_def whole_over_text 2(1))
  qed
qed

text \<open>The frames of a message this connection accepts and can return.\<close>

definition message_for :: "'d rconn \<Rightarrow> frame list \<Rightarrow> bool" where
  "message_for c fs \<longleftrightarrow>
     (\<exists>t. incoming t False fs \<and> (validating t c \<longrightarrow> utf8_text (frame_data (data_frames fs)))) \<and>
     list_all (frame_for c) fs \<and> limit_ok c (length (frame_data (data_frames fs)))"

lemma message_for_setup: "same_setup c c' \<Longrightarrow> message_for c' = message_for c"
  by (simp add: message_for_def setup_rules fun_eq_iff)

lemma NextReader_whole:
  fixes c :: "'d rconn"
  assumes "between_messages c" and "avail c = encode_frames fs @ R" and "message_for c fs"
  obtains t c1 m qs ps where "NextReader ops defaultHandlers c = Some (NextOk t m, c1)" and "opened_by c c1 qs"
    and "whole_left c1 m ps R (frame_data (data_frames fs)) c1" and "pings fs = qs @ ps"
proof -
  obtain t where i: "incoming t False fs" and u: "validating t c \<longrightarrow> utf8_text (frame_data (data_frames fs))"
    and f: "list_all (frame_for c) fs" and l: "limit_ok c (length (frame_data (data_frames fs)))"
    using assms(3) by (auto simp: message_for_def)
  obtain c1 m qs ps where nr: "NextReader ops defaultHandlers c = Some (NextOk t m, c1)" and o: "opened_by c c1 qs"
    and ml: "message_left c1 m ps R (frame_data (data_frames fs)) c1" and ps: "pings fs = qs @ ps"
    and rd: "readers c1 ! m = \<lparr>rmsg = m, dec = NoDec, rfailed = (if validating t c then Some False else None)\<rparr>"
    and v: "validating t c \<longrightarrow> utf8_at utf8Accept 0 c1 = c1"
    by (rule NextReader_ok [OF assms(1,2) i f l, of ops])
  have "whole_left c1 m ps R (frame_data (data_frames fs)) c1"
  proof (cases "validating t c")
    case False
    then show ?thesis using ml rd by (simp add: whole_left_def plain_left_def)
  next
    case True
    then have "text_left c1 m m ps R (frame_data (data_frames fs)) (frame_data (data_frames fs)) c1"
      using ml rd v by (simp add: text_left_start)
    then show ?thesis using u True by (auto simp: whole_left_def)
  qed
  then show thesis using that nr o ps by blast
qed

end
