(* ===== verification/Inflate.thy ===== *)
theory Inflate
  imports MessageReads
begin

text \<open>
  The decompressing readers of src/compression.go above the message reader. What is asked of the
  decompressor is stated as a predicate on its machine: fed with a stream in pieces of any sizes it
  yields the data and then the end. Interpretations of the interfaces of package io and of the UTF-8
  reader give the reading of a compressed message.
\<close>

section \<open>What a decompressor does\<close>

text \<open>In state \<open>z\<close> with the input \<open>T\<close> to come the decompressor yields \<open>S\<close> and then the end, which it
  reports in a read of its own once it has all the input.\<close>

inductive inflating :: "'d inflate_ops \<Rightarrow> 'd \<Rightarrow> bytes \<Rightarrow> bytes \<Rightarrow> bool" for ops where
  inflatingI: "(\<And>n. 0 < n \<Longrightarrow>
     (\<exists>d S' z'. inf_step ops n z = Yield d None z' \<and> d \<noteq> [] \<and> length d \<le> n \<and> S = d @ S' \<and> inflating ops z' T S') \<or>
     (\<exists>z'. inf_step ops n z = Yield [] (Some IoEOF) z' \<and> T = [] \<and> S = []) \<or>
     (\<exists>k g. inf_step ops n z = Pull k g \<and> 0 < k \<and> T \<noteq> [] \<and>
        (\<forall>x T'. x \<noteq> [] \<longrightarrow> length x \<le> k \<longrightarrow> T = x @ T' \<longrightarrow> inflating ops (g (x, None)) T' S))) \<Longrightarrow>
   inflating ops z T S"

section \<open>The input of the decompressor\<close>

definition dec_at :: "'d rpipe list \<Rightarrow> 'd flateReader option \<Rightarrow> bytes \<Rightarrow> 'd rconn \<Rightarrow> 'd rconn" where
  "dec_at rs fac win c = c\<lparr>readers := rs, rfactory := fac, rwindow := win\<rparr>"

abbreviation dec_of :: "'d rconn \<Rightarrow> 'd rconn \<Rightarrow> 'd rconn" where
  "dec_of c c0 \<equiv> dec_at (readers c) (rfactory c) (rwindow c) c0"

lemma dec_at_simps [simp]:
  "wire (dec_at rs fac win c) = wire c" "readErr (dec_at rs fac win c) = readErr c" "net_ok (dec_at rs fac win c) = net_ok c"
  "maskFrames (dec_at rs fac win c) = maskFrames c" "answers (dec_at rs fac win c) ps fs = answers c ps fs"
  "readers (dec_at rs fac win c) = rs" "rfactory (dec_at rs fac win c) = fac" "rwindow (dec_at rs fac win c) = win"
  "readUTF8State (dec_at rs fac win c) = readUTF8State c" "readUTF8Codepoint (dec_at rs fac win c) = readUTF8Codepoint c"
  "dec_at rs fac win (dec_at rs' fac' win' c) = dec_at rs fac win c"
  "dec_at rs fac win (utf8_at st x c) = utf8_at st x (dec_at rs fac win c)"
  "can_read (dec_at rs fac win c) = can_read c" "avail (dec_at rs fac win c) = avail c"
  "messageReader (dec_at rs fac win c) = messageReader c" "readRemaining (dec_at rs fac win c) = readRemaining c"
  "readFinal (dec_at rs fac win c) = readFinal c" "readLength (dec_at rs fac win c) = readLength c"
  "masked_rest (dec_at rs fac win c) = masked_rest c" "frame_for (dec_at rs fac win c) = frame_for c"
  "limit_ok (dec_at rs fac win c) = limit_ok c"
  by (simp_all add: dec_at_def utf8_at_def net_ok_def maskFrames_def answers_def can_read_def input_ok_def avail_def
      masked_rest_def frame_for_def limit_ok_def fun_eq_iff)

lemma utf8_dec_fields [simp]:
  "readers (utf8_at st x c) = readers c" "rfactory (utf8_at st x c) = rfactory c" "rwindow (utf8_at st x c) = rwindow c"
  "avail (utf8_at st x c) = avail c"
  by (simp_all add: utf8_at_def avail_def)

lemma kept_dec: "kept c0 c \<Longrightarrow> kept (dec_at rs fac win c0) (dec_at rs fac win c)"
  by (simp add: kept_def dec_at_def net_ok_def)

lemma dec_at_left: "message_left c0 m ps R D c \<Longrightarrow> message_left (dec_at rs fac win c0) m ps R D (dec_at rs fac win c)"
  using kept_dec unfolding message_left_def message_at_def dec_at_simps by blast

lemma dec_at_read: "message_read c0 ps R c \<Longrightarrow> message_read (dec_at rs fac win c0) ps R (dec_at rs fac win c)"
  by (auto simp: message_read_def kept_def dec_at_def net_ok_def can_read_def input_ok_def avail_def answers_def maskFrames_def)

lemma utf8_at_read: "message_read (utf8_at st x c0) ps R c \<Longrightarrow> message_read (utf8_at a b c0) ps R (utf8_at a b c)"
  by (auto simp: message_read_def kept_def utf8_at_def net_ok_def can_read_def input_ok_def avail_def answers_def maskFrames_def)

text \<open>The message with its tail: \<open>T\<close> is still to come.\<close>

definition feeding :: "'d rconn \<Rightarrow> nat \<Rightarrow> bytes list \<Rightarrow> bytes \<Rightarrow> bytes \<Rightarrow> 'd flateReader \<Rightarrow> 'd rconn \<Rightarrow> bool" where
  "feeding c0 m ps R T f c \<longleftrightarrow>
     frMsg f = m \<and>
     (case frTail f of
        None \<Rightarrow> \<exists>M. T = M @ deflateMessageTailRead \<and> message_left c0 m ps R M c
      | Some t \<Rightarrow> T = t \<and> message_read c0 ps R c)"

lemma feeding_fr [simp]: "feeding c0 m ps R T (f\<lparr>fr := z\<rparr>) c = feeding c0 m ps R T f c"
  by (simp add: feeding_def)

lemma feeding_dec: "feeding c0 m ps R T f c \<Longrightarrow> feeding (dec_at rs fac win c0) m ps R T f (dec_at rs fac win c)"
  using dec_at_left [of c0 m ps R _ c] dec_at_read [of c0 ps R c] by (auto simp: feeding_def split: option.splits)

lemma feeding_utf8: "feeding (utf8_at st x c0) m ps R T f c \<Longrightarrow> feeding (utf8_at a b c0) m ps R T f (utf8_at a b c)"
  using utf8_at_left [of st x c0 m ps R _ c a b] utf8_at_read [of st x c0 ps R c a b]
  by (auto simp: feeding_def split: option.splits)

lemma feeding_validates: "feeding (utf8_at st x c0) m ps R T f c \<Longrightarrow> validates c0 st x c"
  by (auto simp: feeding_def validates_left validates_over split: option.splits)

lemma feeding_kept:
  assumes "feeding c0 m ps R T f c"
  shows "readers c = readers c0" "rfactory c = rfactory c0" "rwindow c = rwindow c0"
  using assms message_left_fields(3) [of c0 m ps R _ c]
  by (auto simp: feeding_def message_read_def kept_def split: option.splits)

lemma tail_not_empty [simp]: "deflateMessageTailRead \<noteq> []"
  by (simp add: deflateMessageTailRead_def)

lemma tail_piece:
  assumes "message_read c0 ps R c" and "frMsg f = m" and "t \<noteq> []" and "0 < k"
  shows "\<exists>x T' f'. tailRead k f t = ((x, None), f') \<and> x \<noteq> [] \<and> length x \<le> k \<and> t = x @ T' \<and>
    feeding c0 m ps R T' f' c \<and> fr f' = fr f"
  using assms by (intro exI [of _ "take k t"] exI [of _ "drop k t"]) (simp add: tailRead_def feeding_def)

lemma multiRead_ok:
  assumes "feeding c0 m ps R T f c" and "T \<noteq> []" and "0 < k"
  shows "\<exists>x T' f' c'. multiRead defaultHandlers k f c = Some ((x, None), f', c') \<and> x \<noteq> [] \<and> length x \<le> k \<and> T = x @ T' \<and>
    feeding c0 m ps R T' f' c' \<and> fr f' = fr f"
proof (cases "frTail f")
  case (Some t)
  then have "message_read c0 ps R c" "frMsg f = m" "t \<noteq> []" "T = t" using assms(1,2) by (simp_all add: feeding_def)
  from tail_piece [OF this(1-3) assms(3)] this(4) show ?thesis using Some by (auto simp: multiRead_def)
next
  case None
  then obtain M where T: "T = M @ deflateMessageTailRead" and l: "message_left c0 m ps R M c" and m: "frMsg f = m"
    using assms(1) by (auto simp: feeding_def)
  from mr.rd_left [OF l assms(3)] show ?thesis
  proof (elim disjE exE conjE)
    fix d M' c'
    assume "mrRead defaultHandlers m k c = Some ((d, None), c')" "d \<noteq> []" "length d \<le> k" "M = d @ M'" "message_left c0 m ps R M' c'"
    then show ?thesis using None m T
      by (intro exI [of _ d] exI [of _ "M' @ deflateMessageTailRead"] exI [of _ f] exI [of _ c'])
        (auto simp: multiRead_def feeding_def)
  next
    fix e c'
    assume r: "mrRead defaultHandlers m k c = Some (([], Some e), c')" and o: "message_over c0 ps R M e c'"
    then have x: "M = []" "e = IoEOF" "message_read c0 ps R c'" by (simp_all add: message_over_def)
    from tail_piece [OF x(3), of "f\<lparr>frTail := Some deflateMessageTailRead\<rparr>" m deflateMessageTailRead k]
    show ?thesis using None m T r x assms(3) by (auto simp: multiRead_def)
  qed
qed

section \<open>One read\<close>

definition reads_on ::
  "'d inflate_ops \<Rightarrow> nat \<Rightarrow> 'd rconn \<Rightarrow> nat \<Rightarrow> bytes list \<Rightarrow> bytes \<Rightarrow> bytes \<Rightarrow> 'd flateReader \<Rightarrow> 'd rconn \<Rightarrow> bool" where
  "reads_on ops n c0 m ps R S f c \<longleftrightarrow>
    (\<exists>d S' T' f' c'. flateRead ops defaultHandlers n f c = Some ((d, None), f', c') \<and> d \<noteq> [] \<and> length d \<le> n \<and>
      S = d @ S' \<and> inflating ops (fr f') T' S' \<and> feeding c0 m ps R T' f' c') \<or>
    (\<exists>f' c'. flateRead ops defaultHandlers n f c = Some (([], Some IoEOF), f', c') \<and> S = [] \<and> feeding c0 m ps R [] f' c')"

lemma flateRead_ok:
  assumes "inflating ops z T S" and "fr f = z" and "feeding c0 m ps R T f c" and "0 < n"
  shows "reads_on ops n c0 m ps R S f c"
  using assms
proof (induction arbitrary: f c rule: inflating.induct)
  case (inflatingI z S T)
  note prems = inflatingI.prems
  from inflatingI.IH [OF prems(3)]
  consider (yields) d S' z' where "inf_step ops n z = Yield d None z'" "d \<noteq> []" "length d \<le> n" "S = d @ S'" "inflating ops z' T S'"
    | (ends) z' where "inf_step ops n z = Yield [] (Some IoEOF) z'" "T = []" "S = []"
    | (pulls) k g where "inf_step ops n z = Pull k g" "0 < k" "T \<noteq> []"
        "\<And>x T' f c. x \<noteq> [] \<Longrightarrow> length x \<le> k \<Longrightarrow> T = x @ T' \<Longrightarrow> fr f = g (x, None) \<Longrightarrow>
          feeding c0 m ps R T' f c \<Longrightarrow> reads_on ops n c0 m ps R S f c"
    apply (elim disjE exE conjE)
    subgoal by (rule yields)
    subgoal by (rule ends)
    subgoal using prems(3) by (intro pulls) blast+
    done
  then show ?case
  proof cases
    case yields
    have "flateRead ops defaultHandlers n f c = Some ((d, None), f\<lparr>fr := z'\<rparr>, c)"
      by (subst flateRead.simps) (simp add: prems(1) yields(1))
    then show ?thesis using yields prems(2) unfolding reads_on_def
      by (intro disjI1 exI [of _ d] exI [of _ S'] exI [of _ T] exI [of _ "f\<lparr>fr := z'\<rparr>"] exI [of _ c]) simp
  next
    case ends
    have "flateRead ops defaultHandlers n f c = Some (([], Some IoEOF), f\<lparr>fr := z'\<rparr>, c)"
      by (subst flateRead.simps) (simp add: prems(1) ends(1))
    then show ?thesis using ends prems(2) unfolding reads_on_def
      by (intro disjI2 exI [of _ "f\<lparr>fr := z'\<rparr>"] exI [of _ c]) simp
  next
    case pulls
    obtain x T' f' c' where m: "multiRead defaultHandlers k f c = Some ((x, None), f', c')" "x \<noteq> []" "length x \<le> k"
      "T = x @ T'" "feeding c0 m ps R T' f' c'"
      using multiRead_ok [OF prems(2) pulls(3,2)] by blast
    have "flateRead ops defaultHandlers n f c = flateRead ops defaultHandlers n (f'\<lparr>fr := g (x, None)\<rparr>) c'"
      by (subst flateRead.simps) (simp add: prems(1) pulls(1) m(1))
    moreover have "reads_on ops n c0 m ps R S (f'\<lparr>fr := g (x, None)\<rparr>) c'"
      by (rule pulls(4) [OF m(2-4)]) (simp_all add: m(5))
    ultimately show ?thesis by (simp add: reads_on_def)
  qed
qed

section \<open>The decompressing reader\<close>

text \<open>The window after the bytes \<open>s\<close>.\<close>

definition windowed :: "bytes \<Rightarrow> bytes \<Rightarrow> bytes" where
  "windowed w s = (if s = [] then w else appendWindow w s)"

lemma windowed_Nil [simp]: "windowed w [] = w"
  by (simp add: windowed_def)

lemma appendWindow_drop: "appendWindow w d = drop (length (w @ d) - maxWindowBits) (w @ d)"
  by (simp add: appendWindow_def Let_def)

lemma appendWindow_append: "appendWindow (appendWindow w a) b = appendWindow w (a @ b)"
proof -
  define k where "k = length (w @ a) - maxWindowBits"
  have "drop k (w @ a) @ b = drop k (w @ a @ b)" by (simp add: k_def)
  moreover have "length (drop k (w @ a @ b)) - maxWindowBits + k = length (w @ a @ b) - maxWindowBits"
    by (simp add: k_def)
  ultimately show ?thesis unfolding appendWindow_drop k_def [symmetric] by (simp add: drop_drop del: drop_append)
qed

lemma windowed_append: "b \<noteq> [] \<Longrightarrow> appendWindow (windowed w a) b = windowed w (a @ b)"
  by (simp add: windowed_def appendWindow_append)

text \<open>Reader \<open>m\<close> of the connection, with the takeover decompressor or one of its own.\<close>

definition holds_dec :: "bool \<Rightarrow> nat \<Rightarrow> 'd flateReader \<Rightarrow> 'd rconn \<Rightarrow> bool" where
  "holds_dec tk m f c \<longleftrightarrow>
     m < length (readers c) \<and> rmsg (readers c ! m) = m \<and>
     (if tk then dec (readers c ! m) = TakeDec True \<and> rfactory c = Some f
      else dec (readers c ! m) = PoolDec (Some f))"

text \<open>In the middle of the message \<open>msg\<close>, opened on \<open>c0\<close>, and after it.\<close>

definition comp_left ::
  "'d inflate_ops \<Rightarrow> bool \<Rightarrow> 'd rconn \<Rightarrow> nat \<Rightarrow> bytes list \<Rightarrow> bytes \<Rightarrow> bytes \<Rightarrow> nat \<Rightarrow> rune \<Rightarrow> bytes \<Rightarrow> 'd rconn \<Rightarrow> bool" where
  "comp_left ops tk c0 m ps R msg st x S c \<longleftrightarrow>
     (\<exists>T f seen. holds_dec tk m f c \<and> inflating ops (fr f) T S \<and> msg = seen @ S \<and>
        rfailed (readers c ! m) = rfailed (readers c0 ! m) \<and>
        rwindow c = (if tk then windowed (rwindow c0) seen else rwindow c0) \<and>
        feeding (utf8_at st x (dec_of c c0)) m ps R T f c)"

definition comp_over :: "bool \<Rightarrow> 'd rconn \<Rightarrow> bytes list \<Rightarrow> bytes \<Rightarrow> bytes \<Rightarrow> nat \<Rightarrow> rune \<Rightarrow> 'd rconn \<Rightarrow> bool" where
  "comp_over tk c0 ps R msg st x c \<longleftrightarrow>
     message_read (utf8_at st x (dec_of c c0)) ps R c \<and>
     rwindow c = (if tk then windowed (rwindow c0) msg else rwindow c0)"

lemma comp_move: "comp_left ops tk c0 m ps R msg st x S c \<Longrightarrow> comp_left ops tk c0 m ps R msg a b S (utf8_at a b c)"
proof -
  assume "comp_left ops tk c0 m ps R msg st x S c"
  then obtain T f seen where h: "holds_dec tk m f c" "inflating ops (fr f) T S" "msg = seen @ S"
    "rfailed (readers c ! m) = rfailed (readers c0 ! m)"
    "rwindow c = (if tk then windowed (rwindow c0) seen else rwindow c0)"
    "feeding (utf8_at st x (dec_of c c0)) m ps R T f c" by (auto simp: comp_left_def)
  show ?thesis
    unfolding comp_left_def
    by (intro exI [of _ T] exI [of _ f] exI [of _ seen] conjI)
      (use h(1-5) feeding_utf8 [OF h(6)] in \<open>simp_all add: holds_dec_def\<close>)
qed

lemma validates_dec: "validates (dec_of c' c0) st x c = validates c0 st x c"
  by (simp add: validates_def)

lemma comp_left_validates: "comp_left ops tk c0 m ps R msg st x S c \<Longrightarrow> validates c0 st x c"
  unfolding comp_left_def
  using feeding_validates validates_dec by blast

lemma comp_over_validates: "comp_over tk c0 ps R msg st x c \<Longrightarrow> validates c0 st x c"
  unfolding comp_over_def using validates_over validates_dec by blast

text \<open>The reader's state after a read of \<open>d\<close>.\<close>

definition dec_put :: "bool \<Rightarrow> nat \<Rightarrow> 'd flateReader option \<Rightarrow> 'd flateReader \<Rightarrow> bytes \<Rightarrow> 'd rconn \<Rightarrow> 'd rconn" where
  "dec_put tk m o' f d c =
     (if tk then c\<lparr>rfactory := Some f, rwindow := (if length d > 0 then appendWindow (rwindow c) d else rwindow c)\<rparr>
      else set_dec m (PoolDec o') c)"

lemma decRead_flate:
  assumes "holds_dec tk m f c"
  shows "decRead ops h m n c =
    do { ((d, e), f1, c1) \<leftarrow> flateRead ops h n f c;
         Some ((d, e), dec_put tk m (if e = Some IoEOF then None else Some f1) f1 d c1) }"
  using assms by (cases tk) (auto simp: holds_dec_def decRead_def dec_defs dec_put_def)

lemma dec_put_as:
  "dec_put tk m o' f d c = dec_at (readers (dec_put tk m o' f d c)) (rfactory (dec_put tk m o' f d c))
     (rwindow (dec_put tk m o' f d c)) c"
  by (simp add: dec_put_def dec_at_def set_dec_def)

lemma comp_read:
  assumes l: "comp_left ops tk c0 m ps R msg st x S c" and n: "0 < n"
  shows "(\<exists>d S' c'. decRead ops defaultHandlers m n c = Some ((d, None), c') \<and> d \<noteq> [] \<and> length d \<le> n \<and> S = d @ S' \<and>
      comp_left ops tk c0 m ps R msg st x S' c') \<or>
    (\<exists>c'. decRead ops defaultHandlers m n c = Some (([], Some IoEOF), c') \<and> S = [] \<and> comp_over tk c0 ps R msg st x c')"
proof -
  obtain T f seen where h: "holds_dec tk m f c" "inflating ops (fr f) T S" "msg = seen @ S"
    "rfailed (readers c ! m) = rfailed (readers c0 ! m)"
    "rwindow c = (if tk then windowed (rwindow c0) seen else rwindow c0)"
    and fd: "feeding (utf8_at st x (dec_of c c0)) m ps R T f c" using l by (auto simp: comp_left_def)
  note kc = feeding_kept
  from flateRead_ok [OF h(2) refl fd n] show ?thesis unfolding reads_on_def
  proof (elim disjE exE conjE)
    fix d S' T' f1 c1
    assume r: "flateRead ops defaultHandlers n f c = Some ((d, None), f1, c1)" "d \<noteq> []" "length d \<le> n" "S = d @ S'"
      "inflating ops (fr f1) T' S'" and f1: "feeding (utf8_at st x (dec_of c c0)) m ps R T' f1 c1"
    define c2 where "c2 = dec_put tk m (Some f1) f1 d c1"
    have k: "readers c1 = readers c" "rfactory c1 = rfactory c" "rwindow c1 = rwindow c" using kc [OF f1] by simp_all
    have "decRead ops defaultHandlers m n c = Some ((d, None), c2)" using r(1) by (simp add: decRead_flate [OF h(1)] c2_def)
    moreover have "comp_left ops tk c0 m ps R msg st x S' c2"
      unfolding comp_left_def
    proof (intro exI conjI)
      show "holds_dec tk m f1 c2" "rfailed (readers c2 ! m) = rfailed (readers c0 ! m)"
        using h(1,4) k by (auto simp: c2_def dec_put_def holds_dec_def set_dec_def)
      show "msg = (seen @ d) @ S'" using h(3) r(4) by simp
      show "rwindow c2 = (if tk then windowed (rwindow c0) (seen @ d) else rwindow c0)"
        using h(5) k r(2) by (simp add: c2_def dec_put_def set_dec_def windowed_append)
      have "c2 = dec_of c2 c1" unfolding c2_def by (rule dec_put_as)
      then show "feeding (utf8_at st x (dec_of c2 c0)) m ps R T' f1 c2"
        using feeding_dec [OF f1, of "readers c2" "rfactory c2" "rwindow c2"] by simp
    qed (rule r(5))
    ultimately show ?thesis using r(2-4) by blast
  next
    fix f1 c1
    assume r: "flateRead ops defaultHandlers n f c = Some (([], Some IoEOF), f1, c1)" "S = []"
      and f1: "feeding (utf8_at st x (dec_of c c0)) m ps R [] f1 c1"
    define c2 where "c2 = dec_put tk m None f1 [] c1"
    have k: "rwindow c1 = rwindow c" using kc [OF f1] by simp
    have "message_read (utf8_at st x (dec_of c c0)) ps R c1" using f1 by (auto simp: feeding_def split: option.splits)
    moreover have "c2 = dec_of c2 c1" unfolding c2_def by (rule dec_put_as)
    ultimately have "message_read (utf8_at st x (dec_of c2 c0)) ps R c2"
      using dec_at_read [of "utf8_at st x (dec_of c c0)" ps R c1 "readers c2" "rfactory c2" "rwindow c2"] by simp
    moreover have "rwindow c2 = (if tk then windowed (rwindow c0) msg else rwindow c0)"
      using h(3,5) k r(2) by (simp add: c2_def dec_put_def set_dec_def)
    ultimately have "comp_over tk c0 ps R msg st x c2" by (simp add: comp_over_def)
    moreover have "decRead ops defaultHandlers m n c = Some (([], Some IoEOF), c2)"
      using r(1) by (simp add: decRead_flate [OF h(1)] c2_def)
    ultimately show ?thesis using r(2) by blast
  qed
qed

interpretation cs: text_source "decRead ops defaultHandlers m" c0 "comp_left ops tk c0 m ps R msg" "comp_over tk c0 ps R msg"
  for ops :: "'d inflate_ops" and m c0 tk ps R msg
  by unfold_locales (rule comp_read comp_move comp_left_validates comp_over_validates; assumption)+

end
