(* ===== verification/Compressed.thy ===== *)
theory Compressed
  imports Inflate
begin

text \<open>
  \<open>NextReader\<close> and \<open>ReadMessage\<close> above a decompressor, and what \<open>ReadMessage\<close> makes of a message on the
  wire, whether it is compressed or not.
\<close>

section \<open>The interface of package io\<close>

definition inflated_left ::
  "'d inflate_ops \<Rightarrow> bool \<Rightarrow> 'd rconn \<Rightarrow> nat \<Rightarrow> bytes list \<Rightarrow> bytes \<Rightarrow> bytes \<Rightarrow> bytes \<Rightarrow> 'd rconn \<Rightarrow> bool" where
  "inflated_left ops tk c0 m ps R msg D c \<longleftrightarrow>
     rfailed (readers c0 ! m) = None \<and> (\<exists>st x. comp_left ops tk c0 m ps R msg st x D c) \<or>
     rfailed (readers c0 ! m) = Some False \<and> text_in (comp_left ops tk c0 m ps R msg) msg D c"

definition inflated_over :: "bool \<Rightarrow> 'd rconn \<Rightarrow> nat \<Rightarrow> bytes list \<Rightarrow> bytes \<Rightarrow> bytes \<Rightarrow> bytes \<Rightarrow> gerror \<Rightarrow> 'd rconn \<Rightarrow> bool" where
  "inflated_over tk c0 m ps R msg D e c \<longleftrightarrow>
     (if rfailed (readers c0 ! m) = None \<or> utf8_text msg
      then D = [] \<and> e = IoEOF \<and> (\<exists>st x. comp_over tk c0 ps R msg st x c)
      else e = ErrInvalidUTF8 \<and> bad_text_closed c0 c)"

lemma comp_left_failed: "comp_left ops tk c0 m ps R msg st x D c \<Longrightarrow> rfailed (readers c ! m) = rfailed (readers c0 ! m)"
  by (auto simp: comp_left_def)

lemma readerRead_unchecked:
  "rfailed (readers c ! i) = None \<Longrightarrow> readerRead ops h i n c = decRead ops h i n c"
  by (simp add: readerRead_def)

interpretation ci: byte_reader "readerRead ops defaultHandlers m" "inflated_left ops tk c0 m ps R msg"
    "inflated_over tk c0 m ps R msg"
  for ops :: "'d inflate_ops" and m tk c0 ps R msg
proof unfold_locales
  fix D and n :: nat and c :: "'d rconn"
  assume l: "inflated_left ops tk c0 m ps R msg D c" and n: "0 < n"
  then consider (raw) st x where "rfailed (readers c0 ! m) = None" "comp_left ops tk c0 m ps R msg st x D c"
    | (checked) "rfailed (readers c0 ! m) = Some False" "text_in (comp_left ops tk c0 m ps R msg) msg D c"
    by (auto simp: inflated_left_def)
  then show "(\<exists>d D' s'. readerRead ops defaultHandlers m n c = Some ((d, None), s') \<and> d \<noteq> [] \<and> length d \<le> n \<and>
      D = d @ D' \<and> inflated_left ops tk c0 m ps R msg D' s') \<or>
    (\<exists>e s'. readerRead ops defaultHandlers m n c = Some (([], Some e), s') \<and> inflated_over tk c0 m ps R msg D e s')"
  proof cases
    case raw
    have "readerRead ops defaultHandlers m n c = decRead ops defaultHandlers m n c"
      using raw comp_left_failed by (metis readerRead_unchecked)
    with cs.left_step [OF raw(2) n] raw(1) show ?thesis unfolding inflated_left_def inflated_over_def by (simp; metis)
  next
    case checked
    have "readerRead ops defaultHandlers m n c = checkedRead m (decRead ops defaultHandlers m) n c"
      using checked(1,2) comp_left_failed unfolding text_in_def by (metis readerRead_checked)
    with cs.checked_read [OF checked(2) n, of m] checked(1) show ?thesis
      unfolding inflated_left_def inflated_over_def text_end_def by (auto split: if_splits)
  qed
qed

section \<open>Reading a compressed message\<close>

text \<open>The dictionary the decompressor starts a message with, and the window after it.\<close>

definition start_dict :: "'d rconn \<Rightarrow> bytes" where
  "start_dict c = (if newDecompressionReader c = TakeoverFn then rwindow c else [])"

definition next_window :: "bytes \<Rightarrow> 'd rconn \<Rightarrow> bytes" where
  "next_window msg c = (if newDecompressionReader c = TakeoverFn then windowed (rwindow c) msg else rwindow c)"

lemma opened_inflated:
  fixes c :: "'d rconn"
  assumes oa: "opened_at ops c t True R data c1 m qs ps"
    and inf: "inflating ops (inf_reset ops (start_dict c)) (data @ deflateMessageTailRead) msg"
  shows "inflated_left ops (newDecompressionReader c = TakeoverFn) c1 m ps R msg msg c1"
proof -
  define tk where "tk = (newDecompressionReader c = TakeoverFn)"
  have ml: "message_left c1 m ps R data c1" and m: "m < length (readers c1)"
    and rd: "readers c1 ! m = \<lparr>rmsg = m, dec = first_dec ops True (newDecompressionReader c) m,
      rfailed = (if validating t c then Some False else None)\<rparr>"
    and v: "validating t c \<longrightarrow> utf8_at utf8Accept 0 c1 = c1"
    and fac: "True \<and> newDecompressionReader c = TakeoverFn \<longrightarrow> rfactory c1 = Some (newFlateReader ops (rwindow c) m)"
    using oa by (simp_all add: opened_at_def)
  have same: "dec_of c1 c1 = c1" by (simp add: dec_at_def)
  have "comp_left ops tk c1 m ps R msg st x msg c1" if "utf8_at st x c1 = c1" for st x
    unfolding comp_left_def
  proof (intro exI conjI)
    show "msg = [] @ msg" by simp
    show "holds_dec tk m (newFlateReader ops (start_dict c) m) c1"
      using m rd fac by (simp add: holds_dec_def first_dec_def tk_def start_dict_def)
    show "inflating ops (fr (newFlateReader ops (start_dict c) m)) (data @ deflateMessageTailRead) msg"
      using inf by (simp add: newFlateReader_def)
    show "feeding (utf8_at st x (dec_of c1 c1)) m ps R (data @ deflateMessageTailRead) (newFlateReader ops (start_dict c) m) c1"
      unfolding same that using ml by (auto simp: feeding_def newFlateReader_def)
  qed simp_all
  moreover have "utf8_at (readUTF8State c1) (readUTF8Codepoint c1) c1 = c1" by (rule utf8_at_same)
  moreover have "rfailed (readers c1 ! m) = (if validating t c then Some False else None)" by (simp add: rd)
  moreover have "dfa_run utf8Accept 0 [] = (utf8Accept, 0)" by simp
  ultimately have "inflated_left ops tk c1 m ps R msg msg c1"
    unfolding inflated_left_def text_in_def using v
    by (cases "validating t c") (auto simp: utf8Accept_def utf8Reject_def intro!: exI [of _ "[]"])
  then show ?thesis by (simp add: tk_def)
qed

lemma ReadMessage_inflated_from:
  fixes c :: "'d rconn"
  assumes oa: "opened_at ops c t True R data c1 m qs ps"
    and inf: "inflating ops (inf_reset ops (start_dict c)) (data @ deflateMessageTailRead) msg" and g: "grows_buffer grow"
  shows "\<exists>p e c'. ReadMessage ops defaultHandlers grow c = Some (ReadDone t p e, c') \<and>
    (if validating t c \<and> \<not> utf8_text msg then e = Some ErrInvalidUTF8 \<and> (\<exists>q. msg = p @ q) \<and>
       readErr c' = Some ErrInvalidUTF8 \<and> (\<exists>c0 qs. opened_by c c0 qs \<and> bad_text_closed c0 c')
     else e = None \<and> p = msg \<and> between_messages c' \<and> avail c' = R \<and> opened_by c c' (qs @ ps) \<and>
       rwindow c' = next_window msg c)"
proof -
  define tk where "tk = (newDecompressionReader c = TakeoverFn)"
  have nr: "NextReader ops defaultHandlers c = Some (NextOk t m, c1)" and o: "opened_by c c1 qs"
    and w: "rwindow c1 = rwindow c" and v: "rfailed (readers c1 ! m) = (if validating t c then Some False else None)"
    using oa by (simp_all add: opened_at_def)
  have l: "inflated_left ops tk c1 m ps R msg msg c1" unfolding tk_def by (rule opened_inflated [OF oa inf])
  from ci.ReadAll_left [OF l g] obtain p' D' e c' where
    ra: "IoReadAll (readerRead ops defaultHandlers m) grow c1 = Some ((p', if e = IoEOF then None else Some e), c')"
    and m: "msg = p' @ D'" and ov: "inflated_over tk c1 m ps R msg D' e c'" by metis
  have rm: "ReadMessage ops defaultHandlers grow c = Some (ReadDone t p' (if e = IoEOF then None else Some e), c')"
    using nr ra by (simp add: ReadMessage_def)
  show ?thesis
  proof (cases "validating t c \<and> \<not> utf8_text msg")
    case True
    then have x: "e = ErrInvalidUTF8" "bad_text_closed c1 c'" using ov v by (simp_all add: inflated_over_def)
    then have "readErr c' = Some ErrInvalidUTF8" by (simp add: bad_text_closed_def)
    then show ?thesis using rm x o m True by auto
  next
    case False
    then have "rfailed (readers c1 ! m) = None \<or> utf8_text msg" using v by auto
    then obtain st x where x: "e = IoEOF" "p' = msg" "comp_over tk c1 ps R msg st x c'"
      using ov m by (auto simp: inflated_over_def)
    then have mr: "message_read (utf8_at st x (dec_of c' c1)) ps R c'" unfolding comp_over_def by blast
    have "opened_by (dec_of c' c1) c' ps" by (rule message_read_between(3) [OF mr])
    then have "opened_by c1 c' ps" by (simp add: opened_by_def same_setup_def dec_at_def answers_def maskFrames_def)
    from opened_by_trans [OF o this] have "opened_by c c' (qs @ ps)" .
    moreover have "rwindow c' = next_window msg c" using x(3) w by (simp add: comp_over_def next_window_def tk_def)
    ultimately show ?thesis using rm x(1,2) False message_read_between(1,2) [OF mr] by auto
  qed
qed

section \<open>Messages, compressed or not\<close>

text \<open>The data of the frames stands for the message: as it is, or, when the compression bit is set, as the
  decompressor decodes it with the connection's dictionary.\<close>

definition stands_for :: "'d inflate_ops \<Rightarrow> 'd rconn \<Rightarrow> bool \<Rightarrow> bytes \<Rightarrow> bytes \<Rightarrow> bool" where
  "stands_for ops c z data msg \<longleftrightarrow>
     (if z then inflating ops (inf_reset ops (start_dict c)) (data @ deflateMessageTailRead) msg else data = msg)"

text \<open>What \<open>ReadMessage\<close> returns from here on, for the message \<open>msg\<close> that is next.\<close>

definition reads_message ::
  "'d inflate_ops \<Rightarrow> (nat \<Rightarrow> nat) \<Rightarrow> 'd rconn \<Rightarrow> int \<Rightarrow> bool \<Rightarrow> bytes \<Rightarrow> bytes \<Rightarrow> bytes list \<Rightarrow> bool" where
  "reads_message ops grow c t z R msg allpings \<longleftrightarrow>
     (\<exists>p e c'. ReadMessage ops defaultHandlers grow c = Some (ReadDone t p e, c') \<and>
       (if validating t c \<and> \<not> utf8_text msg then e = Some ErrInvalidUTF8 \<and> (\<exists>q. msg = p @ q) \<and>
          readErr c' = Some ErrInvalidUTF8 \<and> (\<exists>c0 qs. opened_by c c0 qs \<and> bad_text_closed c0 c')
        else e = None \<and> p = msg \<and> between_messages c' \<and> avail c' = R \<and> opened_by c c' allpings \<and>
          rwindow c' = (if z then next_window msg c else rwindow c)))"

lemma opens_reads:
  assumes "opens_reader ops c t z R data allpings" and "stands_for ops c z data msg" and g: "grows_buffer grow"
  shows "reads_message ops grow c t z R msg allpings"
proof -
  obtain c1 m qs ps where oa: "opened_at ops c t z R data c1 m qs ps" and p: "allpings = qs @ ps"
    using assms(1) by (auto simp: opens_reader_def)
  show ?thesis
  proof (cases z)
    case False
    then have "opened_at ops c t False R msg c1 m qs ps" using oa assms(2) by (simp add: stands_for_def)
    from ReadMessage_from [OF this g] show ?thesis using False unfolding reads_message_def p by simp
  next
    case True
    then have "opened_at ops c t True R data c1 m qs ps"
      and "inflating ops (inf_reset ops (start_dict c)) (data @ deflateMessageTailRead) msg"
      using oa assms(2) by (simp_all add: stands_for_def)
    from ReadMessage_inflated_from [OF this g] obtain q e c' where
      r: "ReadMessage ops defaultHandlers grow c = Some (ReadDone t q e, c')"
      and k: "if validating t c \<and> \<not> utf8_text msg then e = Some ErrInvalidUTF8 \<and> (\<exists>x. msg = q @ x) \<and>
         readErr c' = Some ErrInvalidUTF8 \<and> (\<exists>c0 qs. opened_by c c0 qs \<and> bad_text_closed c0 c')
       else e = None \<and> q = msg \<and> between_messages c' \<and> avail c' = R \<and> opened_by c c' (qs @ ps) \<and>
         rwindow c' = next_window msg c" by blast
    show ?thesis unfolding reads_message_def
      by (rule exI [of _ q], rule exI [of _ e], rule exI [of _ c'])
        (use r k p True in \<open>cases "validating t c"; cases "utf8_text msg"; simp\<close>)
  qed
qed

lemma reads_good:
  assumes "reads_message ops grow c t z R msg allpings" and "validating t c \<Longrightarrow> utf8_text msg"
  shows "\<exists>c' gs. ReadMessage ops defaultHandlers grow c = Some (ReadDone t msg None, c') \<and>
    between_messages c' \<and> avail c' = R \<and> same_setup c c' \<and>
    wire c' = wire c @ encode_frames gs \<and> map payload gs = allpings \<and>
    list_all (\<lambda>f. opcode f = PongMessage \<and> fin f \<and> (mkey f \<noteq> None) = maskFrames c) gs"
proof -
  obtain c' where r: "ReadMessage ops defaultHandlers grow c = Some (ReadDone t msg None, c')"
    and b: "between_messages c'" "avail c' = R" and o: "opened_by c c' allpings"
    using assms unfolding reads_message_def by (auto split: if_splits)
  obtain gs where g: "same_setup c c'" "wire c' = wire c @ encode_frames gs" "answers c allpings gs"
    using o by (auto simp: opened_by_def)
  have "map payload gs = allpings" "list_all (\<lambda>f. opcode f = PongMessage \<and> fin f \<and> (mkey f \<noteq> None) = maskFrames c) gs"
    using g(3) by (simp_all add: answers_def is_masked_def list_all_iff)
  with r b g(1,2) show ?thesis by blast
qed

section \<open>Properties\<close>

text \<open>C7: ReadMessage returns exactly the message that is on the wire. For a connection between messages
  whose input starts with the frames of one message of type t (fragmented in any way, compressed or
  not, pings and pongs before and between the fragments, the masks right, within the read limit),
  however the network cuts the input into reads, and however io.ReadAll grows its buffer: ReadMessage
  returns the type and all the bytes, decompressed, with no error, the input behind the message is
  left, every ping has been answered by one pong with its payload, in order, and the connection is
  between messages again.\<close>

theorem read_message:
  fixes c :: "'d rconn"
  assumes "between_messages c" and "avail c = encode_frames fs @ R" and "incoming t z fs"
    and "list_all (frame_for c) fs" and "limit_ok c (length (frame_data (data_frames fs)))" and "grows_buffer grow"
    and "stands_for ops c z (frame_data (data_frames fs)) msg" and "validating t c \<Longrightarrow> utf8_text msg"
  shows "\<exists>c' gs. ReadMessage ops defaultHandlers grow c = Some (ReadDone t msg None, c') \<and>
    between_messages c' \<and> avail c' = R \<and> same_setup c c' \<and>
    wire c' = wire c @ encode_frames gs \<and> map payload gs = pings fs \<and>
    list_all (\<lambda>f. opcode f = PongMessage \<and> fin f \<and> (mkey f \<noteq> None) = maskFrames c) gs"
  by (rule reads_good [OF opens_reads [OF NextReader_opens [OF assms(1-5)] assms(7,6)] assms(8)])

lemma read_message_witness:
  "\<exists>c' gs. ReadMessage no_inflate defaultHandlers (\<lambda>n. 2 * n + 1) (reader_of False (encode_frames sample_frames @ [7])) =
      Some (ReadDone TextMessage (frame_data (data_frames sample_frames)) None, c') \<and>
    between_messages c' \<and> avail c' = [7] \<and> same_setup (reader_of False (encode_frames sample_frames @ [7])) c' \<and>
    wire c' = wire (reader_of False (encode_frames sample_frames @ [7])) @ encode_frames gs \<and>
    map payload gs = pings sample_frames \<and>
    list_all (\<lambda>f. opcode f = PongMessage \<and> fin f \<and>
      (mkey f \<noteq> None) = maskFrames (reader_of False (encode_frames sample_frames @ [7]))) gs"
proof (rule read_message [where z = False])
  have "utf8_text (bytes_of_string ''hey'')"
    by (rule utf8_text_ascii) (simp add: bytes_of_string_def)
  then show "utf8_text (frame_data (data_frames sample_frames))" by (simp add: sample_frames_ok)
  show "stands_for no_inflate (reader_of False (encode_frames sample_frames @ [7])) False
    (frame_data (data_frames sample_frames)) (frame_data (data_frames sample_frames))" by (simp add: stands_for_def)
qed (simp_all add: sample_frames_ok grows_buffer_def bytes_of_string_def)

text \<open>C12: a text message that is not UTF-8, compressed or not, is never returned as a message. ReadMessage returns an error and
  a prefix of the message, sends one close frame with code 1007 after the answers to the pings, and
  the connection can neither read nor write any more: the read error and the write error are set.\<close>

theorem read_bad_text:
  fixes c :: "'d rconn"
  assumes "between_messages c" and "avail c = encode_frames fs @ R" and "incoming TextMessage z fs"
    and "list_all (frame_for c) fs" and "limit_ok c (length (frame_data (data_frames fs)))" and "grows_buffer grow"
    and "\<not> skipUTF8Validation c" and "stands_for ops c z (frame_data (data_frames fs)) msg" and "\<not> utf8_text msg"
  shows "\<exists>p q c' gs k. ReadMessage ops defaultHandlers grow c = Some (ReadDone TextMessage p (Some ErrInvalidUTF8), c') \<and>
    msg = p @ q \<and> readErr c' = Some ErrInvalidUTF8 \<and> writeErr c' = Some ErrCloseSent \<and>
    list_all (\<lambda>f. opcode f = PongMessage) gs \<and>
    wire c' = wire c @ encode_frames gs @
      encode_frame \<lparr>fin = True, rsv1 = False, opcode = CloseMessage, mkey = k,
        payload = FormatCloseMessage CloseInvalidFramePayloadData ''''\<rparr>"
proof -
  obtain p c' c0 qs q where r: "ReadMessage ops defaultHandlers grow c = Some (ReadDone TextMessage p (Some ErrInvalidUTF8), c')"
    and pq: "msg = p @ q" and o: "opened_by c c0 qs" and b: "bad_text_closed c0 c'"
    using opens_reads [OF NextReader_opens [OF assms(1-5)] assms(8,6)] assms(7,9)
    by (auto simp: reads_message_def validating_def)
  obtain gs where g: "wire c0 = wire c @ encode_frames gs" "answers c qs gs" using o by (auto simp: opened_by_def)
  obtain ps hs k where h: "answers c0 ps hs" "wire c' = wire c0 @ encode_frames hs @
      encode_frame (single_frame CloseMessage (FormatCloseMessage CloseInvalidFramePayloadData '''') k)"
    "readErr c' = Some ErrInvalidUTF8" "writeErr c' = Some ErrCloseSent"
    using b unfolding bad_text_closed_def by blast
  have "list_all (\<lambda>f. opcode f = PongMessage) (gs @ hs)" using g(2) h(1) by (auto simp: answers_def list_all_iff)
  moreover have "wire c' = wire c @ encode_frames (gs @ hs) @
      encode_frame \<lparr>fin = True, rsv1 = False, opcode = CloseMessage, mkey = k,
        payload = FormatCloseMessage CloseInvalidFramePayloadData ''''\<rparr>"
    using g(1) h(2) by (simp add: single_frame_def)
  ultimately show ?thesis using r pq h(3,4) by blast
qed

definition bad_frames :: "frame list" where
  "bad_frames = [single_frame TextMessage [0x41, 0xC3] None]"

lemma read_bad_text_witness:
  "\<exists>p q c' gs k. ReadMessage no_inflate defaultHandlers (\<lambda>n. 2 * n + 1) (reader_of False (encode_frames bad_frames @ [])) =
      Some (ReadDone TextMessage p (Some ErrInvalidUTF8), c') \<and>
    frame_data (data_frames bad_frames) = p @ q \<and> readErr c' = Some ErrInvalidUTF8 \<and> writeErr c' = Some ErrCloseSent \<and>
    list_all (\<lambda>f. opcode f = PongMessage) gs \<and>
    wire c' = wire (reader_of False (encode_frames bad_frames @ [])) @ encode_frames gs @
      encode_frame \<lparr>fin = True, rsv1 = False, opcode = CloseMessage, mkey = k,
        payload = FormatCloseMessage CloseInvalidFramePayloadData ''''\<rparr>"
proof (rule read_bad_text [where z = False])
  show "stands_for no_inflate (reader_of False (encode_frames bad_frames @ [])) False
    (frame_data (data_frames bad_frames)) (frame_data (data_frames bad_frames))" by (simp add: stands_for_def)
  have "utf8DFAValidate [0x41, 0xC3] \<noteq> utf8Accept" by code_simp
  then have "\<not> utf8_text [0x41, 0xC3]" by (simp only: validate_text simp_thms)
  then show "\<not> utf8_text (frame_data (data_frames bad_frames))"
    by (simp add: bad_frames_def single_frame_def message_types isControl_def)
qed (simp_all add: bad_frames_def single_frame_def message_types isControl_def isData_def frame_for_def
      known_opcode_def is_masked_def maxControlFramePayloadSize_def grows_buffer_def)

text \<open>C8: a message the application gives up is skipped. In the middle of a message (bytes D of it not yet
  read by the application, in this frame and in frames to come, with pings between them) and before
  the frames of another one, ReadMessage returns the other message whole; the pings that had not been
  answered are answered, the rest of the first message is dropped, and the connection is between
  messages behind the second. The dictionary of a compressed message is the connection's window,
  which has only the bytes of the first one that were read.\<close>

theorem given_up_message_is_skipped:
  fixes c :: "'d rconn"
  assumes "message_left c0 m ps (encode_frames fs @ R) D c" and "incoming t z fs"
    and "list_all (frame_for c) fs" and "limit_ok c (length D + length (frame_data (data_frames fs)))"
    and "grows_buffer grow" and "stands_for ops c z (frame_data (data_frames fs)) msg" and "validating t c \<Longrightarrow> utf8_text msg"
  shows "\<exists>c' gs. ReadMessage ops defaultHandlers grow c = Some (ReadDone t msg None, c') \<and>
    between_messages c' \<and> avail c' = R \<and> wire c' = wire c @ encode_frames gs \<and>
    (\<exists>qs. ps @ pings fs = qs @ map payload gs) \<and> list_all (\<lambda>f. opcode f = PongMessage \<and> fin f) gs"
proof -
  obtain qs ps' where p: "ps = qs @ ps'" and o: "opens_reader ops c t z R (frame_data (data_frames fs)) (ps' @ pings fs)"
    using NextReader_skips [OF assms(1-4)] by blast
  obtain c' gs where r: "ReadMessage ops defaultHandlers grow c = Some (ReadDone t msg None, c')" "between_messages c'"
    "avail c' = R" "wire c' = wire c @ encode_frames gs" "map payload gs = ps' @ pings fs"
    "list_all (\<lambda>f. opcode f = PongMessage \<and> fin f \<and> (mkey f \<noteq> None) = maskFrames c) gs"
    using reads_good [OF opens_reads [OF o assms(6,5)] assms(7)] by blast
  moreover have "\<exists>qs. ps @ pings fs = qs @ map payload gs" using p r(5) by auto
  moreover have "list_all (\<lambda>f. opcode f = PongMessage \<and> fin f) gs" using r(6) by (simp add: list_all_iff)
  ultimately show ?thesis by blast
qed

lemma given_up_message_is_skipped_witness:
  "\<exists>m c1 c' gs. NextReader no_inflate defaultHandlers (reader_of False (encode_frames sample_frames @ encode_frames sample_frames @ [7])) =
      Some (NextOk TextMessage m, c1) \<and>
    ReadMessage no_inflate defaultHandlers (\<lambda>n. 2 * n + 1) c1 = Some (ReadDone TextMessage (bytes_of_string ''hey'') None, c') \<and>
    between_messages c' \<and> avail c' = [7] \<and> wire c' = wire c1 @ encode_frames gs"
proof -
  let ?c = "reader_of False (encode_frames sample_frames @ encode_frames sample_frames @ [7])"
  obtain c1 m qs ps where oa: "opened_at no_inflate ?c TextMessage False (encode_frames sample_frames @ [7])
      (frame_data (data_frames sample_frames)) c1 m qs ps"
    using NextReader_opens [of ?c sample_frames "encode_frames sample_frames @ [7]" TextMessage False no_inflate]
    by (auto simp: opens_reader_def sample_frames_ok bytes_of_string_def)
  then have ml: "message_left c1 m ps (encode_frames sample_frames @ [7]) (frame_data (data_frames sample_frames)) c1"
    and s: "same_setup ?c c1" and n: "NextReader no_inflate defaultHandlers ?c = Some (NextOk TextMessage m, c1)"
    by (simp_all add: opened_at_def opened_by_def)
  have "\<exists>c' gs. ReadMessage no_inflate defaultHandlers (\<lambda>n. 2 * n + 1) c1 =
      Some (ReadDone TextMessage (bytes_of_string ''hey'') None, c') \<and>
    between_messages c' \<and> avail c' = [7] \<and> wire c' = wire c1 @ encode_frames gs \<and>
    (\<exists>qs. ps @ pings sample_frames = qs @ map payload gs) \<and> list_all (\<lambda>f. opcode f = PongMessage \<and> fin f) gs"
  proof (rule given_up_message_is_skipped [OF ml])
    show "list_all (frame_for c1) sample_frames" using setup_rules(1) [OF s] by (simp add: sample_frames_ok)
    show "limit_ok c1 (length (frame_data (data_frames sample_frames)) + length (frame_data (data_frames sample_frames)))"
      using setup_rules(2) [OF s] by (simp add: sample_frames_ok bytes_of_string_def)
    show "stands_for no_inflate c1 False (frame_data (data_frames sample_frames)) (bytes_of_string ''hey'')"
      by (simp add: stands_for_def sample_frames_ok)
    show "utf8_text (bytes_of_string ''hey'')" by (rule utf8_text_ascii) (simp add: bytes_of_string_def)
  qed (simp_all add: sample_frames_ok grows_buffer_def)
  then show ?thesis using n by blast
qed

end
