(* ===== verification/Prepared.thy ===== *)
theory Prepared
  imports WriteMessages
begin

text \<open>
  src/prepared.go and WritePreparedMessage of src/conn.go: a message whose frames are made once for
  each kind of connection, by a connection of its own that writes into a buffer, and then written to
  any number of connections.
\<close>

record prepareKey =
  pkServer :: bool
  pkCompress :: bool
  pkLevel :: int

text \<open>The frames that have been made: an entry whose \<open>once\<close> has run.\<close>

record preparedMessage =
  pmType :: int
  pmData :: bytes
  pmFrames :: "prepareKey \<Rightarrow> bytes option"

text \<open>The connection the frames are written to: \<open>prepareConn\<close> takes every write and any deadline. Of the
  environment only the random keys and the machine matter.\<close>

definition bufferEnv :: "environment \<Rightarrow> environment" where
  "bufferEnv env = env\<lparr>envNet := [], envPool := [], envIn := []\<rparr>"

definition prepareConn :: "prepareKey \<Rightarrow> environment \<Rightarrow> 'z wconn" where
  "prepareConn key env =
     (newWConn (pkServer key) 0 0 False None
        (Some (replicate (defaultWriteBufferSize + maxFrameHeaderSize) 0)) (bufferEnv env))
       \<lparr>compressionLevel := pkLevel key, enableWriteCompression := True,
        newCompressionWriter := (if pkCompress key then NoTakeoverFn else NilFn)\<rparr>"

definition pmFrame ::
  "'z flate_ops \<Rightarrow> environment \<Rightarrow> prepareKey \<Rightarrow> preparedMessage \<Rightarrow> ((gerror option \<times> bytes) \<times> preparedMessage) option" where
  "pmFrame ops env key pm =
     (case pmFrames pm key of
        Some data \<Rightarrow> Some ((None, data), pm)
      | None \<Rightarrow>
          do { (err, c) \<leftarrow> WriteMessage ops (pmType pm) (pmData pm) (prepareConn key env :: 'z wconn);
               Some ((err, wire c), pm\<lparr>pmFrames := (pmFrames pm)(key \<mapsto> wire c)\<rparr>) })"

definition NewPreparedMessage ::
  "'z flate_ops \<Rightarrow> environment \<Rightarrow> int \<Rightarrow> bytes \<Rightarrow> (gerror + preparedMessage) option" where
  "NewPreparedMessage ops env messageType data =
     (let pm = \<lparr>pmType = messageType, pmData = data, pmFrames = (\<lambda>key. None)\<rparr> in
      do { ((err, frameData), pm1) \<leftarrow> pmFrame ops env \<lparr>pkServer = True, pkCompress = False, pkLevel = 0\<rparr> pm;
           Some (case err of
               Some e \<Rightarrow> Inl e
             | None \<Rightarrow> Inr (pm1\<lparr>pmData := drop (length frameData - length data) frameData\<rparr>)) })"

definition WritePreparedMessage ::
  "'z flate_ops \<Rightarrow> environment \<Rightarrow> preparedMessage \<Rightarrow> 'z wconn \<Rightarrow> (gerror option \<times> preparedMessage \<times> 'z wconn) option" where
  "WritePreparedMessage ops env pm c =
     (if newCompressionWriter c = TakeoverFn \<and> enableWriteCompression c \<and> isData (pmType pm) then
        Some (Some ErrPreparedMessageContextTakeover, pm, c)
      else
        do { ((err, frameData), pm1) \<leftarrow> pmFrame ops env
               \<lparr>pkServer = isServer c,
                pkCompress = (newCompressionWriter c \<noteq> NilFn \<and> enableWriteCompression c \<and> isData (pmType pm)),
                pkLevel = compressionLevel c\<rparr> pm;
             (case err of
                Some e \<Rightarrow> Some (Some e, pm1, c)
              | None \<Rightarrow> do { (e, c1) \<leftarrow> writePreparedFrame (pmType pm) frameData c; Some (e, pm1, c1) }) })"

section \<open>The frames that are made\<close>

text \<open>What the frames for one kind of connection must be: one message, masked for clients, and either the
  data or the compressor's output for it from a new state, without its tail.\<close>

definition prepared_frames :: "'z flate_ops \<Rightarrow> prepareKey \<Rightarrow> int \<Rightarrow> bytes \<Rightarrow> frame list \<Rightarrow> bool" where
  "prepared_frames ops key t msg fs \<longleftrightarrow>
     list_all (\<lambda>f. is_masked f = (\<not> pkServer key)) fs \<and>
     (if pkCompress key
      then \<exists>data. message_frames t True data fs \<and>
        data @ [0, 0, 0xff, 0xff] = flate_stream ops [msg] (fl_new ops (pkLevel key))
      else message_frames t False msg fs)"

lemma prepareConn_idle: "idle (prepareConn key env)" "factory_ok (prepareConn key env)"
proof -
  let ?c = "newWConn (pkServer key) 0 0 False None
    (Some (replicate (defaultWriteBufferSize + maxFrameHeaderSize) 0)) (bufferEnv env)"
  have "idle ?c" "factory_ok ?c"
    by (rule new_idle; simp add: bufferEnv_def defaultWriteBufferSize_def)+
  then show "idle (prepareConn key env)" "factory_ok (prepareConn key env)"
    by (simp_all add: prepareConn_def factory_ok_def idle_def net_ok_def deadline_ok_def buffers_ok_def cong: option.case_cong)
qed

lemma prepareConn_fields:
  "isServer (prepareConn key env) = pkServer key" "\<not> disableMask (prepareConn key env)"
  "wire (prepareConn key env) = []" "writeFrameSize (prepareConn key env) = 0"
  "\<not> skipUTF8Validation (prepareConn key env)" "compressionLevel (prepareConn key env) = pkLevel key"
  "enableWriteCompression (prepareConn key env)"
  "newCompressionWriter (prepareConn key env) = (if pkCompress key then NoTakeoverFn else NilFn)"
  by (simp_all add: prepareConn_def) (simp_all add: new_conn_defs bufferEnv_def)

lemma prepareConn_kind:
  "compressing t (prepareConn key env) \<longleftrightarrow> pkCompress key \<and> isData t"
  "validating t (prepareConn key env) \<longleftrightarrow> t = TextMessage"
  "maskFrames (prepareConn key env) \<longleftrightarrow> \<not> pkServer key"
  by (auto simp: compressing_def validating_def maskFrames_def prepareConn_fields)

lemma frames_made:
  fixes ops :: "'z flate_ops"
  assumes "isData t" and "t = TextMessage \<Longrightarrow> utf8_text msg" and "pkCompress key \<Longrightarrow> sync_flush ops"
  obtains c fs where "WriteMessage ops t msg (prepareConn key env :: 'z wconn) = Some (None, c)"
    and "wire c = encode_frames fs" and "prepared_frames ops key t msg fs"
proof -
  let ?c = "prepareConn key env :: 'z wconn"
  obtain c fs data where r: "WriteMessage ops t msg ?c = Some (None, c)"
    and m: "message_sent t (compressing t ?c) data fs ?c c"
    and d: "carried ops (start_state ops ?c) (compressing t ?c) [msg] data"
    by (rule WriteMessage_ok [OF prepareConn_idle(1) assms(1) prepareConn_idle(2), of key env msg ops])
      (use assms in \<open>auto simp: prepareConn_kind\<close>)
  have s: "start_state ops ?c = fl_new ops (pkLevel key)"
    by (simp add: start_state_def prepareConn_fields)
  have "wire c = encode_frames fs" using m by (simp add: message_sent_def prepareConn_fields)
  moreover have "prepared_frames ops key t msg fs"
    using m d assms(1) by (auto simp: prepared_frames_def message_sent_def carried_def prepareConn_kind s)
  ultimately show thesis using that r by blast
qed

section \<open>Prepared messages\<close>

definition pm_ok :: "'z flate_ops \<Rightarrow> int \<Rightarrow> bytes \<Rightarrow> preparedMessage \<Rightarrow> bool" where
  "pm_ok ops t msg pm \<longleftrightarrow>
     isData t \<and> (t = TextMessage \<longrightarrow> utf8_text msg) \<and> pmType pm = t \<and> pmData pm = msg \<and>
     (\<forall>key data. pmFrames pm key = Some data \<longrightarrow> (\<exists>fs. data = encode_frames fs \<and> prepared_frames ops key t msg fs))"

lemma pmFrame_ok:
  fixes ops :: "'z flate_ops"
  assumes "pm_ok ops t msg pm" and "pkCompress key \<Longrightarrow> sync_flush ops"
  obtains fs pm' where "pmFrame ops env key pm = Some ((None, encode_frames fs), pm')"
    and "prepared_frames ops key t msg fs" and "pm_ok ops t msg pm'"
proof (cases "pmFrames pm key")
  case None
  have "isData t" "t = TextMessage \<Longrightarrow> utf8_text msg" using assms(1) by (auto simp: pm_ok_def)
  then obtain c fs where r: "WriteMessage ops t msg (prepareConn key env :: 'z wconn) = Some (None, c)"
    and f: "wire c = encode_frames fs" "prepared_frames ops key t msg fs"
    by (rule frames_made [OF _ _ assms(2)])
  have "pmType pm = t" "pmData pm = msg" using assms(1) by (simp_all add: pm_ok_def)
  then have "pmFrame ops env key pm = Some ((None, encode_frames fs), pm\<lparr>pmFrames := (pmFrames pm)(key \<mapsto> encode_frames fs)\<rparr>)"
    using None r f by (simp add: pmFrame_def)
  moreover have "pm_ok ops t msg (pm\<lparr>pmFrames := (pmFrames pm)(key \<mapsto> encode_frames fs)\<rparr>)"
    using assms(1) f(2) by (auto simp: pm_ok_def)
  ultimately show thesis using that f(2) by blast
next
  case (Some data)
  then obtain fs where "data = encode_frames fs" "prepared_frames ops key t msg fs"
    using assms(1) unfolding pm_ok_def by blast
  then show thesis using that [of fs pm] Some assms(1) by (simp add: pmFrame_def)
qed

lemma new_prepared:
  fixes ops :: "'z flate_ops"
  assumes "isData t" and "t = TextMessage \<Longrightarrow> utf8_text msg"
  obtains pm where "NewPreparedMessage ops env t msg = Some (Inr pm)" and "pm_ok ops t msg pm"
proof -
  let ?key = "\<lparr>pkServer = True, pkCompress = False, pkLevel = 0\<rparr>"
  let ?c = "prepareConn ?key env :: 'z wconn"
  have nc: "\<not> isControl t" using assms(1) by (auto simp: isData_def isControl_def message_types)
  obtain c' where r: "fastMessage ops t msg ?c = Some (None, c')"
    and w: "wire c' = wire ?c @ encode_frame (single_frame t msg None)"
    by (rule fast_ok [OF prepareConn_idle(1), of t msg ?key env ops]) (use assms nc in \<open>auto simp: prepareConn_fields\<close>)
  have "WriteMessage ops t msg ?c = Some (None, c')"
    using r assms(2) by (auto simp: WriteMessage_def validate_text prepareConn_kind prepareConn_fields)
  moreover have "wire c' = encode_frames [single_frame t msg None]" using w by (simp add: prepareConn_fields)
  moreover have "\<exists>hdr. encode_frame (single_frame t msg None) = hdr @ msg"
    by (auto simp: encode_frame_def masked_payload_def single_frame_def)
  ultimately have "NewPreparedMessage ops env t msg = Some (Inr
      \<lparr>pmType = t, pmData = msg, pmFrames = [?key \<mapsto> encode_frames [single_frame t msg None]]\<rparr>)"
    by (auto simp: NewPreparedMessage_def pmFrame_def)
  moreover have "prepared_frames ops ?key t msg [single_frame t msg None]"
    by (simp add: prepared_frames_def message_frames_single single_frame_def is_masked_def)
  then have "pm_ok ops t msg \<lparr>pmType = t, pmData = msg, pmFrames = [?key \<mapsto> encode_frames [single_frame t msg None]]\<rparr>"
    using assms by (auto simp: pm_ok_def intro!: exI [of _ "[single_frame t msg None]"])
  ultimately show thesis using that by blast
qed

lemma writePreparedFrame_ok:
  assumes "idle c" and "t \<noteq> CloseMessage"
  shows "writePreparedFrame t p c = Some (None, c\<lparr>netWriteDeadline := writeDeadline c, wire := wire c @ p\<rparr>)"
proof -
  have "net_ok (c\<lparr>writeMu := False\<rparr>)" using assms(1) by (simp add: idle_def net_ok_def)
  then have "conn_write t (writeDeadline c) p [] (c\<lparr>writeMu := False\<rparr>) =
      Some (None, c\<lparr>writeMu := False, netWriteDeadline := writeDeadline c, wire := wire c @ p, writeErr := None\<rparr>)"
    using assms(2) by (simp add: conn_write_ok)
  moreover have "writeErr c = None" "writeMu c" using assms(1) by (simp_all add: idle_def net_ok_def)
  ultimately show ?thesis by (simp add: writePreparedFrame_def acquire_idle [OF assms(1)] releaseWriteMu_def)
qed

lemma prepared_written:
  fixes ops :: "'z flate_ops" and c :: "'z wconn"
  assumes "pm_ok ops t msg pm" and "compressing t c \<Longrightarrow> sync_flush ops" and "idle c"
    and "newCompressionWriter c \<noteq> TakeoverFn \<or> \<not> enableWriteCompression c"
  obtains pm' fs where "WritePreparedMessage ops env pm c =
      Some (None, pm', c\<lparr>netWriteDeadline := writeDeadline c, wire := wire c @ encode_frames fs\<rparr>)"
    and "prepared_frames ops \<lparr>pkServer = isServer c, pkCompress = compressing t c, pkLevel = compressionLevel c\<rparr> t msg fs"
    and "pm_ok ops t msg pm'"
proof -
  let ?key = "\<lparr>pkServer = isServer c, pkCompress = compressing t c, pkLevel = compressionLevel c\<rparr>"
  have t: "pmType pm = t" "isData t" "t \<noteq> CloseMessage"
    using assms(1) by (auto simp: pm_ok_def isData_def message_types)
  obtain fs pm' where f: "pmFrame ops env ?key pm = Some ((None, encode_frames fs), pm')"
    and p: "prepared_frames ops ?key t msg fs" "pm_ok ops t msg pm'"
    by (rule pmFrame_ok [OF assms(1), of ?key env]) (use assms(2) in simp_all)
  have k: "(newCompressionWriter c \<noteq> NilFn \<and> enableWriteCompression c \<and> isData t) = compressing t c"
    by (simp add: compressing_def)
  have "WritePreparedMessage ops env pm c =
      Some (None, pm', c\<lparr>netWriteDeadline := writeDeadline c, wire := wire c @ encode_frames fs\<rparr>)"
    using assms(4) f by (auto simp: WritePreparedMessage_def t(1) k writePreparedFrame_ok [OF assms(3) t(3)])
  then show thesis using p that by blast
qed

text \<open>A client with DisableClientMask, which is documented to disable the masking of outgoing frames: what
  WriteMessage sends is not masked, but a prepared message is, for the key of its frames does not have
  the option and the connection they are made on does not either.\<close>

lemma prepared_masks_anyway:
  fixes ops :: "'z flate_ops" and c :: "'z wconn"
  assumes "pm_ok ops t msg pm" and "sync_flush ops" and "idle c" and "factory_ok c"
    and "newCompressionWriter c \<noteq> TakeoverFn \<or> \<not> enableWriteCompression c"
    and "\<not> isServer c" and "disableMask c"
  shows "(\<exists>c' fs. WriteMessage ops t msg c = Some (None, c') \<and> wire c' = wire c @ encode_frames fs \<and>
      list_all (\<lambda>f. \<not> is_masked f) fs) \<and>
    (\<exists>pm' c' fs. WritePreparedMessage ops env pm c = Some (None, pm', c') \<and> wire c' = wire c @ encode_frames fs \<and>
      list_all is_masked fs)"
proof
  have t: "isData t" "t = TextMessage \<Longrightarrow> utf8_text msg" using assms(1) by (auto simp: pm_ok_def)
  obtain c' fs data where "WriteMessage ops t msg c = Some (None, c')"
    and "message_sent t (compressing t c) data fs c c'"
    by (rule WriteMessage_ok [OF assms(3) t(1) assms(4), of msg ops]) (use t(2) assms(2) in \<open>auto simp: validating_def\<close>)
  then show "\<exists>c' fs. WriteMessage ops t msg c = Some (None, c') \<and> wire c' = wire c @ encode_frames fs \<and>
      list_all (\<lambda>f. \<not> is_masked f) fs"
    using assms(7) by (auto simp: message_sent_def maskFrames_def)
  obtain pm' fs where "WritePreparedMessage ops env pm c =
      Some (None, pm', c\<lparr>netWriteDeadline := writeDeadline c, wire := wire c @ encode_frames fs\<rparr>)"
    and "prepared_frames ops \<lparr>pkServer = isServer c, pkCompress = compressing t c, pkLevel = compressionLevel c\<rparr> t msg fs"
    by (rule prepared_written [OF assms(1-3,5)])
  then show "\<exists>pm' c' fs. WritePreparedMessage ops env pm c = Some (None, pm', c') \<and> wire c' = wire c @ encode_frames fs \<and>
      list_all is_masked fs"
    using assms(6) by (auto simp: prepared_frames_def)
qed

text \<open>C33: a prepared message is written whole to every connection. Whatever other connections it has been
  written to before, on an idle connection without active context takeover WritePreparedMessage
  sends the frames of exactly the prepared message, compressed if the connection compresses, from a
  new compressor state, and leaves both the connection and the prepared message as they should be
  for the next call. The frames are masked for every client, also one that has masking disabled:
  there the code departs from the documentation of DisableClientMask (\<open>prepared_masks_anyway\<close>).\<close>

theorem write_prepared_message:
  fixes ops :: "'z flate_ops" and c :: "'z wconn"
  assumes "pm_ok ops t msg pm" and "sync_flush ops" and "idle c"
    and "newCompressionWriter c \<noteq> TakeoverFn \<or> \<not> enableWriteCompression c"
  shows "\<exists>c' pm' fs. WritePreparedMessage ops env pm c = Some (None, pm', c') \<and>
    wire c' = wire c @ encode_frames fs \<and>
    prepared_frames ops \<lparr>pkServer = isServer c, pkCompress = compressing t c, pkLevel = compressionLevel c\<rparr> t msg fs \<and>
    pm_ok ops t msg pm' \<and> idle c'"
proof -
  obtain fs pm' where w: "WritePreparedMessage ops env pm c =
      Some (None, pm', c\<lparr>netWriteDeadline := writeDeadline c, wire := wire c @ encode_frames fs\<rparr>)"
    and p: "prepared_frames ops \<lparr>pkServer = isServer c, pkCompress = compressing t c, pkLevel = compressionLevel c\<rparr> t msg fs"
      "pm_ok ops t msg pm'"
    by (rule prepared_written [OF assms])
  let ?c = "c\<lparr>netWriteDeadline := writeDeadline c, wire := wire c @ encode_frames fs\<rparr>"
  have "idle ?c" using assms(3) by (simp add: idle_def net_ok_def deadline_ok_def buffers_ok_def cong: option.case_cong)
  with w p show ?thesis by (intro exI [of _ ?c] exI [of _ pm'] exI [of _ fs]) simp
qed

lemma write_prepared_message_witness:
  "\<exists>pm c' pm' fs. NewPreparedMessage stored_ops quiet BinaryMessage [1, 2, 3] = Some (Inr pm) \<and>
    WritePreparedMessage stored_ops quiet pm client0 = Some (None, pm', c') \<and> wire c' = encode_frames fs \<and>
    message_frames BinaryMessage False [1, 2, 3] fs"
proof -
  have "isData BinaryMessage" "BinaryMessage = TextMessage \<Longrightarrow> utf8_text [1, 2, 3]"
    by (simp_all add: isData_def message_types)
  then obtain pm where n: "NewPreparedMessage stored_ops quiet BinaryMessage [1, 2, 3] = Some (Inr pm)"
    and p: "pm_ok stored_ops BinaryMessage [1, 2, 3] pm"
    by (rule new_prepared)
  have c: "\<not> compressing BinaryMessage client0" "idle client0" "wire client0 = []"
    "newCompressionWriter client0 \<noteq> TakeoverFn \<or> \<not> enableWriteCompression client0"
    by (simp_all add: compressing_def) (simp_all add: client0_def new_conn_defs)
  obtain c' pm' fs where "WritePreparedMessage stored_ops quiet pm client0 = Some (None, pm', c')"
    "wire c' = wire client0 @ encode_frames fs"
    "prepared_frames stored_ops \<lparr>pkServer = isServer client0, pkCompress = compressing BinaryMessage client0,
      pkLevel = compressionLevel client0\<rparr> BinaryMessage [1, 2, 3] fs"
    using write_prepared_message [OF p stored_sync c(2,4), of quiet] by blast
  then show ?thesis using n c by (auto simp: prepared_frames_def)
qed

end
