(* ===== verification/Echo.thy ===== *)
theory Echo
  imports Duplex Closing Compressed Prepared
begin

text \<open>
  The echo servers of src/examples: the loop that reads a message and writes it back, in the four ways
  the two programs do it, on one connection, and how it ends. This puts the read side, the write side,
  prepared messages and the closing handshake together.
\<close>

section \<open>The servers\<close>

text \<open>What a server does with a message: whether its loop goes on, and the connection.\<close>

type_synonym ('d, 'z) reply = "int \<Rightarrow> bytes \<Rightarrow> ('d, 'z) duplex \<Rightarrow> (bool \<times> ('d, 'z) duplex) option"

text \<open>examples/echo: the loop ends when the write fails.\<close>

definition echoReply :: "'z flate_ops \<Rightarrow> ('d, 'z) reply" where
  "echoReply ops mt message s = do { (err, s1) \<leftarrow> onWriter (WriteMessage ops mt message) s; Some (err = None, s1) }"

text \<open>examples/autobahn: a failed WriteMessage or WritePreparedMessage is logged only.\<close>

definition readAllReply :: "'z flate_ops \<Rightarrow> environment \<Rightarrow> bool \<Rightarrow> bool \<Rightarrow> ('d, 'z) reply" where
  "readAllReply ops env writeMessage writePrepared mt b s =
     (if writeMessage then
        (if \<not> writePrepared then do { (err, s1) \<leftarrow> onWriter (WriteMessage ops mt b) s; Some (True, s1) }
         else do { pm \<leftarrow> NewPreparedMessage ops env mt b;
                   (case pm of
                      Inl err \<Rightarrow> Some (False, s)
                    | Inr pm \<Rightarrow>
                        do { (err, _, w) \<leftarrow> WritePreparedMessage ops env pm (as_writer s);
                             Some (True, from_writer s w) }) })
      else
        do { (w, s1) \<leftarrow> onWriter (NextWriter ops mt) s;
             (case w of
                Inl err \<Rightarrow> Some (False, s1)
              | Inr i \<Rightarrow>
                  do { ((n, err), s2) \<leftarrow> onWriter (pipeWrite ops i b) s1;
                       if err \<noteq> None then Some (False, s2)
                       else do { (err, s3) \<leftarrow> onWriter (pipeClose ops i) s2; Some (err = None, s3) } }) })"

text \<open>The loop of both: it ends when a read fails or the reply says so. The result tells whether the
  reader has panicked.\<close>

partial_function (option) echoLoop ::
  "('d, 'z) reply \<Rightarrow> 'd inflate_ops \<Rightarrow> 'd rconn handlers \<Rightarrow> (nat \<Rightarrow> nat) \<Rightarrow> ('d, 'z) duplex \<Rightarrow> (bool \<times> ('d, 'z) duplex) option" where
  "echoLoop reply ops h grow s =
     Option.bind (onReader (ReadMessage ops h grow) s) (\<lambda>(r, s1).
       case r of
         ReadPanic \<Rightarrow> Some (True, s1)
       | ReadDone mt message err \<Rightarrow>
           (case err of
              Some e \<Rightarrow> Some (False, s1)
            | None \<Rightarrow>
                Option.bind (reply mt message s1) (\<lambda>(go, s2).
                  if go then echoLoop reply ops h grow s2 else Some (False, s2))))"

text \<open>With the deferred call: \<open>CloseGracefully\<close>, \<open>Close\<close>.\<close>

definition echo :: "'z flate_ops \<Rightarrow> 'd inflate_ops \<Rightarrow> 'd rconn handlers \<Rightarrow> (nat \<Rightarrow> nat) \<Rightarrow> ('d, 'z) duplex \<Rightarrow>
    (bool \<times> ('d, 'z) duplex) option" where
  "echo wops ops h grow s =
     do { (panicked, s1) \<leftarrow> echoLoop (echoReply wops) ops h grow s;
          (_, s2) \<leftarrow> onReader (CloseGracefully ops h CloseNormalClosure '''' (Some (now (fst s1) + 1000000000))) s1;
          Some (panicked, s2) }"

definition echoReadAll :: "'z flate_ops \<Rightarrow> environment \<Rightarrow> 'd inflate_ops \<Rightarrow> 'd rconn handlers \<Rightarrow> (nat \<Rightarrow> nat) \<Rightarrow>
    bool \<Rightarrow> bool \<Rightarrow> ('d, 'z) duplex \<Rightarrow> (bool \<times> ('d, 'z) duplex) option" where
  "echoReadAll wops env ops h grow writeMessage writePrepared s =
     do { (panicked, s1) \<leftarrow> echoLoop (readAllReply wops env writeMessage writePrepared) ops h grow s;
          (_, s2) \<leftarrow> onReader (\<lambda>c. Some (netClose c)) s1;
          Some (panicked, s2) }"

section \<open>Turns\<close>

text \<open>A server's connection between two messages of either side.\<close>

definition talking :: "('d, 'z) duplex \<Rightarrow> bool" where
  "talking s \<longleftrightarrow> between_messages (fst s) \<and> idle (as_writer s) \<and> factory_ok (as_writer s) \<and> isServer (fst s)"

lemma idle_side:
  assumes "write_side c' = write_side c" and "net_ok c' = net_ok c" and "now c' = now c"
  shows "idle c' = idle c"
  using assms by (simp add: idle_def write_side_def deadline_ok_def buffers_ok_def cong: option.case_cong)

lemma compressing_side:
  assumes "write_side w' = write_side w"
  shows "newCompressionWriter w' = newCompressionWriter w" "enableWriteCompression w' = enableWriteCompression w"
    "compressing t w' = compressing t w" "compressionLevel w' = compressionLevel w"
  using assms by (simp_all add: write_side_def compressing_def)

lemma more_writer:
  fixes w w' :: "'z wconn"
  assumes "conn.more w' = conn.more w"
  shows "factory_ok w' = factory_ok w" "factory w' = factory w"
  using assms by (cases w; cases w'; simp add: factory_ok_def)+

lemma start_side:
  assumes "write_side w' = write_side w" and "conn.more w' = conn.more w"
  shows "start_state ops w' = start_state ops w"
  using compressing_side [OF assms(1)] more_writer [OF assms(2)]
  by (simp add: start_state_def split: comp_fn.split option.split)

lemma more_reader: "conn.more c' = conn.more c \<Longrightarrow> rwindow c' = rwindow c"
  by (cases c; cases c') simp

lemma between_side:
  fixes c c' :: "'d rconn"
  assumes "read_side c' = read_side c" and "net_ok c' = net_ok c"
  shows "between_messages c' = between_messages c" "avail c' = avail c" "frame_for c' = frame_for c" "limit_ok c' = limit_ok c"
    "readErrCount c' = readErrCount c" "newDecompressionReader c' = newDecompressionReader c"
  using assms by (auto simp: between_messages_def can_read_def input_ok_def avail_def read_side_def frame_for_def
      limit_ok_def fun_eq_iff)

lemma net_ok_sides [simp]: "net_ok (as_writer s) = net_ok (fst s)" "net_ok (fst (from_writer s w)) = net_ok w"
  by (simp_all add: net_ok_def)

text \<open>A message of the client: its type, whether it is compressed, its frames and its content.\<close>

record spoken =
  kind :: int
  packed :: bool
  frames :: "frame list"
  content :: bytes

definition good_message :: "'d inflate_ops \<Rightarrow> 'd rconn \<Rightarrow> spoken \<Rightarrow> bool" where
  "good_message ops c m \<longleftrightarrow>
     incoming (kind m) (packed m) (frames m) \<and> list_all (frame_for c) (frames m) \<and>
     limit_ok c (length (frame_data (data_frames (frames m)))) \<and>
     stands_for ops c (packed m) (frame_data (data_frames (frames m))) (content m) \<and>
     (kind m = TextMessage \<longrightarrow> utf8_text (content m))"

text \<open>The dictionary after it, and messages one after the other, each with the dictionary of those before.\<close>

definition window_after :: "'d rconn \<Rightarrow> spoken \<Rightarrow> bytes" where
  "window_after c m = (if packed m then next_window (content m) c else rwindow c)"

fun says :: "'d inflate_ops \<Rightarrow> 'd rconn \<Rightarrow> spoken list \<Rightarrow> bool" where
  "says ops c [] \<longleftrightarrow> True"
| "says ops c (m # ms) \<longleftrightarrow> good_message ops c m \<and> says ops (c\<lparr>rwindow := window_after c m\<rparr>) ms"

lemma window_upd [simp]:
  "frame_for (c\<lparr>rwindow := w\<rparr>) = frame_for c" "limit_ok (c\<lparr>rwindow := w\<rparr>) = limit_ok c"
  by (simp_all add: frame_for_def limit_ok_def fun_eq_iff)

lemma says_same:
  fixes c c' :: "'d rconn"
  assumes "frame_for c' = frame_for c" "limit_ok c' = limit_ok c" "newDecompressionReader c' = newDecompressionReader c"
    "rwindow c' = rwindow c"
  shows "says ops c' ms = says ops c ms"
  using assms
proof (induction ms arbitrary: c c')
  case (Cons m ms)
  have "good_message ops c' m = good_message ops c m" "window_after c' m = window_after c m"
    using Cons.prems by (simp_all add: good_message_def window_after_def stands_for_def start_dict_def next_window_def)
  then show ?case using Cons.IH [of "c'\<lparr>rwindow := window_after c m\<rparr>" "c\<lparr>rwindow := window_after c m\<rparr>"] Cons.prems by simp
qed simp

text \<open>The answers to pings, as they are written by a server.\<close>

definition pongs :: "bytes list \<Rightarrow> frame list" where
  "pongs ps = map (\<lambda>p. single_frame PongMessage p None) ps"

lemma answers_pongs: "isServer c \<Longrightarrow> answers c ps gs \<Longrightarrow> gs = pongs ps"
proof (induction gs arbitrary: ps)
  case (Cons g gs)
  then obtain q qs where ps: "ps = q # qs" "payload g = q" and "answers c qs gs"
    and g: "opcode g = PongMessage" "fin g" "\<not> rsv1 g" "mkey g = None"
    by (auto simp: answers_def is_masked_def maskFrames_def simp del: not_None_eq)
  moreover have "g = single_frame PongMessage q None"
    using g ps(2) by (cases g) (simp add: single_frame_def)
  ultimately show ?case using Cons by (simp add: pongs_def)
qed (simp add: answers_def pongs_def)

lemma incoming_type: "incoming t z fs \<Longrightarrow> isData t"
  by (induction fs) (auto split: if_splits)

text \<open>A read: the message is returned, its pings are answered, and nothing else changes for the peers.\<close>

lemma read_turn:
  fixes s :: "('d, 'z) duplex"
  assumes s: "talking s" and "avail (fst s) = encode_frames (frames m) @ R" and m: "good_message ops (fst s) m" and "grows_buffer grow"
  obtains c' where "onReader (ReadMessage ops defaultHandlers grow) s = Some (ReadDone (kind m) (content m) None, (c', snd s))"
    and "talking (c', snd s)" and "avail c' = R" and "same_setup (fst s) c'" and "rwindow c' = window_after (fst s) m"
    and "wire c' = wire (fst s) @ encode_frames (pongs (pings (frames m)))"
proof -
  let ?c = "fst s"
  have b: "between_messages ?c" and sv: "isServer ?c" using s by (simp_all add: talking_def)
  have "opens_reader ops ?c (kind m) (packed m) R (frame_data (data_frames (frames m))) (pings (frames m))"
    by (rule NextReader_opens [OF b assms(2)]) (use m in \<open>simp_all add: good_message_def\<close>)
  then have "reads_message ops grow ?c (kind m) (packed m) R (content m) (pings (frames m))"
    by (rule opens_reads [OF _ _ assms(4)]) (use m in \<open>simp add: good_message_def\<close>)
  moreover have "\<not> (validating (kind m) ?c \<and> \<not> utf8_text (content m))" using m by (auto simp: good_message_def validating_def)
  ultimately obtain c' where r: "ReadMessage ops defaultHandlers grow ?c = Some (ReadDone (kind m) (content m) None, c')"
    and c': "between_messages c'" "avail c' = R" "rwindow c' = window_after ?c m" and o: "opened_by ?c c' (pings (frames m))"
    unfolding reads_message_def window_after_def by auto
  obtain gs where k: "same_setup ?c c'" and w: "wire c' = wire ?c @ encode_frames gs" and a: "answers ?c (pings (frames m)) gs"
    using o by (auto simp: opened_by_def)
  have ws: "write_side c' = write_side ?c" "now c' = now ?c" "isServer c'" using k sv by (simp_all add: same_setup_def)
  have nk: "net_ok c'" "net_ok ?c" using c'(1) b by (simp_all add: between_messages_def can_read_def)
  have "idle (as_writer (c', snd s)) = idle (as_writer s)" by (rule idle_side) (simp_all add: ws nk)
  moreover have "factory_ok (as_writer (c', snd s)) = factory_ok (as_writer s)" by (rule more_writer) simp
  ultimately have "talking (c', snd s)" using s c'(1) ws(3) by (simp add: talking_def)
  moreover have "wire c' = wire ?c @ encode_frames (pongs (pings (frames m)))" using w answers_pongs [OF sv a] by simp
  moreover have "onReader (ReadMessage ops defaultHandlers grow) s = Some (ReadDone (kind m) (content m) None, (c', snd s))"
    by (simp add: onReader_def r)
  ultimately show thesis using that c'(2,3) k by blast
qed

text \<open>The settings of the writer that a reply depends on: whether and how it compresses, and the state it compresses
  the next message from.\<close>

definition packing :: "'z flate_ops \<Rightarrow> 'z wconn \<Rightarrow> comp_fn \<times> bool \<times> 'z" where
  "packing ops w = (newCompressionWriter w, enableWriteCompression w, start_state ops w)"

fun packs :: "comp_fn \<times> bool \<times> 'z \<Rightarrow> int \<Rightarrow> bool" where
  "packs (fn, en, st) t \<longleftrightarrow> fn \<noteq> NilFn \<and> en \<and> isData t"

fun packed_from :: "comp_fn \<times> bool \<times> 'z \<Rightarrow> 'z" where
  "packed_from (fn, en, st) = st"

fun next_packing :: "'z flate_ops \<Rightarrow> comp_fn \<times> bool \<times> 'z \<Rightarrow> int \<Rightarrow> bytes \<Rightarrow> comp_fn \<times> bool \<times> 'z" where
  "next_packing ops (fn, en, st) t msg =
     (fn, en, if packs (fn, en, st) t \<and> fn = TakeoverFn then flate_end ops [msg] st else st)"

lemma packs_compressing: "packs (packing ops w) t = compressing t w"
  by (simp add: packing_def compressing_def)

text \<open>One message with the given content, in the frames of a server.\<close>

definition served_message :: "'z flate_ops \<Rightarrow> comp_fn \<times> bool \<times> 'z \<Rightarrow> int \<Rightarrow> bytes \<Rightarrow> frame list \<Rightarrow> bool" where
  "served_message ops k t msg gs \<longleftrightarrow> list_all (\<lambda>f. \<not> is_masked f) gs \<and>
     (\<exists>data. message_frames t (packs k t) data gs \<and> carried ops (packed_from k) (packs k t) [msg] data)"

text \<open>A reply: one message with the same content is sent, the input is not touched.\<close>

definition replied :: "'z flate_ops \<Rightarrow> int \<Rightarrow> bytes \<Rightarrow> ('d, 'z) duplex \<Rightarrow> ('d, 'z) duplex \<Rightarrow> frame list \<Rightarrow> bool" where
  "replied ops t msg s s' gs \<longleftrightarrow>
     talking s' \<and> served_message ops (packing ops (as_writer s)) t msg gs \<and>
     packing ops (as_writer s') = next_packing ops (packing ops (as_writer s)) t msg \<and>
     wire (fst s') = wire (fst s) @ encode_frames gs \<and> read_side (fst s') = read_side (fst s) \<and>
     conn.more (fst s') = conn.more (fst s)"

lemma sent_replied:
  assumes s: "talking s" and "message_sent t (compressing t (as_writer s)) data gs (as_writer s) w" and f: "factory_ok w"
    and c: "carried ops (start_state ops (as_writer s)) (compressing t (as_writer s)) [msg] data"
    and st: "start_state ops w = (if compressing t (as_writer s) \<and> newCompressionWriter (as_writer s) = TakeoverFn
      then flate_end ops [msg] (start_state ops (as_writer s)) else start_state ops (as_writer s))"
  shows "replied ops t msg s (from_writer s w) gs"
proof -
  have w: "wire w = wire (fst s) @ encode_frames gs" "message_frames t (compressing t (as_writer s)) data gs"
    "list_all (\<lambda>f. is_masked f = maskFrames (as_writer s)) gs" "idle w" "same_config (as_writer s) w"
    using assms(2) by (simp_all add: message_sent_def)
  have rs: "read_side w = read_side (fst s)" "newCompressionWriter w = newCompressionWriter (as_writer s)"
    "enableWriteCompression w = enableWriteCompression (as_writer s)" "isServer w"
    using w(5) s by (simp_all add: same_config_def talking_def)
  have nk: "net_ok w" "net_ok (fst s)" using w(4) s by (simp_all add: talking_def idle_def)
  have "between_messages (fst (from_writer s w)) = between_messages (fst s)"
    by (rule between_side) (simp_all add: rs nk)
  then have "talking (from_writer s w)" using s w(4) f rs by (simp add: talking_def)
  moreover have "\<not> maskFrames (as_writer s)" using s by (simp add: maskFrames_def talking_def)
  then have "served_message ops (packing ops (as_writer s)) t msg gs"
    using w c unfolding served_message_def packs_compressing by (auto simp: packing_def)
  moreover have "packing ops w = next_packing ops (packing ops (as_writer s)) t msg"
    using rs st by (simp add: packing_def compressing_def)
  ultimately show ?thesis using w rs by (simp add: replied_def)
qed

section \<open>The loop\<close>

text \<open>What the client has sent: good messages, then pings and pongs and a close frame.\<close>

definition heard :: "'d inflate_ops \<Rightarrow> spoken list \<Rightarrow> frame list \<Rightarrow> frame \<Rightarrow> bytes \<Rightarrow> 'd rconn \<Rightarrow> bool" where
  "heard ops ms fs f R c \<longleftrightarrow>
     avail c = encode_frames (concat (map frames ms) @ fs @ [f]) @ R \<and> says ops c ms \<and>
     list_all (frame_for c) (fs @ [f]) \<and> closing fs f \<and> readErrCount c < 998"

text \<open>What a server sends: for each message the answers to its pings and a message with the same content.\<close>

fun echoes :: "'z flate_ops \<Rightarrow> comp_fn \<times> bool \<times> 'z \<Rightarrow> spoken list \<Rightarrow> frame list \<Rightarrow> bool" where
  "echoes ops k [] out \<longleftrightarrow> out = []"
| "echoes ops k (m # ms) out \<longleftrightarrow>
     (\<exists>gs rest. out = pongs (pings (frames m)) @ gs @ rest \<and> served_message ops k (kind m) (content m) gs \<and>
       echoes ops (next_packing ops k (kind m) (content m)) ms rest)"

text \<open>And for the close frame.\<close>

definition farewell :: "frame list \<Rightarrow> frame \<Rightarrow> frame list" where
  "farewell fs f = pongs (pings fs) @ [single_frame CloseMessage (FormatCloseMessage (close_code (payload f)) '''') None]"

text \<open>The connection after the close frame: both sides have their errors, and the reader may be asked once more.\<close>

definition over :: "frame \<Rightarrow> bytes \<Rightarrow> 'd rconn \<Rightarrow> bool" where
  "over f R c \<longleftrightarrow> readErr c = Some (CloseError (close_code (payload f)) (close_text (payload f))) \<and>
     writeErr c = Some ErrCloseSent \<and> mu c \<and> avail c = R \<and> readErrCount c < 999"

lemma heard_setup:
  fixes c c' :: "'d rconn"
  assumes "heard ops (m # ms) fs f R c" and "same_setup c c'" and "rwindow c' = window_after c m"
    and "avail c' = encode_frames (concat (map frames ms) @ fs @ [f]) @ R"
  shows "heard ops ms fs f R c'"
proof -
  note r = setup_rules(1,2) [OF assms(2)]
  have "says ops c' ms = says ops (c\<lparr>rwindow := window_after c m\<rparr>) ms"
    by (rule says_same) (use assms(2,3) r in \<open>simp_all add: same_setup_def\<close>)
  then show ?thesis using assms r by (simp add: heard_def same_setup_def)
qed

lemma heard_side:
  fixes c c' :: "'d rconn"
  assumes "heard ops ms fs f R c" and "read_side c' = read_side c" and "net_ok c' = net_ok c" and "conn.more c' = conn.more c"
  shows "heard ops ms fs f R c'"
proof -
  note b = between_side [OF assms(2,3)]
  have "says ops c' ms = says ops c ms" by (rule says_same [OF b(3,4,6) more_reader [OF assms(4)]])
  then show ?thesis using assms(1) b by (simp add: heard_def)
qed

lemma read_close:
  fixes s :: "('d, 'z) duplex"
  assumes s: "talking s" and h: "heard ops [] fs f R (fst s)"
  obtains c' where "onReader (ReadMessage ops defaultHandlers grow) s = Some (ReadDone noFrame []
      (Some (CloseError (close_code (payload f)) (close_text (payload f)))), (c', snd s))"
    and "over f R c'" and "wire c' = wire (fst s) @ encode_frames (farewell fs f)"
proof -
  let ?c = "fst s"
  have b: "between_messages ?c" and sv: "isServer ?c" using s by (simp_all add: talking_def)
  have h': "avail ?c = encode_frames (fs @ [f]) @ R" "list_all (frame_for ?c) (fs @ [f])" "closing fs f"
    "readErrCount ?c < 998" "readErrCount ?c < 999"
    using h by (simp_all add: heard_def)
  obtain c' where n: "NextReader ops defaultHandlers ?c =
      Some (NextErr (CloseError (close_code (payload f)) (close_text (payload f))), c')"
    and cb: "closed_by fs f R ?c c'" and k: "readErrCount c' \<le> readErrCount ?c + 1"
    using NextReader_close [OF b h'(1,2,3,5), of ops] by blast
  have "\<not> maskFrames ?c" using sv by (simp add: maskFrames_def)
  then have "wire c' = wire ?c @ encode_frames (farewell fs f)"
    using cb answers_pongs [OF sv] by (auto simp: closed_by_def farewell_def simp del: not_None_eq)
  moreover have "over f R c'" using cb k h'(4) by (simp add: over_def closed_by_def)
  moreover have "onReader (ReadMessage ops defaultHandlers grow) s = Some (ReadDone noFrame []
      (Some (CloseError (close_code (payload f)) (close_text (payload f)))), (c', snd s))"
    using n by (simp add: onReader_def ReadMessage_def)
  ultimately show thesis using that by blast
qed

text \<open>A connection that writes as \<open>k\<close> says, where the reply below allows it.\<close>

definition ready :: "'z flate_ops \<Rightarrow> (comp_fn \<Rightarrow> bool \<Rightarrow> bool) \<Rightarrow> comp_fn \<times> bool \<times> 'z \<Rightarrow> ('d, 'z) duplex \<Rightarrow> bool" where
  "ready wops allowed k s \<longleftrightarrow> talking s \<and> packing wops (as_writer s) = k \<and> allowed (fst k) (fst (snd k))"

text \<open>A reply that sends the message back, whatever operations it uses, on connections whose writer it allows.\<close>

locale replier =
  fixes wops :: "'z flate_ops" and reply :: "('d, 'z) reply" and allowed :: "comp_fn \<Rightarrow> bool \<Rightarrow> bool"
  assumes replies: "talking s \<Longrightarrow> allowed (newCompressionWriter (as_writer s)) (enableWriteCompression (as_writer s)) \<Longrightarrow>
    isData t \<Longrightarrow> (t = TextMessage \<Longrightarrow> utf8_text msg) \<Longrightarrow>
    \<exists>s' gs. reply t msg s = Some (True, s') \<and> replied wops t msg s s' gs"
begin

lemma turn:
  assumes s: "ready wops allowed k s" and h: "heard ops (m # ms) fs f R (fst s)" and g: "grows_buffer grow"
  obtains s' gs where "echoLoop reply ops defaultHandlers grow s = echoLoop reply ops defaultHandlers grow s'"
    and "ready wops allowed (next_packing wops k (kind m) (content m)) s'" and "heard ops ms fs f R (fst s')"
    and "served_message wops k (kind m) (content m) gs"
    and "wire (fst s') = wire (fst s) @ encode_frames (pongs (pings (frames m)) @ gs)"
proof -
  let ?t = "kind m" and ?d = "content m"
  have ts: "talking s" and k: "packing wops (as_writer s) = k" and al: "allowed (fst k) (fst (snd k))"
    using s by (simp_all add: ready_def)
  have m: "good_message ops (fst s) m"
    and a: "avail (fst s) = encode_frames (frames m) @ encode_frames (concat (map frames ms) @ fs @ [f]) @ R"
    using h by (simp_all add: heard_def)
  have t: "isData ?t" "?t = TextMessage \<Longrightarrow> utf8_text ?d" using m incoming_type by (auto simp: good_message_def)
  obtain c1 where r: "onReader (ReadMessage ops defaultHandlers grow) s = Some (ReadDone ?t ?d None, (c1, snd s))"
    and c1: "talking (c1, snd s)" "avail c1 = encode_frames (concat (map frames ms) @ fs @ [f]) @ R" "same_setup (fst s) c1"
      "rwindow c1 = window_after (fst s) m"
    and w1: "wire c1 = wire (fst s) @ encode_frames (pongs (pings (frames m)))"
    by (rule read_turn [OF ts a m g])
  have ws: "write_side (as_writer (c1, snd s)) = write_side (as_writer s)" using c1(3) by (simp add: same_setup_def)
  have "start_state wops (as_writer (c1, snd s)) = start_state wops (as_writer s)" by (rule start_side [OF ws]) simp
  then have k1: "packing wops (as_writer (c1, snd s)) = k" using k compressing_side [OF ws] by (simp add: packing_def)
  then have "allowed (newCompressionWriter (as_writer (c1, snd s))) (enableWriteCompression (as_writer (c1, snd s)))"
    using al by (auto simp: packing_def)
  then obtain s' gs where x: "reply ?t ?d (c1, snd s) = Some (True, s')" and p: "replied wops ?t ?d (c1, snd s) s' gs"
    using replies [OF c1(1) _ t] by blast
  have p': "talking s'" "read_side (fst s') = read_side c1" "wire (fst s') = wire c1 @ encode_frames gs"
      "conn.more (fst s') = conn.more c1" "packing wops (as_writer s') = next_packing wops k ?t ?d"
    and gs: "served_message wops k ?t ?d gs"
    using p k1 by (simp_all add: replied_def)
  have nk: "net_ok (fst s') = net_ok c1" using p'(1) c1(1) by (simp add: talking_def between_messages_def can_read_def)
  show thesis
  proof (rule that)
    show "echoLoop reply ops defaultHandlers grow s = echoLoop reply ops defaultHandlers grow s'"
      by (subst echoLoop.simps) (simp add: r x)
    show "heard ops ms fs f R (fst s')" by (rule heard_side [OF heard_setup [OF h c1(3,4,2)] p'(2) nk p'(4)])
    show "ready wops allowed (next_packing wops k ?t ?d) s'" using p'(1,5) al by (cases k) (simp add: ready_def)
    show "wire (fst s') = wire (fst s) @ encode_frames (pongs (pings (frames m)) @ gs)" using p'(3) w1 by simp
  qed (rule gs)
qed

lemma loop_echoes:
  assumes "ready wops allowed k s" and "heard ops ms fs f R (fst s)" and g: "grows_buffer grow"
  shows "\<exists>s' out. echoLoop reply ops defaultHandlers grow s = Some (False, s') \<and> echoes wops k ms out \<and>
    wire (fst s') = wire (fst s) @ encode_frames (out @ farewell fs f) \<and> over f R (fst s')"
  using assms(1,2)
proof (induction ms arbitrary: k s)
  case Nil
  have "talking s" using Nil(1) by (simp add: ready_def)
  then obtain c' where "onReader (ReadMessage ops defaultHandlers grow) s = Some (ReadDone noFrame []
      (Some (CloseError (close_code (payload f)) (close_text (payload f)))), (c', snd s))"
    and "over f R c'" "wire c' = wire (fst s) @ encode_frames (farewell fs f)"
    by (rule read_close [OF _ Nil(2)])
  then show ?case by (subst echoLoop.simps) simp
next
  case (Cons m ms)
  obtain s1 gs where e: "echoLoop reply ops defaultHandlers grow s = echoLoop reply ops defaultHandlers grow s1"
    and s1: "ready wops allowed (next_packing wops k (kind m) (content m)) s1" "heard ops ms fs f R (fst s1)"
    and o: "served_message wops k (kind m) (content m) gs"
    and w: "wire (fst s1) = wire (fst s) @ encode_frames (pongs (pings (frames m)) @ gs)"
    by (rule turn [OF Cons.prems g])
  obtain s' out where "echoLoop reply ops defaultHandlers grow s1 = Some (False, s')"
    "echoes wops (next_packing wops k (kind m) (content m)) ms out"
    "wire (fst s') = wire (fst s1) @ encode_frames (out @ farewell fs f)" "over f R (fst s')"
    using Cons.IH [OF s1] by blast
  then show ?case using e o w by (intro exI [of _ s'] exI [of _ "pongs (pings (frames m)) @ gs @ out"]) auto
qed

end

section \<open>The four replies\<close>

lemma WriteMessage_replied:
  fixes s :: "('d, 'z) duplex"
  assumes s: "talking s" and sy: "sync_flush ops" and "isData t" and "t = TextMessage \<Longrightarrow> utf8_text msg"
  obtains w gs where "WriteMessage ops t msg (as_writer s) = Some (None, w)" and "replied ops t msg s (from_writer s w) gs"
proof -
  have i: "idle (as_writer s)" "factory_ok (as_writer s)" using s by (simp_all add: talking_def)
  obtain w fs data where r: "WriteMessage ops t msg (as_writer s) = Some (None, w)"
    and m: "message_sent t (compressing t (as_writer s)) data fs (as_writer s) w"
    and c: "carried ops (start_state ops (as_writer s)) (compressing t (as_writer s)) [msg] data" and f: "factory_ok w"
    and st: "start_state ops w = (if compressing t (as_writer s) \<and> newCompressionWriter (as_writer s) = TakeoverFn
      then flate_end ops [msg] (start_state ops (as_writer s)) else start_state ops (as_writer s))"
    by (rule WriteMessage_ok [OF i(1) assms(3) i(2), of msg ops]) (use assms(4) sy in \<open>auto simp: validating_def\<close>)
  show thesis by (rule that [OF r sent_replied [OF s m f c st]])
qed

lemma stream_replied:
  fixes s :: "('d, 'z) duplex"
  assumes s: "talking s" and sy: "sync_flush ops" and "isData t" and "t = TextMessage \<Longrightarrow> utf8_text msg"
  obtains i w1 w2 w n gs where "NextWriter ops t (as_writer s) = Some (Inr i, w1)"
    and "pipeWrite ops i msg w1 = Some ((n, None), w2)" and "pipeClose ops i w2 = Some (None, w)"
    and "replied ops t msg s (from_writer s w) gs"
proof -
  have i: "idle (as_writer s)" "factory_ok (as_writer s)" using s by (simp_all add: talking_def)
  have u: "validating t (as_writer s) \<Longrightarrow> utf8_text (concat [msg])" using assms(4) by (simp add: validating_def)
  obtain j w1 w2 w fs data where n: "NextWriter ops t (as_writer s) = Some (Inr j, w1)"
    and p: "pipe_writes ops j [msg] w1 = Some (None, w2)" and cl: "pipeClose ops j w2 = Some (None, w)"
    and m: "message_sent t (compressing t (as_writer s)) data fs (as_writer s) w"
    and c: "carried ops (start_state ops (as_writer s)) (compressing t (as_writer s)) [msg] data" and f: "factory_ok w"
    and st: "start_state ops w = (if compressing t (as_writer s) \<and> newCompressionWriter (as_writer s) = TakeoverFn
      then flate_end ops [msg] (start_state ops (as_writer s)) else start_state ops (as_writer s))"
    using stream_ok [OF i(1) assms(3) i(2) u, of ops] sy by metis
  obtain k where "pipeWrite ops j msg w1 = Some ((k, None), w2)"
    using p by (auto split: Option.bind_splits if_splits option.splits)
  then show thesis using that n cl sent_replied [OF s m f c st] by blast
qed

lemma prepared_replied:
  fixes s :: "('d, 'z) duplex"
  assumes s: "talking s" and sy: "sync_flush ops"
    and nf: "newCompressionWriter (as_writer s) \<noteq> TakeoverFn \<or> \<not> enableWriteCompression (as_writer s)"
    and "isData t" and "t = TextMessage \<Longrightarrow> utf8_text msg"
  obtains pm pm' w gs where "NewPreparedMessage ops env t msg = Some (Inr pm)"
    and "WritePreparedMessage ops env pm (as_writer s) = Some (None, pm', w)" and "replied ops t msg s (from_writer s w) gs"
proof -
  let ?w = "as_writer s"
  have i: "idle ?w" "factory_ok ?w" using s by (simp_all add: talking_def)
  obtain pm where n: "NewPreparedMessage ops env t msg = Some (Inr pm)" and ok: "pm_ok ops t msg pm"
    by (rule new_prepared [OF assms(4,5)])
  obtain pm' gs where r: "WritePreparedMessage ops env pm ?w =
      Some (None, pm', ?w\<lparr>netWriteDeadline := writeDeadline ?w, wire := wire ?w @ encode_frames gs\<rparr>)"
    and p: "prepared_frames ops \<lparr>pkServer = isServer ?w, pkCompress = compressing t ?w, pkLevel = compressionLevel ?w\<rparr> t msg gs"
    by (rule prepared_written [OF ok sy i(1) nf])
  let ?c = "?w\<lparr>netWriteDeadline := writeDeadline ?w, wire := wire ?w @ encode_frames gs\<rparr>"
  have "idle ?c" using i(1) by (simp add: idle_def net_ok_def deadline_ok_def buffers_ok_def cong: option.case_cong)
  moreover have "same_config ?w ?c" by (simp add: same_config_def)
  moreover have "compressing t ?w \<Longrightarrow> start_state ops ?w = fl_new ops (compressionLevel ?w)"
    using nf by (auto simp: start_state_def compressing_def split: comp_fn.split option.split)
  then obtain data where "message_frames t (compressing t ?w) data gs"
    and c: "carried ops (start_state ops ?w) (compressing t ?w) [msg] data" and "list_all (\<lambda>f. is_masked f = maskFrames ?w) gs"
    using p s by (cases "compressing t ?w") (auto simp: prepared_frames_def carried_def maskFrames_def talking_def)
  ultimately have m: "message_sent t (compressing t ?w) data gs ?w ?c" by (simp add: message_sent_def)
  have f: "factory_ok ?c" using i(2) by (simp add: factory_ok_def)
  have "start_state ops ?c = start_state ops ?w" by (simp add: start_state_def split: comp_fn.split option.split)
  then have "replied ops t msg s (from_writer s ?c) gs"
    by (intro sent_replied [OF s m f c]) (use nf in \<open>auto simp: compressing_def\<close>)
  then show thesis using that n r by blast
qed

interpretation er: replier ops "echoReply ops" "\<lambda>fn en. sync_flush ops" for ops :: "'z flate_ops"
proof unfold_locales
  fix s :: "('a, 'z) duplex" and t msg
  assume "talking s" "sync_flush ops" "isData t" "t = TextMessage \<Longrightarrow> utf8_text msg"
  then obtain w gs where "WriteMessage ops t msg (as_writer s) = Some (None, w)" "replied ops t msg s (from_writer s w) gs"
    by (rule WriteMessage_replied)
  then show "\<exists>s' gs. echoReply ops t msg s = Some (True, s') \<and> replied ops t msg s s' gs"
    by (auto simp: echoReply_def onWriter_def)
qed

interpretation ra: replier ops "readAllReply ops env writeMessage writePrepared"
    "\<lambda>fn en. sync_flush ops \<and> (writeMessage \<and> writePrepared \<longrightarrow> fn \<noteq> TakeoverFn \<or> \<not> en)"
  for ops :: "'z flate_ops" and env writeMessage writePrepared
proof unfold_locales
  fix s :: "('a, 'z) duplex" and t msg
  assume a: "talking s" and al: "sync_flush ops \<and> (writeMessage \<and> writePrepared \<longrightarrow>
      newCompressionWriter (as_writer s) \<noteq> TakeoverFn \<or> \<not> enableWriteCompression (as_writer s))"
    and d: "isData t" "t = TextMessage \<Longrightarrow> utf8_text msg"
  show "\<exists>s' gs. readAllReply ops env writeMessage writePrepared t msg s = Some (True, s') \<and> replied ops t msg s s' gs"
  proof (cases writeMessage)
    case True
    note wm = True
    show ?thesis
    proof (cases writePrepared)
      case True
      then have nt: "newCompressionWriter (as_writer s) \<noteq> TakeoverFn \<or> \<not> enableWriteCompression (as_writer s)"
        using al wm by simp
      obtain pm pm' w gs where "NewPreparedMessage ops env t msg = Some (Inr pm)"
        "WritePreparedMessage ops env pm (as_writer s) = Some (None, pm', w)" "replied ops t msg s (from_writer s w) gs"
        by (rule prepared_replied [OF a conjunct1 [OF al] nt d])
      then show ?thesis using wm True by (auto simp: readAllReply_def)
    next
      case False
      obtain w gs where "WriteMessage ops t msg (as_writer s) = Some (None, w)" "replied ops t msg s (from_writer s w) gs"
        by (rule WriteMessage_replied [OF a conjunct1 [OF al] d])
      then show ?thesis using wm False by (auto simp: readAllReply_def onWriter_def)
    qed
  next
    case False
    obtain i w1 w2 w n gs where "NextWriter ops t (as_writer s) = Some (Inr i, w1)"
      "pipeWrite ops i msg w1 = Some ((n, None), w2)" "pipeClose ops i w2 = Some (None, w)"
      "replied ops t msg s (from_writer s w) gs"
      by (rule stream_replied [OF a conjunct1 [OF al] d])
    moreover have "from_writer (from_writer (from_writer s w1) w2) w = from_writer s w" by (simp add: duplex_defs)
    ultimately show ?thesis using False by (auto simp: readAllReply_def onWriter_def)
  qed
qed

section \<open>The end\<close>

lemma NextReader_failed:
  assumes "readErr c = Some e" and "readErrCount c < 999"
  obtains rs where "NextReader ops h c = Some (NextErr e,
    c\<lparr>readers := rs, reader := None, messageReader := None, readLength := 0, readErrCount := readErrCount c + 1\<rparr>)"
proof -
  obtain rs where f: "fresh c = c\<lparr>readers := rs, reader := None, messageReader := None, readLength := 0\<rparr>"
    using fresh_fields by blast
  have "NextReader ops h c = Some (NextErr e,
    c\<lparr>readers := rs, reader := None, messageReader := None, readLength := 0, readErrCount := readErrCount c + 1\<rparr>)"
    unfolding NextReader_fresh f using assms by (subst nextLoop.simps) (simp add: failedRead_def)
  then show thesis by (rule that)
qed

lemma WriteControl_failed:
  fixes c :: "'a conn_scheme"
  assumes "writeErr c = Some e" and "mu c" and "isControl t" and "length p \<le> maxControlFramePayloadSize"
    and "\<forall>x. d = Some x \<longrightarrow> now c \<le> x"
  obtains k where "WriteControl t p d c = Some (Some e, c\<lparr>maskIdx := k\<rparr>)"
proof -
  have a: "acquireMu d x = Some (None, x\<lparr>mu := False\<rparr>)" if "mu x" "now x = now c" for x :: "'a conn_scheme"
    using assms(5) that by (auto simp: acquireMu_def split: option.split)
  have "\<exists>k. WriteControl t p d c = Some (Some e, c\<lparr>maskIdx := k\<rparr>)"
  proof (cases "maskFrames c")
    case True
    then have "WriteControl t p d c = Some (Some e, c\<lparr>maskIdx := maskIdx c + 1\<rparr>)"
      using assms by (simp add: WriteControl_def newMaskKey_def a writeHeld_def)
    then show ?thesis by blast
  next
    case False
    then have "WriteControl t p d c = Some (Some e, c\<lparr>maskIdx := maskIdx c\<rparr>)"
      using assms by (simp add: WriteControl_def a writeHeld_def)
    then show ?thesis by blast
  qed
  then show thesis using that by blast
qed

lemma netClose_fields:
  obtains e s where "netClose c = (e, c\<lparr>netClosed := True, netScript := s\<rparr>)"
proof (cases "netScript c")
  case Nil
  then have "netClose c = (None, c\<lparr>netClosed := True, netScript := netScript c\<rparr>)" by (simp add: netClose_def)
  then show thesis by (rule that)
next
  case (Cons r s)
  then show thesis using that by (cases r) (simp_all add: netClose_def)
qed

text \<open>What remains to be seen of a connection once it is closed.\<close>

definition closed_with :: "frame \<Rightarrow> bytes \<Rightarrow> 'd rconn \<Rightarrow> bool" where
  "closed_with f R c \<longleftrightarrow> netClosed c \<and> readErr c = Some (CloseError (close_code (payload f)) (close_text (payload f))) \<and>
     writeErr c = Some ErrCloseSent \<and> avail c = R"

lemma over_closed: "over f R c \<Longrightarrow> closed_with f R (c\<lparr>netClosed := True, netScript := s\<rparr>)"
  by (auto simp: over_def closed_with_def avail_def)

lemma over_graceful:
  assumes "over f R c" and "now c \<le> x"
  obtains r c' where "CloseGracefully ops h CloseNormalClosure '''' (Some x) c = Some (Some r, c')"
    and "wire c' = wire c" and "closed_with f R c'"
proof -
  have o: "readErr c = Some (CloseError (close_code (payload f)) (close_text (payload f)))" "writeErr c = Some ErrCloseSent"
    "mu c" "avail c = R" "readErrCount c < 999"
    using assms(1) by (simp_all add: over_def)
  obtain k where w: "WriteControl CloseMessage (FormatCloseMessage CloseNormalClosure '''') (Some x) c =
      Some (Some ErrCloseSent, c\<lparr>maskIdx := k\<rparr>)"
    by (rule WriteControl_failed [OF o(2,3), of CloseMessage "FormatCloseMessage CloseNormalClosure ''''" "Some x"])
      (use assms(2) in \<open>auto simp: isControl_def message_types FormatCloseMessage_def bytes_of_string_def close_codes maxControlFramePayloadSize_def\<close>)
  define c2 where "c2 = SetReadDeadline (Some x) (c\<lparr>maskIdx := k\<rparr>)"
  have c2: "readErr c2 = readErr c" "readErrCount c2 = readErrCount c" "writeErr c2 = writeErr c" "wire c2 = wire c" "avail c2 = R"
    using o(4) by (auto simp: c2_def SetReadDeadline_def avail_def)
  obtain rs where n: "NextReader ops h c2 = Some (NextErr (CloseError (close_code (payload f)) (close_text (payload f))),
    c2\<lparr>readers := rs, reader := None, messageReader := None, readLength := 0, readErrCount := readErrCount c2 + 1\<rparr>)"
    by (rule NextReader_failed [of c2 _ ops h]) (use c2 o in simp_all)
  define c3 where "c3 = c2\<lparr>readers := rs, reader := None, messageReader := None, readLength := 0, readErrCount := readErrCount c2 + 1\<rparr>"
  have d: "drain ops h c2 = Some (True, c3)" by (subst drain.simps) (simp add: n c3_def)
  obtain e s where cl: "netClose c3 = (e, c3\<lparr>netClosed := True, netScript := s\<rparr>)" by (rule netClose_fields)
  have "CloseGracefully ops h CloseNormalClosure '''' (Some x) c = Some (Some e, c3\<lparr>netClosed := True, netScript := s\<rparr>)"
    using w d cl unfolding CloseGracefully_def c2_def by simp
  moreover have "wire (c3\<lparr>netClosed := True, netScript := s\<rparr>) = wire c" using c2 by (simp add: c3_def)
  moreover have "closed_with f R (c3\<lparr>netClosed := True, netScript := s\<rparr>)"
    using c2 o by (auto simp: closed_with_def c3_def avail_def)
  ultimately show thesis by (rule that)
qed

section \<open>Properties\<close>

text \<open>C14: the echo server. On a server's connection, whatever compression has been negotiated, for a client that
  sends messages of any number, fragmentation and compression (text in UTF-8, a compressed message decoded
  with the dictionary of those before it when contexts are taken over) with pings anywhere, and then a
  close frame, however the network cuts the bytes, the handler of examples/echo returns; it has sent, for each
  message, the pongs for its pings and one message of the same type and content, compressed as the
  connection compresses, in order, then one close frame with the client's code, and nothing else (its own
  deferred close frame is not sent); and the connection is closed.\<close>

theorem echo_server_echoes:
  fixes s :: "('d, 'z) duplex"
  assumes "talking s" and "sync_flush wops" and "heard ops ms fs f R (fst s)" and "grows_buffer grow"
  shows "\<exists>s' out. echo wops ops defaultHandlers grow s = Some (False, s') \<and>
    echoes wops (packing wops (as_writer s)) ms out \<and>
    wire (fst s') = wire (fst s) @ encode_frames (out @ farewell fs f) \<and> closed_with f R (fst s')"
proof -
  have "ready wops (\<lambda>fn en. sync_flush wops) (packing wops (as_writer s)) s" using assms(1,2) by (simp add: ready_def)
  from er.loop_echoes [OF this assms(3,4)] obtain s1 out where
    l: "echoLoop (echoReply wops) ops defaultHandlers grow s = Some (False, s1)"
    and r: "echoes wops (packing wops (as_writer s)) ms out" "wire (fst s1) = wire (fst s) @ encode_frames (out @ farewell fs f)"
    and o: "over f R (fst s1)"
    by blast
  obtain x c' where "CloseGracefully ops defaultHandlers CloseNormalClosure '''' (Some (now (fst s1) + 1000000000)) (fst s1) = Some (Some x, c')"
    and c': "wire c' = wire (fst s1)" "closed_with f R c'"
    by (rule over_graceful [OF o, of "now (fst s1) + 1000000000" ops defaultHandlers]) simp_all
  then have "echo wops ops defaultHandlers grow s = Some (False, (c', snd s1))"
    by (simp add: echo_def l onReader_def)
  then show ?thesis using c' r by (intro exI [of _ "(c', snd s1)"] exI [of _ out]) simp
qed

text \<open>C15: the autobahn server does the same in each of its three ways to send a message it has read: as a
  whole, through a message writer, or as a prepared message (this one not with active context takeover, with
  which prepared messages do not go).\<close>

theorem autobahn_server_echoes:
  fixes s :: "('d, 'z) duplex"
  assumes "talking s" and "sync_flush wops" and "heard ops ms fs f R (fst s)" and "grows_buffer grow"
    and "writeMessage \<and> writePrepared \<longrightarrow> newCompressionWriter (as_writer s) \<noteq> TakeoverFn \<or> \<not> enableWriteCompression (as_writer s)"
  shows "\<exists>s' out. echoReadAll wops env ops defaultHandlers grow writeMessage writePrepared s = Some (False, s') \<and>
    echoes wops (packing wops (as_writer s)) ms out \<and>
    wire (fst s') = wire (fst s) @ encode_frames (out @ farewell fs f) \<and> closed_with f R (fst s')"
proof -
  have "ready wops (\<lambda>fn en. sync_flush wops \<and> (writeMessage \<and> writePrepared \<longrightarrow> fn \<noteq> TakeoverFn \<or> \<not> en))
      (packing wops (as_writer s)) s"
    using assms(1,2,5) by (simp add: ready_def packing_def)
  from ra.loop_echoes [OF this assms(3,4), of env] obtain s1 out where
    l: "echoLoop (readAllReply wops env writeMessage writePrepared) ops defaultHandlers grow s = Some (False, s1)"
    and r: "echoes wops (packing wops (as_writer s)) ms out" "wire (fst s1) = wire (fst s) @ encode_frames (out @ farewell fs f)"
    and o: "over f R (fst s1)"
    by blast
  obtain e x where c: "netClose (fst s1) = (e, fst s1\<lparr>netClosed := True, netScript := x\<rparr>)" by (rule netClose_fields)
  have "echoReadAll wops env ops defaultHandlers grow writeMessage writePrepared s =
      Some (False, (fst s1\<lparr>netClosed := True, netScript := x\<rparr>, snd s1))"
    by (simp add: echoReadAll_def l onReader_def c)
  then show ?thesis using over_closed [OF o, of x] r
    by (intro exI [of _ "(fst s1\<lparr>netClosed := True, netScript := x\<rparr>, snd s1)"] exI [of _ out]) simp
qed

text \<open>A client that sends a binary message in two fragments with a ping between them, and then closes.\<close>

definition client_message :: spoken where
  "client_message = \<lparr>kind = BinaryMessage, packed = False, frames =
     [\<lparr>fin = False, rsv1 = False, opcode = BinaryMessage, mkey = Some (1, 2, 3, 4), payload = [10, 20]\<rparr>,
      single_frame PingMessage [5] (Some (7, 7, 7, 7)),
      \<lparr>fin = True, rsv1 = False, opcode = continuationFrame, mkey = Some (4, 3, 2, 1), payload = [30]\<rparr>],
     content = [10, 20, 30]\<rparr>"

definition client_close :: frame where
  "client_close = single_frame CloseMessage (FormatCloseMessage CloseGoingAway ''bye'') (Some (9, 8, 7, 6))"

definition served :: "(unit, bytes) duplex" where
  "served = newDuplex True 0 0 False None None
     (quiet\<lparr>envIn := drip (encode_frames (concat (map frames [client_message]) @ [] @ [client_close]) @ [])\<rparr>)"

lemma served_reader: "fst served = reader_of True (encode_frames (concat (map frames [client_message]) @ [] @ [client_close]) @ [])"
  by (simp add: served_def newDuplex_def reader_of_def)

lemma served_ok: "talking served" "heard no_inflate [client_message] [] client_close [] (fst served)" "wire (fst served) = []"
    "newCompressionWriter (as_writer served) = NilFn"
proof -
  have "idle (as_writer served)" "factory_ok (as_writer served)"
    unfolding served_def new_duplex(1) by (rule new_idle; simp add: quiet_def)+
  then show "talking served" by (simp add: talking_def served_reader)
  show "newCompressionWriter (as_writer served) = NilFn"
    unfolding served_def new_duplex(1) by (simp add: new_conn_defs)
  show "wire (fst served) = []" by (simp add: served_reader)
  have "isValidReceivedCloseCode CloseGoingAway"
    by (simp add: isValidReceivedCloseCode_def validReceivedCloseCodes_def close_codes)
  then have cl: "closing [] client_close"
    using close_of_format(3) [OF _ bye_text] by (simp add: closing_def client_close_def single_frame_def)
  note ff = frame_for_def known_opcode_def isControl_def isData_def message_types is_masked_def maxControlFramePayloadSize_def
    continuationFrame_def single_frame_def
  have fc: "frame_for (fst served) client_close"
    by (simp add: served_reader client_close_def ff FormatCloseMessage_def close_codes bytes_of_string_def)
  have "list_all (frame_for (fst served)) (frames client_message)"
    by (simp add: served_reader client_message_def ff)
  then have "good_message no_inflate (fst served) client_message"
    by (simp add: good_message_def client_message_def served_reader ff frame_data_def stands_for_def)
  moreover have "readErrCount (fst served) < 998" by (simp add: served_def newDuplex_def new_rconn_defs)
  ultimately show "heard no_inflate [client_message] [] client_close [] (fst served)"
    unfolding heard_def using cl fc by (simp add: served_reader)
qed

lemma served_echo:
  assumes "echoes ops (packing ops (as_writer served)) [client_message] out"
  obtains gs where "out = pongs [[5]] @ gs" "message_frames BinaryMessage False [10, 20, 30] gs"
proof -
  have "\<not> packs (packing ops (as_writer served)) BinaryMessage" by (simp add: packs_compressing compressing_def served_ok(4))
  moreover have "pings (frames client_message) = [[5]]" by (simp add: client_message_def single_frame_def message_types continuationFrame_def)
  ultimately show thesis using assms that by (auto simp: client_message_def served_message_def carried_def)
qed

lemma echo_server_echoes_witness:
  "\<exists>s' gs. echo stored_ops no_inflate defaultHandlers (\<lambda>n. 2 * n + 1) served = Some (False, s') \<and>
    message_frames BinaryMessage False [10, 20, 30] gs \<and>
    wire (fst s') = encode_frames ((pongs [[5]] @ gs) @ farewell [] client_close) \<and> closed_with client_close [] (fst s')"
proof -
  have "grows_buffer (\<lambda>n. 2 * n + 1)" by (simp add: grows_buffer_def)
  from echo_server_echoes [OF served_ok(1) stored_sync served_ok(2) this] obtain s' out where
    e: "echo stored_ops no_inflate defaultHandlers (\<lambda>n. 2 * n + 1) served = Some (False, s')"
    and o: "echoes stored_ops (packing stored_ops (as_writer served)) [client_message] out"
    and w: "wire (fst s') = [] @ encode_frames (out @ farewell [] client_close)" "closed_with client_close [] (fst s')"
    unfolding served_ok(3) by blast
  from o obtain gs where "out = pongs [[5]] @ gs" "message_frames BinaryMessage False [10, 20, 30] gs" by (rule served_echo)
  then show ?thesis using e w unfolding append.left_neutral by blast
qed

lemma autobahn_server_echoes_witness:
  "\<exists>s' gs. echoReadAll stored_ops quiet no_inflate defaultHandlers (\<lambda>n. 2 * n + 1) True True served = Some (False, s') \<and>
    message_frames BinaryMessage False [10, 20, 30] gs \<and>
    wire (fst s') = encode_frames ((pongs [[5]] @ gs) @ farewell [] client_close) \<and> closed_with client_close [] (fst s')"
proof -
  have g: "grows_buffer (\<lambda>n. 2 * n + 1)" by (simp add: grows_buffer_def)
  have "True \<and> True \<longrightarrow> newCompressionWriter (as_writer served) \<noteq> TakeoverFn \<or> \<not> enableWriteCompression (as_writer served)"
    by (simp add: served_ok(4))
  from autobahn_server_echoes [OF served_ok(1) stored_sync served_ok(2) g this, of quiet] obtain s' out where
    e: "echoReadAll stored_ops quiet no_inflate defaultHandlers (\<lambda>n. 2 * n + 1) True True served = Some (False, s')"
    and o: "echoes stored_ops (packing stored_ops (as_writer served)) [client_message] out"
    and w: "wire (fst s') = [] @ encode_frames (out @ farewell [] client_close)" "closed_with client_close [] (fst s')"
    unfolding served_ok(3) by blast
  from o obtain gs where "out = pongs [[5]] @ gs" "message_frames BinaryMessage False [10, 20, 30] gs" by (rule served_echo)
  then show ?thesis using e w unfolding append.left_neutral by blast
qed

end
