(* ===== verification/Hub.thy ===== *)
theory Hub
  imports Prelude
begin

text \<open>
  The hub of src/examples/chat: the goroutines of hub.go and client.go with the channels between them.
  A step is what one goroutine does between two points where another may run. That the hub never
  panics on a closed channel, and which messages reach which client, holds over all interleavings.
\<close>

section \<open>Channels\<close>

text \<open>A channel with a buffer, as the hub sends on it and the pump receives from it.\<close>

record chan =
  chanItems :: "bytes list"
  chanClosed :: bool

definition sendBuffer :: nat where
  "sendBuffer = 256"

definition makeChan :: chan where
  "makeChan = \<lparr>chanItems = [], chanClosed = False\<rparr>"

text \<open>A send with a default branch: \<open>False\<close> when the buffer is full, a panic (\<open>None\<close>) on a closed channel.\<close>

definition chanTrySend :: "bytes \<Rightarrow> chan \<Rightarrow> (bool \<times> chan) option" where
  "chanTrySend m ch =
     (if chanClosed ch then None
      else if length (chanItems ch) < sendBuffer then Some (True, ch\<lparr>chanItems := chanItems ch @ [m]\<rparr>)
      else Some (False, ch))"

definition chanClose :: "chan \<Rightarrow> chan option" where
  "chanClose ch = (if chanClosed ch then None else Some (ch\<lparr>chanClosed := True\<rparr>))"

section \<open>The hub\<close>

text \<open>Clients are pointers, here numbers; \<open>send\<close> has the channel of each client.\<close>

record hub =
  clients :: "nat set"
  send :: "nat \<Rightarrow> chan"

definition newHub :: hub where
  "newHub = \<lparr>clients = {}, send = (\<lambda>_. makeChan)\<rparr>"

text \<open>The first two cases of \<open>run\<close>, and what the third does for one client.\<close>

definition hubRegister :: "nat \<Rightarrow> hub \<Rightarrow> hub" where
  "hubRegister client h = h\<lparr>clients := insert client (clients h)\<rparr>"

definition hubUnregister :: "nat \<Rightarrow> hub \<Rightarrow> hub option" where
  "hubUnregister client h =
     (if client \<in> clients h then
        do { ch \<leftarrow> chanClose (send h client);
             Some (h\<lparr>clients := clients h - {client}, send := (send h)(client := ch)\<rparr>) }
      else Some h)"

definition hubDeliver :: "bytes \<Rightarrow> nat \<Rightarrow> hub \<Rightarrow> hub option" where
  "hubDeliver message client h =
     do { (ok, ch) \<leftarrow> chanTrySend message (send h client);
          if ok then Some (h\<lparr>send := (send h)(client := ch)\<rparr>)
          else do { ch1 \<leftarrow> chanClose ch;
                    Some (h\<lparr>clients := clients h - {client}, send := (send h)(client := ch1)\<rparr>) } }"

lemma hubDeliver_open:
  assumes "\<not> chanClosed (send h i)"
  shows "hubDeliver m i h = Some (if length (chanItems (send h i)) < sendBuffer
      then h\<lparr>send := (send h)(i := (send h i)\<lparr>chanItems := chanItems (send h i) @ [m]\<rparr>)\<rparr>
      else h\<lparr>clients := clients h - {i}, send := (send h)(i := (send h i)\<lparr>chanClosed := True\<rparr>)\<rparr>)"
  using assms by (simp add: hubDeliver_def chanTrySend_def chanClose_def)

section \<open>The goroutines\<close>

text \<open>The \<open>readPump\<close> of a client before it is started, while it runs, and after it has unregistered; the
  \<open>writePump\<close> at its \<open>select\<close>, with the first message in hand, with \<open>n\<close> more to receive, and returned.\<close>

datatype readState = Unserved | Reading | Unread
datatype writeState = Waiting | Taken bytes | Batching nat "bytes list" | Stopped

text \<open>\<open>run\<close> is at its \<open>select\<close>, or has a message and the clients that are still to get it, in an order that the
  map chooses. Next to the program's state: the messages broadcast so far, and for each client when it joined, what it
  has received from its channel, and the batches it has written.\<close>

record chat =
  hubOf :: hub
  delivering :: "(bytes \<times> nat list) option"
  readPump :: "nat \<Rightarrow> readState"
  writePump :: "nat \<Rightarrow> writeState"
  broadcasts :: "bytes list"
  joined :: "nat \<Rightarrow> nat"
  received :: "nat \<Rightarrow> bytes list"
  batches :: "nat \<Rightarrow> bytes list list"

definition newChat :: chat where
  "newChat = \<lparr>hubOf = newHub, delivering = None, readPump = (\<lambda>_. Unserved), writePump = (\<lambda>_. Waiting), broadcasts = [],
     joined = (\<lambda>_. 0), received = (\<lambda>_. []), batches = (\<lambda>_. [])\<rparr>"

definition setSend :: "nat \<Rightarrow> chan \<Rightarrow> chat \<Rightarrow> chat" where
  "setSend i ch s = s\<lparr>hubOf := (hubOf s)\<lparr>send := (send (hubOf s))(i := ch)\<rparr>\<rparr>"

abbreviation channel :: "chat \<Rightarrow> nat \<Rightarrow> chan" where
  "channel s i \<equiv> send (hubOf s) i"

text \<open>\<open>serveWs\<close> registers the client and then starts its two pumps. \<open>readPump\<close> hands the hub a message and, at
  its end, unregisters; the hub is at its \<open>select\<close> for all three. \<open>writePump\<close> receives a message, then asks how many are queued, receives as many, and
  closes the writer; it ends when a write fails, or when its channel is closed and empty.\<close>

inductive chat_step :: "chat \<Rightarrow> chat \<Rightarrow> bool" where
  serve: "readPump s i = Unserved \<Longrightarrow> delivering s = None \<Longrightarrow>
    chat_step s ((setSend i makeChan s)\<lparr>hubOf := hubRegister i (hubOf (setSend i makeChan s)),
      readPump := (readPump s)(i := Reading), joined := (joined s)(i := length (broadcasts s))\<rparr>)"
| broadcast: "readPump s i = Reading \<Longrightarrow> delivering s = None \<Longrightarrow> distinct order \<Longrightarrow> set order = clients (hubOf s) \<Longrightarrow>
    chat_step s (s\<lparr>delivering := Some (m, order), broadcasts := broadcasts s @ [m]\<rparr>)"
| deliver: "delivering s = Some (m, i # order) \<Longrightarrow> hubDeliver m i (hubOf s) = Some h \<Longrightarrow>
    chat_step s (s\<lparr>hubOf := h, delivering := Some (m, order)\<rparr>)"
| broadcast_done: "delivering s = Some (m, []) \<Longrightarrow> chat_step s (s\<lparr>delivering := None\<rparr>)"
| unregister: "readPump s i = Reading \<Longrightarrow> delivering s = None \<Longrightarrow> hubUnregister i (hubOf s) = Some h \<Longrightarrow>
    chat_step s (s\<lparr>hubOf := h, readPump := (readPump s)(i := Unread)\<rparr>)"
| receive: "readPump s i \<noteq> Unserved \<Longrightarrow> writePump s i = Waiting \<Longrightarrow> chanItems (channel s i) = m # ms \<Longrightarrow>
    chat_step s ((setSend i ((channel s i)\<lparr>chanItems := ms\<rparr>) s)\<lparr>writePump := (writePump s)(i := Taken m),
      received := (received s)(i := received s i @ [m])\<rparr>)"
| count: "writePump s i = Taken m \<Longrightarrow>
    chat_step s (s\<lparr>writePump := (writePump s)(i := Batching (length (chanItems (channel s i))) [m])\<rparr>)"
| more: "writePump s i = Batching (Suc n) b \<Longrightarrow> chanItems (channel s i) = m # ms \<Longrightarrow>
    chat_step s ((setSend i ((channel s i)\<lparr>chanItems := ms\<rparr>) s)\<lparr>writePump := (writePump s)(i := Batching n (b @ [m])),
      received := (received s)(i := received s i @ [m])\<rparr>)"
| written: "writePump s i = Batching 0 b \<Longrightarrow>
    chat_step s (s\<lparr>writePump := (writePump s)(i := Waiting), batches := (batches s)(i := batches s i @ [b])\<rparr>)"
| write_fails: "readPump s i \<noteq> Unserved \<Longrightarrow> writePump s i = Waiting \<or> writePump s i = Taken m \<or> writePump s i = Batching 0 b \<Longrightarrow>
    chat_step s (s\<lparr>writePump := (writePump s)(i := Stopped)\<rparr>)"
| hang_up: "readPump s i \<noteq> Unserved \<Longrightarrow> writePump s i = Waiting \<Longrightarrow> chanItems (channel s i) = [] \<Longrightarrow> chanClosed (channel s i) \<Longrightarrow>
    chat_step s (s\<lparr>writePump := (writePump s)(i := Stopped)\<rparr>)"

section \<open>The invariant of a client\<close>

definition pump_inv :: "bytes list \<Rightarrow> bytes list list \<Rightarrow> nat \<Rightarrow> writeState \<Rightarrow> bool" where
  "pump_inv rs bs queued w \<longleftrightarrow>
     (case w of
        Waiting \<Rightarrow> rs = concat bs
      | Taken m \<Rightarrow> rs = concat bs @ [m]
      | Batching n b \<Rightarrow> rs = concat bs @ b \<and> n \<le> queued
      | Stopped \<Rightarrow> (\<exists>r. rs = concat bs @ r))"

text \<open>The messages a client has received and those in its channel are, in order and with none left out, the
  messages broadcast since it joined: all of them but the one that is about to be delivered while it is in
  the hub, else the first so many.\<close>

definition pendingFor :: "chat \<Rightarrow> nat \<Rightarrow> bytes list" where
  "pendingFor s i = (case delivering s of None \<Rightarrow> [] | Some (m, order) \<Rightarrow> if i \<in> set order then [m] else [])"

definition delivered :: "bytes list \<Rightarrow> bytes list \<Rightarrow> bool \<Rightarrow> bytes list \<Rightarrow> bool" where
  "delivered since rs stays pending \<longleftrightarrow> (\<exists>later. since = rs @ later \<and> (stays \<longrightarrow> later = pending))"

definition client_inv :: "chat \<Rightarrow> nat \<Rightarrow> bool" where
  "client_inv s i \<longleftrightarrow>
     (if readPump s i = Unserved then i \<notin> clients (hubOf s) \<and> writePump s i = Waiting \<and> received s i = [] \<and> batches s i = []
      else chanClosed (channel s i) = (i \<notin> clients (hubOf s)) \<and> (readPump s i = Unread \<longrightarrow> i \<notin> clients (hubOf s)) \<and>
        length (chanItems (channel s i)) \<le> sendBuffer \<and> joined s i \<le> length (broadcasts s) \<and>
        delivered (drop (joined s i) (broadcasts s)) (received s i @ chanItems (channel s i)) (i \<in> clients (hubOf s)) (pendingFor s i) \<and>
        pump_inv (received s i) (batches s i) (length (chanItems (channel s i))) (writePump s i))"

definition hub_inv :: "chat \<Rightarrow> bool" where
  "hub_inv s \<longleftrightarrow> (case delivering s of None \<Rightarrow> True | Some (m, order) \<Rightarrow> distinct order \<and> set order \<subseteq> clients (hubOf s))"

lemma pump_inv_grows: "pump_inv rs bs k w \<Longrightarrow> k \<le> k' \<Longrightarrow> pump_inv rs bs k' w"
  by (auto simp: pump_inv_def split: writeState.splits)

lemma delivered_later: "delivered since rs False p \<Longrightarrow> delivered (since @ [m]) rs False q"
  by (auto simp: delivered_def)

lemma delivered_next: "delivered since rs True [] \<Longrightarrow> delivered (since @ [m]) rs True [m]"
  by (simp add: delivered_def)

lemma delivered_got: "delivered since rs True [m] \<Longrightarrow> delivered since (rs @ [m]) True []"
  by (simp add: delivered_def)

lemma delivered_dropped: "delivered since rs b p \<Longrightarrow> delivered since rs False q"
  by (auto simp: delivered_def)

lemma client_inv_other:
  assumes "client_inv s i" and "readPump s' i = readPump s i" "writePump s' i = writePump s i" "received s' i = received s i"
    "batches s' i = batches s i" "joined s' i = joined s i" "broadcasts s' = broadcasts s" "channel s' i = channel s i"
    "(i \<in> clients (hubOf s')) = (i \<in> clients (hubOf s))" "pendingFor s' i = pendingFor s i"
  shows "client_inv s' i"
  using assms(1) unfolding client_inv_def assms(2-10) .

lemma broadcast_inv:
  assumes "client_inv s i" and "delivering s = None" and "set order = clients (hubOf s)"
  shows "client_inv (s\<lparr>delivering := Some (m, order), broadcasts := broadcasts s @ [m]\<rparr>) i"
proof (cases "i \<in> clients (hubOf s)")
  case True
  then show ?thesis using assms delivered_next [of "drop (joined s i) (broadcasts s)" _ m]
    by (auto simp: client_inv_def pendingFor_def)
next
  case False
  then show ?thesis using assms delivered_later [of "drop (joined s i) (broadcasts s)" _ _ m]
    by (auto simp: client_inv_def pendingFor_def)
qed

lemma deliver_inv:
  assumes c: "client_inv s j" "client_inv s i" and d: "delivering s = Some (m, j # order)" and "hub_inv s"
    and h: "hubDeliver m j (hubOf s) = Some h"
  shows "client_inv (s\<lparr>hubOf := h, delivering := Some (m, order)\<rparr>) i"
proof -
  have j: "j \<notin> set order" "j \<in> clients (hubOf s)" using assms(4) d by (simp_all add: hub_inv_def)
  then have served: "readPump s j \<noteq> Unserved" using c(1) by (auto simp: client_inv_def)
  then have o: "\<not> chanClosed (channel s j)" using c(1) j(2) by (simp add: client_inv_def)
  have dl: "delivered (drop (joined s j) (broadcasts s)) (received s j @ chanItems (channel s j)) True [m]"
    using c(1) j(2) served d by (simp add: client_inv_def pendingFor_def)
  show ?thesis
  proof (cases "i = j")
    case True
    then show ?thesis using c(1) served j h hubDeliver_open [OF o, of m] delivered_got [OF dl] delivered_dropped [OF dl]
      by (auto simp: client_inv_def pendingFor_def intro: pump_inv_grows split: if_splits)
  next
    case False
    show ?thesis by (rule client_inv_other [OF c(2)])
      (use False h hubDeliver_open [OF o, of m] d in \<open>auto simp: pendingFor_def split: if_splits\<close>)
  qed
qed

lemma pendingFor_upd [simp]:
  "pendingFor (s\<lparr>hubOf := h\<rparr>) i = pendingFor s i" "pendingFor (s\<lparr>readPump := rp\<rparr>) i = pendingFor s i"
  "pendingFor (s\<lparr>writePump := wp\<rparr>) i = pendingFor s i" "pendingFor (s\<lparr>received := rs\<rparr>) i = pendingFor s i"
  "pendingFor (s\<lparr>batches := bs\<rparr>) i = pendingFor s i" "pendingFor (s\<lparr>joined := js\<rparr>) i = pendingFor s i"
  by (simp_all add: pendingFor_def)

lemma unregister_inv:
  assumes "client_inv s j" and "client_inv s i" and "readPump s j = Reading" and "hubUnregister j (hubOf s) = Some h"
  shows "client_inv (s\<lparr>hubOf := h, readPump := (readPump s)(j := Unread)\<rparr>) i"
proof -
  let ?h = "(hubOf s)\<lparr>clients := clients (hubOf s) - {j}, send := (send (hubOf s))(j := (channel s j)\<lparr>chanClosed := True\<rparr>)\<rparr>"
  have j: "chanClosed (channel s j) = (j \<notin> clients (hubOf s))" using assms(1,3) by (simp add: client_inv_def)
  have h: "h = (if j \<in> clients (hubOf s) then ?h else hubOf s)"
    using assms(4) j by (auto simp: hubUnregister_def chanClose_def split: if_splits)
  show ?thesis
  proof (cases "i = j")
    case True
    then show ?thesis using assms(1,3) unfolding h by (auto simp: client_inv_def delivered_def)
  next
    case False
    then show ?thesis using assms(2) unfolding h by (auto simp: client_inv_def)
  qed
qed

text \<open>A step of a \<open>writePump\<close> that receives: the message moves from the channel to the pump.\<close>

lemma receive_inv:
  assumes "client_inv s j" and "client_inv s i" and "readPump s j \<noteq> Unserved" and "chanItems (channel s j) = m # ms"
    and "pump_inv (received s j @ [m]) (batches s j) (length ms) w"
  shows "client_inv ((setSend j ((channel s j)\<lparr>chanItems := ms\<rparr>) s)\<lparr>writePump := (writePump s)(j := w),
      received := (received s)(j := received s j @ [m])\<rparr>) i"
proof (cases "i = j")
  case True
  then show ?thesis using assms(1,3-5) by (simp add: client_inv_def setSend_def)
next
  case False
  show ?thesis by (rule client_inv_other [OF assms(2)]) (use False in \<open>simp_all add: setSend_def\<close>)
qed

lemma pump_step_inv:
  assumes "client_inv s j" and "client_inv s i" and "readPump s j \<noteq> Unserved"
    and "pump_inv (received s j) b (length (chanItems (channel s j))) w"
  shows "client_inv (s\<lparr>writePump := (writePump s)(j := w), batches := (batches s)(j := b)\<rparr>) i"
proof (cases "i = j")
  case True
  then show ?thesis using assms(1,3,4) by (simp add: client_inv_def)
next
  case False
  show ?thesis by (rule client_inv_other [OF assms(2)]) (use False in simp_all)
qed

lemma running_served: "client_inv s i \<Longrightarrow> writePump s i \<noteq> Waiting \<Longrightarrow> readPump s i \<noteq> Unserved"
  by (auto simp: client_inv_def)

lemma client_pump: "client_inv s i \<Longrightarrow> readPump s i \<noteq> Unserved \<Longrightarrow>
    pump_inv (received s i) (batches s i) (length (chanItems (channel s i))) (writePump s i)"
  by (simp add: client_inv_def)

lemma hub_step_inv: "chat_step s s' \<Longrightarrow> \<forall>i. client_inv s i \<Longrightarrow> hub_inv s \<Longrightarrow> hub_inv s'"
proof (induction rule: chat_step.induct)
  case (deliver s m j order h)
  then have "j \<in> clients (hubOf s)" by (simp add: hub_inv_def)
  then have "\<not> chanClosed (channel s j)" using deliver(3) by (metis client_inv_def)
  then show ?case using deliver hubDeliver_open [of "hubOf s" j m] by (auto simp: hub_inv_def)
qed (auto simp: hub_inv_def setSend_def split: option.splits)

lemma chat_step_inv: "chat_step s s' \<Longrightarrow> \<forall>i. client_inv s i \<Longrightarrow> hub_inv s \<Longrightarrow> client_inv s' i"
proof (induction rule: chat_step.induct)
  case (serve s j)
  then have c: "client_inv s j" "client_inv s i" by simp_all
  show ?case
  proof (cases "i = j")
    case True
    then show ?thesis using c(1) serve(1,2)
      by (simp add: client_inv_def setSend_def hubRegister_def makeChan_def delivered_def pump_inv_def pendingFor_def)
  next
    case False
    show ?thesis by (rule client_inv_other [OF c(2)]) (use False in \<open>simp_all add: setSend_def hubRegister_def\<close>)
  qed
next
  case (broadcast s j order m)
  then show ?case by (intro broadcast_inv) simp_all
next
  case (deliver s m j order h)
  then show ?case by (intro deliver_inv) simp_all
next
  case (broadcast_done s m)
  then have "client_inv s i" by simp
  then show ?case by (rule client_inv_other) (use broadcast_done in \<open>simp_all add: pendingFor_def\<close>)
next
  case (unregister s j h)
  then show ?case by (intro unregister_inv) simp_all
next
  case (receive s j m ms)
  have c: "client_inv s j" "client_inv s i" using receive by simp_all
  show ?case by (rule receive_inv [OF c]) (use receive client_pump [OF c(1)] in \<open>auto simp: pump_inv_def\<close>)
next
  case (count s j m)
  have c: "client_inv s j" "client_inv s i" using count by simp_all
  have r: "readPump s j \<noteq> Unserved" using running_served [OF c(1)] count by simp
  show ?case using pump_step_inv [OF c r, of "batches s j" "Batching (length (chanItems (channel s j))) [m]"]
    client_pump [OF c(1) r] count by (simp add: pump_inv_def)
next
  case (more s j n b m ms)
  have c: "client_inv s j" "client_inv s i" using more by simp_all
  have r: "readPump s j \<noteq> Unserved" using running_served [OF c(1)] more by simp
  show ?case by (rule receive_inv [OF c r more(2)]) (use more client_pump [OF c(1) r] in \<open>auto simp: pump_inv_def\<close>)
next
  case (written s j b)
  have c: "client_inv s j" "client_inv s i" using written by simp_all
  have r: "readPump s j \<noteq> Unserved" using running_served [OF c(1)] written by simp
  show ?case by (rule pump_step_inv [OF c r]) (use client_pump [OF c(1) r] written in \<open>simp add: pump_inv_def\<close>)
next
  case (write_fails s j m b)
  have c: "client_inv s j" "client_inv s i" using write_fails by simp_all
  show ?case using pump_step_inv [OF c write_fails(1), of "batches s j" Stopped] client_pump [OF c(1) write_fails(1)] write_fails(2)
    by (auto simp: pump_inv_def)
next
  case (hang_up s j)
  have c: "client_inv s j" "client_inv s i" using hang_up by simp_all
  show ?case using pump_step_inv [OF c hang_up(1), of "batches s j" Stopped] client_pump [OF c(1) hang_up(1)] hang_up(2)
    by (auto simp: pump_inv_def)
qed

lemma chat_steps_inv: "chat_step\<^sup>*\<^sup>* newChat s \<Longrightarrow> hub_inv s \<and> (\<forall>i. client_inv s i)"
proof (induction rule: rtranclp_induct)
  case base
  show ?case by (simp add: hub_inv_def client_inv_def newChat_def newHub_def)
next
  case (step s s')
  then show ?case using chat_step_inv hub_step_inv by blast
qed

section \<open>Properties\<close>

text \<open>C39: the chat hub never panics. Whatever the clients do, in whatever order the goroutines run, the map
  is gone through and writes fail: the hub can take any unregistration and can deliver to every client that is
  to get a message without a send on a closed channel and without closing a channel twice; no buffer of a
  client in the hub ever holds more than its 256 messages; and a writePump that has asked how many messages are
  queued finds as many, so that it neither waits with an open message writer nor takes a closed channel for
  a message.\<close>

theorem chat_never_panics:
  assumes "chat_step\<^sup>*\<^sup>* newChat s"
  shows "(delivering s = None \<longrightarrow> hubUnregister i (hubOf s) \<noteq> None) \<and>
    (delivering s = Some (m, i # order) \<longrightarrow> hubDeliver m i (hubOf s) \<noteq> None) \<and>
    (i \<in> clients (hubOf s) \<longrightarrow> length (chanItems (channel s i)) \<le> sendBuffer) \<and>
    (writePump s i = Batching n b \<longrightarrow> n \<le> length (chanItems (channel s i)))"
proof -
  have c: "client_inv s i" and hi: "hub_inv s" using chat_steps_inv [OF assms] by simp_all
  have served: "readPump s i \<noteq> Unserved" if "i \<in> clients (hubOf s) \<or> writePump s i \<noteq> Waiting"
    using c that by (auto simp: client_inv_def)
  have o: "\<not> chanClosed (channel s i) \<and> length (chanItems (channel s i)) \<le> sendBuffer" if "i \<in> clients (hubOf s)"
    using c served that by (simp add: client_inv_def)
  have "hubUnregister i (hubOf s) \<noteq> None" using o by (simp add: hubUnregister_def chanClose_def)
  moreover have "hubDeliver m i (hubOf s) \<noteq> None" if "delivering s = Some (m, i # order)"
    using hubDeliver_open [of "hubOf s" i m] o hi that by (simp add: hub_inv_def)
  moreover have "n \<le> length (chanItems (channel s i))" if "writePump s i = Batching n b"
    using client_pump [OF c served] that by (simp add: pump_inv_def)
  ultimately show ?thesis using o by blast
qed

text \<open>C40: a client of the chat gets every message once and in order. The messages broadcast since it joined
  begin with those its writePump has received followed by those in its channel, without a gap, and are
  exactly these while it is in the hub and the hub is at its select; and what it has received is, in order, what
  is in the batches it has written and then the batch it is working on (or has failed to write).\<close>

theorem chat_delivers:
  assumes "chat_step\<^sup>*\<^sup>* newChat s" and "readPump s i \<noteq> Unserved"
  shows "\<exists>later current. drop (joined s i) (broadcasts s) = received s i @ chanItems (channel s i) @ later \<and>
    (i \<in> clients (hubOf s) \<and> delivering s = None \<longrightarrow> later = []) \<and> received s i = concat (batches s i) @ current \<and>
    (writePump s i = Waiting \<longrightarrow> current = [])"
proof -
  have c: "client_inv s i" using chat_steps_inv [OF assms(1)] by simp
  have "delivered (drop (joined s i) (broadcasts s)) (received s i @ chanItems (channel s i)) (i \<in> clients (hubOf s)) (pendingFor s i)"
    using c assms(2) by (simp add: client_inv_def)
  moreover have "\<exists>current. received s i = concat (batches s i) @ current \<and> (writePump s i = Waiting \<longrightarrow> current = [])"
    using client_pump [OF c assms(2)] by (cases "writePump s i") (auto simp: pump_inv_def)
  ultimately show ?thesis unfolding delivered_def pendingFor_def by auto
qed

text \<open>Two clients; the first says something, the second has it written.\<close>

definition said :: chat where
  "said = newChat\<lparr>hubOf := \<lparr>clients = {0, 1}, send = (\<lambda>_. makeChan)(0 := \<lparr>chanItems = [[7]], chanClosed = False\<rparr>,
       1 := \<lparr>chanItems = [], chanClosed = False\<rparr>)\<rparr>,
     delivering := Some ([7], []), readPump := (\<lambda>_. Unserved)(0 := Reading, 1 := Reading), broadcasts := [[7]],
     received := (\<lambda>_. [])(1 := [[7]]), batches := (\<lambda>_. [])(1 := [[[7]]])\<rparr>"

lemma said_reached: "chat_step\<^sup>*\<^sup>* newChat said"
proof -
  note d = newChat_def newHub_def setSend_def hubRegister_def makeChan_def
  let ?two = "newChat\<lparr>hubOf := \<lparr>clients = {0, 1}, send = (\<lambda>_. makeChan)\<rparr>, readPump := (\<lambda>_. Unserved)(0 := Reading, 1 := Reading)\<rparr>"
  let ?begun = "?two\<lparr>delivering := Some ([7], [0, 1]), broadcasts := [[7]]\<rparr>"
  let ?half = "?begun\<lparr>hubOf := \<lparr>clients = {0, 1}, send = (\<lambda>_. makeChan)(0 := \<lparr>chanItems = [[7]], chanClosed = False\<rparr>)\<rparr>,
      delivering := Some ([7], [1])\<rparr>"
  let ?cast = "?two\<lparr>hubOf := \<lparr>clients = {0, 1}, send = (\<lambda>_. makeChan)(0 := \<lparr>chanItems = [[7]], chanClosed = False\<rparr>,
      1 := \<lparr>chanItems = [[7]], chanClosed = False\<rparr>)\<rparr>, delivering := Some ([7], []), broadcasts := [[7]]\<rparr>"
  let ?first = "newChat\<lparr>hubOf := \<lparr>clients = {0}, send = (\<lambda>_. makeChan)\<rparr>, readPump := (\<lambda>_. Unserved)(0 := Reading)\<rparr>"
  let ?taken = "?cast\<lparr>hubOf := \<lparr>clients = {0, 1}, send = (\<lambda>_. makeChan)(0 := \<lparr>chanItems = [[7]], chanClosed = False\<rparr>,
      1 := \<lparr>chanItems = [], chanClosed = False\<rparr>)\<rparr>, writePump := (\<lambda>_. Waiting)(1 := Taken [7]), received := (\<lambda>_. [])(1 := [[7]])\<rparr>"
  let ?batch = "?taken\<lparr>writePump := (\<lambda>_. Waiting)(1 := Batching 0 [[7]])\<rparr>"
  have 1: "chat_step newChat ?first"
    using chat_step.serve [of newChat 0] by (simp add: d fun_upd_idem)
  have 2: "chat_step ?first ?two"
    using chat_step.serve [of ?first 1] by (simp add: d fun_upd_idem insert_commute)
  have 3: "chat_step ?two ?begun"
    using chat_step.broadcast [of ?two 0 "[0, 1]" "[7]"] by (simp add: d)
  have 31: "chat_step ?begun ?half"
    using chat_step.deliver [of ?begun "[7]" 0 "[1]"] by (simp add: d hubDeliver_def chanTrySend_def sendBuffer_def)
  have 32: "chat_step ?half ?cast"
    using chat_step.deliver [of ?half "[7]" 1 "[]"] by (simp add: d hubDeliver_def chanTrySend_def sendBuffer_def)
  have 4: "chat_step ?cast ?taken"
    using chat_step.receive [of ?cast 1 "[7]" "[]"] by (simp add: d)
  have 5: "chat_step ?taken ?batch"
    using chat_step.count [of ?taken 1 "[7]"] by (simp add: d)
  have 6: "chat_step ?batch said"
    using chat_step.written [of ?batch 1 "[[7]]"] by (simp add: d said_def fun_upd_idem)
  show ?thesis using 1 2 3 31 32 4 5 6 by (meson converse_rtranclp_into_rtranclp rtranclp.rtrancl_refl)
qed

definition idling :: chat where
  "idling = said\<lparr>delivering := None\<rparr>"

lemma idling_reached: "chat_step\<^sup>*\<^sup>* newChat idling"
  using said_reached chat_step.broadcast_done [of said "[7]"] by (simp add: said_def idling_def)

lemma chat_never_panics_witness:
  "hubUnregister 0 (hubOf idling) \<noteq> None \<and> length (chanItems (channel idling 0)) \<le> sendBuffer"
  using chat_never_panics [OF idling_reached, of 0] by (auto simp: idling_def said_def)

lemma chat_delivers_witness:
  "drop (joined idling 1) (broadcasts idling) = received idling 1 @ chanItems (channel idling 1) \<and>
    received idling 1 = concat (batches idling 1) \<and> received idling 1 = [[7]]"
  using chat_delivers [OF idling_reached, of 1] by (auto simp: idling_def said_def newChat_def)

end
