(* ===== verification/Chat.thy ===== *)
theory Chat
  imports Hub WriteMessages
begin

text \<open>
  The messages of src/examples/chat: how readPump cleans them, how writePump puts the messages that are
  queued into one message of the connection, and how the page takes them apart again. The goroutines
  and channels in between are in Hub.
\<close>

section \<open>Cleaning a message\<close>

text \<open>bytes.TrimSpace: the runes of \<open>unicode.IsSpace\<close> are taken off both ends.\<close>

definition spaceRunes :: "nat list" where
  "spaceRunes = [0x09, 0x0A, 0x0B, 0x0C, 0x0D, 0x20, 0x85, 0xA0, 0x1680] @ [0x2000..<0x200B] @ [0x2028, 0x2029, 0x202F, 0x205F, 0x3000]"

definition leadingSpace :: "bytes \<Rightarrow> bytes option" where
  "leadingSpace p = find (\<lambda>q. take (length q) p = q) (map utf8_encode spaceRunes)"

definition trailingSpace :: "bytes \<Rightarrow> bytes option" where
  "trailingSpace p = find (\<lambda>q. length q \<le> length p \<and> drop (length p - length q) p = q) (map utf8_encode spaceRunes)"

lemma space_scalar: "c \<in> set spaceRunes \<Longrightarrow> is_scalar c"
  by (auto simp: spaceRunes_def is_scalar_def)

lemma encode_nonempty: "utf8_encode c \<noteq> []"
  by (simp add: utf8_encode_def)

lemma leading_some:
  assumes "leadingSpace p = Some q"
  obtains c r where "is_scalar c" "q = utf8_encode c" "p = q @ r"
proof -
  have "q \<in> utf8_encode ` set spaceRunes" "take (length q) p = q"
    using assms unfolding leadingSpace_def find_Some_iff by auto
  then show thesis using that space_scalar by (metis append_take_drop_id image_iff)
qed

lemma trailing_some:
  assumes "trailingSpace p = Some q"
  obtains c r where "is_scalar c" "q = utf8_encode c" "p = r @ q"
proof -
  have "q \<in> utf8_encode ` set spaceRunes" "drop (length p - length q) p = q"
    using assms unfolding trailingSpace_def find_Some_iff by auto
  then show thesis using that space_scalar by (metis append_take_drop_id image_iff)
qed

function trimLeft :: "bytes \<Rightarrow> bytes" where
  "trimLeft p = (case leadingSpace p of None \<Rightarrow> p | Some q \<Rightarrow> trimLeft (drop (length q) p))"
  by pat_completeness auto

termination trimLeft
proof (relation "measure length")
  fix p q
  assume "leadingSpace p = Some q"
  then obtain c r where "q = utf8_encode c" "p = q @ r" by (rule leading_some)
  then show "(drop (length q) p, p) \<in> measure length" using encode_nonempty [of c] by simp
qed simp

function trimRight :: "bytes \<Rightarrow> bytes" where
  "trimRight p = (case trailingSpace p of None \<Rightarrow> p | Some q \<Rightarrow> trimRight (take (length p - length q) p))"
  by pat_completeness auto

termination trimRight
proof (relation "measure length")
  fix p q
  assume "trailingSpace p = Some q"
  then obtain c r where "q = utf8_encode c" "p = r @ q" by (rule trailing_some)
  then show "(take (length p - length q) p, p) \<in> measure length" using encode_nonempty [of c] by simp
qed simp

declare trimLeft.simps [simp del] trimRight.simps [simp del]

definition newline :: bytes where
  "newline = [10]"

definition cleanMessage :: "bytes \<Rightarrow> bytes" where
  "cleanMessage message = trimRight (trimLeft (map (\<lambda>b. if b = 10 then 32 else b) message))"

section \<open>What cleaning keeps\<close>

lemma encode_shape:
  assumes "is_scalar c"
  obtains b t where "utf8_encode c = b # t" "\<not> is_cont b" "list_all is_cont t"
  using assms
proof (cases rule: scalar_cases)
  case one
  have "\<not> is_cont (of_nat c)" using one by (simp add: is_cont_def)
  then show thesis using encode_1 [OF one] that by simp
next
  case (two a b)
  have "\<not> is_cont (of_nat (0xC0 + a))" using two by (simp add: is_cont_def del: of_nat_add)
  then show thesis using encode_2 [of a b] two that by (simp del: of_nat_add)
next
  case (three a b d)
  have "\<not> is_cont (of_nat (0xE0 + a))" using three by (simp add: is_cont_def del: of_nat_add)
  then show thesis using encode_3 [of a b d] three that by (simp del: of_nat_add)
next
  case (four a b d e)
  have "\<not> is_cont (of_nat (0xF0 + a))" using four by (simp add: is_cont_def del: of_nat_add)
  then show thesis using encode_4 [of a b d e] four that by (simp del: of_nat_add)
qed

lemma suffix_unique:
  assumes "xs @ b # t = ys @ b' # t'" and "\<not> P b" "list_all P t" "\<not> P b'" "list_all P t'"
  shows "xs = ys" "b # t = b' # t'"
proof -
  have "takeWhile P (rev (xs @ b # t)) = rev t" "takeWhile P (rev (ys @ b' # t')) = rev t'"
    using assms(2-5) by (auto simp: takeWhile_append list_all_iff)
  then have "t = t'" using assms(1) by simp
  then show "xs = ys" "b # t = b' # t'" using assms(1) by simp_all
qed

lemma text_drop_last:
  assumes "utf8_text (r @ utf8_encode c)" and "is_scalar c"
  shows "utf8_text r"
proof -
  obtain cs where cs: "list_all is_scalar cs" "r @ utf8_encode c = concat (map utf8_encode cs)"
    using assms(1) by (auto simp: utf8_text_def)
  obtain b t where e: "utf8_encode c = b # t" "\<not> is_cont b" "list_all is_cont t" using assms(2) by (rule encode_shape)
  show ?thesis
  proof (cases cs rule: rev_cases)
    case Nil
    then show ?thesis using cs(2) encode_nonempty [of c] by simp
  next
    case (snoc ds d)
    have "is_scalar d" using cs(1) snoc by simp
    then obtain b' t' where d: "utf8_encode d = b' # t'" "\<not> is_cont b'" "list_all is_cont t'" by (rule encode_shape)
    have "r = concat (map utf8_encode ds)"
      using suffix_unique(1) [OF _ e(2,3) d(2,3), of r "concat (map utf8_encode ds)"] cs(2) snoc e(1) d(1) by simp
    then show ?thesis using cs(1) snoc by (auto simp: utf8_text_def)
  qed
qed

lemma text_drop_first:
  assumes "utf8_text (utf8_encode c @ r)" and "is_scalar c"
  shows "utf8_text r"
  using run_complete [OF assms(1), of 0] run_encode [OF assms(2), of 0 r] run_sound by simp

lemma trimLeft_text: "utf8_text p \<Longrightarrow> utf8_text (trimLeft p)"
proof (induction p rule: trimLeft.induct)
  case (1 p)
  show ?case
  proof (cases "leadingSpace p")
    case None
    then show ?thesis using 1 by (simp add: trimLeft.simps [of p])
  next
    case (Some q)
    then obtain c r where q: "is_scalar c" "q = utf8_encode c" "p = q @ r" by (rule leading_some)
    then have "utf8_text (drop (length q) p)" using 1(2) text_drop_first by simp
    then show ?thesis using 1(1) [OF Some] Some by (simp add: trimLeft.simps [of p])
  qed
qed

lemma trimRight_text: "utf8_text p \<Longrightarrow> utf8_text (trimRight p)"
proof (induction p rule: trimRight.induct)
  case (1 p)
  show ?case
  proof (cases "trailingSpace p")
    case None
    then show ?thesis using 1 by (simp add: trimRight.simps [of p])
  next
    case (Some q)
    then obtain c r where q: "is_scalar c" "q = utf8_encode c" "p = r @ q" by (rule trailing_some)
    then have "utf8_text (take (length p - length q) p)" using 1(2) text_drop_last by simp
    then show ?thesis using 1(1) [OF Some] Some by (simp add: trimRight.simps [of p])
  qed
qed

lemma trimLeft_set: "set (trimLeft p) \<subseteq> set p"
proof (induction p rule: trimLeft.induct)
  case (1 p)
  then show ?case by (cases "leadingSpace p") (auto simp: trimLeft.simps [of p] dest: in_set_dropD)
qed

lemma trimRight_set: "set (trimRight p) \<subseteq> set p"
proof (induction p rule: trimRight.induct)
  case (1 p)
  then show ?case by (cases "trailingSpace p") (auto simp: trimRight.simps [of p] dest: in_set_takeD)
qed

lemma of_nat_newline: "n < 256 \<Longrightarrow> (of_nat n = (10 :: byte)) = (n = 10)"
proof
  assume "n < 256" and "of_nat n = (10 :: byte)"
  then have "unat (of_nat n :: byte) = unat (10 :: byte)" by simp
  then show "n = 10" using \<open>n < 256\<close> by simp
qed simp

lemma replace_text: "utf8_text p \<Longrightarrow> utf8_text (map (\<lambda>b. if b = 10 then 32 else b) p)"
proof -
  let ?f = "\<lambda>b :: byte. if b = 10 then 32 else b"
  have e: "map ?f (utf8_encode c) = utf8_encode (if c = 10 then 32 else c)" if "is_scalar c" for c
    using that
  proof (cases rule: scalar_cases)
    case one
    then have "(of_nat c = (10 :: byte)) = (c = 10)" by (simp add: of_nat_newline)
    then show ?thesis using one by (simp add: encode_1)
  next
    case (two a b)
    then have "of_nat (0xC0 + a) \<noteq> (10 :: byte)" "of_nat (0x80 + b) \<noteq> (10 :: byte)" "c \<noteq> 10" by (simp_all add: of_nat_newline del: of_nat_add)
    then show ?thesis using encode_2 [of a b] two by (simp del: of_nat_add)
  next
    case (three a b d)
    then have "of_nat (0xE0 + a) \<noteq> (10 :: byte)" "of_nat (0x80 + b) \<noteq> (10 :: byte)" "of_nat (0x80 + d) \<noteq> (10 :: byte)" "c \<noteq> 10"
      by (auto simp add: of_nat_newline simp del: of_nat_add)
    then show ?thesis using encode_3 [of a b d] three by (simp del: of_nat_add)
  next
    case (four a b d e)
    then have "of_nat (0xF0 + a) \<noteq> (10 :: byte)" "of_nat (0x80 + b) \<noteq> (10 :: byte)" "of_nat (0x80 + d) \<noteq> (10 :: byte)"
      "of_nat (0x80 + e) \<noteq> (10 :: byte)" "c \<noteq> 10"
      by (auto simp add: of_nat_newline simp del: of_nat_add)
    then show ?thesis using encode_4 [of a b d e] four by (simp del: of_nat_add)
  qed
  assume "utf8_text p"
  then obtain cs where cs: "list_all is_scalar cs" "p = concat (map utf8_encode cs)" by (auto simp: utf8_text_def)
  have "map ?f p = concat (map utf8_encode (map (\<lambda>c. if c = 10 then 32 else c) cs))"
    using cs(1) unfolding cs(2) by (induction cs) (simp_all add: e)
  moreover have "list_all is_scalar (map (\<lambda>c. if c = 10 then 32 else c) cs)"
    using cs(1) by (induction cs) (simp_all add: is_scalar_def)
  ultimately show ?thesis by (auto simp: utf8_text_def)
qed

lemma cleanMessage_text: "utf8_text p \<Longrightarrow> utf8_text (cleanMessage p)"
  by (simp add: cleanMessage_def trimLeft_text trimRight_text replace_text)

lemma cleanMessage_line: "10 \<notin> set (cleanMessage p)"
  using trimRight_set [of "trimLeft (map (\<lambda>b. if b = 10 then 32 else b) p)"]
    trimLeft_set [of "map (\<lambda>b. if b = 10 then 32 else b) p"]
  by (auto simp: cleanMessage_def)

section \<open>A batch of messages\<close>

definition chatWriteWait :: int where
  "chatWriteWait = 10000000000"

text \<open>The writes of \<open>writePump\<close>, whose results are not looked at, and one round of its loop with a message and those
  that are queued.\<close>

fun pumpWrites :: "'z flate_ops \<Rightarrow> nat \<Rightarrow> bytes list \<Rightarrow> 'z wconn \<Rightarrow> 'z wconn option" where
  "pumpWrites ops i [] c = Some c"
| "pumpWrites ops i (m # ms) c =
     do { (_, c1) \<leftarrow> pipeWrite ops i newline c; (_, c2) \<leftarrow> pipeWrite ops i m c1; pumpWrites ops i ms c2 }"

definition pumpBatch :: "'z flate_ops \<Rightarrow> bytes \<Rightarrow> bytes list \<Rightarrow> 'z wconn \<Rightarrow> (gerror option \<times> 'z wconn) option" where
  "pumpBatch ops message queued c =
     (let c0 = snd (SetWriteDeadline (Some (now c + chatWriteWait)) c) in
      do { (w, c1) \<leftarrow> NextWriter ops TextMessage c0;
           (case w of
              Inl err \<Rightarrow> Some (Some err, c1)
            | Inr i \<Rightarrow> do { (_, c2) \<leftarrow> pipeWrite ops i message c1;
                            c3 \<leftarrow> pumpWrites ops i queued c2;
                            pipeClose ops i c3 }) })"

text \<open>What the page makes of a message (\<open>split\<close> in home.html).\<close>

fun splitLines :: "bytes \<Rightarrow> bytes list" where
  "splitLines [] = [[]]"
| "splitLines (b # p) =
     (if b = 10 then [] # splitLines p else (case splitLines p of l # ls \<Rightarrow> (b # l) # ls | [] \<Rightarrow> [[b]]))"

definition pieces :: "bytes \<Rightarrow> bytes list \<Rightarrow> bytes list" where
  "pieces m ms = m # concat (map (\<lambda>q. [newline, q]) ms)"

lemma split_line: "10 \<notin> set l \<Longrightarrow> splitLines (l @ 10 # p) = l # splitLines p"
  by (induction l) auto

lemma split_last: "10 \<notin> set l \<Longrightarrow> splitLines l = [l]"
  by (induction l) auto

lemma split_pieces: "\<forall>q\<in>set (m # ms). 10 \<notin> set q \<Longrightarrow> splitLines (concat (pieces m ms)) = m # ms"
proof (induction ms arbitrary: m)
  case Nil
  then show ?case by (simp add: pieces_def split_last)
next
  case (Cons q ms)
  have "concat (pieces m (q # ms)) = m @ 10 # concat (pieces q ms)" by (simp add: pieces_def newline_def)
  then show ?case using Cons by (simp add: split_line)
qed

lemma pieces_text: "\<forall>q\<in>set (m # ms). utf8_text q \<Longrightarrow> utf8_text (concat (pieces m ms))"
proof (induction ms arbitrary: m)
  case Nil
  then show ?case by (simp add: pieces_def)
next
  case (Cons q ms)
  have "concat (pieces m (q # ms)) = m @ newline @ concat (pieces q ms)" by (simp add: pieces_def)
  moreover have "utf8_text newline" by (rule utf8_text_ascii) (simp add: newline_def)
  ultimately show ?case using Cons by (simp add: utf8_text_append)
qed

lemma pump_pipe_writes:
  "pipe_writes ops i (concat (map (\<lambda>q. [newline, q]) ms)) c = Some (None, c') \<Longrightarrow> pumpWrites ops i ms c = Some c'"
  by (induction ms arbitrary: c) (auto split: Option.bind_splits if_splits)

lemma pump_pipe_batch:
  assumes "pipe_writes ops i (pieces m ms) c = Some (None, c')"
  shows "do { (_, c2) \<leftarrow> pipeWrite ops i m c; c3 \<leftarrow> pumpWrites ops i ms c2; pipeClose ops i c3 } = pipeClose ops i c'"
  using assms pump_pipe_writes by (fastforce simp: pieces_def split: Option.bind_splits if_splits)

section \<open>Properties\<close>

text \<open>The messages of the chat arrive as they were cleaned. On an idle connection, compressing or not, a round of
  writePump with messages in UTF-8 that readPump has cleaned sends exactly one text message, and the
  lines into which the page splits its text are these messages: none is lost, merged, split or
  changed, and the connection is idle again.\<close>

theorem chat_batch_sent:
  fixes c :: "'z wconn"
  assumes "idle c" and "factory_ok c" and "compressing TextMessage c \<Longrightarrow> sync_flush ops" and "\<forall>q\<in>set (m # ms). utf8_text q"
  shows "\<exists>c' fs data ps. pumpBatch ops (cleanMessage m) (map cleanMessage ms) c = Some (None, c') \<and>
    wire c' = wire c @ encode_frames fs \<and> message_frames TextMessage (compressing TextMessage c) data fs \<and>
    carried ops (start_state ops c) (compressing TextMessage c) ps data \<and>
    splitLines (concat ps) = map cleanMessage (m # ms) \<and> idle c' \<and> factory_ok c'"
proof -
  let ?c = "c\<lparr>writeDeadline := Some (now c + chatWriteWait)\<rparr>"
  let ?ps = "pieces (cleanMessage m) (map cleanMessage ms)"
  have i: "idle ?c" using assms(1)
    by (simp add: idle_def net_ok_def deadline_ok_def buffers_ok_def chatWriteWait_def cong: option.case_cong)
  have f: "factory_ok ?c" using assms(2) by (simp add: factory_ok_def)
  have z: "compressing TextMessage ?c = compressing TextMessage c" by (simp add: compressing_def)
  have st: "start_state ops ?c = start_state ops c"
    by (simp add: start_state_def split: comp_fn.split option.split)
  have u: "utf8_text (concat ?ps)" by (rule pieces_text) (use assms(4) cleanMessage_text in auto)
  have t: "isData TextMessage" by (simp add: isData_def)
  obtain j c1 c2 c' fs data where n: "NextWriter ops TextMessage ?c = Some (Inr j, c1)"
    and w: "pipe_writes ops j ?ps c1 = Some (None, c2)" and cl: "pipeClose ops j c2 = Some (None, c')"
    and m: "message_sent TextMessage (compressing TextMessage ?c) data fs ?c c'"
    and d: "carried ops (start_state ops ?c) (compressing TextMessage ?c) ?ps data" and fc: "factory_ok c'"
    using stream_ok [OF i t f u, of ops] assms(3) unfolding z by metis
  have "pumpBatch ops (cleanMessage m) (map cleanMessage ms) c = Some (None, c')"
    using n pump_pipe_batch [OF w] cl by (simp add: pumpBatch_def SetWriteDeadline_def)
  moreover have "wire c' = wire c @ encode_frames fs" "message_frames TextMessage (compressing TextMessage c) data fs" "idle c'"
    using m by (simp_all add: message_sent_def z)
  moreover have "carried ops (start_state ops c) (compressing TextMessage c) ?ps data" using d by (simp add: z st)
  moreover have "splitLines (concat ?ps) = map cleanMessage (m # ms)"
    using split_pieces [of "cleanMessage m" "map cleanMessage ms"] cleanMessage_line by auto
  ultimately show ?thesis using fc by blast
qed

lemma chat_batch_sent_witness:
  "\<exists>c' fs data ps. pumpBatch stored_ops (cleanMessage (bytes_of_string '' hi there '')) [cleanMessage [10, 111, 107, 10]] client0 = Some (None, c') \<and>
    wire c' = encode_frames fs \<and> message_frames TextMessage False data fs \<and> concat ps = data \<and>
    splitLines data = [cleanMessage (bytes_of_string '' hi there ''), cleanMessage [10, 111, 107, 10]] \<and> idle c'"
proof -
  have c: "\<not> compressing TextMessage client0" "idle client0" "factory_ok client0" "wire client0 = []"
    by (simp_all add: compressing_def) (simp_all add: client0_def new_conn_defs)
  have u: "\<forall>q\<in>set [bytes_of_string '' hi there '', [10, 111, 107, 10]]. utf8_text q"
    by (auto intro!: utf8_text_ascii simp: bytes_of_string_def)
  from chat_batch_sent [OF c(2,3) _ u, of stored_ops] show ?thesis using c(1,4) by (auto simp: carried_def)
qed

end
