(* ===== verification/WriterClose.thy ===== *)
theory WriterClose
  imports Duplex
begin

text \<open>
  Closing the current writer, compressed or not, whatever the network has done and does: it returns and
  gives the write lock back. A compressed writer checks the last bytes of its compressor before it
  closes the message writer below it, so this rests on the sync marker a flush ends with, and on
  an invariant: the layers above the current message writer are open and have seen no error.
\<close>

section \<open>A destination that may fail\<close>

text \<open>What a write to an open destination leaves: it is open, or there is an error and it has failed.\<close>

locale failing_sink =
  fixes put :: "'s sink" and good :: "'s \<Rightarrow> bool" and failed :: "'s \<Rightarrow> bool"
  assumes put_returns: "good s \<Longrightarrow> \<exists>n e s'. put p s = Some ((n, e), s') \<and> (if e = None then good s' else failed s')"
begin

lemma truncWrite_returns:
  assumes t: "trunc_ok t" and s: "good s"
  obtains n e t' s' where "truncWrite put p t s = Some ((n, e), t', s')" and "trunc_ok t'"
    and "if e = None then good s' else failed s'"
    and "e = None \<longrightarrow> (\<exists>out. out @ held t' = held t @ p \<and> length (held t') = min 4 (length (held t @ p)))"
proof -
  obtain n t1 where f: "truncFill p t = (n, t1)" by fastforce
  note t1 = fill_ok [OF t f]
  define q where "q = drop n p"
  define m where "m = min (length q) 4"
  have hq: "held t1 @ q = held t @ p" using t1 by (simp add: q_def)
  have l4: "length (twP t1) = 4" and n4: "twN t1 \<le> 4" using t1 by (simp_all add: trunc_ok_def)
  note eq = truncWrite_def Let_def f split_conv q_def [symmetric] m_def [symmetric]
  show thesis
  proof (cases "twN t < 4 \<and> length q = 0")
    case True
    then have "truncWrite put p t s = Some ((n, None), t1, s)" unfolding eq by simp
    moreover have "held t1 = held t @ p" using True hq by simp
    moreover have "length (held t1) \<le> 4" using n4 by (simp add: held_def)
    ultimately show thesis using that [of n None t1 s] s t1(1) by simp
  next
    case False
    then have "\<not> twN t1 < 4" using t1(3,5) by (auto simp: q_def)
    then have full: "twN t1 = 4" using n4 by simp
    obtain n1 e1 s1 where p1: "put (take m (twP t1)) s = Some ((n1, e1), s1)"
      and s1: "if e1 = None then good s1 else failed s1" using put_returns [OF s] by blast
    show thesis
    proof (cases e1)
      case (Some x)
      then have "truncWrite put p t s = Some ((n + n1, e1), t1, s1)" unfolding eq if_not_P [OF False] by (simp add: p1)
      then show thesis using that [of "n + n1" e1 t1 s1] t1(1) s1 Some by simp
    next
      case None
      then have "good s1" using s1 by simp
      then obtain n2 e2 s2 where p2: "put (take (length q - m) q) s1 = Some ((n2, e2), s2)"
        and s2: "if e2 = None then good s2 else failed s2" using put_returns by blast
      define t' where "t' = t1\<lparr>twP := truncShift m q (twP t1)\<rparr>"
      have w: "truncWrite put p t s = Some ((n + n2, e2), t', s2)"
        unfolding eq if_not_P [OF False] by (simp add: p1 p2 None t'_def)
      have h': "held t' = truncShift m q (twP t1)" and ok': "trunc_ok t'"
        using full shift_tail(1) [OF l4 m_def] by (simp_all add: t'_def held_def trunc_ok_def)
      have "held t1 = twP t1" using full l4 by (simp add: held_def)
      then have "(take m (twP t1) @ take (length q - m) q) @ held t' = held t @ p"
        using shift_tail(2) [OF l4 m_def] hq by (simp add: h')
      moreover have "length (held t') = min 4 (length (held t @ p))"
        using arg_cong [OF hq, of length] \<open>held t1 = twP t1\<close> l4 shift_tail(1) [OF l4 m_def] by (simp add: h')
      ultimately show thesis using that [OF w ok' s2] by blast
    qed
  qed
qed

lemma feed_returns:
  assumes "trunc_ok t" and "good s"
  shows "\<exists>e t' s'. feed put ps t s = Some (e, t', s') \<and> trunc_ok t' \<and> (if e = None then good s' else failed s') \<and>
    (e = None \<longrightarrow> (\<exists>out. out @ held t' = held t @ concat ps \<and> length (held t') = min 4 (length (held t @ concat ps))))"
  using assms
proof (induction ps arbitrary: t s)
  case Nil
  then have "length (held t) \<le> 4" by (simp add: held_def trunc_ok_def)
  then show ?case using Nil by simp
next
  case (Cons p ps)
  obtain n e t1 s1 where w: "truncWrite put p t s = Some ((n, e), t1, s1)" and t1: "trunc_ok t1"
    and s1: "if e = None then good s1 else failed s1"
    and o1: "e = None \<longrightarrow> (\<exists>out. out @ held t1 = held t @ p \<and> length (held t1) = min 4 (length (held t @ p)))"
    by (rule truncWrite_returns [OF Cons.prems, of p])
  show ?case
  proof (cases e)
    case (Some x)
    then show ?thesis using w t1 s1 by simp
  next
    case None
    then have g: "good s1" using s1 by simp
    obtain e2 t2 s2 where f: "feed put ps t1 s1 = Some (e2, t2, s2)" "trunc_ok t2" "if e2 = None then good s2 else failed s2"
      and o2: "e2 = None \<longrightarrow> (\<exists>out. out @ held t2 = held t1 @ concat ps \<and> length (held t2) = min 4 (length (held t1 @ concat ps)))"
      using Cons.IH [OF t1 g] by blast
    obtain out1 where k1: "out1 @ held t1 = held t @ p" "length (held t1) = min 4 (length (held t @ p))"
      using o1 None by blast
    have "\<exists>out. out @ held t2 = held t @ concat (p # ps) \<and> length (held t2) = min 4 (length (held t @ concat (p # ps)))"
      if "e2 = None"
    proof -
      obtain out2 where k2: "out2 @ held t2 = held t1 @ concat ps" "length (held t2) = min 4 (length (held t1 @ concat ps))"
        using o2 \<open>e2 = None\<close> by blast
      have "(out1 @ out2) @ held t2 = held t @ concat (p # ps)" using k1(1) k2(1) by (metis append_assoc concat.simps(2))
      moreover have "length (held t2) = min 4 (length (held t @ concat (p # ps)))"
        using k1(2) k2(2) by (simp add: min_def split: if_splits)
      ultimately show ?thesis by blast
    qed
    then show ?thesis using w None f by simp
  qed
qed

text \<open>A compressor that has seen no error.\<close>

lemma flateWrite_returns:
  assumes "fwErr f = None" and "trunc_ok (tw f)" and "good s"
  shows "\<exists>n e f' s'. flateWrite ops put p f s = Some ((n, e), f', s') \<and> fwErr f' = e \<and> trunc_ok (tw f') \<and>
    (if e = None then good s' else failed s')"
proof -
  obtain cs z where w: "fl_write ops p (fw f) = (cs, z)" by fastforce
  obtain e t' s' where "feed put cs (tw f) s = Some (e, t', s')" "trunc_ok t'" "if e = None then good s' else failed s'"
    using feed_returns [OF assms(2,3)] by blast
  then show ?thesis using assms(1) w by (simp add: flateWrite_def)
qed

text \<open>Closing it: without an error its last bytes are the sync marker, so the destination is closed.\<close>

lemma flateClose_returns:
  assumes f: "fwErr f = None" "trunc_ok (tw f)" and s: "good s" and sy: "sync_flush ops"
    and cls: "\<And>s. good s \<Longrightarrow> \<exists>e s'. cls s = Some (e, s') \<and> over s'"
    and cls_failed: "\<And>s. failed s \<Longrightarrow> \<exists>e. cls s = Some (e, s)"
  shows "\<exists>e f' s'. flateClose ops put cls f s = Some (e, f', s') \<and> (fwErr f' = None \<and> over s' \<or> failed s')"
proof -
  obtain cs z where w: "fl_flush ops (fw f) = (cs, z)" by fastforce
  then obtain q where q: "concat cs = q @ [0, 0, 0xff, 0xff]"
    using sy unfolding sync_flush_def by (metis fst_conv)
  obtain e t' s' where fd: "feed put cs (tw f) s = Some (e, t', s')" and t': "trunc_ok t'"
    and s': "if e = None then good s' else failed s'"
    and o: "e = None \<longrightarrow> (\<exists>out. out @ held t' = held (tw f) @ concat cs \<and> length (held t') = min 4 (length (held (tw f) @ concat cs)))"
    using feed_returns [OF f(2) s] by blast
  have fl: "flateFlush ops put f s = Some (e, \<lparr>fw = z, fwErr = e, tw = t'\<rparr>, s')"
    using f w fd by (simp add: flateFlush_def)
  show ?thesis
  proof (cases e)
    case (Some x)
    then obtain e2 where "cls s' = Some (e2, s')" using cls_failed s' by auto
    then show ?thesis using fl Some s' by (simp add: flateClose_def)
  next
    case None
    then obtain out where o': "out @ held t' = (held (tw f) @ q) @ [0, 0, 0xff, 0xff]" and l4: "length (held t') = 4"
      using o q by (auto simp: min_def)
    then have "held t' = [0, 0, 0xff, 0xff]"
      using append_eq_append_conv [of out "held (tw f) @ q" "held t'" "[0, 0, 0xff, 0xff]"] by simp
    then have "twP t' = [0, 0, 0xff, 0xff]" using held_full [OF t'] l4 by simp
    moreover obtain e2 s2 where "cls s' = Some (e2, s2)" "over s2" using cls [of s'] s' None by auto
    ultimately show ?thesis using fl None by (simp add: flateClose_def)
  qed
qed

end

section \<open>The message writer\<close>

text \<open>An open message writer, and one that has ended; \<open>put_left\<close> is what a write leaves. A frame that cannot be
  written latches the write error, but for a control frame that is too large.\<close>

definition open_mw :: "messageWriter \<times> 'a conn_scheme \<Rightarrow> bool" where
  "open_mw s \<longleftrightarrow> (case s of (w, c) \<Rightarrow>
     werr w = None \<and> mu c \<and> \<not> writeMu c \<and> buffers_ok c \<and> writeBuf c \<noteq> None)"

definition ended_mw :: "messageWriter \<times> 'a conn_scheme \<Rightarrow> bool" where
  "ended_mw s \<longleftrightarrow> (case s of (w, c) \<Rightarrow> werr w \<noteq> None \<and> mu c \<and> buffers_ok c)"

definition put_left :: "gerror option \<Rightarrow> messageWriter \<times> 'a conn_scheme \<Rightarrow> messageWriter \<times> 'a conn_scheme \<Rightarrow> bool" where
  "put_left e s s' \<longleftrightarrow>
     (if e = None then open_mw s' else ended_mw s') \<and>
     (\<not> isControl (frameType (fst s)) \<longrightarrow> \<not> isControl (frameType (fst s')) \<and> (e \<noteq> None \<longrightarrow> writeErr (snd s') \<noteq> None))"

lemma put_left_refl: "open_mw s \<Longrightarrow> put_left None s s"
  by (simp add: put_left_def)

lemma put_left_trans: "put_left None s s1 \<Longrightarrow> put_left e s1 s2 \<Longrightarrow> put_left e s s2"
  by (auto simp: put_left_def)

lemma length_copy_any: "length (copy_at i src buf) = length buf"
  by (simp add: copy_at_def min_def)

lemma open_room: "open_mw (w, c) \<Longrightarrow> maxFrameHeaderSize < length (bufOf c)"
  by (auto simp: open_mw_def buffers_ok_def bufOf_def split: option.splits)

lemma open_upd [simp]:
  "open_mw (w\<lparr>pos := n\<rparr>, c) = open_mw (w, c)" "open_mw (w\<lparr>compress := b\<rparr>, c) = open_mw (w, c)"
  "open_mw (w\<lparr>frameType := t\<rparr>, c) = open_mw (w, c)"
  by (simp_all add: open_mw_def)

lemma open_buf: "open_mw (w, c) \<Longrightarrow> length b = length (bufOf c) \<Longrightarrow> open_mw (w, c\<lparr>writeBuf := Some b\<rparr>)"
  using open_room [of w c] by (simp add: open_mw_def buffers_ok_def)

lemma open_quietly:
  assumes "quietly c c'" and "open_mw (w, c)"
  shows "open_mw (w, c')" "bufOf c' = bufOf c" "writeFrameSize c' = writeFrameSize c"
  using assms by (simp_all add: quietly_def grows_def write_side_def open_mw_def buffers_ok_def bufOf_def cong: option.case_cong)

lemma open_ends:
  assumes "open_mw (w, c)"
  shows "endMessage x w c = Some (w\<lparr>werr := Some x\<rparr>, after_end c)" and "ended_mw (w\<lparr>werr := Some x\<rparr>, after_end c)"
    and "writeErr (after_end c) = writeErr c"
  using assms
  by (auto simp: open_mw_def ended_mw_def endMessage_def releaseWriteMu_def after_end_def buffers_ok_def Let_def split: option.splits)

lemma conn_write_error:
  assumes "conn_write t d p q c = Some (Some x, c')"
  shows "writeErr c' = Some x"
proof -
  obtain e1 c1 where w: "writeHeld t d p q (c\<lparr>mu := False\<rparr>) = (e1, c1)" by fastforce
  then have "e1 = Some x" "c' = c1\<lparr>mu := True\<rparr>"
    using assms by (auto simp: conn_write_def acquireMu_def split: if_splits)
  then show ?thesis using writeHeld_latches [OF w] by simp
qed

lemma buildFrame_length:
  assumes "buildFrame final len w c = (fp, b, c1)"
  shows "length b = length (bufOf c)"
proof -
  obtain p hdr where h: "frameHeader
      (of_int (frameType w) OR (if final then finalBit else 0) OR (if compress w then rsv1Bit else 0))
      (if maskFrames c then maskBit else 0) len (maskFrames c) = (p, hdr)" by fastforce
  show ?thesis
    using assms unfolding buildFrame_def Let_def h split_conv newMaskKey_def
    by (cases "maskFrames c") (auto simp: length_copy_any)
qed

lemma flushFrame_returns:
  assumes o: "open_mw (w, c)"
  obtains e w' c' where "flushFrame final extra w c = Some (e, w', c')"
    and "if e = None \<and> \<not> final
      then open_mw (w', c') \<and> pos w' = maxFrameHeaderSize \<and> frameType w' = continuationFrame \<and>
        length (bufOf c') = length (bufOf c) \<and> writeFrameSize c' = writeFrameSize c
      else ended_mw (w', c') \<and> frameType w' = frameType w"
    and "e \<noteq> None \<and> \<not> isControl (frameType w) \<longrightarrow> writeErr c' \<noteq> None"
proof -
  define len where "len = pos w - maxFrameHeaderSize + length extra"
  obtain fp buf c1 where b: "buildFrame final len w c = (fp, buf, c1)" by (metis prod_cases3)
  define w1 where "w1 = w\<lparr>compress := False\<rparr>"
  define c2 where "c2 = c1\<lparr>writeBuf := Some buf\<rparr>"
  have o1: "open_mw (w1, c1)" "bufOf c1 = bufOf c" "writeFrameSize c1 = writeFrameSize c"
    using open_quietly [OF buildFrame_quietly [OF b] o] by (simp_all add: w1_def)
  have lb: "length buf = length (bufOf c)" by (rule buildFrame_length [OF b])
  then have o2: "open_mw (w1, c2)" unfolding c2_def using open_buf [OF o1(1)] o1(2) by simp
  have b2: "length (bufOf c2) = length (bufOf c)" "writeFrameSize c2 = writeFrameSize c" using lb o1(3) by (simp_all add: c2_def bufOf_def)
  note u = flushFrame_def len_def [symmetric] Let_def b split_conv w1_def [symmetric] c2_def [symmetric]
  show thesis
  proof (cases "isControl (frameType w) \<and> (\<not> final \<or> len > maxControlFramePayloadSize)")
    case True
    then have "flushFrame final extra w c = Some (Some ErrInvalidControlFrame, w\<lparr>werr := Some ErrInvalidControlFrame\<rparr>, after_end c)"
      unfolding u if_P [OF True] by (simp add: open_ends(1) [OF o])
    with that open_ends(2) [OF o] True show thesis by simp
  next
    case ctl: False
    show thesis
    proof (cases "maskFrames c \<and> length extra > 0")
      case True
      have o3: "open_mw (w1, writeFatal errExtraClientMode c2)" by (rule open_quietly(1) [OF _ o2]) (simp add: quietly_def grows_def)
      have "flushFrame final extra w c = Some (Some errExtraClientMode, w1\<lparr>werr := Some errExtraClientMode\<rparr>,
          after_end (writeFatal errExtraClientMode c2))"
        unfolding u if_not_P [OF ctl] if_P [OF True] by (simp add: open_ends(1) [OF o3])
      moreover obtain y where "writeErr (writeFatal errExtraClientMode c2) = Some y"
        by (cases "writeErr c2") (simp_all add: writeFatal_def)
      ultimately show thesis using that open_ends(2,3) [OF o3] by (simp add: w1_def)
    next
      case ex: False
      have "mu c2" using o2 by (simp add: open_mw_def)
      then obtain e3 c3 where w: "conn_write (frameType w1) (writeDeadline c2) (slice fp (pos w1) buf) extra c2 = Some (e3, c3)"
        using conn_write_total by blast
      note o3 = open_quietly [OF conn_write_quietly [OF w] o2]
      have le: "writeErr c3 \<noteq> None" if "e3 \<noteq> None"
      proof -
        obtain x where "e3 = Some x" using \<open>e3 \<noteq> None\<close> by blast
        then show ?thesis using conn_write_error [OF w [unfolded \<open>e3 = Some x\<close>]] by simp
      qed
      note r = u if_not_P [OF ctl] if_not_P [OF ex] w
      show thesis
      proof (cases e3)
        case (Some x)
        then have "flushFrame final extra w c = Some (Some x, w1\<lparr>werr := Some x\<rparr>, after_end c3)"
          unfolding r by (simp add: open_ends(1) [OF o3(1)])
        with that open_ends(2,3) [OF o3(1)] le Some show thesis by (simp add: w1_def)
      next
        case None
        show thesis
        proof (cases final)
          case True
          then have "flushFrame final extra w c = Some (None, w1\<lparr>werr := Some ErrWriteClosed\<rparr>, after_end c3)"
            unfolding r by (simp add: None open_ends(1) [OF o3(1)])
          with that open_ends(2) [OF o3(1)] True show thesis by (simp add: w1_def)
        next
          case False
          then have "flushFrame final extra w c = Some (None, w1\<lparr>pos := maxFrameHeaderSize, frameType := continuationFrame\<rparr>, c3)"
            unfolding r by (simp add: None)
          with that o3 b2 False show thesis by simp
        qed
      qed
    qed
  qed
qed

lemma not_control_continuation [simp]: "\<not> isControl continuationFrame"
  by (simp add: isControl_def continuationFrame_def message_types)

lemma flush_left:
  assumes "open_mw (w, c)"
  obtains e w' c' where "flushFrame False extra w c = Some (e, w', c')" and "put_left e (w, c) (w', c')"
    and "e = None \<longrightarrow> pos w' = maxFrameHeaderSize \<and> length (bufOf c') = length (bufOf c) \<and> writeFrameSize c' = writeFrameSize c"
proof -
  obtain e w' c' where f: "flushFrame False extra w c = Some (e, w', c')"
    and k: "if e = None \<and> \<not> False
      then open_mw (w', c') \<and> pos w' = maxFrameHeaderSize \<and> frameType w' = continuationFrame \<and>
        length (bufOf c') = length (bufOf c) \<and> writeFrameSize c' = writeFrameSize c
      else ended_mw (w', c') \<and> frameType w' = frameType w"
    and l: "e \<noteq> None \<and> \<not> isControl (frameType w) \<longrightarrow> writeErr c' \<noteq> None"
    by (rule flushFrame_returns [OF assms, of False extra])
  have "put_left e (w, c) (w', c')" using k l by (auto simp: put_left_def split: if_splits)
  with that f k show thesis by (auto split: if_splits)
qed

lemma ncopy_left:
  assumes o: "open_mw (w, c)" and p: "0 < lim"
  obtains n e w' c' where "ncopy lim w c = Some ((n, e), w', c')" and "put_left e (w, c) (w', c')"
    and "e = None \<longrightarrow> 0 < n"
proof (cases "payloadRoom w c = 0")
  case False
  then have "ncopy lim w c = Some ((min lim (payloadRoom w c), None), w, c)" by (simp add: ncopy_def Let_def min_def)
  with that put_left_refl [OF o] False p show thesis by simp
next
  case True
  obtain e w1 c1 where f: "flushFrame False [] w c = Some (e, w1, c1)" and k: "put_left e (w, c) (w1, c1)"
    and l: "e = None \<longrightarrow> pos w1 = maxFrameHeaderSize \<and> length (bufOf c1) = length (bufOf c) \<and> writeFrameSize c1 = writeFrameSize c"
    by (rule flush_left [OF o, of "[]"])
  show thesis
  proof (cases e)
    case (Some x)
    then have "ncopy lim w c = Some ((0, Some x), w1, c1)" using True f by (simp add: ncopy_def)
    with that k Some show thesis by simp
  next
    case None
    have "0 < payloadRoom w1 c1" using l None open_room [OF o] by (simp add: payloadRoom_def Let_def)
    moreover have "ncopy lim w c = Some ((min lim (payloadRoom w1 c1), None), w1, c1)"
      using True f None by (simp add: ncopy_def Let_def min_def)
    ultimately show thesis using that k None p by simp
  qed
qed

lemma mwCopy_left: "open_mw (w, c) \<Longrightarrow> \<exists>e w' c'. mwCopy p w c = Some (e, w', c') \<and> put_left e (w, c) (w', c')"
proof (induction "length p" arbitrary: p w c rule: less_induct)
  case less
  show ?case
  proof (cases "p = []")
    case True
    then show ?thesis using put_left_refl [OF less.prems] by (simp add: mwCopy.simps [of "[]"])
  next
    case False
    then have "0 < length p" by simp
    obtain n e w1 c1 where n: "ncopy (length p) w c = Some ((n, e), w1, c1)" and k: "put_left e (w, c) (w1, c1)"
      and z: "e = None \<longrightarrow> 0 < n" by (rule ncopy_left [OF less.prems \<open>0 < length p\<close>])
    show ?thesis
    proof (cases e)
      case (Some x)
      then show ?thesis using n k False by (simp add: mwCopy.simps [of p])
    next
      case None
      define w2 where "w2 = w1\<lparr>pos := pos w1 + n\<rparr>"
      define c2 where "c2 = c1\<lparr>writeBuf := Some (copy_at (pos w1) (take n p) (bufOf c1))\<rparr>"
      have o1: "open_mw (w1, c1)" using k None by (simp add: put_left_def)
      then have o2: "open_mw (w2, c2)" unfolding c2_def w2_def open_upd by (rule open_buf) (simp add: length_copy_any)
      have k2: "put_left None (w, c) (w2, c2)" using k None o2 by (simp add: put_left_def w2_def)
      have "length (drop n p) < length p" using z None False by simp
      from less.hyps [OF this o2] obtain e' w' c' where "mwCopy (drop n p) w2 c2 = Some (e', w', c')"
        and "put_left e' (w2, c2) (w', c')" by blast
      then show ?thesis using n None False put_left_trans [OF k2]
        by (simp add: mwCopy.simps [of p] w2_def [symmetric] c2_def [symmetric])
    qed
  qed
qed

lemma mwWrite_left:
  assumes o: "open_mw (w, c)"
  shows "\<exists>n e w' c'. mwWrite p w c = Some ((n, e), w', c') \<and> put_left e (w, c) (w', c')"
proof -
  obtain e w' c' where "flushFrame False p w c = Some (e, w', c')" "put_left e (w, c) (w', c')"
    by (rule flush_left [OF o, of p])
  moreover obtain e2 w2 c2 where "mwCopy p w c = Some (e2, w2, c2)" "put_left e2 (w, c) (w2, c2)"
    using mwCopy_left [OF o] by blast
  moreover have "werr w = None" using o by (simp add: open_mw_def)
  ultimately show ?thesis by (auto simp: mwWrite_def)
qed

lemma mwWriteString_left:
  assumes o: "open_mw (w, c)"
  shows "\<exists>n e w' c'. mwWriteString p w c = Some ((n, e), w', c') \<and> put_left e (w, c) (w', c')"
proof -
  obtain e w' c' where "mwCopy (bytes_of_string p) w c = Some (e, w', c')" "put_left e (w, c) (w', c')"
    using mwCopy_left [OF o] by blast
  moreover have "werr w = None" using o by (simp add: open_mw_def)
  ultimately show ?thesis by (auto simp: mwWriteString_def)
qed

lemma mwReadFrom_left: "mwReadFrom_loop nn r w c = Some y \<Longrightarrow> open_mw (w, c) \<longrightarrow> open_mw (snd (snd y)) \<or> ended_mw (snd (snd y))"
proof (erule mwReadFrom_loop.raw_induct [rotated], intro impI)
  fix rl nn r w c y
  assume IH: "\<And>nn r w c y. rl nn r w c = Some y \<Longrightarrow> open_mw (w, c) \<longrightarrow> open_mw (snd (snd y)) \<or> ended_mw (snd (snd y))"
    and b: "Option.bind (if payloadRoom w c = 0 then flushFrame False [] w c else Some (None, w, c))
       (\<lambda>(err, w1, c1).
          if err \<noteq> None then Some ((nn, err), r, w1, c1)
          else
            let (d, e, r1) = srcRead (payloadRoom w1 c1) r;
                c2 = c1\<lparr>writeBuf := Some (copy_at (pos w1) d (bufOf c1))\<rparr>;
                w2 = w1\<lparr>pos := pos w1 + length d\<rparr>
            in if e \<noteq> None then Some ((nn + length d, if e = Some IoEOF then None else e), r1, w2, c2)
               else rl (nn + length d) r1 w2 c2) = Some y"
    and o: "open_mw (w, c)"
  obtain e1 w1 c1 where f: "(if payloadRoom w c = 0 then flushFrame False [] w c else Some (None, w, c)) = Some (e1, w1, c1)"
    and k: "put_left e1 (w, c) (w1, c1)"
  proof (cases "payloadRoom w c = 0")
    case True
    then show thesis using that by (rule_tac flush_left [OF o, of "[]"]) simp
  next
    case False
    then show thesis using that [of None w c] put_left_refl [OF o] by simp
  qed
  show "open_mw (snd (snd y)) \<or> ended_mw (snd (snd y))"
  proof (cases e1)
    case (Some x)
    then show ?thesis using b f k by (auto simp: put_left_def)
  next
    case None
    obtain d e r1 where rd: "srcRead (payloadRoom w1 c1) r = (d, e, r1)" by (metis prod_cases3)
    define c2 where "c2 = c1\<lparr>writeBuf := Some (copy_at (pos w1) d (bufOf c1))\<rparr>"
    define w2 where "w2 = w1\<lparr>pos := pos w1 + length d\<rparr>"
    have "open_mw (w1, c1)" using k None by (simp add: put_left_def)
    then have o2: "open_mw (w2, c2)" unfolding c2_def w2_def open_upd by (rule open_buf) (simp add: length_copy_any)
    have "(if e \<noteq> None then Some ((nn + length d, if e = Some IoEOF then None else e), r1, w2, c2)
               else rl (nn + length d) r1 w2 c2) = Some y"
      using b unfolding f w2_def c2_def by (simp add: None rd Let_def)
    then show ?thesis using o2 IH by (auto split: if_splits)
  qed
qed

lemma mwClose_left:
  assumes o: "open_mw (w, c)"
  shows "\<exists>e w' c'. mwClose w c = Some (e, w', c') \<and> ended_mw (w', c')"
proof -
  have "werr w = None" using o by (simp add: open_mw_def)
  then show ?thesis by (rule_tac flushFrame_returns [OF o, of True "[]"]) (simp add: mwClose_def)
qed

text \<open>What lies below a compressor: the message writer of a data message.\<close>

definition open_data :: "messageWriter \<times> 'a conn_scheme \<Rightarrow> bool" where
  "open_data s \<longleftrightarrow> open_mw s \<and> \<not> isControl (frameType (fst s))"

definition failed_data :: "messageWriter \<times> 'a conn_scheme \<Rightarrow> bool" where
  "failed_data s \<longleftrightarrow> ended_mw s \<and> writeErr (snd s) \<noteq> None"

interpretation fs: failing_sink mwPut open_data failed_data
proof unfold_locales
  fix p and s :: "messageWriter \<times> 'a conn_scheme"
  assume "open_data s"
  then show "\<exists>n e s'. mwPut p s = Some ((n, e), s') \<and> (if e = None then open_data s' else failed_data s')"
    using mwWrite_left [of "fst s" "snd s" p]
    by (cases s) (fastforce simp: mwPut_def open_data_def failed_data_def put_left_def)
qed

lemma mwCls_open: "open_data s \<Longrightarrow> \<exists>e s'. mwCls s = Some (e, s') \<and> ended_mw s'"
  using mwClose_left by (cases s) (auto simp: mwCls_def open_data_def)

lemma mwCls_failed: "failed_data s \<Longrightarrow> \<exists>e. mwCls s = Some (e, s)"
  by (cases s) (auto simp: mwCls_def mwClose_def failed_data_def ended_mw_def)

text \<open>Nothing changes an ended message writer, or the connection through it.\<close>

definition still :: "messageWriter \<times> 'z wconn \<Rightarrow> messageWriter \<times> 'z wconn \<Rightarrow> bool" where
  "still s s' \<longleftrightarrow> (werr (fst s) \<noteq> None \<longrightarrow> s' = s)"

interpretation st: stepping_sink mwPut still
proof unfold_locales
  fix p r and s s' :: "messageWriter \<times> 'z wconn"
  assume "mwPut p s = Some (r, s')"
  then show "still s s'" by (cases s) (auto simp: mwPut_def mwWrite_def still_def split: Option.bind_splits)
qed (auto simp: still_def)

lemma mwCls_still: "mwCls s = Some (e, s') \<Longrightarrow> still s s'"
  by (cases s) (auto simp: mwCls_def mwClose_def still_def)

section \<open>The layers of the current writer\<close>

text \<open>Above the current message writer its compressor is open and has seen no error; the compressor of the
  connection is directed at it, if it is the writer's. No other writer has the connection's compressor, and
  it has seen no error as long as a message can be begun.\<close>

definition layers_open :: "'z wconn \<Rightarrow> nat \<Rightarrow> bool" where
  "layers_open c j \<longleftrightarrow>
     (case comp (writers c ! j) of
        NoComp \<Rightarrow> True
      | PoolComp opn f \<Rightarrow> opn \<and> fwErr f = None \<and> trunc_ok (tw f) \<and> \<not> isControl (frameType (mw (writers c ! j)))
      | TakeComp opn \<Rightarrow> opn \<and> \<not> isControl (frameType (mw (writers c ! j))) \<and>
          (case factory c of None \<Rightarrow> False | Some (f, d) \<Rightarrow> d = j \<and> fwErr f = None \<and> trunc_ok (tw f)))"

definition factory_fine :: "'z wconn \<Rightarrow> bool" where
  "factory_fine c \<longleftrightarrow> (case factory c of None \<Rightarrow> True | Some (f, d) \<Rightarrow> fwErr f = None)"

definition released_by :: "(nat \<Rightarrow> bool) \<Rightarrow> 'z wconn \<Rightarrow> bool" where
  "released_by A c \<longleftrightarrow> factory_fine c \<and> (\<forall>i<length (writers c). A i \<longrightarrow> comp (writers c ! i) \<noteq> TakeComp True)"

definition whole :: "'z wconn \<Rightarrow> bool" where
  "whole c \<longleftrightarrow> mu c \<and> buffers_ok c \<and>
     (case writer c of
        Some j \<Rightarrow> writeBuf c \<noteq> None \<and> layers_open c j \<and> released_by (\<lambda>i. i \<noteq> j) c
      | None \<Rightarrow> writeErr c \<noteq> None \<or> released_by (\<lambda>i. True) c)"

lemma same_conn:
  assumes "conn.truncate a = conn.truncate b"
  shows "mu a = mu b" "writer a = writer b" "writeErr a = writeErr b" "writeBuf a = writeBuf b" "writeMu a = writeMu b"
    "buffers_ok a = buffers_ok b"
proof -
  show "mu a = mu b" "writer a = writer b" "writeErr a = writeErr b" "writeBuf a = writeBuf b" "writeMu a = writeMu b"
    using assms by (simp_all add: conn.truncate_def)
  have "writeBufSize a = writeBufSize b" "poolScript a = poolScript b" "writeBuf a = writeBuf b" "writePool a = writePool b"
    using assms by (simp_all add: conn.truncate_def)
  then show "buffers_ok a = buffers_ok b" by (simp add: buffers_ok_def cong: option.case_cong)
qed

lemma truncate_upd [simp]:
  "conn.truncate (set_mw i w c) = conn.truncate c" "conn.truncate (set_comp i x c) = conn.truncate c"
  "conn.truncate (set_utf8 i u c) = conn.truncate c" "conn.truncate (c\<lparr>factory := y\<rparr>) = conn.truncate c"
  "conn.truncate (c\<lparr>writers := ws\<rparr>) = conn.truncate c"
  by (simp_all add: set_mw_def set_comp_def set_utf8_def conn.truncate_def)

lemma current_open:
  assumes "lock_inv c" and "whole c" and "writer c = Some i"
  shows "open_mw (mw (writers c ! i), c)" "i < length (writers c)" "layers_open c i" "released_by (\<lambda>k. k \<noteq> i) c"
  using assms by (auto simp: lock_inv_def whole_def open_mw_def ended_def split: if_splits)

lemma not_current_ended:
  assumes "lock_inv c" and "i < length (writers c)"
  shows "writer c \<noteq> Some i \<longleftrightarrow> ended c i"
  using assms by (auto simp: lock_inv_def list_all_iff split: if_splits)

text \<open>What an operation on the current writer may make of it.\<close>

lemma whole_own:
  fixes c c2 :: "'z wconn"
  assumes l: "lock_inv c" and wh: "whole c" and i: "writer c = Some i"
    and s: "mw_step (mw (writers c ! i), c) (w, c1)"
    and c2: "conn.truncate c2 = conn.truncate c1" "length (writers c2) = length (writers c)"
      "\<And>k. k < length (writers c) \<Longrightarrow> k \<noteq> i \<Longrightarrow> comp (writers c2 ! k) = comp (writers c ! k)"
    and r: "open_mw (w, c1) \<and> layers_open c2 i \<and> factory_fine c2 \<or>
      ended_mw (w, c1) \<and> (writeErr c1 \<noteq> None \<or> comp (writers c2 ! i) \<noteq> TakeComp True \<and> factory_fine c2)"
  shows "whole c2"
proof -
  note o = current_open [OF l wh i]
  have m: "werr (mw (writers c ! i)) = None" "\<not> writeMu c" using o(1) by (simp_all add: open_mw_def)
  note f = same_conn [OF c2(1)]
  have others: "k < length (writers c2) \<Longrightarrow> k \<noteq> i \<Longrightarrow> comp (writers c2 ! k) \<noteq> TakeComp True" for k
    using o(4) c2(2,3) by (simp add: released_by_def)
  show ?thesis
  proof (cases "werr w")
    case None
    then have "writer c1 = Some i" using s m i by (auto simp: mw_step_def)
    moreover have "open_mw (w, c1) \<and> layers_open c2 i \<and> factory_fine c2" using r None by (auto simp: ended_mw_def)
    ultimately show ?thesis using f others by (simp add: whole_def released_by_def open_mw_def)
  next
    case (Some x)
    then have "writer c1 = None" using s m by (auto simp: mw_step_def)
    moreover have "ended_mw (w, c1)" "writeErr c1 \<noteq> None \<or> comp (writers c2 ! i) \<noteq> TakeComp True \<and> factory_fine c2"
      using r Some by (auto simp: open_mw_def)
    moreover have "released_by (\<lambda>i. True) c2" if "comp (writers c2 ! i) \<noteq> TakeComp True" "factory_fine c2"
      using that others unfolding released_by_def by metis
    ultimately show ?thesis using f by (auto simp: whole_def ended_mw_def)
  qed
qed

text \<open>An operation on another writer changes nothing that matters.\<close>

lemma whole_other:
  fixes c c2 :: "'z wconn"
  assumes wh: "whole c" and i: "writer c \<noteq> Some i"
    and c2: "conn.truncate c2 = conn.truncate c" "length (writers c2) = length (writers c)"
      "\<And>k. k < length (writers c) \<Longrightarrow> k \<noteq> i \<Longrightarrow> writers c2 ! k = writers c ! k"
      "i < length (writers c) \<Longrightarrow> comp (writers c2 ! i) = TakeComp True \<Longrightarrow> comp (writers c ! i) = TakeComp True"
    and j: "\<And>j. writer c = Some j \<Longrightarrow> j < length (writers c)"
    and y: "factory c2 = factory c \<or> writer c = None \<and> writeErr c \<noteq> None"
  shows "whole c2"
proof -
  note f = same_conn [OF c2(1)]
  have rel: "released_by A c2" if "released_by A c" "factory c2 = factory c" for A
    using that c2(2-4) unfolding released_by_def factory_fine_def by metis
  show ?thesis
  proof (cases "writer c")
    case None
    then show ?thesis using wh f y rel by (auto simp: whole_def)
  next
    case (Some j)
    then have ji: "j < length (writers c)" "j \<noteq> i" "factory c2 = factory c" using i assms(7) y by auto
    then have w: "writers c2 ! j = writers c ! j" using c2(3) by blast
    then have "layers_open c2 j = layers_open c j" by (simp only: layers_open_def w ji(3))
    then show ?thesis using wh f Some rel ji(3) by (simp add: whole_def)
  qed
qed

lemma current_index: "lock_inv c \<Longrightarrow> writer c = Some j \<Longrightarrow> j < length (writers c)"
  by (auto simp: lock_inv_def split: if_splits)

text \<open>The message writer of a writer that is not compressed.\<close>

lemma set_mw_same: "set_mw i (mw (writers c ! i)) c = c"
  by (cases c) (simp add: set_mw_def)

lemma whole_mw:
  assumes l: "lock_inv c" and wh: "whole c" and i: "i < length (writers c)" and k: "comp (writers c ! i) = NoComp"
    and s: "mw_step (mw (writers c ! i), c) (w, c1)"
    and o: "open_mw (mw (writers c ! i), c) \<Longrightarrow> open_mw (w, c1) \<or> ended_mw (w, c1)"
    and e: "ended c i \<Longrightarrow> (w, c1) = (mw (writers c ! i), c)"
  shows "whole (set_mw i w c1)"
proof (cases "writer c = Some i")
  case False
  then have "(w, c1) = (mw (writers c ! i), c)" using e not_current_ended [OF l i] by simp
  then show ?thesis using wh by (simp add: set_mw_same)
next
  case True
  have c1: "writers c1 = writers c" "factory c1 = factory c" using s by (auto simp: mw_step_def)
  show ?thesis
  proof (rule whole_own [OF l wh True s])
    have "factory_fine c" using current_open(4) [OF l wh True] by (simp add: released_by_def)
    then have "factory_fine (set_mw i w c1)" using c1 by (simp add: factory_fine_def set_mw_def)
    moreover have "comp (writers (set_mw i w c1) ! i) = NoComp" using k i c1 by (simp add: set_mw_def)
    moreover from this have "layers_open (set_mw i w c1) i" by (simp add: layers_open_def)
    ultimately show "open_mw (w, c1) \<and> layers_open (set_mw i w c1) i \<and> factory_fine (set_mw i w c1) \<or>
        ended_mw (w, c1) \<and> (writeErr c1 \<noteq> None \<or> comp (writers (set_mw i w c1) ! i) \<noteq> TakeComp True \<and> factory_fine (set_mw i w c1))"
      using o current_open(1) [OF l wh True] by auto
  qed (use c1 in \<open>simp_all add: set_mw_def\<close>)
qed

section \<open>Every operation keeps them\<close>

lemma closed_factory: "factory_fine c \<Longrightarrow> factory c = Some (f, d) \<Longrightarrow> fwErr f = None"
  by (simp add: factory_fine_def)

text \<open>A write through the layers and the closing of them, on the current writer.\<close>

lemma pool_own:
  fixes c :: "'z wconn"
  assumes l: "lock_inv c" and wh: "whole c" and i: "writer c = Some i"
    and s: "mw_step (mw (writers c ! i), c) (w, c1)"
    and r: "open_data (w, c1) \<and> b \<and> fwErr f = None \<and> trunc_ok (tw f) \<or> ended_mw (w, c1)"
  shows "whole (set_comp i (PoolComp b f) (set_mw i w c1))"
proof (rule whole_own [OF l wh i s])
  let ?c = "set_comp i (PoolComp b f) (set_mw i w c1)"
  have c1: "writers c1 = writers c" "factory c1 = factory c" using s by (auto simp: mw_step_def)
  have n: "i < length (writers c)" and ff: "factory_fine c"
    using current_open [OF l wh i] by (simp_all add: released_by_def)
  have w: "writers ?c ! i = \<lparr>mw = w, comp = PoolComp b f, utf8 = utf8 (writers c ! i)\<rparr>" and "factory ?c = factory c"
    using n c1 by (simp_all add: set_comp_def set_mw_def)
  then have "factory_fine ?c" using ff by (simp add: factory_fine_def)
  moreover have "open_data (w, c1) \<and> b \<and> fwErr f = None \<and> trunc_ok (tw f) \<Longrightarrow> open_mw (w, c1) \<and> layers_open ?c i"
    using w by (simp add: layers_open_def open_data_def)
  ultimately show "open_mw (w, c1) \<and> layers_open ?c i \<and> factory_fine ?c \<or>
      ended_mw (w, c1) \<and> (writeErr c1 \<noteq> None \<or> comp (writers ?c ! i) \<noteq> TakeComp True \<and> factory_fine ?c)"
    using r w by auto
  show "comp (writers ?c ! k) = comp (writers c ! k)" if "k < length (writers c)" "k \<noteq> i" for k
    using that c1 by (simp add: set_comp_def set_mw_def)
qed (use s in \<open>auto simp: set_comp_def set_mw_def mw_step_def\<close>)

lemma take_own:
  fixes c :: "'z wconn"
  assumes l: "lock_inv c" and wh: "whole c" and i: "writer c = Some i" and k: "comp (writers c ! i) = TakeComp True"
    and s: "mw_step (mw (writers c ! i), c) (w, c1)"
    and c2: "c2 = (set_mw i w c1)\<lparr>factory := Some (f, i)\<rparr> \<and> open_data (w, c1) \<and> fwErr f = None \<and> trunc_ok (tw f) \<or>
      c2 = (set_mw i w c1)\<lparr>factory := Some (f, i)\<rparr> \<and> failed_data (w, c1) \<or>
      c2 = set_comp i (TakeComp False) ((set_mw i w c1)\<lparr>factory := Some (f, i)\<rparr>) \<and>
        (fwErr f = None \<and> ended_mw (w, c1) \<or> failed_data (w, c1))"
  shows "whole c2"
proof (rule whole_own [OF l wh i s])
  have c1: "writers c1 = writers c" using s by (auto simp: mw_step_def)
  have n: "i < length (writers c)" using current_open [OF l wh i] by simp
  show "open_mw (w, c1) \<and> layers_open c2 i \<and> factory_fine c2 \<or>
      ended_mw (w, c1) \<and> (writeErr c1 \<noteq> None \<or> comp (writers c2 ! i) \<noteq> TakeComp True \<and> factory_fine c2)"
    using c2
  proof (elim disjE conjE, goal_cases)
    case 1
    then show ?case using n k c1 by (simp add: layers_open_def factory_fine_def open_data_def set_mw_def)
  next
    case 2
    then show ?case by (simp add: failed_data_def)
  next
    case 3
    then show ?case using n c1 by (simp add: factory_fine_def set_mw_def set_comp_def)
  next
    case 4
    then show ?case by (simp add: failed_data_def)
  qed
  show "comp (writers c2 ! k) = comp (writers c ! k)" if "k < length (writers c)" "k \<noteq> i" for k
    using that c1 c2 by (auto simp: set_comp_def set_mw_def)
  show "conn.truncate c2 = conn.truncate c1" using c2 by (elim disjE conjE) simp_all
  show "length (writers c2) = length (writers c)"
    using c2 c1 by (elim disjE conjE) (simp_all add: set_comp_def set_mw_def)
qed

lemma pool_other:
  assumes "lock_inv c" and "whole c" and "writer c \<noteq> Some i" and "comp (writers c ! i) = PoolComp b f"
  shows "whole (set_comp i (PoolComp b' f') c)"
  by (rule whole_other [OF assms(2,3)]) (use assms(4) current_index [OF assms(1)] in \<open>auto simp: set_comp_def\<close>)

text \<open>Where the connection's compressor is reached from a writer that is not the current one, the write error is
  set.\<close>

lemma take_other:
  assumes l: "lock_inv c" and wh: "whole c" and n: "i < length (writers c)" and i: "writer c \<noteq> Some i"
    and k: "comp (writers c ! i) = TakeComp True"
  shows "writer c = None \<and> writeErr c \<noteq> None"
  using assms by (auto simp: whole_def released_by_def split: option.splits)

lemma take_other_whole:
  assumes l: "lock_inv c" and wh: "whole c" and n: "i < length (writers c)" and i: "writer c \<noteq> Some i"
    and k: "comp (writers c ! i) = TakeComp True"
    and c2: "c2 = c\<lparr>factory := y\<rparr> \<or> c2 = set_comp i (TakeComp False) (c\<lparr>factory := y\<rparr>)"
  shows "whole c2"
proof (rule whole_other [OF wh i])
  show "factory c2 = factory c \<or> writer c = None \<and> writeErr c \<noteq> None" using take_other [OF l wh n i k] by simp
qed (use c2 k current_index [OF l] n in \<open>auto simp: set_comp_def conn.truncate_def\<close>)

lemma compWrite_whole:
  fixes c :: "'z wconn"
  assumes c: "compWrite ops i p c = Some (r, c')" and n: "i < length (writers c)" and l: "lock_inv c" and wh: "whole c"
  shows "whole c'"
proof (cases "comp (writers c ! i)")
  case NoComp
  obtain w c1 where w: "mwWrite p (mw (writers c ! i)) c = Some (r, w, c1)" and c': "c' = set_mw i w c1"
    using c NoComp by (auto simp: compWrite_def split: Option.bind_splits)
  show ?thesis unfolding c'
  proof (rule whole_mw [OF l wh n NoComp mwWrite_step [OF w]])
    show "open_mw (w, c1) \<or> ended_mw (w, c1)" if "open_mw (mw (writers c ! i), c)"
      using mwWrite_left [OF that, of p] w by (auto simp: put_left_def split: if_splits)
    show "ended c i \<Longrightarrow> (w, c1) = (mw (writers c ! i), c)" using w by (auto simp: mwWrite_def ended_def)
  qed
next
  case (PoolComp b f)
  show ?thesis
  proof (cases b)
    case False
    then show ?thesis using c PoolComp wh by (simp add: compWrite_def)
  next
    case True
    obtain f' w c1 where w: "flateWrite ops mwPut p f (mw (writers c ! i), c) = Some (r, f', w, c1)"
      and c': "c' = set_comp i (PoolComp True f') (set_mw i w c1)"
      using c PoolComp True by (auto simp: compWrite_def split: Option.bind_splits)
    show ?thesis
    proof (cases "writer c = Some i")
      case cur: True
      note o = current_open [OF l wh cur]
      have g: "fwErr f = None" "trunc_ok (tw f)" "open_data (mw (writers c ! i), c)"
        using o(1,3) PoolComp by (simp_all add: layers_open_def open_data_def)
      have "open_data (w, c1) \<and> fwErr f' = None \<and> trunc_ok (tw f') \<or> ended_mw (w, c1)"
        using fs.flateWrite_returns [OF g, of ops p] w by (auto simp: failed_data_def split: if_splits)
      then show ?thesis unfolding c' by (intro pool_own [OF l wh cur ss.flateWrite_step [OF w]]) simp
    next
      case False
      then have "(w, c1) = (mw (writers c ! i), c)"
        using st.flateWrite_step [OF w] not_current_ended [OF l n] by (simp add: still_def ended_def)
      then show ?thesis unfolding c' using pool_other [OF l wh False PoolComp] by (simp add: set_mw_same)
    qed
  qed
next
  case (TakeComp b)
  show ?thesis
  proof (cases b)
    case False
    then show ?thesis using c TakeComp wh by (simp add: compWrite_def)
  next
    case True
    have k: "comp (writers c ! i) = TakeComp True" using TakeComp True by simp
    obtain f d f' w c1 where fd: "factory c = Some (f, d)"
      and w: "flateWrite ops mwPut p f (mw (writers c ! d), c) = Some (r, f', w, c1)"
      and c': "c' = (set_mw d w c1)\<lparr>factory := Some (f', d)\<rparr>"
      using c k by (auto simp: compWrite_def split: Option.bind_splits)
    show ?thesis
    proof (cases "writer c = Some i")
      case cur: True
      note o = current_open [OF l wh cur]
      have d: "d = i" and g: "fwErr f = None" "trunc_ok (tw f)" "open_data (mw (writers c ! i), c)"
        using o(1,3) k fd by (simp_all add: layers_open_def open_data_def)
      have "open_data (w, c1) \<and> fwErr f' = None \<and> trunc_ok (tw f') \<or> failed_data (w, c1)"
        using fs.flateWrite_returns [OF g, of ops p] w d by (auto split: if_splits)
      then show ?thesis using c' d by (intro take_own [OF l wh cur k ss.flateWrite_step [OF w [unfolded d]], where f = f']) blast
    next
      case False
      have "writer c = None" using take_other [OF l wh n False k] by simp
      then have "(w, c1) = (mw (writers c ! d), c)"
        using st.flateWrite_step [OF w] not_current_ended [OF l factory_index [OF l fd]] by (simp add: still_def ended_def)
      then show ?thesis by (intro take_other_whole [OF l wh n False k, of c' "Some (f', d)"]) (simp add: c' set_mw_same)
    qed
  qed
qed

lemma ended_frees:
  assumes "open_mw (v, c)" and "mw_step (v, c) (w, c1)" and "ended_mw (w, c1) \<or> failed_data (w, c1)"
  shows "writeMu c1" "writer c1 = None" "mu c1"
  using assms by (auto simp: open_mw_def mw_step_def ended_mw_def failed_data_def)

lemma compClose_whole:
  fixes c :: "'z wconn"
  assumes c: "compClose ops i c = Some (r, c')" and n: "i < length (writers c)" and l: "lock_inv c" and wh: "whole c"
    and sy: "sync_flush ops"
  shows "whole c'"
proof (cases "comp (writers c ! i)")
  case NoComp
  obtain w c1 where w: "mwClose (mw (writers c ! i)) c = Some (r, w, c1)" and c': "c' = set_mw i w c1"
    using c NoComp by (auto simp: compClose_def split: Option.bind_splits)
  show ?thesis unfolding c'
  proof (rule whole_mw [OF l wh n NoComp mwClose_step(1) [OF w]])
    show "open_mw (w, c1) \<or> ended_mw (w, c1)" if "open_mw (mw (writers c ! i), c)"
      using mwClose_left [OF that] w by auto
    show "ended c i \<Longrightarrow> (w, c1) = (mw (writers c ! i), c)" using w by (auto simp: mwClose_def ended_def)
  qed
next
  case (PoolComp b f)
  show ?thesis
  proof (cases b)
    case False
    then show ?thesis using c PoolComp wh by (simp add: compClose_def)
  next
    case True
    obtain f' w c1 where w: "flateClose ops mwPut mwCls f (mw (writers c ! i), c) = Some (r, f', w, c1)"
      and c': "c' = set_comp i (PoolComp False f') (set_mw i w c1)"
      using c PoolComp True by (auto simp: compClose_def split: Option.bind_splits)
    show ?thesis
    proof (cases "writer c = Some i")
      case cur: True
      note o = current_open [OF l wh cur]
      have g: "fwErr f = None" "trunc_ok (tw f)" "open_data (mw (writers c ! i), c)"
        using o(1,3) PoolComp by (simp_all add: layers_open_def open_data_def)
      have "ended_mw (w, c1)"
        using fs.flateClose_returns [OF g sy mwCls_open mwCls_failed] w by (auto simp: failed_data_def)
      then show ?thesis unfolding c' by (intro pool_own [OF l wh cur ss.flateClose_step [OF w mwCls_step]]) simp_all
    next
      case False
      then have "(w, c1) = (mw (writers c ! i), c)"
        using st.flateClose_step [OF w mwCls_still] not_current_ended [OF l n] by (simp add: still_def ended_def)
      then show ?thesis unfolding c' using pool_other [OF l wh False PoolComp] by (simp add: set_mw_same)
    qed
  qed
next
  case (TakeComp b)
  show ?thesis
  proof (cases b)
    case False
    then show ?thesis using c TakeComp wh by (simp add: compClose_def)
  next
    case True
    have k: "comp (writers c ! i) = TakeComp True" using TakeComp True by simp
    obtain f d f' w c1 where fd: "factory c = Some (f, d)"
      and w: "flateClose ops mwPut mwCls f (mw (writers c ! d), c) = Some (r, f', w, c1)"
      and c': "c' = set_comp i (TakeComp False) ((set_mw d w c1)\<lparr>factory := Some (f', d)\<rparr>)"
      using c k by (auto simp: compClose_def split: Option.bind_splits)
    show ?thesis
    proof (cases "writer c = Some i")
      case cur: True
      note o = current_open [OF l wh cur]
      have d: "d = i" and g: "fwErr f = None" "trunc_ok (tw f)" "open_data (mw (writers c ! i), c)"
        using o(1,3) k fd by (simp_all add: layers_open_def open_data_def)
      have "fwErr f' = None \<and> ended_mw (w, c1) \<or> failed_data (w, c1)"
        using fs.flateClose_returns [OF g sy mwCls_open mwCls_failed] w d by auto
      then show ?thesis using c' d
        by (intro take_own [OF l wh cur k ss.flateClose_step [OF w [unfolded d] mwCls_step], where f = f']) auto
    next
      case False
      have "writer c = None" using take_other [OF l wh n False k] by simp
      then have "(w, c1) = (mw (writers c ! d), c)"
        using st.flateClose_step [OF w mwCls_still] not_current_ended [OF l factory_index [OF l fd]]
        by (simp add: still_def ended_def)
      then show ?thesis by (intro take_other_whole [OF l wh n False k, of c' "Some (f', d)"]) (simp add: c' set_mw_same)
    qed
  qed
qed

text \<open>On the current writer it returns and gives the lock back.\<close>

lemma compClose_returns:
  fixes c :: "'z wconn"
  assumes l: "lock_inv c" and wh: "whole c" and cur: "writer c = Some i" and sy: "sync_flush ops"
  shows "\<exists>e c'. compClose ops i c = Some (e, c') \<and> writeMu c' \<and> writer c' = None \<and> mu c'"
proof -
  note o = current_open [OF l wh cur]
  have free: "writeMu (set_mw i w c1) \<and> writer (set_mw i w c1) = None \<and> mu (set_mw i w c1)"
    if "mw_step (mw (writers c ! i), c) (w, c1)" and "ended_mw (w, c1) \<or> failed_data (w, c1)" for w c1
    using ended_frees [OF o(1) that] by (simp add: set_mw_def)
  show ?thesis
  proof (cases "comp (writers c ! i)")
    case NoComp
    obtain e w c1 where w: "mwClose (mw (writers c ! i)) c = Some (e, w, c1)" "ended_mw (w, c1)"
      using mwClose_left [OF o(1)] by blast
    then show ?thesis using free [OF mwClose_step(1) [OF w(1)]] NoComp by (simp add: compClose_def)
  next
    case (PoolComp b f)
    have g: "b" "fwErr f = None" "trunc_ok (tw f)" "open_data (mw (writers c ! i), c)"
      using o(1,3) PoolComp by (simp_all add: layers_open_def open_data_def)
    obtain e f' w c1 where w: "flateClose ops mwPut mwCls f (mw (writers c ! i), c) = Some (e, f', w, c1)"
      and k: "ended_mw (w, c1) \<or> failed_data (w, c1)"
      using fs.flateClose_returns [OF g(2-4) sy mwCls_open mwCls_failed] by auto
    then show ?thesis using free [OF ss.flateClose_step [OF w mwCls_step] k] PoolComp g(1)
      by (simp add: compClose_def set_comp_def)
  next
    case (TakeComp b)
    obtain f where g: "b" "factory c = Some (f, i)" "fwErr f = None" "trunc_ok (tw f)" "open_data (mw (writers c ! i), c)"
      using o(1,3) TakeComp by (auto simp: layers_open_def open_data_def split: option.splits)
    obtain e f' w c1 where w: "flateClose ops mwPut mwCls f (mw (writers c ! i), c) = Some (e, f', w, c1)"
      and k: "ended_mw (w, c1) \<or> failed_data (w, c1)"
      using fs.flateClose_returns [OF g(3-5) sy mwCls_open mwCls_failed] by auto
    then show ?thesis using free [OF ss.flateClose_step [OF w mwCls_step] k] TakeComp g(1,2)
      by (simp add: compClose_def set_comp_def)
  qed
qed

text \<open>The UTF-8 layer does not matter.\<close>

lemma utf8_list [simp]:
  "comp (xs[i := (xs ! i)\<lparr>utf8 := u\<rparr>] ! k) = comp (xs ! k)"
  by (cases "i < length xs") (auto simp: nth_list_update list_update_beyond)

lemma whole_utf8 [simp]: "whole (set_utf8 i u c) = whole c"
proof -
  have f: "comp (writers (set_utf8 i u c) ! j) = comp (writers c ! j)" "mw (writers (set_utf8 i u c) ! j) = mw (writers c ! j)"
    "factory (set_utf8 i u c) = factory c" for j by (simp_all add: set_utf8_def)
  have "layers_open (set_utf8 i u c) j = layers_open c j" for j by (simp only: layers_open_def f)
  moreover have "released_by A (set_utf8 i u c) = released_by A c" for A
    by (simp add: released_by_def factory_fine_def set_utf8_def)
  moreover have "mu (set_utf8 i u c) = mu c" "writeErr (set_utf8 i u c) = writeErr c" "writeBuf (set_utf8 i u c) = writeBuf c"
    "buffers_ok (set_utf8 i u c) = buffers_ok c" using same_conn [of "set_utf8 i u c" c] by simp_all
  ultimately show ?thesis by (simp add: whole_def cong: option.case_cong)
qed

lemma pipeWrite_whole:
  assumes "pipeWrite ops i p c = Some (r, c')" and i: "i < length (writers c)" and l: "lock_inv c" and wh: "whole c"
  shows "whole c'"
  using assms(1) compWrite_whole [OF _ i l wh] compWrite_whole [of ops i p "set_utf8 i u c" r c' for u] i l wh
  by (auto simp: pipeWrite_def split: option.splits if_splits prod.splits)

lemma pipeClose_whole:
  assumes "pipeClose ops i c = Some (r, c')" and i: "i < length (writers c)" and l: "lock_inv c" and wh: "whole c"
    and sy: "sync_flush ops"
  shows "whole c'"
  using assms(1) compClose_whole [OF _ i l wh sy] compClose_whole [of ops i "set_utf8 i u c" _ c' for u] i l wh sy
  by (auto simp: pipeClose_def split: option.splits if_splits Option.bind_splits)

lemma pipeClose_returns:
  assumes l: "lock_inv c" and wh: "whole c" and cur: "writer c = Some i" and sy: "sync_flush ops"
  shows "\<exists>e c'. pipeClose ops i c = Some (e, c') \<and> writeMu c' \<and> writer c' = None \<and> mu c'"
proof -
  have r: "\<exists>e c'. compClose ops i (set_utf8 i u c) = Some (e, c') \<and> writeMu c' \<and> writer c' = None \<and> mu c'" for u
    by (rule compClose_returns [OF _ _ _ sy]) (use l wh cur in simp_all)
  obtain e1 c1 where 1: "compClose ops i c = Some (e1, c1)" "writeMu c1" "writer c1 = None" "mu c1"
    using compClose_returns [OF l wh cur sy] by blast
  show ?thesis
  proof (cases "utf8 (writers c ! i)")
    case None
    then show ?thesis using 1 by (simp add: pipeClose_def)
  next
    case (Some u)
    obtain e2 c2 where "compClose ops i (set_utf8 i (u\<lparr>uwFailed := True\<rparr>) c) = Some (e2, c2)" "writeMu c2" "writer c2 = None" "mu c2"
      using r by blast
    then show ?thesis using 1 Some by (simp add: pipeClose_def)
  qed
qed

lemma whole_upd [simp]:
  "whole (c\<lparr>writeMu := b\<rparr>) = whole c" "whole (c\<lparr>now := t\<rparr>) = whole c" "whole (c\<lparr>writeDeadline := d\<rparr>) = whole c"
  "whole (c\<lparr>writeFrameSize := n\<rparr>) = whole c" "whole (c\<lparr>enableWriteCompression := b\<rparr>) = whole c"
  "whole (c\<lparr>compressionLevel := l\<rparr>) = whole c"
  by (simp_all add: whole_def layers_open_def[abs_def] released_by_def factory_fine_def buffers_ok_def
      cong: option.case_cong compWrapper.case_cong)

lemma whole_more:
  fixes c c' :: "'z wconn"
  assumes "write_side c' = write_side c" and "conn.more c' = conn.more c" and "mu c \<Longrightarrow> mu c'"
    and "writeErr c \<noteq> None \<Longrightarrow> writeErr c' \<noteq> None" and "whole c"
  shows "whole c'"
proof -
  have m: "writers c' = writers c" "factory c' = factory c" using more_writers [OF assms(2)] by simp_all
  have "layers_open c' j = layers_open c j" "released_by A c' = released_by A c" for j A
    by (simp_all only: layers_open_def released_by_def factory_fine_def m)
  moreover have "buffers_ok c' = buffers_ok c" "writer c' = writer c" "writeBuf c' = writeBuf c"
    using assms(1) by (simp_all add: write_side_def buffers_ok_def cong: option.case_cong)
  ultimately show ?thesis using assms(3-5) by (cases "writer c") (auto simp: whole_def)
qed

lemma whole_quietly: "quietly c c' \<Longrightarrow> whole c \<Longrightarrow> whole c'"
  by (rule whole_more [of c' c]) (auto simp: quietly_def grows_def)

lemma begin_buffers:
  assumes "beginMessage' t c = (e, w, c')" and "buffers_ok c"
  shows "buffers_ok c'"
proof -
  define P where "P = (\<lambda>b. case b of None \<Rightarrow> True | Some b \<Rightarrow> maxFrameHeaderSize < length (b :: byte list))"
  have ok: "buffers_ok x \<longleftrightarrow> maxFrameHeaderSize < writeBufSize x \<and> P (writeBuf x) \<and>
      (writeBuf x = None \<longrightarrow> writePool x) \<and> list_all P (poolScript x)" for x :: "'a conn_scheme"
    by (cases "writeBuf x") (auto simp: buffers_ok_def P_def)
  have P: "P None" "maxFrameHeaderSize < length b \<Longrightarrow> P (Some b)" for b by (simp_all add: P_def)
  show ?thesis
    using assms P unfolding ok
    by (auto simp: beginMessage'_def newMessageWriter_def Let_def split: if_splits option.splits list.splits)
qed

lemma begin_whole:
  fixes c :: "'z wconn"
  assumes "beginMessage' t c = (e, w, c')" and wh: "whole c" and n: "writer c = None" and l: "\<not> writeMu c"
  shows "whole c'" and "e = None \<Longrightarrow> open_mw (w, c') \<and> frameType w = t \<and> released_by (\<lambda>i. True) c'"
proof -
  have f: "writers c' = writers c" "factory c' = factory c" "writer c' = None" "writeMu c' = writeMu c" "werr w = None"
    using beginMessage'_fields [OF assms(1)] n by simp_all
  have r: "released_by A c' = released_by A c" for A by (simp only: released_by_def factory_fine_def f)
  have c': "mu c' = mu c" "writeErr c' = writeErr c" "e = None \<Longrightarrow> writeErr c = None \<and> writeBuf c' \<noteq> None \<and> frameType w = t"
    using assms(1)
    by (auto simp: beginMessage'_def newMessageWriter_def Let_def split: if_splits option.splits list.splits)
  have b: "buffers_ok c'" using begin_buffers [OF assms(1)] wh by (simp add: whole_def)
  show "whole c'" using wh n f c'(1,2) r b by (simp add: whole_def)
  show "open_mw (w, c') \<and> frameType w = t \<and> released_by (\<lambda>i. True) c'" if "e = None"
    using that c' f l wh n r b by (simp add: open_mw_def whole_def)
qed

lemma NextWriter_whole:
  fixes c :: "'z wconn"
  assumes "NextWriter ops t c = Some (r, c')" and l: "lock_inv c" and wh: "whole c"
  shows "whole c'"
proof -
  obtain e1 c1 where a: "acquireWriteMu (writeDeadline c) c = Some (e1, c1)"
    using assms(1) by (auto simp: NextWriter_def split: Option.bind_splits)
  show ?thesis
  proof (cases e1)
    case (Some x)
    then have "c' = c1" using assms(1) a by (simp add: NextWriter_def)
    then show ?thesis using acquire_cases [OF a] Some wh by auto
  next
    case None
    then have c1: "writeMu c" "c1 = c\<lparr>writeMu := False\<rparr>" using acquire_cases [OF a] by auto
    have n: "writer c1 = None" "\<not> writeMu c1" "whole c1" using free_writer [OF l] c1 wh by simp_all
    obtain e2 w c2 where b: "beginMessage' t c1 = (e2, w, c2)" by (metis prod_cases3)
    then have bg: "beginMessage ops t c1 = Some (e2, w, c2)" using n(1) by (simp add: beginMessage_def)
    have m: "\<not> writeMu c2" using beginMessage'_fields(3) [OF b] n(2) by simp
    note bw = begin_whole [OF b n(3,1,2)]
    show ?thesis
    proof (cases e2)
      case (Some x)
      then have "c' = c2\<lparr>writeMu := True\<rparr>"
        using assms(1) a None bg m by (simp add: NextWriter_def releaseWriteMu_def)
      then show ?thesis using bw(1) by simp
    next
      case n2: None
      define i where "i = length (writers c2)"
      obtain z c3 where z: "(if compressing t c2 then newCompWrapper ops i c2 else (NoComp, c2)) = (z, c3)"
        by fastforce
      define u where "u = (if validating t c2
        then Some \<lparr>uwState = utf8Accept, uwCodepoint = 0, uwFailed = False\<rparr> else None)"
      have c': "c' = c3\<lparr>writer := Some i,
          writers := writers c3 @ [\<lparr>mw = w\<lparr>compress := compressing t c2\<rparr>, comp = z, utf8 = u\<rparr>]\<rparr>"
        using assms(1) a None bg n2 z
        by (cases "compressing t c2") (auto simp: NextWriter_def Let_def i_def [symmetric] u_def [symmetric])
      have o: "open_mw (w, c2)" "frameType w = t" "released_by (\<lambda>i. True) c2" using bw(2) n2 by simp_all
      have ct: "\<not> isControl t" if "compressing t c2"
        using that by (auto simp: compressing_def isData_def isControl_def message_types)
      have c3: "writers c3 = writers c2" "conn.truncate c3 = conn.truncate c2"
        using z by (auto simp: newCompWrapper_def Let_def split: if_splits comp_fn.splits)
      have ff: "factory_fine c2" and cl: "\<And>k. k < i \<Longrightarrow> comp (writers c2 ! k) \<noteq> TakeComp True"
        using o(3) by (simp_all add: released_by_def i_def)
      have z3: "factory_fine c3 \<and> (case z of NoComp \<Rightarrow> True
          | PoolComp b f \<Rightarrow> compressing t c2 \<and> b \<and> fwErr f = None \<and> trunc_ok (tw f)
          | TakeComp b \<Rightarrow> compressing t c2 \<and> b \<and> (case factory c3 of None \<Rightarrow> False | Some (f, d) \<Rightarrow> d = i \<and> fwErr f = None \<and> trunc_ok (tw f)))"
        using z ff
        by (auto simp: newCompWrapper_def factory_fine_def newFlateWriter_def Let_def split: if_splits comp_fn.splits option.splits)
      note s3 = same_conn [OF c3(2)]
      have at: "writers c' ! i = \<lparr>mw = w\<lparr>compress := compressing t c2\<rparr>, comp = z, utf8 = u\<rparr>" "factory c' = factory c3"
        "\<And>k. k < i \<Longrightarrow> writers c' ! k = writers c2 ! k" "length (writers c') = Suc i"
        using c3(1) by (simp_all add: c' i_def nth_append)
      have "layers_open c' i" using z3 ct o(2) at(1,2) by (auto simp: layers_open_def split: compWrapper.splits option.splits)
      moreover have "released_by (\<lambda>k. k \<noteq> i) c'"
        using z3 cl at(2-4) by (auto simp: released_by_def factory_fine_def less_Suc_eq)
      moreover have "mu c'" "buffers_ok c'" "writeBuf c' \<noteq> None"
        using o(1) s3 by (simp_all add: open_mw_def c' buffers_ok_def cong: option.case_cong)
      ultimately show ?thesis by (simp add: whole_def c')
    qed
  qed
qed

lemma fastMessage_whole:
  fixes c :: "'z wconn"
  assumes "fastMessage ops t data c = Some (r, c')" and l: "lock_inv c" and wh: "whole c"
  shows "whole c'"
proof -
  obtain e1 c1 where a: "acquireWriteMu (writeDeadline c) c = Some (e1, c1)"
    using assms(1) by (auto simp: fastMessage_def split: Option.bind_splits)
  show ?thesis
  proof (cases e1)
    case (Some x)
    then have "c' = c1" using assms(1) a by (simp add: fastMessage_def)
    then show ?thesis using acquire_cases [OF a] Some wh by auto
  next
    case None
    then have c1: "writeMu c" "c1 = c\<lparr>writeMu := False\<rparr>" using acquire_cases [OF a] by auto
    have n: "writer c1 = None" "\<not> writeMu c1" "whole c1" using free_writer [OF l] c1 wh by simp_all
    obtain e2 w c2 where b: "beginMessage' t c1 = (e2, w, c2)" by (metis prod_cases3)
    then have bg: "beginMessage ops t c1 = Some (e2, w, c2)" using n(1) by (simp add: beginMessage_def)
    have m: "\<not> writeMu c2" "writer c2 = None" using beginMessage'_fields(3,4) [OF b] n(1,2) by simp_all
    note bw = begin_whole [OF b n(3,1,2)]
    show ?thesis
    proof (cases e2)
      case (Some x)
      then have "c' = c2\<lparr>writeMu := True\<rparr>"
        using assms(1) a None bg m by (simp add: fastMessage_def releaseWriteMu_def)
      then show ?thesis using bw(1) by simp
    next
      case n2: None
      define n where "n = min (length (bufOf c2) - pos w) (length data)"
      define w3 where "w3 = w\<lparr>pos := pos w + n\<rparr>"
      define c3 where "c3 = c2\<lparr>writeBuf := Some (copy_at (pos w) data (bufOf c2))\<rparr>"
      obtain w' where fl: "flushFrame True (drop n data) w3 c3 = Some (r, w', c')"
        using assms(1) a None bg n2
        by (auto simp: fastMessage_def Let_def n_def w3_def c3_def split: Option.bind_splits)
      have o: "open_mw (w, c2)" "released_by (\<lambda>i. True) c2" using bw(2) n2 by simp_all
      have "open_mw (w3, c3)" unfolding w3_def c3_def open_upd by (rule open_buf [OF o(1)]) (simp add: length_copy_any)
      then have e: "ended_mw (w', c')" by (rule flushFrame_returns [of w3 c3 True "drop n data"]) (use fl in simp)
      have f: "writers c' = writers c2" "factory c' = factory c2" "writer c' = None"
        using flushFrame_step [OF fl] m by (auto simp: mw_step_def c3_def)
      have "released_by A c' = released_by A c2" for A by (simp only: released_by_def factory_fine_def f)
      then show ?thesis using o(2) e f(3) by (simp add: whole_def ended_mw_def)
    qed
  qed
qed

lemma WriteMessage_whole:
  assumes "WriteMessage ops t data c = Some (r, c')" and l: "lock_inv c" and wh: "whole c" and sy: "sync_flush ops"
  shows "whole c'"
proof (cases "validating t c \<and> utf8DFAValidate data \<noteq> utf8Accept")
  case True
  then show ?thesis using assms(1) wh by (simp add: WriteMessage_def)
next
  case v: False
  show ?thesis
  proof (cases "isServer c \<and> (newCompressionWriter c = NilFn \<or> \<not> enableWriteCompression c) \<and>
              (writeFrameSize c = 0 \<or> length data \<le> writeFrameSize c)")
    case True
    then show ?thesis using assms(1) fastMessage_whole [OF _ l wh]
      unfolding WriteMessage_def if_not_P [OF v] if_P [OF True] by blast
  next
    case False
    note eq = WriteMessage_def if_not_P [OF v] if_not_P [OF False]
    obtain w c1 where nw: "NextWriter ops t c = Some (w, c1)"
      using assms(1) unfolding eq by (auto split: Option.bind_splits)
    have k1: "lock_inv c1" "whole c1" using NextWriter_keeps [OF nw l] NextWriter_whole [OF nw l wh] by simp_all
    show ?thesis
    proof (cases w)
      case (Inl e)
      then show ?thesis using assms(1) nw k1 unfolding eq by simp
    next
      case (Inr i)
      obtain n e2 c2 where pw: "pipeWrite ops i data c1 = Some ((n, e2), c2)"
        using assms(1) nw Inr unfolding eq by (auto split: Option.bind_splits)
      have i: "i < length (writers c1)" using nw Inr NextWriter_index by blast
      have k: "keeps c1 c2" "whole c2" using pipeWrite_keeps [OF pw i k1(1)] pipeWrite_whole [OF pw i k1] by simp_all
      then have k2: "lock_inv c2" "i < length (writers c2)" using k1(1) i by (simp_all add: keeps_def)
      show ?thesis
      proof (cases e2)
        case None
        then have "pipeClose ops i c2 = Some (r, c')" using assms(1) nw Inr pw unfolding eq by simp
        then show ?thesis by (rule pipeClose_whole [OF _ k2(2,1) k(2) sy])
      next
        case (Some x)
        then show ?thesis using assms(1) nw Inr pw k(2) unfolding eq by simp
      qed
    qed
  qed
qed

lemma writePreparedFrame_whole:
  fixes c :: "'z wconn"
  assumes "writePreparedFrame t data c = Some (r, c')" and l: "lock_inv c" and wh: "whole c"
  shows "whole c'"
proof -
  obtain e1 c1 where a: "acquireWriteMu (writeDeadline c) c = Some (e1, c1)"
    using assms(1) by (auto simp: writePreparedFrame_def split: Option.bind_splits)
  show ?thesis
  proof (cases e1)
    case (Some x)
    then have "c' = c1" using assms(1) a by (simp add: writePreparedFrame_def)
    then show ?thesis using acquire_cases [OF a] Some wh by auto
  next
    case None
    then have c1: "whole c1" using acquire_cases [OF a] wh by auto
    obtain e2 c2 where w: "conn_write t (writeDeadline c) data [] c1 = Some (e2, c2)"
      using assms(1) a None by (auto simp: writePreparedFrame_def split: Option.bind_splits)
    have "c' = c2\<lparr>writeMu := True\<rparr>"
      using assms(1) a None w by (auto simp: writePreparedFrame_def releaseWriteMu_def split: Option.bind_splits if_splits)
    then show ?thesis using whole_quietly [OF conn_write_quietly [OF w] c1] by simp
  qed
qed

lemma app_step_whole:
  assumes "app_step ops c c'" and "sync_flush ops"
  shows "lock_inv c \<Longrightarrow> whole c \<Longrightarrow> whole c'"
  using assms(1)
proof (induction rule: app_step.induct)
  case (control t data d c r c')
  then show ?case using whole_quietly [OF WriteControl_quietly] by blast
next
  case (new_writer t c nw c')
  then show ?case using NextWriter_whole by blast
next
  case (write_bytes i c p n c')
  then show ?case using pipeWrite_whole by blast
next
  case (write_string i c s n w c')
  show ?case
  proof (rule whole_mw [OF write_string(5,6,1,2) mwWriteString_step [OF write_string(4)]])
    show "open_mw (w, c') \<or> ended_mw (w, c')" if "open_mw (mw (writers c ! i), c)"
      using mwWriteString_left [OF that, of s] write_string(4) by (auto simp: put_left_def split: if_splits)
    show "ended c i \<Longrightarrow> (w, c') = (mw (writers c ! i), c)" using write_string(4) by (auto simp: mwWriteString_def ended_def)
  qed
next
  case (read_from i c src n src' w c')
  show ?case
  proof (rule whole_mw [OF read_from(5,6,1,2) mwReadFrom_step [OF read_from(4)]])
    show "open_mw (w, c') \<or> ended_mw (w, c')" if "open_mw (mw (writers c ! i), c)"
      using mwReadFrom_left that read_from(4) by (fastforce simp: mwReadFrom_def split: if_splits)
    show "ended c i \<Longrightarrow> (w, c') = (mw (writers c ! i), c)" using read_from(4) by (auto simp: mwReadFrom_def ended_def)
  qed
next
  case (close_writer i c r c')
  then show ?case using pipeClose_whole assms(2) by blast
next
  case (message t data c r c')
  then show ?case using WriteMessage_whole assms(2) by blast
next
  case (prepared t data c r c')
  then show ?case using writePreparedFrame_whole by blast
qed (auto simp: SetWriteDeadline_def SetWriteFrameSize_def EnableWriteCompression_def SetCompressionLevel_def)

section \<open>Both sides\<close>

lemma reading_whole:
  fixes s :: "('d, 'z) duplex"
  assumes "only_controls (fst s) c'" and "whole (as_writer s)"
  shows "whole (as_writer (c', snd s))"
proof -
  have "adds_frames (fst s) c'" using assms(1) by (simp add: only_controls_def)
  then show ?thesis by (intro whole_more [OF _ _ _ _ assms(2)]) (auto simp: adds_frames_def)
qed

lemma onReader_whole:
  assumes "whole (as_writer s)" and "onReader f s = Some (r, s')" and "steps_to only_controls (fst s) (f (fst s))"
  shows "whole (as_writer s')"
proof -
  obtain c' where "f (fst s) = Some (r, c')" and "s' = (c', snd s)"
    using assms(2) by (auto simp: onReader_def split: Option.bind_splits)
  then show ?thesis using reading_whole [OF steps_toD [OF assms(3)] assms(1)] by simp
qed

lemma conn_step_whole:
  assumes "conn_step wops rops h s s'" and h: "handlers_step only_controls h" and sy: "sync_flush wops"
  shows "conn_inv s \<Longrightarrow> whole (as_writer s) \<Longrightarrow> whole (as_writer s')"
  using assms(1)
proof (induction rule: conn_step.induct)
  case (write_op s w)
  then show ?case using app_step_whole [OF write_op(1) sy] by (simp add: conn_inv_def)
next
  case (next_reader s nr s')
  show ?case by (rule onReader_whole [OF next_reader(3,1) oc.NextReader_steps [OF h]])
next
  case (read_bytes i n s r s')
  show ?case by (rule onReader_whole [OF read_bytes(3,1) oc.readerRead_steps [OF h]])
next
  case (read_message grow s rm s')
  show ?case by (rule onReader_whole [OF read_message(3,1) oc.ReadMessage_steps [OF h]])
next
  case (read_limit s n)
  then show ?case by (intro reading_whole) (auto simp: SetReadLimit_def intro: oc.step_small)
next
  case (read_deadline s t)
  then show ?case by (intro reading_whole) (auto simp: SetReadDeadline_def intro: oc.step_small)
next
  case (close_gracefully code reason t s cg s')
  show ?case by (rule onReader_whole [OF close_gracefully(3,1) CloseGracefully_steps [OF h]])
qed

lemma conn_steps_whole:
  assumes "(conn_step wops rops h)\<^sup>*\<^sup>* s s'" and "handlers_step only_controls h" and "sync_flush wops"
    and "conn_inv s" and "whole (as_writer s)"
  shows "whole (as_writer s')"
  using assms(1)
proof (induction rule: rtranclp_induct)
  case base
  show ?case by (rule assms(5))
next
  case (step s1 s2)
  then show ?case using conn_step_whole [OF _ assms(2,3)] conn_steps_keep [OF step(1) assms(2,4)] by blast
qed

text \<open>The buffers a new connection is given leave room for a frame header and a byte.\<close>

definition room_given :: "bytes option \<Rightarrow> environment \<Rightarrow> bool" where
  "room_given wbuf env \<longleftrightarrow>
     (case wbuf of None \<Rightarrow> True | Some b \<Rightarrow> maxFrameHeaderSize < length b) \<and>
     list_all (\<lambda>b. case b of None \<Rightarrow> True | Some b \<Rightarrow> maxFrameHeaderSize < length b) (envPool env)"

lemma new_whole:
  assumes "room_given wbuf env"
  shows "whole (as_writer (agreed cw dr dm sk (newDuplex server rs ws pool br wbuf env :: ('a, 'b) duplex)))"
proof -
  let ?c = "newWConn server rs ws pool br wbuf env :: 'b wconn"
  have "buffers_ok ?c" using assms
    by (auto simp: room_given_def new_conn_defs buffers_ok_def defaultWriteBufferSize_def maxFrameHeaderSize_def
        split: option.splits)
  moreover have "writers ?c = []" "factory ?c = None" "writer ?c = None" by (simp_all add: new_conn_defs)
  ultimately show ?thesis
    by (simp add: new_duplex(1) whole_def released_by_def factory_fine_def buffers_ok_def cong: option.case_cong)
qed

section \<open>Properties\<close>

text \<open>C25: closing the current writer never blocks and gives the write lock back, whatever went wrong before or goes
  wrong now. Over every sequence of calls of both sides on a new connection, with whatever compression the
  handshake has settled, network failures and time included: if a writer is current, compressed (with or
  without context takeover) or not, validating text or not, then its Close returns, and after it the write
  lock and the inner mutex are free and no writer is current, so that another message can begin. A compressed
  writer's Close gives up without closing the message writer below when what the compressor flushed does not
  end in its marker; that the lock is never left held by this rests on the documented ending of a flush and, after
  an error, on the message writer having been ended by that error. The buffers given to the connection have room for a header
  and a byte.\<close>

theorem close_frees_the_lock:
  assumes "(conn_step wops rops h)\<^sup>*\<^sup>* (agreed cw dr dm sk (newDuplex server rs ws pool br wbuf env)) s"
    and "handlers_step only_controls h" and "sync_flush wops" and "room_given wbuf env" and "writer (fst s) = Some i"
  shows "\<exists>e s'. onWriter (pipeClose wops i) s = Some (e, s') \<and> writeMu (fst s') \<and> writer (fst s') = None \<and> mu (fst s')"
proof -
  have "lock_inv (as_writer s)"
    using conn_steps_keep [OF assms(1,2) agreed_inv] by (simp add: conn_inv_def)
  moreover have "whole (as_writer s)"
    by (rule conn_steps_whole [OF assms(1-3) agreed_inv new_whole [OF assms(4)]])
  ultimately obtain e c' where "pipeClose wops i (as_writer s) = Some (e, c')" "writeMu c'" "writer c' = None" "mu c'"
    using pipeClose_returns [OF _ _ _ assms(3), of "as_writer s" i] assms(5) by auto
  then show ?thesis by (simp add: onWriter_def)
qed

text \<open>A server with context takeover opens a compressed text message, its network fails, and it closes the
  writer.\<close>

definition failing_server :: "(unit, bytes) duplex" where
  "failing_server = agreed TakeoverFn TakeoverFn False False
     (newDuplex True 0 0 False None None (quiet\<lparr>envNet := [NetFail 0 (ErrNew ''reset'')]\<rparr>))"

lemma close_frees_the_lock_witness:
  "\<exists>i (s :: (unit, bytes) duplex). comp (writers (as_writer s) ! i) = TakeComp True \<and> netScript (fst s) = [NetFail 0 (ErrNew ''reset'')] \<and>
    writer (fst s) = Some i \<and>
    (\<exists>e s'. onWriter (pipeClose stored_ops i) s = Some (e, s') \<and> writeMu (fst s') \<and> writer (fst s') = None \<and> mu (fst s'))"
proof -
  have c: "writeMu (as_writer failing_server)" "writer (as_writer failing_server) = None"
    "writeErr (as_writer failing_server) = None" "writeDeadline (as_writer failing_server) = None"
    "writers (as_writer failing_server) = []" "newCompressionWriter (as_writer failing_server) = TakeoverFn"
    "enableWriteCompression (as_writer failing_server)" "writeBuf (as_writer failing_server) \<noteq> None"
    "netScript (as_writer failing_server) = [NetFail 0 (ErrNew ''reset'')]"
    by (simp_all add: failing_server_def new_duplex(1) new_conn_defs)
  then obtain w where n: "NextWriter stored_ops TextMessage (as_writer failing_server) = Some (Inr 0, w)"
    and w: "writer w = Some 0" "comp (writers w ! 0) = TakeComp True" "netScript w = [NetFail 0 (ErrNew ''reset'')]"
    by (auto simp: NextWriter_def acquireWriteMu_def beginMessage_def beginMessage'_def newCompWrapper_def compressing_def
        isData_def isControl_def message_types Let_def)
  define s where "s = from_writer failing_server w"
  have "conn_step stored_ops no_inflate defaultHandlers failing_server s"
    unfolding s_def by (rule conn_step.write_op [OF app_step.new_writer [OF n]])
  then have 1: "(conn_step stored_ops no_inflate defaultHandlers)\<^sup>*\<^sup>* failing_server s" by simp
  have r: "room_given None (quiet\<lparr>envNet := [NetFail 0 (ErrNew ''reset'')]\<rparr>)" by (simp add: room_given_def quiet_def)
  have s: "writer (fst s) = Some 0" "netScript (fst s) = [NetFail 0 (ErrNew ''reset'')]"
    "comp (writers (as_writer s) ! 0) = TakeComp True" using w by (simp_all add: s_def)
  show ?thesis
    using close_frees_the_lock [OF 1 [unfolded failing_server_def] oc.default_steps stored_sync r s(1)] s by blast
qed

end
