(* ===== verification/ReadContext.thy ===== *)
theory ReadContext
  imports ReadReturns
begin

text \<open>
  NextReaderContext and ReadMessageContext of src/conn.go, and what a timeout in the middle of a read
  leaves of the connection. The watchdog that a cancelled context starts makes the read under way
  fail with a timeout, which is one of the outcomes of the network's input.
\<close>

section \<open>Model\<close>

definition ctxSetReadDeadline :: "context_view \<Rightarrow> 'a conn_scheme \<Rightarrow> 'a conn_scheme" where
  "ctxSetReadDeadline x c = (case ctxDeadline x of None \<Rightarrow> c | Some t \<Rightarrow> SetReadDeadline (Some t) c)"

definition NextReaderContext ::
  "'d inflate_ops \<Rightarrow> 'd rconn handlers \<Rightarrow> context_view \<Rightarrow> 'd rconn \<Rightarrow> (next_result \<times> 'd rconn) option" where
  "NextReaderContext ops h x c =
     (case errEntry x of
        Some e \<Rightarrow> Some (NextErr e, c)
      | None \<Rightarrow>
          do { (r, c1) \<leftarrow> NextReader ops h (ctxSetReadDeadline x c);
               Some (case r of
                   NextPanic \<Rightarrow> (NextPanic, c1)
                 | NextOk t i \<Rightarrow> (NextOk t i, SetReadDeadline None c1)
                 | NextErr e \<Rightarrow> (NextErr (case errExit x of Some e' \<Rightarrow> e' | None \<Rightarrow> e), SetReadDeadline None c1)) })"

definition ReadMessageContext ::
  "'d inflate_ops \<Rightarrow> 'd rconn handlers \<Rightarrow> (nat \<Rightarrow> nat) \<Rightarrow> context_view \<Rightarrow> 'd rconn \<Rightarrow> (read_result \<times> 'd rconn) option" where
  "ReadMessageContext ops h grow x c =
     do { (r, c1) \<leftarrow> NextReaderContext ops h x c;
          (case r of
             NextPanic \<Rightarrow> Some (ReadPanic, c1)
           | NextErr e \<Rightarrow> Some (ReadDone noFrame [] (Some e), c1)
           | NextOk t i \<Rightarrow>
               do { ((p, e), c2) \<leftarrow> IoReadAll (readerRead ops h i) grow c1; Some (ReadDone t p e, c2) }) }"

lemma ctxSetReadDeadline_fields [simp]:
  "between_messages (ctxSetReadDeadline x c) = between_messages c" "avail (ctxSetReadDeadline x c) = avail c"
  "rbuf (ctxSetReadDeadline x c) = rbuf c" "rerr (ctxSetReadDeadline x c) = rerr c" "rin (ctxSetReadDeadline x c) = rin c"
  by (cases "ctxDeadline x"; simp add: ctxSetReadDeadline_def SetReadDeadline_def between_messages_def can_read_def
      input_ok_def net_ok_def avail_def)+

text \<open>With a context that never ends the variants are the plain calls, but for the deadline.\<close>

lemma background_context:
  assumes "errEntry x = None" and "ctxDeadline x = None" and "errExit x = None"
    and "NextReader ops h c = Some (r, c1)" and "r \<noteq> NextPanic"
  shows "NextReaderContext ops h x c = Some (r, c1\<lparr>netReadDeadline := None\<rparr>)"
  using assms by (cases r) (simp_all add: NextReaderContext_def ctxSetReadDeadline_def SetReadDeadline_def)

section \<open>A timeout in a header\<close>

lemma conn_read_timeout:
  assumes "rbuf c = b" and "length b < n" and "n \<le> rbufSize c" and "rerr c = None" and "rin c = ([], Some e) # s"
    and "e \<noteq> IoEOF"
  shows "conn_read n c = ((b, Some e), c\<lparr>rbuf := [], rin := s\<rparr>)"
proof -
  have f: "fill maxConsecutiveEmptyReads c = c\<lparr>rerr := Some e, rin := s\<rparr>"
  proof -
    have "fill (Suc k) c = c\<lparr>rbuf := rbuf c, rerr := Some e, rin := s\<rparr>" for k using assms(5) by (simp add: Let_def)
    from this [of 99] show ?thesis by (simp add: maxConsecutiveEmptyReads_def numeral_eq_Suc)
  qed
  have "peekFill n c = peekFill n (c\<lparr>rerr := Some e, rin := s\<rparr>)"
    using assms(1-4) f by (subst peekFill.simps) simp
  also have "\<dots> = c\<lparr>rerr := Some e, rin := s\<rparr>" by (subst peekFill.simps) simp
  finally have "brPeek n c = (b, Some e, c\<lparr>rerr := None, rin := s\<rparr>)"
    using assms(1-3) by (simp add: brPeek_def Let_def)
  moreover have "c\<lparr>rerr := None, rin := s, rbuf := []\<rparr> = c\<lparr>rbuf := [], rin := s\<rparr>"
    using assms(4) by (intro conn.equality) simp_all
  ultimately show ?thesis using assms(1,6) by (simp add: conn_read_def)
qed

lemma advanceFrame_timeout:
  fixes c :: "'d rconn"
  assumes "between_messages c" and "rbuf c = b" and "length b < 2" and "rerr c = None" and "rin c = ([], Some e) # s"
    and "e \<noteq> IoEOF"
  shows "advanceFrame h c = Some ((noFrame, Some e), c\<lparr>rbuf := [], rin := s\<rparr>)"
proof -
  have "\<not> 0 <s readRemaining c" using assms(1) by (simp add: between_messages_def word_sless_alt)
  moreover have "2 \<le> rbufSize c"
    using assms(1) by (simp add: between_messages_def can_read_def maxControlFramePayloadSize_def)
  ultimately show ?thesis
    using conn_read_timeout [OF assms(2,3) _ assms(4-6)] by (simp add: advanceFrame_def readFrame_def failWith_def)
qed

text \<open>C22: a read that times out while it waits for the header of the next frame. The call returns the
  error of the context (or the timeout), the connection has no error, is still between messages and
  has no deadline; but the input goes on behind the timeout, so that the bytes b of the header that had
  arrived before it are dropped: nothing is lost if none had, and if one had, the next read takes
  the following bytes for a header.\<close>

theorem timeout_in_header:
  fixes c :: "'d rconn"
  assumes "between_messages c" and "rbuf c = b" and "length b < 2" and "rerr c = None" and "rin c = ([], Some e) # s"
    and "isTimeout e" and "errEntry x = None"
  shows "\<exists>c'. NextReaderContext ops h x c = Some (NextErr (case errExit x of Some e' \<Rightarrow> e' | None \<Rightarrow> e), c') \<and>
    between_messages c' \<and> netReadDeadline c' = None \<and> avail c = b \<and> avail c' = upto_err s"
proof -
  let ?c = "fresh (ctxSetReadDeadline x c)"
  obtain rs where f: "?c = (ctxSetReadDeadline x c)\<lparr>readers := rs, reader := None, messageReader := None, readLength := 0\<rparr>"
    using fresh_fields by blast
  have e: "e \<noteq> IoEOF" using assms(6) by auto
  have b: "between_messages ?c" by (rule fresh_between) (simp add: assms(1))
  have a: "advanceFrame h ?c = Some ((noFrame, Some e), ?c\<lparr>rbuf := [], rin := s\<rparr>)"
    by (rule advanceFrame_timeout [OF b _ assms(3) _ _ e]) (simp_all add: f assms(2,4,5))
  define c' where "c' = SetReadDeadline None (?c\<lparr>rbuf := [], rin := s\<rparr>)"
  have "readErr ?c = None" using b by (simp add: between_messages_def)
  then have "NextReader ops h (ctxSetReadDeadline x c) = Some (NextErr e, ?c\<lparr>rbuf := [], rin := s\<rparr>)"
    unfolding NextReader_fresh using a assms(6) by (subst nextLoop.simps) simp
  then have "NextReaderContext ops h x c = Some (NextErr (case errExit x of Some e' \<Rightarrow> e' | None \<Rightarrow> e), c')"
    using assms(7) by (simp add: NextReaderContext_def c'_def)
  moreover have "live s" using assms(1,5) by (simp add: between_messages_def can_read_def input_ok_def live_def)
  then have "between_messages c'"
    using b by (simp add: c'_def SetReadDeadline_def between_messages_def can_read_def input_ok_def net_ok_def)
  moreover have "netReadDeadline c' = None" "avail c' = upto_err s" "avail c = b"
    using assms(2,4,5) by (simp_all add: c'_def SetReadDeadline_def avail_def f)
  ultimately show ?thesis by blast
qed

text \<open>One byte of a header, the timeout, and the rest of the frame: a text message of one character whose
  second byte is taken for the first of a frame.\<close>

definition timeoutError :: gerror where
  "timeoutError = NetError ''i/o timeout'' True True"

definition interrupted :: "bytes \<Rightarrow> bytes \<Rightarrow> unit rconn" where
  "interrupted b later = (reader_of False [])\<lparr>rbuf := b, rin := [([], Some timeoutError), (later, None)]\<rparr>"

lemma interrupted_ok: "later \<noteq> [] \<Longrightarrow> length b < 2 \<Longrightarrow> between_messages (interrupted b later)"
  using reader_of_simps(1) [of False "[]"]
  by (auto simp: interrupted_def between_messages_def can_read_def input_ok_def net_ok_def live_def
      maxControlFramePayloadSize_def)

lemma timeout_in_header_witness:
  "\<exists>c'. NextReaderContext no_inflate defaultHandlers \<lparr>errEntry = None, ctxDeadline = None, errExit = None\<rparr>
      (interrupted [0x81] [0x01, 0x61]) = Some (NextErr timeoutError, c') \<and> between_messages c' \<and> avail c' = [0x01, 0x61]"
proof -
  let ?x = "\<lparr>errEntry = None, ctxDeadline = None, errExit = None\<rparr>" and ?c = "interrupted [0x81] [0x01, 0x61]"
  have "rbuf ?c = [0x81]" "rerr ?c = None" "rin ?c = ([], Some timeoutError) # [([0x01, 0x61], None)]"
    by (simp_all add: interrupted_def reader_of_def new_rconn_defs)
  moreover have "isTimeout timeoutError" "errEntry ?x = None" by (simp_all add: timeoutError_def)
  ultimately show ?thesis
    using timeout_in_header [of ?c "[0x81]" timeoutError "[([0x01, 0x61], None)]" ?x no_inflate defaultHandlers] interrupted_ok
    by auto
qed

section \<open>A timeout behind a skipped frame\<close>

lemma discard_buffered: "n \<le> length (rbuf c) \<Longrightarrow> discardN n c = Some (None, c\<lparr>rbuf := drop n (rbuf c)\<rparr>)"
proof (induction n arbitrary: c rule: less_induct)
  case (less n)
  show ?case
  proof (cases "n = 0")
    case True
    then show ?thesis by (subst discardN.simps) simp
  next
    case False
    let ?k = "min 8192 n" and ?c = "c\<lparr>rbuf := drop (min 8192 n) (rbuf c)\<rparr>"
    have r: "brRead ?k c = (take ?k (rbuf c), None, ?c)" using less.prems False by (auto simp: brRead_def)
    have l: "length (take ?k (rbuf c)) = ?k" using less.prems by simp
    show ?thesis
    proof (cases "n - ?k = 0")
      case True
      then have "?k = n" by simp
      then show ?thesis using False r l by (subst discardN.simps) simp
    next
      case more: False
      have "discardN n c = discardN (n - ?k) ?c" using False more r l by (subst discardN.simps) simp
      also have "\<dots> = Some (None, ?c\<lparr>rbuf := drop (n - ?k) (rbuf ?c)\<rparr>)" using less.prems False by (intro less.IH) auto
      finally show ?thesis by simp
    qed
  qed
qed

text \<open>C23: a frame is skipped twice after a timeout. When a message is given up with k bytes of a frame unread,
  these bytes have arrived, and the read then times out before the next header, the bytes are dropped
  and the call returns the timeout with no error kept, so that the application may try again; but the connection
  still counts the k bytes as unread. The next call therefore drops k bytes more, of whatever the peer
  sends next, before it takes what follows for a header.\<close>

theorem timeout_skips_twice:
  fixes c :: "'d rconn"
  assumes "can_read c" and "readErr c = None" and "readRemaining c = of_nat k" and "0 < k" and "k < 2 ^ 63"
    and "length (rbuf c) = k" and "rerr c = None" and "rin c = ([], Some e) # s" and "isTimeout e"
  shows "\<exists>c'. NextReader ops h c = Some (NextErr e, c') \<and> readErr c' = None \<and> avail c' = upto_err s \<and>
    readRemaining c' = of_nat k \<and>
    (\<forall>d q. upto_err s = d @ q \<and> length d = k \<longrightarrow>
       (\<exists>c2. advanceFrame h c' = readFrame h c2 \<and> avail c2 = q \<and> input_ok c2))"
proof -
  obtain rs where f: "fresh c = c\<lparr>readers := rs, reader := None, messageReader := None, readLength := 0\<rparr>"
    using fresh_fields by blast
  let ?c = "(fresh c)\<lparr>rbuf := []\<rparr>"
  define c' where "c' = (fresh c)\<lparr>rbuf := [], rin := s\<rparr>"
  have pos: "0 <s (of_nat k :: int64)" and u: "unat (of_nat k :: int64) = k"
    using int64_of_nat(2,3) [OF assms(5)] assms(4) by auto
  have e: "e \<noteq> IoEOF" using assms(9) by auto
  have rb: "2 \<le> rbufSize c" using assms(1) by (simp add: can_read_def maxControlFramePayloadSize_def)
  have "discardN k (fresh c) = Some (None, ?c)" using discard_buffered [of k "fresh c"] assms(6) by (simp add: f)
  moreover have "conn_read 2 ?c = (([], Some e), c')"
    using conn_read_timeout [of ?c "[]" 2 e s] rb e assms(7,8) by (simp add: c'_def f)
  ultimately have a: "advanceFrame h (fresh c) = Some ((noFrame, Some e), c')"
    using pos u assms(3) by (simp add: advanceFrame_def readFrame_def failWith_def f)
  have n: "NextReader ops h c = Some (NextErr e, c')"
    unfolding NextReader_fresh using a assms(2,9) by (subst nextLoop.simps) (simp add: f)
  have i: "input_ok c'" using assms(1,8) by (simp add: c'_def f can_read_def input_ok_def live_def)
  have av: "avail c' = upto_err s" using assms(7) by (simp add: c'_def f avail_def)
  have again: "\<exists>c2. advanceFrame h c' = readFrame h c2 \<and> avail c2 = q \<and> input_ok c2"
    if "upto_err s = d @ q" "length d = k" for d q
  proof -
    have "k \<le> length (avail c')" "drop k (avail c') = q" using av that by auto
    then obtain c2 where "discardN k c' = Some (None, c2)" "avail c2 = q" "input_ok c2"
      using discardN_avail [OF i, of k] by auto
    then show ?thesis using pos u assms(3) by (intro exI [of _ c2]) (simp add: advanceFrame_def c'_def f)
  qed
  show ?thesis using n av again assms(2,3) by (intro exI [of _ c']) (simp add: c'_def f)
qed

text \<open>Three bytes of a frame are given up; behind the timeout a whole binary message of three bytes, and then the
  header of an empty one, which is all that is read.\<close>

definition given_up :: "unit rconn" where
  "given_up = (reader_of False [])\<lparr>rbuf := [7, 8, 9], readRemaining := 3,
     rin := [([], Some timeoutError), ([0x82, 1, 5, 0x82, 0], None)]\<rparr>"

lemma timeout_skips_twice_witness:
  "\<exists>c' c2. NextReader no_inflate defaultHandlers given_up = Some (NextErr timeoutError, c') \<and> readErr c' = None \<and>
    avail c' = [0x82, 1, 5, 0x82, 0] \<and> advanceFrame defaultHandlers c' = readFrame defaultHandlers c2 \<and> avail c2 = [0x82, 0]"
proof -
  have b: "between_messages (reader_of False [])" by (rule reader_of_simps)
  have "can_read given_up" "readErr given_up = None"
    using b by (simp_all add: given_up_def between_messages_def can_read_def input_ok_def net_ok_def live_def
        maxControlFramePayloadSize_def)
  moreover have "readRemaining given_up = of_nat 3" "length (rbuf given_up) = 3" "rerr given_up = None"
    "rin given_up = ([], Some timeoutError) # [([0x82, 1, 5, 0x82, 0], None)]"
    by (simp_all add: given_up_def reader_of_def new_rconn_defs)
  moreover have "isTimeout timeoutError" by (simp add: timeoutError_def)
  ultimately obtain c' where n: "NextReader no_inflate defaultHandlers given_up = Some (NextErr timeoutError, c')"
      "readErr c' = None" "avail c' = upto_err [([0x82, 1, 5, 0x82, 0], None)]"
    and skip: "\<And>d q. upto_err [([0x82, 1, 5, 0x82, 0], None)] = d @ q \<Longrightarrow> length d = 3 \<Longrightarrow>
      \<exists>c2. advanceFrame defaultHandlers c' = readFrame defaultHandlers c2 \<and> avail c2 = q \<and> input_ok c2"
    using timeout_skips_twice [of given_up 3 timeoutError "[([0x82, 1, 5, 0x82, 0], None)]" no_inflate defaultHandlers]
    by auto
  obtain c2 where "advanceFrame defaultHandlers c' = readFrame defaultHandlers c2" "avail c2 = [0x82, 0]"
    using skip [of "[0x82, 1, 5]" "[0x82, 0]"] by auto
  with n show ?thesis by auto
qed

end
