(* ===== verification/Join.thy ===== *)
theory Join
  imports MessageReads
begin

text \<open>
  JoinMessages of src/join.go: one reader over all the messages, a terminator behind each. The
  reader of a message is read directly when there is no terminator, otherwise with
  \<open>io.MultiReader\<close> in front of a \<open>strings.Reader\<close> of the terminator.
\<close>

section \<open>Model\<close>

datatype join_part = MsgPart nat | TermPart bytes

datatype joined = One nat | Multi "join_part list"

definition partRead ::
  "'d inflate_ops \<Rightarrow> 'd rconn handlers \<Rightarrow> nat \<Rightarrow> join_part \<Rightarrow> 'd rconn \<Rightarrow>
    ((bytes \<times> gerror option) \<times> join_part \<times> 'd rconn) option" where
  "partRead ops h n p c =
     (case p of
        MsgPart i \<Rightarrow> do { (r, c1) \<leftarrow> readerRead ops h i n c; Some (r, MsgPart i, c1) }
      | TermPart s \<Rightarrow>
          Some (if s = [] then ([], Some IoEOF) else (take n s, None), TermPart (drop n s), c))"

fun joinMulti ::
  "'d inflate_ops \<Rightarrow> 'd rconn handlers \<Rightarrow> nat \<Rightarrow> join_part list \<Rightarrow> 'd rconn \<Rightarrow>
    ((bytes \<times> gerror option) \<times> join_part list \<times> 'd rconn) option" where
  "joinMulti ops h n [] c = Some (([], Some IoEOF), [], c)"
| "joinMulti ops h n (p # ps) c =
     do { ((d, e), p', c1) \<leftarrow> partRead ops h n p c;
          (if e = Some IoEOF then
             if d \<noteq> [] then Some ((d, if ps \<noteq> [] then None else Some IoEOF), ps, c1)
             else joinMulti ops h n ps c1
           else Some ((d, e), p' # ps, c1)) }"

definition joinedRead ::
  "'d inflate_ops \<Rightarrow> 'd rconn handlers \<Rightarrow> nat \<Rightarrow> joined \<Rightarrow> 'd rconn \<Rightarrow>
    ((bytes \<times> gerror option) \<times> joined \<times> 'd rconn) option" where
  "joinedRead ops h n r c =
     (case r of
        One i \<Rightarrow> do { (x, c1) \<leftarrow> readerRead ops h i n c; Some (x, One i, c1) }
      | Multi ps \<Rightarrow> do { (x, ps', c1) \<leftarrow> joinMulti ops h n ps c; Some (x, Multi ps', c1) })"

text \<open>\<open>joinReader.Read\<close>: the reader of the current message is kept in \<open>r\<close>. The result is \<open>None\<close> inside
  when \<open>NextReader\<close> panics.\<close>

definition joinRead ::
  "'d inflate_ops \<Rightarrow> 'd rconn handlers \<Rightarrow> bytes \<Rightarrow> nat \<Rightarrow> joined option \<times> 'd rconn \<Rightarrow>
    ((bytes \<times> gerror option) option \<times> joined option \<times> 'd rconn) option" where
  "joinRead ops h term n s =
     do { (x, c1) \<leftarrow>
            (case fst s of
               Some r \<Rightarrow> Some (Inr r, snd s)
             | None \<Rightarrow>
                 do { (nr, c') \<leftarrow> NextReader ops h (snd s);
                      Some (case nr of
                              NextPanic \<Rightarrow> Inl None
                            | NextErr e \<Rightarrow> Inl (Some ([], Some e))
                            | NextOk t i \<Rightarrow> Inr (if term \<noteq> [] then Multi [MsgPart i, TermPart term] else One i), c') });
          (case x of
             Inl res \<Rightarrow> Some (res, None, c1)
           | Inr r \<Rightarrow>
               do { ((d, e), r', c2) \<leftarrow> joinedRead ops h n r c1;
                    Some (if e = Some IoEOF then (Some (d, None), None, c2) else (Some (d, e), Some r', c2)) }) }"

text \<open>Reads one after the other, and what they give, as long as there is no error.\<close>

fun joinReads ::
  "'d inflate_ops \<Rightarrow> 'd rconn handlers \<Rightarrow> bytes \<Rightarrow> nat list \<Rightarrow> joined option \<times> 'd rconn \<Rightarrow>
    (bytes list \<times> joined option \<times> 'd rconn) option" where
  "joinReads ops h term [] s = Some ([], s)"
| "joinReads ops h term (n # ns) s =
     do { (r, s1) \<leftarrow> joinRead ops h term n s;
          (case r of
             Some (d, None) \<Rightarrow> do { (ds, s2) \<leftarrow> joinReads ops h term ns s1; Some (d # ds, s2) }
           | _ \<Rightarrow> None) }"

section \<open>What is still to be read\<close>

definition joined_text :: "bytes \<Rightarrow> frame list list \<Rightarrow> bytes" where
  "joined_text term fss = concat (map (\<lambda>fs. frame_data (data_frames fs) @ term) fss)"

lemma joined_text_simps [simp]:
  "joined_text term [] = []"
  "joined_text term (fs # fss) = frame_data (data_frames fs) @ term @ joined_text term fss"
  by (simp_all add: joined_text_def)

text \<open>\<open>k\<close> messages are not finished, and \<open>D\<close> is still to come: between two messages, inside one, or
  inside a terminator.\<close>

definition at_boundary :: "bytes \<Rightarrow> bytes \<Rightarrow> bytes \<Rightarrow> nat \<Rightarrow> 'd rconn \<Rightarrow> bool" where
  "at_boundary term R D k c \<longleftrightarrow>
     (\<exists>fss. between_messages c \<and> avail c = encode_frames (concat fss) @ R \<and> list_all (message_for c) fss \<and>
        D = joined_text term fss \<and> k = length fss)"

definition in_message :: "bytes \<Rightarrow> bytes \<Rightarrow> bytes \<Rightarrow> nat \<Rightarrow> nat \<Rightarrow> 'd rconn \<Rightarrow> bool" where
  "in_message term R D k m c \<longleftrightarrow>
     (\<exists>c0 ps fss D1. whole_left c0 m ps (encode_frames (concat fss) @ R) D1 c \<and> list_all (message_for c0) fss \<and>
        D = D1 @ term @ joined_text term fss \<and> k = Suc (length fss))"

definition join_left :: "bytes \<Rightarrow> bytes \<Rightarrow> bytes \<Rightarrow> nat \<Rightarrow> joined option \<times> 'd rconn \<Rightarrow> bool" where
  "join_left term R D k s \<longleftrightarrow>
     (fst s = None \<and> at_boundary term R D k (snd s)) \<or>
     (\<exists>m. fst s = Some (One m) \<and> term = [] \<and> in_message term R D k m (snd s)) \<or>
     (\<exists>m. fst s = Some (Multi [MsgPart m, TermPart term]) \<and> term \<noteq> [] \<and> in_message term R D k m (snd s)) \<or>
     (\<exists>s0 D' k'. fst s = Some (Multi [TermPart s0]) \<and> D = s0 @ D' \<and> k = Suc k' \<and> at_boundary term R D' k' (snd s))"

lemma in_message_read:
  assumes "in_message term R D k m c" and "0 < n"
  shows "(\<exists>d D' c'. readerRead ops defaultHandlers m n c = Some ((d, None), c') \<and> d \<noteq> [] \<and> D = d @ D' \<and>
      in_message term R D' k m c') \<or>
    (\<exists>D' k' c'. readerRead ops defaultHandlers m n c = Some (([], Some IoEOF), c') \<and> D = term @ D' \<and> k = Suc k' \<and>
      at_boundary term R D' k' c')"
proof -
  obtain c0 ps fss D1 where l: "whole_left c0 m ps (encode_frames (concat fss) @ R) D1 c"
    and f: "list_all (message_for c0) fss" and D: "D = D1 @ term @ joined_text term fss" "k = Suc (length fss)"
    using assms(1) by (auto simp: in_message_def)
  from wr.rd_left [OF l assms(2), of ops] show ?thesis
  proof (elim disjE exE conjE)
    fix d D' s'
    assume r: "readerRead ops defaultHandlers m n c = Some ((d, None), s')" "d \<noteq> []" "D1 = d @ D'"
      "whole_left c0 m ps (encode_frames (concat fss) @ R) D' s'"
    then have "in_message term R (D' @ term @ joined_text term fss) k m s'"
      unfolding in_message_def using f D(2) by blast
    then show ?thesis using r(1-3) D(1) by auto
  next
    fix e s'
    assume r: "readerRead ops defaultHandlers m n c = Some (([], Some e), s')"
      and o: "whole_over c0 ps (encode_frames (concat fss) @ R) D1 e s'"
    have "same_setup c0 s'" using o by (simp add: whole_over_def opened_by_def)
    then have "at_boundary term R (joined_text term fss) (length fss) s'"
      unfolding at_boundary_def using o f by (auto simp: whole_over_def message_for_setup)
    then show ?thesis using r o D by (auto simp: whole_over_def)
  qed
qed

text \<open>One read in a message, at its end, in the terminator, and at its end.\<close>

definition join_step :: "bytes \<Rightarrow> bytes \<Rightarrow> bytes \<Rightarrow> nat \<Rightarrow> ((bytes \<times> gerror option) option \<times> joined option \<times> 'd rconn) option \<Rightarrow> bool" where
  "join_step term R D k res \<longleftrightarrow>
     (\<exists>d D' k' s'. res = Some (Some (d, None), s') \<and> D = d @ D' \<and> join_left term R D' k' s' \<and>
        length D' + k' < length D + k)"

lemma join_stepI:
  "res = Some (Some (d, None), s') \<Longrightarrow> D = d @ D' \<Longrightarrow> join_left term R D' k' s' \<Longrightarrow>
    length D' + k' < length D + k \<Longrightarrow> join_step term R D k res"
  unfolding join_step_def by blast

lemma read_terminator:
  assumes "at_boundary term R D k c" and "0 < n" and "s0 \<noteq> []"
  shows "join_step term R (s0 @ D) (Suc k)
    (Some (Some (take n s0, None), Some (Multi [TermPart (drop n s0)]), c))"
  by (rule join_stepI [OF refl, where D' = "drop n s0 @ D" and k' = "Suc k"])
    (use assms in \<open>auto simp: join_left_def neq_Nil_conv\<close>)

lemma joinRead_open:
  assumes "join_left term R D k (Some r, c)" and n: "0 < n"
  shows "join_step term R D k (joinRead ops defaultHandlers term n (Some r, c))"
proof -
  consider (one) m where "r = One m" "term = []" "in_message term R D k m c"
    | (multi) m where "r = Multi [MsgPart m, TermPart term]" "term \<noteq> []" "in_message term R D k m c"
    | (tail) s0 D' k' where "r = Multi [TermPart s0]" "D = s0 @ D'" "k = Suc k'" "at_boundary term R D' k' c"
    using assms(1) unfolding join_left_def fst_conv snd_conv option.inject by blast
  then show ?thesis
  proof cases
    case one
    from in_message_read [OF one(3) n, of ops] show ?thesis
    proof (elim disjE exE conjE)
      fix d D' c'
      assume "readerRead ops defaultHandlers m n c = Some ((d, None), c')" "d \<noteq> []" "D = d @ D'" "in_message term R D' k m c'"
      then show ?thesis using one
        by (intro join_stepI [where D' = D' and k' = k and s' = "(Some (One m), c')" and d = d])
          (simp_all add: joinRead_def joinedRead_def join_left_def)
    next
      fix D' k' c'
      assume "readerRead ops defaultHandlers m n c = Some (([], Some IoEOF), c')" "D = term @ D'" "k = Suc k'"
        "at_boundary term R D' k' c'"
      then show ?thesis using one
        by (intro join_stepI [where D' = D' and k' = k' and s' = "(None, c')" and d = "[]"])
          (simp_all add: joinRead_def joinedRead_def join_left_def)
    qed
  next
    case multi
    from in_message_read [OF multi(3) n, of ops] show ?thesis
    proof (elim disjE exE conjE)
      fix d D' c'
      assume "readerRead ops defaultHandlers m n c = Some ((d, None), c')" "d \<noteq> []" "D = d @ D'" "in_message term R D' k m c'"
      then show ?thesis using multi
        by (intro join_stepI [where D' = D' and k' = k and s' = "(Some (Multi [MsgPart m, TermPart term]), c')" and d = d])
          (simp_all add: joinRead_def joinedRead_def join_left_def partRead_def)
    next
      fix D' k' c'
      assume r: "readerRead ops defaultHandlers m n c = Some (([], Some IoEOF), c')" and D: "D = term @ D'" "k = Suc k'"
        and b: "at_boundary term R D' k' c'"
      have "joinRead ops defaultHandlers term n (Some r, c) =
          Some (Some (take n term, None), Some (Multi [TermPart (drop n term)]), c')"
        using r multi n by (simp add: joinRead_def joinedRead_def partRead_def)
      then show ?thesis using read_terminator [OF b n multi(2)] D by simp
    qed
  next
    case tail
    show ?thesis
    proof (cases "s0 = []")
      case True
      then show ?thesis using tail
        by (intro join_stepI [where D' = D' and k' = k' and s' = "(None, c)" and d = "[]"])
          (simp_all add: joinRead_def joinedRead_def join_left_def partRead_def)
    next
      case False
      then have "joinRead ops defaultHandlers term n (Some r, c) =
          Some (Some (take n s0, None), Some (Multi [TermPart (drop n s0)]), c)"
        using tail by (simp add: joinRead_def joinedRead_def partRead_def)
      then show ?thesis using read_terminator [OF tail(4) n False] tail by simp
    qed
  qed
qed

lemma joinRead_next:
  fixes c :: "'d rconn"
  assumes "at_boundary term R D (Suc k) c"
  obtains r c1 where "\<And>n. joinRead ops defaultHandlers term n (None, c) = joinRead ops defaultHandlers term n (Some r, c1)"
    and "join_left term R D (Suc k) (Some r, c1)"
proof -
  obtain fs fss where b: "between_messages c" "avail c = encode_frames fs @ encode_frames (concat fss) @ R"
    and f: "message_for c fs" "list_all (message_for c) fss"
    and D: "D = frame_data (data_frames fs) @ term @ joined_text term fss" "k = length fss"
    using assms by (auto simp: at_boundary_def Suc_length_conv)
  obtain t c1 m qs ps where nr: "NextReader ops defaultHandlers c = Some (NextOk t m, c1)" and o: "opened_by c c1 qs"
    and w: "whole_left c1 m ps (encode_frames (concat fss) @ R) (frame_data (data_frames fs)) c1"
    by (rule NextReader_whole [OF b f(1), of ops])
  have "list_all (message_for c1) fss" using f(2) o message_for_setup [of c c1] by (simp add: opened_by_def)
  then have i: "in_message term R D (Suc k) m c1" unfolding in_message_def using w D by blast
  define r where "r = (if term \<noteq> [] then Multi [MsgPart m, TermPart term] else One m)"
  have "joinRead ops defaultHandlers term n (None, c) = joinRead ops defaultHandlers term n (Some r, c1)" for n
    by (simp add: joinRead_def nr r_def)
  moreover have "join_left term R D (Suc k) (Some r, c1)" using i by (cases "term = []") (simp_all add: join_left_def r_def)
  ultimately show thesis using that by blast
qed

lemma joinRead_step:
  assumes "join_left term R D k s" and "D \<noteq> [] \<or> fst s \<noteq> None \<or> k \<noteq> 0" and "0 < n"
  shows "join_step term R D k (joinRead ops defaultHandlers term n s)"
proof (cases s)
  case (Pair j c)
  show ?thesis
  proof (cases j)
    case (Some r)
    then show ?thesis using joinRead_open assms(1,3) Pair by blast
  next
    case None
    then have b: "at_boundary term R D k c" using assms(1) Pair by (simp add: join_left_def)
    have "k \<noteq> 0" using b assms(2) None Pair by (auto simp: at_boundary_def)
    then obtain k' where k: "k = Suc k'" using not0_implies_Suc by blast
    obtain r c1 where "\<And>n. joinRead ops defaultHandlers term n (None, c) = joinRead ops defaultHandlers term n (Some r, c1)"
      and "join_left term R D (Suc k') (Some r, c1)"
      using joinRead_next [OF b [unfolded k], of ops] by blast
    then show ?thesis using joinRead_open [OF _ assms(3)] None Pair k by simp
  qed
qed

lemma joinReads_ok:
  assumes "join_left term R D k s" and "list_all (\<lambda>n. 0 < n) ns" and "length ns = length D + k"
  shows "\<exists>i ds c'. i \<le> length ns \<and> joinReads ops defaultHandlers term (take i ns) s = Some (ds, None, c') \<and>
    concat ds = D \<and> between_messages c' \<and> avail c' = R"
  using assms
proof (induction "length D + k" arbitrary: D k s ns rule: less_induct)
  case less
  show ?case
  proof (cases "D \<noteq> [] \<or> fst s \<noteq> None \<or> k \<noteq> 0")
    case False
    then have "joinReads ops defaultHandlers term (take 0 ns) s = Some ([], None, snd s)" by (cases s) auto
    moreover have "between_messages (snd s) \<and> avail (snd s) = R" using False less.prems(1)
      by (auto simp: join_left_def at_boundary_def)
    ultimately show ?thesis using False by (intro exI [of _ 0] exI [of _ "[]"] exI [of _ "snd s"]) simp
  next
    case True
    have "0 < length D + k" using True less.prems(1) by (auto simp: join_left_def at_boundary_def in_message_def)
    then obtain n ns' where ns: "ns = n # ns'" using less.prems(3) by (cases ns) auto
    obtain d D' k' s' where r: "joinRead ops defaultHandlers term n s = Some (Some (d, None), s')" "D = d @ D'"
      and l: "join_left term R D' k' s'" "length D' + k' < length D + k"
      using joinRead_step [OF less.prems(1) True, of n ops] less.prems(2) ns unfolding join_step_def by auto
    define ms where "ms = take (length D' + k') ns'"
    have "list_all (\<lambda>n. 0 < n) ms" using less.prems(2) ns by (auto simp: ms_def list_all_iff dest: in_set_takeD)
    moreover have lm: "length ms = length D' + k'" using l(2) less.prems(3) ns by (simp add: ms_def)
    ultimately obtain i ds c' where i: "i \<le> length ms" "joinReads ops defaultHandlers term (take i ms) s' = Some (ds, None, c')"
      "concat ds = D'" "between_messages c'" "avail c' = R" using less.hyps [OF l(2) l(1)] by blast
    have "take i ms = take i ns'" using i(1) lm by (simp add: ms_def)
    then have "joinReads ops defaultHandlers term (take (Suc i) ns) s = Some (d # ds, None, c')"
      using r(1) i(2) ns by simp
    moreover have "Suc i \<le> length ns" using i(1) lm l(2) less.prems(3) by simp
    ultimately show ?thesis using i r(2) by (intro exI [of _ "Suc i"] exI [of _ "d # ds"] exI [of _ c']) simp
  qed
qed

section \<open>All messages, joined\<close>

text \<open>C21: The reader of JoinMessages gives all the messages, in order, each followed by the terminator. For a
  connection between messages whose input starts with the frames of any number of messages it
  accepts: reading with buffers of any positive sizes, as many as there are bytes and messages, none
  of the reads fails or reports an end, the pieces put together are the joined text at some point,
  and the connection is then between messages, with the rest of the input left.\<close>

theorem joined_messages:
  fixes c :: "'d rconn"
  assumes "between_messages c" and "avail c = encode_frames (concat fss) @ R" and "list_all (message_for c) fss"
    and "list_all (\<lambda>n. 0 < n) ns" and "length ns = length (joined_text term fss) + length fss"
  shows "\<exists>i ds c'. i \<le> length ns \<and> joinReads ops defaultHandlers term (take i ns) (None, c) = Some (ds, None, c') \<and>
    concat ds = concat (map (\<lambda>fs. frame_data (data_frames fs) @ term) fss) \<and> between_messages c' \<and> avail c' = R"
proof -
  have "join_left term R (joined_text term fss) (length fss) (None, c)"
    unfolding join_left_def at_boundary_def using assms(1-3) by auto
  from joinReads_ok [OF this assms(4,5)] show ?thesis by (simp add: joined_text_def)
qed

lemma joined_messages_witness:
  "\<exists>i ds c'. i \<le> length (replicate 10 (1 :: nat)) \<and>
    joinReads no_inflate defaultHandlers [10] (take i (replicate 10 1))
      (None, reader_of False (encode_frames (concat [sample_frames, sample_frames]) @ [7])) = Some (ds, None, c') \<and>
    concat ds = concat (map (\<lambda>fs. frame_data (data_frames fs) @ [10]) [sample_frames, sample_frames]) \<and>
    between_messages c' \<and> avail c' = [7]"
proof (rule joined_messages)
  have "message_for (reader_of False (encode_frames (concat [sample_frames, sample_frames]) @ [7])) sample_frames"
    using sample_frames_ok utf8_text_ascii [of "bytes_of_string ''hey''"]
    by (auto simp: message_for_def bytes_of_string_def)
  then show "list_all (message_for (reader_of False (encode_frames (concat [sample_frames, sample_frames]) @ [7])))
    [sample_frames, sample_frames]" by simp
qed (simp_all add: sample_frames_ok bytes_of_string_def list_all_iff)

end
