(* ===== verification/Json.thy ===== *)
theory Json
  imports WriteMessages MessageReads
begin

text \<open>
  WriteJSON and ReadJSON of src/json.go. Package encoding/json is a parameter: an encoder gives the
  text of a value or an error, and writes the text with one call; a decoder is a machine that asks
  for input until it has a value or an error.
\<close>

section \<open>Model\<close>

definition WriteJSON :: "'z flate_ops \<Rightarrow> ('v \<Rightarrow> gerror + bytes) \<Rightarrow> 'v \<Rightarrow> 'z wconn \<Rightarrow> (gerror option \<times> 'z wconn) option" where
  "WriteJSON ops marshal v c =
     do { (w, c1) \<leftarrow> NextWriter ops TextMessage c;
          (case w of
             Inl err \<Rightarrow> Some (Some err, c1)
           | Inr i \<Rightarrow>
               do { (err1, c2) \<leftarrow> (case marshal v of
                        Inl err \<Rightarrow> Some (Some err, c1)
                      | Inr text \<Rightarrow> do { ((n, err), c') \<leftarrow> pipeWrite ops i text c1; Some (err, c') });
                    (err2, c3) \<leftarrow> pipeClose ops i c2;
                    Some (if err1 \<noteq> None then err1 else err2, c3) }) }"

datatype ('v, 'j) decodeStep = Decoded "gerror + 'v" | Need nat "bytes \<times> gerror option \<Rightarrow> 'j"

record ('v, 'j) json_decoder =
  newDecoder :: 'j
  decodeStep :: "'j \<Rightarrow> ('v, 'j) decodeStep"

text \<open>\<open>Decode\<close>; it need not return when the decoder always asks for more.\<close>

partial_function (option) decodeFrom ::
  "('v, 'j) json_decoder \<Rightarrow> 's io_reader \<Rightarrow> 'j \<Rightarrow> 's \<Rightarrow> ((gerror + 'v) \<times> 's) option" where
  "decodeFrom js rd z s =
     (case decodeStep js z of
        Decoded r \<Rightarrow> Some (r, s)
      | Need n g \<Rightarrow> Option.bind (rd n s) (\<lambda>(r, s1). decodeFrom js rd (g r) s1))"

definition IoErrUnexpectedEOF :: gerror where
  "IoErrUnexpectedEOF = ErrNew ''unexpected EOF''"

definition ReadJSON ::
  "'d inflate_ops \<Rightarrow> 'd rconn handlers \<Rightarrow> ('v, 'j) json_decoder \<Rightarrow> 'd rconn \<Rightarrow> ((gerror + 'v) option \<times> 'd rconn) option" where
  "ReadJSON ops h js c =
     do { (r, c1) \<leftarrow> NextReader ops h c;
          (case r of
             NextPanic \<Rightarrow> Some (None, c1)
           | NextErr e \<Rightarrow> Some (Some (Inl e), c1)
           | NextOk t i \<Rightarrow>
               do { (v, c2) \<leftarrow> decodeFrom js (readerRead ops h i) (newDecoder js) c1;
                    Some (Some (if v = Inl IoEOF then Inl IoErrUnexpectedEOF else v), c2) }) }"

section \<open>What is sent\<close>

text \<open>WriteJSON on an idle connection without compression. A value with a JSON text is sent as the
  frames of one text message with that text, and no error is returned; for a value that has none
  the error is returned, but the message has been begun, and closing it sends an empty text
  message, which is not JSON.\<close>

lemma write_json:
  assumes "idle c" and "factory_ok c" and "\<not> compressing TextMessage c"
    and "\<And>text. marshal v = Inr text \<Longrightarrow> utf8_text text"
  shows "\<exists>c' fs. WriteJSON ops marshal v c = Some (case marshal v of Inl err \<Rightarrow> Some err | Inr text \<Rightarrow> None, c') \<and>
    message_sent TextMessage False (case marshal v of Inl err \<Rightarrow> [] | Inr text \<Rightarrow> text) fs c c'"
proof -
  define ps where "ps = (case marshal v of Inl err \<Rightarrow> [] | Inr text \<Rightarrow> [text])"
  have u: "utf8_text (concat ps)" using assms(4) by (simp add: ps_def split: sum.split)
  have d: "isData TextMessage" by (simp add: isData_def)
  obtain i c1 c2 c' fs data where r: "NextWriter ops TextMessage c = Some (Inr i, c1)"
    "pipe_writes ops i ps c1 = Some (None, c2)" "pipeClose ops i c2 = Some (None, c')"
    "message_sent TextMessage (compressing TextMessage c) data fs c c'"
    "carried ops (start_state ops c) (compressing TextMessage c) ps data"
    by (rule stream_ok [OF assms(1) d assms(2), of ps ops]) (use u assms(3) in auto)
  have "message_sent TextMessage False (case marshal v of Inl err \<Rightarrow> [] | Inr text \<Rightarrow> text) fs c c'"
    using r(4,5) assms(3) by (simp add: carried_def ps_def split: sum.splits)
  moreover have "WriteJSON ops marshal v c = Some (case marshal v of Inl err \<Rightarrow> Some err | Inr text \<Rightarrow> None, c')"
    using r(1-3) by (auto simp: WriteJSON_def ps_def split: sum.splits Option.bind_splits if_splits)
  ultimately show ?thesis by blast
qed

text \<open>At the other end: a message in which the decoder meets the end at once is an unexpected end.\<close>

lemma ReadJSON_empty:
  assumes "NextReader ops h c = Some (NextOk t i, c1)" and "decodeStep js (newDecoder js) = Need n g"
    and "readerRead ops h i n c1 = Some (([], Some IoEOF), c2)" and "decodeStep js (g ([], Some IoEOF)) = Decoded (Inl IoEOF)"
  shows "ReadJSON ops h js c = Some (Some (Inl IoErrUnexpectedEOF), c2)"
proof -
  have "decodeFrom js (readerRead ops h i) (newDecoder js) c1 = Some (Inl IoEOF, c2)"
    by (subst decodeFrom.simps, simp add: assms(2,3), subst decodeFrom.simps, simp add: assms(4))
  then show ?thesis by (simp add: ReadJSON_def assms(1))
qed

section \<open>What is read back\<close>

text \<open>The decoder takes a value from a text: fed with the text in any pieces no longer than it asks for, it
  returns the value at the latest when it has all of it.\<close>

inductive takes_value :: "('v, 'j) json_decoder \<Rightarrow> 'v \<Rightarrow> 'j \<Rightarrow> bytes \<Rightarrow> bool" for js v where
  taken: "decodeStep js z = Decoded (Inr v) \<Longrightarrow> takes_value js v z D"
| asked: "decodeStep js z = Need n g \<Longrightarrow> 0 < n \<Longrightarrow> D \<noteq> [] \<Longrightarrow>
    (\<And>d D'. d \<noteq> [] \<Longrightarrow> length d \<le> n \<Longrightarrow> D = d @ D' \<Longrightarrow> takes_value js v (g (d, None)) D') \<Longrightarrow> takes_value js v z D"

context byte_reader
begin

lemma decode_left:
  assumes "takes_value js v z D" and "left D s" and over: "\<And>D e s. over D e s \<Longrightarrow> D = []"
  shows "\<exists>D' s'. decodeFrom js rd z s = Some (Inr v, s') \<and> left D' s'"
  using assms(1,2)
proof (induction arbitrary: s)
  case (taken z D)
  have "decodeFrom js rd z s = Some (Inr v, s)" by (subst decodeFrom.simps) (simp add: taken.hyps)
  with taken.prems show ?case by blast
next
  case (asked z n g D)
  obtain d D' s1 where r: "rd n s = Some ((d, None), s1)" "d \<noteq> []" "length d \<le> n" "D = d @ D'" "left D' s1"
    using rd_left [OF asked.prems asked.hyps(2)] asked.hyps(3) over by blast
  from asked.IH [OF r(2-5)] obtain D2 s2 where d: "decodeFrom js rd (g (d, None)) s1 = Some (Inr v, s2)" "left D2 s2"
    by blast
  have "decodeFrom js rd z s = Some (Inr v, s2)" by (subst decodeFrom.simps) (simp add: asked.hyps(1) r(1) d(1))
  with d(2) show ?case by blast
qed

end

text \<open>C11: A value written with WriteJSON is the value ReadJSON reads at the peer. When WriteJSON on an
  idle connection without compression has succeeded for a value whose text is UTF-8, and the peer's
  input is what it put on the wire, whatever follows and however the network and the decoder cut it,
  then ReadJSON there returns the value, if the decoder takes the value from the encoder's text when
  it is fed that text in pieces; the peer's read side has no error.\<close>

theorem json_round_trip:
  fixes r :: "'d rconn"
  assumes "idle w" and "factory_ok w" and "\<not> compressing TextMessage w"
    and "marshal v = Inr text" and "utf8_text text" and "takes_value js v (newDecoder js) text"
    and "between_messages r" and "isServer r = maskFrames w" and "limit_ok r (length text)"
    and "WriteJSON ops marshal v w = Some (None, w')" and "wire w @ avail r = wire w' @ R"
  shows "\<exists>r'. ReadJSON iops defaultHandlers js r = Some (Some (Inr v), r') \<and> readErr r' = None"
proof -
  have u: "\<And>x. marshal v = Inr x \<Longrightarrow> utf8_text x" using assms(4,5) by simp
  obtain w2 fs where wr: "WriteJSON ops marshal v w = Some (None, w2)" and ms: "message_sent TextMessage False text fs w w2"
    using write_json [where marshal = marshal and v = v and ops = ops, OF assms(1-3) u] assms(4) by auto
  have m: "message_frames TextMessage False text fs" and k: "list_all (\<lambda>f. is_masked f = isServer r) fs"
    and a: "avail r = encode_frames fs @ R"
    using ms wr assms(8,10,11) by (simp_all add: message_sent_def)
  have t: "isData TextMessage" by (simp add: isData_def)
  note mi = message_incoming [OF m t]
  have fd: "frame_data (data_frames fs) = text" using mi(2) m by (auto simp: message_frames_def)
  have "length text < 2 ^ 63" using assms(9) by (simp add: limit_ok_def)
  then have "list_all (frame_for r) fs" by (intro message_frame_for [OF m t k]) simp_all
  then have "message_for r fs" using mi(1) assms(5,9) fd by (auto simp: message_for_def)
  from NextReader_whole [OF assms(7) a this, of iops] obtain t' c1 i qs ps where
    nr: "NextReader iops defaultHandlers r = Some (NextOk t' i, c1)" and w: "whole_left c1 i ps R text c1"
    unfolding fd by metis
  obtain D' r' where d: "decodeFrom js (readerRead iops defaultHandlers i) (newDecoder js) c1 = Some (Inr v, r')"
    and l: "whole_left c1 i ps R D' r'"
    using wr.decode_left [OF assms(6) w, of iops] by (auto simp: whole_over_def)
  have "readErr r' = None" using l by (auto simp: whole_left_def plain_left_def text_left_def text_in_def dest: message_left_fields(2))
  then show ?thesis using nr d by (simp add: ReadJSON_def)
qed

text \<open>A type of which only one value has a text, and a decoder that reads to the newline.\<close>

definition marshal_bool :: "bool \<Rightarrow> gerror + bytes" where
  "marshal_bool b = (if b then Inr (bytes_of_string ''true'' @ [10]) else Inl (ErrNew ''json: unsupported value''))"


definition bool_decoder :: "(bool, bytes \<times> gerror option) json_decoder" where
  "bool_decoder =
     \<lparr>newDecoder = ([], None),
      decodeStep = (\<lambda>(z, err).
        if 10 \<in> set z then Decoded (if z = bytes_of_string ''true'' @ [10] then Inr True else Inl (ErrNew ''json: syntax''))
        else case err of Some e \<Rightarrow> Decoded (Inl e) | None \<Rightarrow> Need 512 (\<lambda>(d, e). (z @ d, e)))\<rparr>"

lemma bool_decoder_takes:
  assumes "p @ D = bytes_of_string ''true'' @ [10]"
  shows "takes_value bool_decoder True (p, None) D"
  using assms
proof (induction "length D" arbitrary: p D rule: less_induct)
  case less
  have p: "p = bytes_of_string ''true'' @ [10]" if "10 \<in> set p"
    using that less.prems by (auto simp: bytes_of_string_def append_eq_append_conv2 append_eq_Cons_conv Cons_eq_append_conv)
  show ?case
  proof (cases "10 \<in> set p")
    case True
    then show ?thesis using p by (intro takes_value.taken) (simp add: bool_decoder_def)
  next
    case False
    show ?thesis
    proof (rule takes_value.asked)
      show "decodeStep bool_decoder (p, None) = Need 512 (\<lambda>(d, e). (p @ d, e))" using False by (simp add: bool_decoder_def)
      show "D \<noteq> []" using less.prems False by auto
    next
      fix d D' :: bytes
      assume "d \<noteq> []" "D = d @ D'"
      then show "takes_value bool_decoder True (case (d, None) of (d, e) \<Rightarrow> (p @ d, e)) D'"
        using less.hyps [of D' "p @ d"] less.prems by simp
    qed simp
  qed
qed

definition json_sent :: "bytes wconn" where
  "json_sent = snd (the (WriteJSON stored_ops marshal_bool True client0))"

lemma utf8_true: "utf8_text (bytes_of_string ''true'' @ [10])"
  by (rule utf8_text_ascii) (simp add: bytes_of_string_def)

lemma json_sent_ok:
  "WriteJSON stored_ops marshal_bool True client0 = Some (None, json_sent)"
proof -
  have u: "\<And>x. marshal_bool True = Inr x \<Longrightarrow> utf8_text x" using utf8_true by (auto simp: marshal_bool_def)
  have "\<not> compressing TextMessage client0" by (simp add: compressing_def)
  from write_json [where marshal = marshal_bool and v = True and ops = stored_ops, OF sample_idle(1,2) this u]
  obtain c' fs where "WriteJSON stored_ops marshal_bool True client0 = Some (None, c')"
    "wire c' = wire client0 @ encode_frames fs"
    by (auto simp: marshal_bool_def message_sent_def)
  then show "WriteJSON stored_ops marshal_bool True client0 = Some (None, json_sent)" by (auto simp: json_sent_def)
qed

lemma json_round_trip_witness:
  "\<exists>r'. ReadJSON no_inflate defaultHandlers bool_decoder (reader_of True (wire json_sent @ [1, 2])) =
    Some (Some (Inr True), r') \<and> readErr r' = None"
proof (rule json_round_trip [OF sample_idle(1,2) _ _ utf8_true _ _ _ _ json_sent_ok])
  show "takes_value bool_decoder True (newDecoder bool_decoder) (bytes_of_string ''true'' @ [10])"
    using bool_decoder_takes [of "[]"] by (simp add: bool_decoder_def)
  show "isServer (reader_of True (wire json_sent @ [1, 2])) = maskFrames client0"
    by (simp add: maskFrames_def) (simp add: client0_def new_conn_defs)
  show "wire client0 @ avail (reader_of True (wire json_sent @ [1, 2])) = wire json_sent @ [1, 2]"
    by simp (simp add: client0_def new_conn_defs)
qed (simp_all add: marshal_bool_def compressing_def bytes_of_string_def)

end
