(* ===== verification/Conversation.thy ===== *)
theory Conversation
  imports Compressed WriteMessages
begin

text \<open>
  A conversation of compressed messages between connections that keep their contexts, or drop them, and
  a compressor and a decompressor of stored blocks as an instance.
\<close>

section \<open>A conversation\<close>

text \<open>The streams of the compressor for one message after the other, with its context taken over or not.\<close>

fun streams :: "'z flate_ops \<Rightarrow> bool \<Rightarrow> 'z \<Rightarrow> bytes list \<Rightarrow> bytes list" where
  "streams ops tk z [] = []"
| "streams ops tk z (msg # ms) =
     flate_stream ops [msg] z # streams ops tk (if tk then flate_end ops [msg] z else z) ms"

text \<open>RFC 7692 with context takeover: the dictionary of a message is the last 32 KiB of all that was
  said before. The decompressor decodes what the compressor makes of these messages, each with the
  dictionary of the messages before it, or none.\<close>

definition last_bytes :: "nat \<Rightarrow> bytes \<Rightarrow> bytes" where
  "last_bytes n s = drop (length s - n) s"

definition dictionary :: "bool \<Rightarrow> bytes \<Rightarrow> bytes" where
  "dictionary tk said = (if tk then last_bytes (2 ^ 15) said else [])"

fun decodes :: "'z flate_ops \<Rightarrow> 'd inflate_ops \<Rightarrow> bool \<Rightarrow> 'z \<Rightarrow> bytes \<Rightarrow> bytes list \<Rightarrow> bool" where
  "decodes ops iops tk z said [] \<longleftrightarrow> True"
| "decodes ops iops tk z said (msg # ms) \<longleftrightarrow>
     inflating iops (inf_reset iops (dictionary tk said)) (flate_stream ops [msg] z @ [1, 0, 0, 0xff, 0xff]) msg \<and>
     decodes ops iops tk (if tk then flate_end ops [msg] z else z) (said @ msg) ms"

text \<open>The window of the connection is that dictionary.\<close>

lemma last_bytes_append: "last_bytes n (last_bytes n s @ q) = last_bytes n (s @ q)"
proof -
  define k where "k = length s - n"
  have "drop k s @ q = drop k (s @ q)" by (simp add: k_def)
  moreover have "length (drop k (s @ q)) - n + k = length (s @ q) - n" by (simp add: k_def)
  ultimately show ?thesis unfolding last_bytes_def k_def [symmetric] by (simp add: drop_drop del: drop_append)
qed

lemma window_last: "windowed (last_bytes (2 ^ 15) s) msg = last_bytes (2 ^ 15) (s @ msg)"
proof (cases "msg = []")
  case False
  have "appendWindow w d = last_bytes (2 ^ 15) (w @ d)" for w d
    by (simp add: appendWindow_drop last_bytes_def maxWindowBits_def)
  then show ?thesis using False last_bytes_append by (simp add: windowed_def)
qed simp

lemma dictionary_next: "(if tk then windowed (dictionary tk said) msg else dictionary tk said) = dictionary tk (said @ msg)"
  using window_last [of said msg] by (simp add: dictionary_def)

text \<open>Messages written and messages read, one call each, as long as there is no error.\<close>

fun writeAll :: "'z flate_ops \<Rightarrow> (int \<times> bytes) list \<Rightarrow> 'z wconn \<Rightarrow> 'z wconn option" where
  "writeAll ops [] w = Some w"
| "writeAll ops ((t, msg) # ms) w =
     do { (err, w1) \<leftarrow> WriteMessage ops t msg w; if err = None then writeAll ops ms w1 else None }"

fun readAllOf :: "'d inflate_ops \<Rightarrow> (nat \<Rightarrow> nat) \<Rightarrow> nat \<Rightarrow> 'd rconn \<Rightarrow> ((int \<times> bytes) list \<times> 'd rconn) option" where
  "readAllOf iops grow 0 r = Some ([], r)"
| "readAllOf iops grow (Suc k) r =
     do { (x, r1) \<leftarrow> ReadMessage iops defaultHandlers grow r;
          (case x of
             ReadDone t p None \<Rightarrow> do { (xs, r2) \<leftarrow> readAllOf iops grow k r1; Some ((t, p) # xs, r2) }
           | _ \<Rightarrow> None) }"

text \<open>A writer that compresses, and a reader at the other end that fits it.\<close>

definition fits :: "'z wconn \<Rightarrow> 'd rconn \<Rightarrow> bool" where
  "fits w r \<longleftrightarrow>
     newCompressionWriter w \<noteq> NilFn \<and> enableWriteCompression w \<and> isServer r = maskFrames w \<and>
     newDecompressionReader r \<noteq> NilFn \<and>
     (newCompressionWriter w = TakeoverFn \<longleftrightarrow> newDecompressionReader r = TakeoverFn)"

lemma tail_split: "data @ deflateMessageTailRead = (data @ [0, 0, 0xff, 0xff]) @ [1, 0, 0, 0xff, 0xff]"
  by (simp add: deflateMessageTailRead_def)

lemma compressed_read:
  fixes r :: "'d rconn"
  assumes ms: "message_sent t True data fs w w1" and t: "isData t" and b: "between_messages r" and f: "fits w r"
    and a: "avail r = encode_frames fs @ R" and l: "limit_ok r (length data)"
    and inf: "inflating iops (inf_reset iops (start_dict r)) (data @ deflateMessageTailRead) msg"
    and u: "t = TextMessage \<longrightarrow> utf8_text msg" and g: "grows_buffer grow"
  obtains r1 where "ReadMessage iops defaultHandlers grow r = Some (ReadDone t msg None, r1)" and "between_messages r1"
    and "avail r1 = R" and "wire r1 = wire r" and "same_setup r r1" and "start_dict r1 =
      (if newDecompressionReader r = TakeoverFn then windowed (start_dict r) msg else start_dict r)"
proof -
  have m: "message_frames t True data fs" and k: "list_all (\<lambda>f. is_masked f = isServer r) fs"
    using ms f by (simp_all add: message_sent_def fits_def)
  note mi = message_incoming [OF m t]
  have d: "frame_data (data_frames fs) = data" using mi(2) m by (auto simp: message_frames_def)
  have "length data < 2 ^ 63" using l by (simp add: limit_ok_def)
  then have ff: "list_all (frame_for r) fs"
    by (intro message_frame_for [OF m t k]) (use f in \<open>simp_all add: fits_def\<close>)
  obtain c1 m qs ps where oa: "opened_at iops r t True R data c1 m qs ps" and p: "pings fs = qs @ ps"
    using NextReader_opens [OF b a mi(1) ff, of iops] l d by (auto simp: opens_reader_def)
  have "\<not> (validating t r \<and> \<not> utf8_text msg)" using u by (simp add: validating_def)
  then obtain r1 where r1: "ReadMessage iops defaultHandlers grow r = Some (ReadDone t msg None, r1)"
    "between_messages r1" "avail r1 = R" and o: "opened_by r r1 (pings fs)" and w: "rwindow r1 = next_window msg r"
    using ReadMessage_inflated_from [OF oa inf g] p by auto
  have s: "same_setup r r1" and "wire r1 = wire r" using o mi(3) by (auto simp: opened_by_def answers_def)
  moreover have "start_dict r1 = (if newDecompressionReader r = TakeoverFn then windowed (start_dict r) msg else start_dict r)"
    using s w by (simp add: start_dict_def same_setup_def next_window_def)
  ultimately show thesis using that r1 by blast
qed

lemma conversation:
  fixes w :: "'z wconn"
  assumes "idle w" and "factory_ok w" and "newCompressionWriter w \<noteq> NilFn" and "enableWriteCompression w"
    and sy: "sync_flush ops" and g: "grows_buffer grow"
    and "list_all (\<lambda>(t, msg). isData t \<and> (t = TextMessage \<longrightarrow> utf8_text msg)) ms"
  shows "\<exists>w' X. writeAll ops ms w = Some w' \<and> wire w' = wire w @ X \<and>
    (\<forall>(r :: 'd rconn) R said. between_messages r \<and> fits w r \<and> avail r = X @ R \<and>
       start_dict r = dictionary (newCompressionWriter w = TakeoverFn) said \<and>
       decodes ops iops (newCompressionWriter w = TakeoverFn) (start_state ops w) said (map snd ms) \<and>
       list_all (\<lambda>s. limit_ok r (length s)) (streams ops (newCompressionWriter w = TakeoverFn) (start_state ops w) (map snd ms)) \<longrightarrow>
       (\<exists>r'. readAllOf iops grow (length ms) r = Some (ms, r') \<and> between_messages r' \<and> avail r' = R \<and> wire r' = wire r))"
  using assms(1-4,7)
proof (induction ms arbitrary: w)
  case Nil
  show ?case by (rule exI [of _ w], rule exI [of _ "[]"]) auto
next
  case (Cons x ms w)
  obtain t msg where x: "x = (t, msg)" by (cases x)
  have t: "isData t" "t = TextMessage \<longrightarrow> utf8_text msg" using Cons.prems(5) x by simp_all
  have z: "compressing t w" using Cons.prems(3,4) t(1) by (simp add: compressing_def)
  define tk where "tk = (newCompressionWriter w = TakeoverFn)"
  obtain w1 fs data where wr: "WriteMessage ops t msg w = Some (None, w1)"
    and ms: "message_sent t (compressing t w) data fs w w1"
    and ca: "carried ops (start_state ops w) (compressing t w) [msg] data" and fo: "factory_ok w1"
    and st: "start_state ops w1 = (if compressing t w \<and> newCompressionWriter w = TakeoverFn
      then flate_end ops [msg] (start_state ops w) else start_state ops w)"
    by (rule WriteMessage_ok [OF Cons.prems(1) t(1) Cons.prems(2), of msg ops]) (use t(2) sy in \<open>auto simp: validating_def\<close>)
  have ms1: "message_sent t True data fs w w1" using ms z by simp
  have da: "data @ [0, 0, 0xff, 0xff] = flate_stream ops [msg] (start_state ops w)" using ca z by (simp add: carried_def)
  have w1: "idle w1" "same_config w w1" "wire w1 = wire w @ encode_frames fs" using ms by (simp_all add: message_sent_def)
  have cf: "newCompressionWriter w1 = newCompressionWriter w" "enableWriteCompression w1 = enableWriteCompression w"
    "maskFrames w1 = maskFrames w" using w1(2) by (simp_all add: same_config_def maskFrames_def)
  have st1: "start_state ops w1 = (if tk then flate_end ops [msg] (start_state ops w) else start_state ops w)"
    using st z by (simp add: tk_def)
  have c1: "newCompressionWriter w1 \<noteq> NilFn" "enableWriteCompression w1"
    "list_all (\<lambda>(t, msg). isData t \<and> (t = TextMessage \<longrightarrow> utf8_text msg)) ms" using cf Cons.prems(3-5) by simp_all
  obtain w' X where IH: "writeAll ops ms w1 = Some w'" "wire w' = wire w1 @ X"
    and rd: "\<forall>(r :: 'd rconn) R said. between_messages r \<and> fits w1 r \<and> avail r = X @ R \<and>
       start_dict r = dictionary tk said \<and> decodes ops iops tk (start_state ops w1) said (map snd ms) \<and>
       list_all (\<lambda>s. limit_ok r (length s)) (streams ops tk (start_state ops w1) (map snd ms)) \<longrightarrow>
       (\<exists>r'. readAllOf iops grow (length ms) r = Some (ms, r') \<and> between_messages r' \<and> avail r' = R \<and> wire r' = wire r)"
    using Cons.IH [OF w1(1) fo c1, unfolded cf(1), folded tk_def] by blast
  have "\<exists>r'. readAllOf iops grow (length (x # ms)) r = Some (x # ms, r') \<and> between_messages r' \<and> avail r' = R \<and> wire r' = wire r"
    if r: "between_messages r" "fits w r" "avail r = (encode_frames fs @ X) @ R"
      and sd: "start_dict r = dictionary tk said"
      and de: "decodes ops iops tk (start_state ops w) said (map snd (x # ms))"
      and li: "list_all (\<lambda>s. limit_ok r (length s)) (streams ops tk (start_state ops w) (map snd (x # ms)))"
    for r :: "'d rconn" and R said
  proof -
    have l: "limit_ok r (length data)"
    proof (rule limit_le)
      show "limit_ok r (length (flate_stream ops [msg] (start_state ops w)))" using li x by simp
    qed (simp add: da [symmetric])
    have inf: "inflating iops (inf_reset iops (start_dict r)) (data @ deflateMessageTailRead) msg"
      using de x by (simp add: tail_split da sd del: append_assoc)
    have a: "avail r = encode_frames fs @ X @ R" using r(3) by simp
    obtain r1 where r1: "ReadMessage iops defaultHandlers grow r = Some (ReadDone t msg None, r1)" "between_messages r1"
      "avail r1 = X @ R" "wire r1 = wire r" "same_setup r r1"
      and d1: "start_dict r1 = (if newDecompressionReader r = TakeoverFn then windowed (start_dict r) msg else start_dict r)"
      by (rule compressed_read [OF ms1 t(1) r(1,2) a l inf t(2) g])
    have tr: "(newDecompressionReader r = TakeoverFn) = tk" using r(2) by (simp add: fits_def tk_def)
    have "fits w1 r1" using r(2) r1(5) cf by (simp add: fits_def same_setup_def)
    moreover have "decodes ops iops tk (start_state ops w1) (said @ msg) (map snd ms)"
      using de x st1 by simp
    moreover have "start_dict r1 = dictionary tk (said @ msg)"
      using d1 unfolding tr sd dictionary_next .
    moreover have "list_all (\<lambda>s. limit_ok r1 (length s)) (streams ops tk (start_state ops w1) (map snd ms))"
      using li x st1 setup_rules(2) [OF r1(5)] by simp
    ultimately have "\<exists>r'. readAllOf iops grow (length ms) r1 = Some (ms, r') \<and> between_messages r' \<and> avail r' = R \<and> wire r' = wire r1"
      using rd r1(2,3) by blast
    then obtain r' where "readAllOf iops grow (length ms) r1 = Some (ms, r')" "between_messages r'" "avail r' = R"
      "wire r' = wire r1" by blast
    then show ?thesis using r1(1,4) x by auto
  qed
  moreover have "writeAll ops (x # ms) w = Some w'" using wr IH(1) x by simp
  moreover have "wire w' = wire w @ encode_frames fs @ X" using IH(2) w1(3) by simp
  ultimately show ?case unfolding tk_def by (intro exI [of _ w'] exI [of _ "encode_frames fs @ X"]) simp
qed

text \<open>C10: a compressed conversation. A connection that compresses (with or without context takeover) and one
  at the other end whose reader fits it: WriteMessage of any list of messages succeeds, and when the
  peer's input is what was put on the wire, however the network cuts it, ReadMessage returns the same
  types and bytes in the same order, and is between messages with the rest of the input left. The
  decompressor is any that decodes the compressor's stream for each message when it is started with
  the last 32 KiB of everything said before (\<open>said\<close> and the messages of the list), or without context
  takeover with nothing. The reader begins with that of what was said before, a new one with nothing.\<close>

theorem compressed_conversation:
  fixes w :: "'z wconn" and r :: "'d rconn"
  assumes "idle w" and "factory_ok w" and "fits w r" and "between_messages r" and "sync_flush ops" and "grows_buffer grow"
    and "list_all (\<lambda>(t, msg). isData t \<and> (t = TextMessage \<longrightarrow> utf8_text msg)) ms"
    and "start_dict r = dictionary (newCompressionWriter w = TakeoverFn) said"
    and "decodes ops iops (newCompressionWriter w = TakeoverFn) (start_state ops w) said (map snd ms)"
    and "list_all (\<lambda>s. limit_ok r (length s)) (streams ops (newCompressionWriter w = TakeoverFn) (start_state ops w) (map snd ms))"
    and "\<And>w'. writeAll ops ms w = Some w' \<Longrightarrow> wire w @ avail r = wire w' @ R"
  shows "(\<exists>w'. writeAll ops ms w = Some w') \<and>
    (\<exists>r'. readAllOf iops grow (length ms) r = Some (ms, r') \<and> between_messages r' \<and> avail r' = R \<and> wire r' = wire r)"
proof -
  have c: "newCompressionWriter w \<noteq> NilFn" "enableWriteCompression w" using assms(3) by (simp_all add: fits_def)
  obtain w' X where w: "writeAll ops ms w = Some w'" "wire w' = wire w @ X"
    and rd: "between_messages r \<and> fits w r \<and> avail r = X @ R \<and>
       start_dict r = dictionary (newCompressionWriter w = TakeoverFn) said \<and>
       decodes ops iops (newCompressionWriter w = TakeoverFn) (start_state ops w) said (map snd ms) \<and>
       list_all (\<lambda>s. limit_ok r (length s)) (streams ops (newCompressionWriter w = TakeoverFn) (start_state ops w) (map snd ms)) \<longrightarrow>
       (\<exists>r'. readAllOf iops grow (length ms) r = Some (ms, r') \<and> between_messages r' \<and> avail r' = R \<and> wire r' = wire r)"
    using conversation [OF assms(1,2) c assms(5,6,7)] by blast
  have "avail r = X @ R" using assms(11) [OF w(1)] w(2) by simp
  then show ?thesis using rd w(1) assms(3,4,8,9,10) by blast
qed

section \<open>A decompressor of stored blocks\<close>

text \<open>The blocks up to the final one, with what follows it.\<close>

function unstore :: "bytes \<Rightarrow> (bytes \<times> bytes) option" where
  "unstore p =
     (if length p < 5 then None
      else
        let k = unat (p ! 1) + 256 * unat (p ! 2); q = drop 5 p in
        if length q < k then None
        else if p ! 0 = 1 then Some (take k q, drop k q)
        else map_option (\<lambda>(s, rest). (take k q @ s, rest)) (unstore (drop k q)))"
  by pat_completeness auto
termination by (relation "measure length") auto

declare unstore.simps [simp del]

lemma unstore_more: "unstore p = Some (s, rest) \<Longrightarrow> unstore (p @ q) = Some (s, rest @ q)"
proof (induction p arbitrary: s rule: unstore.induct)
  case (1 p)
  let ?k = "unat (p ! 1) + 256 * unat (p ! 2)"
  have l: "\<not> length p < 5" "\<not> length (drop 5 p) < ?k" using 1 (2) by (auto simp: unstore.simps [of p] Let_def split: if_splits)
  then have at: "(p @ q) ! 0 = p ! 0" "(p @ q) ! 1 = p ! 1" "(p @ q) ! 2 = p ! 2"
    by (auto simp: nth_append)
  show ?case
  proof (cases "p ! 0 = 1")
    case True
    then show ?thesis using 1 (2) l at by (simp add: unstore.simps [of p] unstore.simps [of "p @ q"] Let_def)
  next
    case False
    then obtain s' where s: "unstore (drop ?k (drop 5 p)) = Some (s', rest)" "s = take ?k (drop 5 p) @ s'"
      using 1 (2) l by (auto simp: unstore.simps [of p] Let_def)
    have "unstore (drop ?k (drop 5 p) @ q) = Some (s', rest @ q)" using 1 (1) [OF l(1) refl refl l(2) False s(1)] .
    then show ?thesis using False l at s(2) by (simp add: unstore.simps [of "p @ q"] Let_def)
  qed
qed

datatype stored_state = Collect bytes | Emit bytes

text \<open>It collects its input until it has the final block. There is no other error in what it is given.\<close>

definition stored_step :: "nat \<Rightarrow> stored_state \<Rightarrow> stored_state inflateStep" where
  "stored_step n z =
     (case z of
        Collect p \<Rightarrow>
          (case unstore p of
             None \<Rightarrow> Pull 512 (\<lambda>(d, e). if e = None then Collect (p @ d) else Emit [])
           | Some (s, rest) \<Rightarrow> if s = [] then Yield [] (Some IoEOF) (Emit []) else Yield (take n s) None (Emit (drop n s)))
      | Emit s \<Rightarrow> if s = [] then Yield [] (Some IoEOF) z else Yield (take n s) None (Emit (drop n s)))"

definition stored_inflate :: "stored_state inflate_ops" where
  "stored_inflate = \<lparr>inf_reset = (\<lambda>dict. Collect []), inf_step = stored_step\<rparr>"

lemma stored_emits:
  assumes "0 < n" and "s \<noteq> []" and "stored_step n z = Yield (take n s) None (Emit (drop n s))"
    and "inflating stored_inflate (Emit (drop n s)) [] (drop n s)"
  shows "\<exists>d S' z'. inf_step stored_inflate n z = Yield d None z' \<and> d \<noteq> [] \<and> length d \<le> n \<and> s = d @ S' \<and>
    inflating stored_inflate z' [] S'"
  by (rule exI [of _ "take n s"], rule exI [of _ "drop n s"], rule exI [of _ "Emit (drop n s)"])
    (use assms in \<open>simp add: stored_inflate_def\<close>)

lemma emitting: "inflating stored_inflate (Emit s) [] s"
proof (induction "length s" arbitrary: s rule: less_induct)
  case less
  show ?case
  proof (cases "s = []")
    case True
    then show ?thesis by (intro inflatingI) (simp add: stored_inflate_def stored_step_def)
  next
    case False
    show ?thesis
    proof (rule inflatingI, rule disjI1, rule stored_emits)
      show "inflating stored_inflate (Emit (drop n s)) [] (drop n s)" if "0 < n" for n
        using that False by (intro less) simp
    qed (use False in \<open>simp_all add: stored_step_def\<close>)
  qed
qed

lemma collecting:
  assumes "unstore (p @ T) = Some (s, [])"
  shows "inflating stored_inflate (Collect p) T s"
  using assms
proof (induction "length T" arbitrary: p T rule: less_induct)
  case less
  show ?case
  proof (cases "unstore p")
    case (Some r)
    obtain s' rest where u: "unstore p = Some (s', rest)" using Some by (cases r) simp
    then have e: "T = []" "s' = s" using unstore_more [OF u, of T] less.prems by simp_all
    show ?thesis
    proof (cases "s = []")
      case True
      then show ?thesis using u e by (intro inflatingI) (simp add: stored_inflate_def stored_step_def)
    next
      case False
      show ?thesis unfolding e(1)
        by (rule inflatingI, rule disjI1, rule stored_emits)
          (use False u e emitting in \<open>simp_all add: stored_step_def\<close>)
    qed
  next
    case None
    then have "T \<noteq> []" using less.prems by auto
    moreover have "inflating stored_inflate (Collect (p @ x)) T' s" if "x \<noteq> []" "T = x @ T'" for x T'
      using that less.prems by (intro less.hyps) auto
    ultimately show ?thesis
      using None by (intro inflatingI) (simp add: stored_inflate_def stored_step_def)
  qed
qed

section \<open>A sample conversation\<close>

definition sample_messages :: "(int \<times> bytes) list" where
  "sample_messages = [(BinaryMessage, [7, 7]), (TextMessage, bytes_of_string ''hi'')]"

lemma stored_sample:
  assumes "length msg = 2"
  shows "flate_stream stored_ops [msg] [] = [0, 2, 0, 0xfd, 0xff] @ msg @ [0, 0, 0, 0xff, 0xff]" "flate_end stored_ops [msg] [] = []"
proof -
  have "msg \<noteq> []" using assms by auto
  then have "stored_write msg [] = ([], msg)"
    using assms by (simp add: stored_write.simps [of msg] stored_write.simps [of "[]"] maxStoreBlockSize_def)
  moreover have "stored_header 2 = [0, 2, 0, 0xfd, 0xff]"
    by (simp add: stored_header_def be_bytes_def upt_rec [of _ 2] upt_rec [of _ "Suc _"])
  ultimately show "flate_stream stored_ops [msg] [] = [0, 2, 0, 0xfd, 0xff] @ msg @ [0, 0, 0, 0xff, 0xff]"
    "flate_end stored_ops [msg] [] = []"
    using assms \<open>msg \<noteq> []\<close> by (simp_all add: flate_stream_def flate_end_def stored_ops_def stored_flush_def stored_marker)
qed

lemma stored_decodes:
  assumes "length msg = 2"
  shows "inflating stored_inflate (inf_reset stored_inflate dict) (flate_stream stored_ops [msg] [] @ [1, 0, 0, 0xff, 0xff]) msg"
proof -
  obtain a b where m: "msg = [a, b]" using assms by (auto simp: length_Suc_conv numeral_2_eq_2)
  have "unstore ([] @ flate_stream stored_ops [msg] [] @ [1, 0, 0, 0xff, 0xff]) = Some (msg, [])"
    unfolding m stored_sample(1) [OF assms [unfolded m]] by (simp add: unstore.simps)
  then show ?thesis using collecting by (simp add: stored_inflate_def)
qed

definition talk_sent :: "bytes wconn" where
  "talk_sent = the (writeAll stored_ops sample_messages server1)"

definition talk_reader :: "bytes \<Rightarrow> stored_state rconn" where
  "talk_reader p = (newRConn False 0 0 False None None (quiet\<lparr>envIn := drip p\<rparr>))\<lparr>newDecompressionReader := TakeoverFn\<rparr>"

lemma talk_reader_ok:
  "between_messages (talk_reader p)" "avail (talk_reader p) = p" "newDecompressionReader (talk_reader p) = TakeoverFn"
  "isServer (talk_reader p) = False" "limit_ok (talk_reader p) n = (n < 2 ^ 63)" "wire (talk_reader p) = []"
proof -
  let ?c = "newRConn False 0 0 False None None (quiet\<lparr>envIn := drip p\<rparr>) :: stored_state rconn"
  have "between_messages ?c" "avail ?c = p" by (simp_all add: new_between quiet_def)
  then show "between_messages (talk_reader p)" "avail (talk_reader p) = p"
    by (simp add: talk_reader_def between_messages_def can_read_def input_ok_def net_ok_def)
      (use \<open>avail ?c = p\<close> in \<open>cases "rerr ?c"; simp add: talk_reader_def avail_def\<close>)
qed (simp_all add: talk_reader_def limit_ok_def new_rconn_defs)

lemma talk_sent_ok:
  "writeAll stored_ops sample_messages server1 = Some talk_sent"
proof -
  have "list_all (\<lambda>(t, msg). isData t \<and> (t = TextMessage \<longrightarrow> utf8_text msg)) sample_messages"
    by (auto simp: sample_messages_def isData_def message_types bytes_of_string_def intro!: utf8_text_ascii)
  from conversation [OF sample_idle(5,6) _ _ stored_sync _ this, of "\<lambda>n. 2 * n + 1" stored_inflate]
  obtain w' where "writeAll stored_ops sample_messages server1 = Some w'" by (auto simp: grows_buffer_def)
  then show "writeAll stored_ops sample_messages server1 = Some talk_sent" by (simp add: talk_sent_def)
qed

lemma compressed_conversation_witness:
  "(\<exists>w'. writeAll stored_ops sample_messages server1 = Some w') \<and>
   (\<exists>r'. readAllOf stored_inflate (\<lambda>n. 2 * n + 1) (length sample_messages) (talk_reader (wire talk_sent @ [1, 2])) =
      Some (sample_messages, r') \<and> between_messages r' \<and> avail r' = [1, 2] \<and>
      wire r' = wire (talk_reader (wire talk_sent @ [1, 2])))"
proof (rule compressed_conversation [where said = "[]", OF sample_idle(5,6) _ talk_reader_ok(1) stored_sync])
  show "fits server1 (talk_reader (wire talk_sent @ [1, 2]))"
    by (simp add: fits_def talk_reader_ok maskFrames_def) (simp add: server1_def)
  show "list_all (\<lambda>(t, msg). isData t \<and> (t = TextMessage \<longrightarrow> utf8_text msg)) sample_messages"
    by (auto simp: sample_messages_def isData_def message_types bytes_of_string_def intro!: utf8_text_ascii)
  have st: "start_state stored_ops server1 = []"
    by (simp add: start_state_def stored_ops_def) (simp add: server1_def server0_def new_conn_defs)
  have hi: "length [7, 7 :: byte] = 2" "length (bytes_of_string ''hi'') = 2" by (simp_all add: bytes_of_string_def)
  show "start_dict (talk_reader (wire talk_sent @ [1, 2])) = dictionary (newCompressionWriter server1 = TakeoverFn) []"
    by (simp add: start_dict_def dictionary_def last_bytes_def talk_reader_def new_rconn_defs)
  show "decodes stored_ops stored_inflate (newCompressionWriter server1 = TakeoverFn) (start_state stored_ops server1)
    [] (map snd sample_messages)"
    by (simp add: sample_messages_def st stored_decodes [OF hi(1)] stored_decodes [OF hi(2)] stored_sample(2) [OF hi(1)])
  show "list_all (\<lambda>s. limit_ok (talk_reader (wire talk_sent @ [1, 2])) (length s))
    (streams stored_ops (newCompressionWriter server1 = TakeoverFn) (start_state stored_ops server1) (map snd sample_messages))"
    by (simp add: sample_messages_def st talk_reader_ok stored_sample [OF hi(1)] stored_sample(1) [OF hi(2)] hi(2))
  show "wire server1 @ avail (talk_reader (wire talk_sent @ [1, 2])) = wire w' @ [1, 2]"
    if "writeAll stored_ops sample_messages server1 = Some w'" for w'
    using that talk_sent_ok by (simp add: talk_reader_ok) (simp add: server1_def server0_def new_conn_defs)
qed (simp add: grows_buffer_def)

end
