(* ===== verification/HttpHeader.thy ===== *)
theory HttpHeader
  imports Prelude "HOL-Library.AList"
begin

text \<open>
  The header of package net/http: a map from canonical names to lists of values. It is an
  association list with distinct names; the order of the entries is the order in which a
  \<open>range\<close> over the map visits them, which Go leaves open, so what is proved for every list holds
  for every visiting order. A nil header is the empty list.
\<close>

type_synonym header = "(string \<times> string list) list"

text \<open>\<open>h[name]\<close>, and \<open>_, ok := h[name]\<close>.\<close>

definition hIndex :: "header \<Rightarrow> string \<Rightarrow> string list" where
  "hIndex h name = (case map_of h name of None \<Rightarrow> [] | Some vs \<Rightarrow> vs)"

definition hHas :: "header \<Rightarrow> string \<Rightarrow> bool" where
  "hHas h name \<longleftrightarrow> map_of h name \<noteq> None"

section \<open>Canonical names (package net/textproto)\<close>

definition validHeaderFieldByte :: "char \<Rightarrow> bool" where
  "validHeaderFieldByte c \<longleftrightarrow>
     c \<in> set ''!#$%&*+-.0123456789ABCDEFGHIJKLMNOPQRSTUVWXYZ^_abcdefghijklmnopqrstuvwxyz|~'' \<or>
     c = CHR 0x27 \<or> c = CHR 0x60"

definition upperChar :: "char \<Rightarrow> char" where
  "upperChar c = (let n = of_char c in if 97 \<le> n \<and> n \<le> 122 then char_of (n - 32 :: nat) else c)"

definition lowerChar :: "char \<Rightarrow> char" where
  "lowerChar c = (let n = of_char c in if 65 \<le> n \<and> n \<le> 90 then char_of (n + 32 :: nat) else c)"

fun canonical :: "bool \<Rightarrow> string \<Rightarrow> string" where
  "canonical upper [] = []"
| "canonical upper (c # r) =
     (if upper then upperChar c else lowerChar c) # canonical (c = CHR ''-'') r"

definition CanonicalMIMEHeaderKey :: "string \<Rightarrow> string" where
  "CanonicalMIMEHeaderKey s = (if list_all validHeaderFieldByte s then canonical True s else s)"

text \<open>\<open>Header.Get\<close>, \<open>Header.Set\<close>, \<open>Header.Add\<close> and \<open>Header.Del\<close>.\<close>

definition hGet :: "header \<Rightarrow> string \<Rightarrow> string" where
  "hGet h name = (case hIndex h (CanonicalMIMEHeaderKey name) of [] \<Rightarrow> '''' | v # _ \<Rightarrow> v)"

definition hSet :: "string \<Rightarrow> string \<Rightarrow> header \<Rightarrow> header" where
  "hSet name v h = AList.update (CanonicalMIMEHeaderKey name) [v] h"

definition hAdd :: "string \<Rightarrow> string \<Rightarrow> header \<Rightarrow> header" where
  "hAdd name v h =
     AList.update (CanonicalMIMEHeaderKey name) (hIndex h (CanonicalMIMEHeaderKey name) @ [v]) h"

definition hDel :: "string \<Rightarrow> header \<Rightarrow> header" where
  "hDel name h = AList.delete (CanonicalMIMEHeaderKey name) h"

lemma hIndex_Nil [simp]: "hIndex [] k = []"
  by (simp add: hIndex_def)

lemma hIndex_Cons: "hIndex ((k, vs) # h) k' = (if k' = k then vs else hIndex h k')"
  by (simp add: hIndex_def)

lemma hIndex_update [simp]: "hIndex (AList.update k vs h) k' = (if k' = k then vs else hIndex h k')"
  by (simp add: hIndex_def update_conv')

lemma hIndex_delete: "k' \<noteq> k \<Longrightarrow> hIndex (AList.delete k h) k' = hIndex h k'"
  by (simp add: hIndex_def delete_conv')

lemma hHas_update [simp]: "hHas (AList.update k vs h) k' \<longleftrightarrow> k' = k \<or> hHas h k'"
  by (simp add: hHas_def update_conv')

lemma hIndex_hHas: "\<not> hHas h k \<Longrightarrow> hIndex h k = []"
  by (simp add: hHas_def hIndex_def)

text \<open>The names the handshake looks up, in canonical form.\<close>

lemma canonical_names [simp]:
  "CanonicalMIMEHeaderKey ''Sec-Websocket-Protocol'' = ''Sec-Websocket-Protocol''"
  "CanonicalMIMEHeaderKey ''Sec-WebSocket-Protocol'' = ''Sec-Websocket-Protocol''"
  "CanonicalMIMEHeaderKey ''Sec-WebSocket-Extensions'' = ''Sec-Websocket-Extensions''"
  "CanonicalMIMEHeaderKey ''Sec-Websocket-Key'' = ''Sec-Websocket-Key''"
  "CanonicalMIMEHeaderKey ''Sec-Websocket-Accept'' = ''Sec-Websocket-Accept''"
  "CanonicalMIMEHeaderKey ''Sec-Websocket-Version'' = ''Sec-Websocket-Version''"
  "CanonicalMIMEHeaderKey ''Upgrade'' = ''Upgrade''"
  "CanonicalMIMEHeaderKey '':protocol'' = '':protocol''"
  "CanonicalMIMEHeaderKey ''Content-Type'' = ''Content-Type''"
  "CanonicalMIMEHeaderKey ''Content-Length'' = ''Content-Length''"
  "CanonicalMIMEHeaderKey ''X-Content-Type-Options'' = ''X-Content-Type-Options''"
  "CanonicalMIMEHeaderKey ''Proxy-Authorization'' = ''Proxy-Authorization''"
  "CanonicalMIMEHeaderKey ''Cookie'' = ''Cookie''"
  "CanonicalMIMEHeaderKey ''Connection'' = ''Connection''"
  "CanonicalMIMEHeaderKey ''Sec-WebSocket-Key'' = ''Sec-Websocket-Key''"
  "CanonicalMIMEHeaderKey ''Sec-WebSocket-Version'' = ''Sec-Websocket-Version''"
  "CanonicalMIMEHeaderKey ''Sec-WebSocket-Accept'' = ''Sec-Websocket-Accept''"
  by (code_simp)+

section \<open>Status codes\<close>

definition StatusText :: "int \<Rightarrow> string" where
  "StatusText code =
     (if code = 200 then ''OK'' else if code = 101 then ''Switching Protocols''
      else if code = 400 then ''Bad Request'' else if code = 403 then ''Forbidden''
      else if code = 405 then ''Method Not Allowed'' else if code = 426 then ''Upgrade Required''
      else if code = 500 then ''Internal Server Error'' else '''')"

end
