(* ===== verification/Tokens.thy ===== *)
theory Tokens
  imports HttpHeader Utf8Dfa
begin

text \<open>
  src/util.go: the octets of a token, the scanners of header values, the comparison with ASCII
  case folding, the search in a list of tokens and the parser of Sec-WebSocket-Extensions.
  Strings are lists of characters, which are bytes.
\<close>

section \<open>Scanners\<close>

text \<open>The table, as the list of the octets it maps to true.\<close>

definition tokenOctets :: string where
  "tokenOctets =
     ''!#$%&'' @ [CHR 0x27] @ ''*+-.0123456789ABCDEFGHIJKLMNOPQRSTUWVXYZ^_'' @ [CHR 0x60] @
     ''abcdefghijklmnopqrstuvwxyz|~''"

definition isTokenOctet :: "char \<Rightarrow> bool" where
  "isTokenOctet b \<longleftrightarrow> b \<in> set tokenOctets"

fun skipSpace :: "string \<Rightarrow> string" where
  "skipSpace [] = []"
| "skipSpace (b # s) = (if b \<noteq> CHR '' '' \<and> b \<noteq> CHR 0x09 then b # s else skipSpace s)"

fun nextToken :: "string \<Rightarrow> string \<times> string" where
  "nextToken [] = ([], [])"
| "nextToken (b # s) =
     (if \<not> isTokenOctet b then ([], b # s) else (let (token, rest) = nextToken s in (b # token, rest)))"

text \<open>
  The second loop of nextTokenOrQuoted, entered at the first backslash: \<open>p\<close> is what has been
  copied. The buffer of \<open>len(s) - 1\<close> bytes is never too short: each byte but the first
  backslash is stored at most once.
\<close>

fun quotedEscaped :: "bool \<Rightarrow> string \<Rightarrow> string \<Rightarrow> string \<times> string" where
  "quotedEscaped escape p [] = ('''', '''')"
| "quotedEscaped escape p (b # s) =
     (if escape then quotedEscaped False (p @ [b]) s
      else if b = CHR 0x5C then quotedEscaped True p s
      else if b = CHR 0x22 then (p, s)
      else quotedEscaped False (p @ [b]) s)"

fun quotedScan :: "string \<Rightarrow> string \<Rightarrow> string \<times> string" where
  "quotedScan p [] = ('''', '''')"
| "quotedScan p (b # s) =
     (if b = CHR 0x22 then (p, s)
      else if b = CHR 0x5C then quotedEscaped True p s
      else quotedScan (p @ [b]) s)"

definition nextTokenOrQuoted :: "string \<Rightarrow> string \<times> string" where
  "nextTokenOrQuoted s =
     (case s of
        b # r \<Rightarrow> if b = CHR 0x22 then quotedScan '''' r else nextToken s
      | [] \<Rightarrow> nextToken s)"

section \<open>Comparison with ASCII case folding\<close>

definition lowerRune :: "nat \<Rightarrow> nat" where
  "lowerRune r = (if 65 \<le> r \<and> r \<le> 90 then r + 32 else r)"

lemma decodeRune_shortens: "s \<noteq> [] \<Longrightarrow> (r, n) = decodeRune s \<Longrightarrow> length (drop n s) < length s"
  using decodeRune_size [of s] by (auto dest: sym)

function foldLoop :: "bytes \<Rightarrow> bytes \<Rightarrow> bool" where
  "foldLoop s t =
     (if s \<noteq> [] \<and> t \<noteq> [] then
        (let (sr, m) = decodeRune s; (tr, n) = decodeRune t in
         if sr = tr then foldLoop (drop m s) (drop n t)
         else if lowerRune sr \<noteq> lowerRune tr then False
         else foldLoop (drop m s) (drop n t))
      else s = t)"
  by pat_completeness auto
termination
  by (relation "measure (\<lambda>(s, t). length s)") (simp_all, (metis decodeRune_shortens length_drop)+)

declare foldLoop.simps [simp del]

definition equalASCIIFold :: "string \<Rightarrow> string \<Rightarrow> bool" where
  "equalASCIIFold s t = foldLoop (bytes_of_string s) (bytes_of_string t)"

section \<open>Lists of tokens\<close>

text \<open>
  The body of the outer loop, for one value of the header; \<open>continue headers\<close> is the result False.
\<close>

lemma length_skipSpace: "length (skipSpace s) \<le> length s"
  by (induction s) simp_all

lemma nextToken_append: "nextToken s = (t, r) \<Longrightarrow> s = t @ r"
  by (induction s arbitrary: t) (auto split: if_splits prod.splits)

lemma skipped_shorter:
  assumes "(t, s1) = nextToken (skipSpace s)" and "t \<noteq> ''''"
  shows "length (skipSpace s1) < length s"
proof -
  have "skipSpace s = t @ s1" using assms(1) by (intro nextToken_append) simp
  then have "length s1 < length (skipSpace s)" using assms(2) by simp
  with length_skipSpace [of s] length_skipSpace [of s1] show ?thesis by linarith
qed

function tokenLoop :: "string \<Rightarrow> string \<Rightarrow> bool" where
  "tokenLoop value s =
     (let (t, s1) = nextToken (skipSpace s) in
      if t = '''' then False
      else let s2 = skipSpace s1 in
        if s2 \<noteq> '''' \<and> hd s2 \<noteq> CHR '','' then False
        else if equalASCIIFold t value then True
        else if s2 = '''' then False
        else tokenLoop value (tl s2))"
  by pat_completeness auto
termination
  by (relation "measure (\<lambda>(value, s). length s)") (simp_all, metis skipped_shorter less_imp_diff_less)

declare tokenLoop.simps [simp del]

definition tokenListContainsValue :: "header \<Rightarrow> string \<Rightarrow> string \<Rightarrow> bool" where
  "tokenListContainsValue header name value = list_ex (tokenLoop value) (hIndex header name)"

section \<open>Extensions\<close>

text \<open>The parameters of one extension; None is \<open>continue headers\<close>.\<close>

type_synonym extension = "(string \<times> string) list"

definition paramValue :: "string \<Rightarrow> string \<times> string" where
  "paramValue s =
     (case s of
        b # r \<Rightarrow> if b = CHR ''='' then (let (v, s') = nextTokenOrQuoted (skipSpace r) in (v, skipSpace s'))
                 else ('''', s)
      | [] \<Rightarrow> ('''', s))"

lemma length_quotedEscaped: "length (snd (quotedEscaped e p s)) \<le> length s"
  by (induction e p s rule: quotedEscaped.induct) (simp_all add: le_SucI)

lemma length_quotedScan: "length (snd (quotedScan p s)) \<le> length s"
  by (induction p s rule: quotedScan.induct) (simp_all add: le_SucI length_quotedEscaped)

lemma length_nextToken: "length (snd (nextToken s)) \<le> length s"
  by (induction s) (auto split: prod.splits)

lemma length_nextTokenOrQuoted: "length (snd (nextTokenOrQuoted s)) \<le> length s"
  using length_nextToken [of s]
  by (auto simp: nextTokenOrQuoted_def length_quotedScan le_SucI simp del: nextToken.simps split: list.splits)

lemma length_paramValue: "length (snd (paramValue s)) \<le> length s"
proof (cases s)
  case (Cons b r)
  have "length (snd (nextTokenOrQuoted (skipSpace r))) \<le> length r"
    using length_nextTokenOrQuoted length_skipSpace by (rule le_trans)
  then have "length (skipSpace (snd (nextTokenOrQuoted (skipSpace r)))) \<le> length r"
    using length_skipSpace le_trans by blast
  with Cons show ?thesis by (simp add: paramValue_def split_beta)
qed (simp add: paramValue_def)

lemma param_shorter:
  assumes "s1 = skipSpace s" and "s1 \<noteq> ''''" and "(k, s2) = nextToken (skipSpace (tl s1))"
    and "k \<noteq> ''''" and "(v, s3) = paramValue (skipSpace s2)"
  shows "length s3 < length s"
proof -
  have "length s3 \<le> length (skipSpace s2)" using length_paramValue assms(5) by (metis snd_conv)
  also have "\<dots> < length (tl s1)" by (rule skipped_shorter [OF assms(3,4)])
  also have "\<dots> \<le> length s" using length_skipSpace [of s] assms(1) by simp
  finally show ?thesis .
qed

function paramLoop :: "extension \<Rightarrow> string \<Rightarrow> (extension \<times> string) option" where
  "paramLoop ext s =
     (let s1 = skipSpace s in
      if s1 = '''' \<or> hd s1 \<noteq> CHR '';'' then Some (ext, s1)
      else let (k, s2) = nextToken (skipSpace (tl s1)) in
        if k = '''' then None
        else let (v, s3) = paramValue (skipSpace s2) in
          if s3 \<noteq> '''' \<and> hd s3 \<noteq> CHR '','' \<and> hd s3 \<noteq> CHR '';'' then None
          else paramLoop (AList.update k v ext) s3)"
  by pat_completeness auto
termination
  by (relation "measure (\<lambda>(ext, s). length s)") (simp_all, metis param_shorter)

declare paramLoop.simps [simp del]

lemma length_paramLoop: "paramLoop ext s = Some (e, r) \<Longrightarrow> length r \<le> length s"
proof (induction ext s rule: paramLoop.induct)
  case (1 ext s)
  obtain k s2 where t: "(k, s2) = nextToken (skipSpace (tl (skipSpace s)))" by (metis surj_pair)
  obtain v s3 where p: "(v, s3) = paramValue (skipSpace s2)" by (metis surj_pair)
  show ?case
  proof (cases "skipSpace s = '''' \<or> hd (skipSpace s) \<noteq> CHR '';''")
    case True
    then show ?thesis using "1.prems" length_skipSpace by (subst (asm) paramLoop.simps) auto
  next
    case False
    note ne = this
    have step: "k \<noteq> ''''" "paramLoop (AList.update k v ext) s3 = Some (e, r)"
      "\<not> (s3 \<noteq> '''' \<and> hd s3 \<noteq> CHR '','' \<and> hd s3 \<noteq> CHR '';'')"
      using "1.prems" ne by (subst (asm) paramLoop.simps, simp add: Let_def t [symmetric] p [symmetric] split: if_splits)+
    have "length s3 < length s" using param_shorter [OF refl _ t step(1) p] ne by blast
    moreover have "length r \<le> length s3" by (rule "1.IH" [OF refl ne t refl step(1) p refl step(3,2)])
    ultimately show ?thesis by simp
  qed
qed

lemma ext_shorter:
  assumes "(t, s1) = nextToken (skipSpace s)" and "t \<noteq> ''''" and "paramLoop e s1 = Some (e', s2)"
  shows "length s2 < length s"
proof -
  have "skipSpace s = t @ s1" using assms(1) by (intro nextToken_append) simp
  then have "length s1 < length (skipSpace s)" using assms(2) by simp
  with length_skipSpace [of s] length_paramLoop [OF assms(3)] show ?thesis by linarith
qed

function extLoop :: "string \<Rightarrow> extension list" where
  "extLoop s =
     (let (t, s1) = nextToken (skipSpace s) in
      if t = '''' then []
      else (case paramLoop [('''', t)] s1 of
          None \<Rightarrow> []
        | Some (ext, s2) \<Rightarrow>
            if s2 \<noteq> '''' \<and> hd s2 \<noteq> CHR '','' then []
            else ext # (if s2 = '''' then [] else extLoop (tl s2))))"
  by pat_completeness auto
termination
  by (relation "measure length") (simp_all, metis ext_shorter less_imp_diff_less)

declare extLoop.simps [simp del]

definition parseExtensions :: "header \<Rightarrow> extension list" where
  "parseExtensions header = concat (map extLoop (hIndex header ''Sec-Websocket-Extensions''))"

end
