(* ===== verification/TokenText.thy ===== *)
theory TokenText
  imports Tokens
begin

text \<open>
  What the scanners and parsers of src/util.go compute: the comparison as equality of folded code
  points, and the parsers as inverses of the grammar of RFC 6455 (lists of tokens and of
  extensions with token or quoted parameter values, white space wherever it is allowed).
\<close>

section \<open>Case folding\<close>

text \<open>The code points of a string as \<open>range\<close> visits them; a byte that starts no character is U+FFFD.\<close>

function runes :: "bytes \<Rightarrow> nat list" where
  "runes s = (if s = [] then [] else (let (r, n) = decodeRune s in r # runes (drop n s)))"
  by pat_completeness auto
termination by (relation "measure length") (simp_all, metis decodeRune_shortens length_drop)

declare runes.simps [simp del]

lemma runes_Nil [simp]: "runes [] = []"
  by (simp add: runes.simps)

lemma runes_step: "s \<noteq> [] \<Longrightarrow> decodeRune s = (r, n) \<Longrightarrow> runes s = r # runes (drop n s)"
  by (subst runes.simps) simp

lemma runes_ne: "s \<noteq> [] \<Longrightarrow> runes s \<noteq> []"
  by (subst runes.simps) (simp split: prod.splits)

lemma foldLoop_runes: "foldLoop s t \<longleftrightarrow> map lowerRune (runes s) = map lowerRune (runes t)"
proof (induction s t rule: foldLoop.induct)
  case (1 s t)
  show ?case
  proof (cases "s \<noteq> [] \<and> t \<noteq> []")
    case True
    obtain sr m where s: "decodeRune s = (sr, m)" by fastforce
    obtain tr n where t: "decodeRune t = (tr, n)" by fastforce
    have ih: "foldLoop (drop m s) (drop n t) \<longleftrightarrow> map lowerRune (runes (drop m s)) = map lowerRune (runes (drop n t))"
      if "lowerRune sr = lowerRune tr"
      using "1.IH" [OF True refl s [symmetric] refl t [symmetric]] that by blast
    show ?thesis
      using True ih by (subst foldLoop.simps) (simp add: s t runes_step [OF _ s] runes_step [OF _ t])
  next
    case False
    then have "runes s = [] \<and> runes t = [] \<longleftrightarrow> s = [] \<and> t = []" using runes_ne by auto
    moreover have "runes s = [] \<or> runes t = []" using False by auto
    ultimately show ?thesis using False by (subst foldLoop.simps) (metis list.map_disc_iff)
  qed
qed

text \<open>EqualASCIIFold compares the code points of the two strings with the ASCII letters folded.\<close>

lemma equalASCIIFold_folds:
  "equalASCIIFold s t \<longleftrightarrow>
     map lowerRune (runes (bytes_of_string s)) = map lowerRune (runes (bytes_of_string t))"
  by (simp add: equalASCIIFold_def foldLoop_runes)

definition ascii :: "string \<Rightarrow> bool" where
  "ascii s \<longleftrightarrow> list_all (\<lambda>c. of_char c < (128 :: nat)) s"

lemma runes_ascii: "ascii s \<Longrightarrow> runes (bytes_of_string s) = map of_char s"
proof (induction s)
  case (Cons c s)
  then have "decodeRune (bytes_of_string (c # s)) = (of_char c, 1)"
    by (simp add: decodeRune_def bytes_of_string_def ascii_def)
  then have "runes (bytes_of_string (c # s)) = of_char c # runes (drop 1 (bytes_of_string (c # s)))"
    by (intro runes_step) (simp_all add: bytes_of_string_def)
  with Cons show ?case by (simp add: ascii_def bytes_of_string_def)
qed (simp add: bytes_of_string_def)

lemma lowerRune_char: "lowerRune (of_char c) = of_char (lowerChar c)"
proof -
  have "(of_char c :: nat) < 256" by (rule nat_of_char_less_256)
  then show ?thesis by (simp add: lowerRune_def lowerChar_def Let_def)
qed

lemma equalASCIIFold_ascii: "ascii s \<Longrightarrow> ascii t \<Longrightarrow> equalASCIIFold s t \<longleftrightarrow> map lowerChar s = map lowerChar t"
proof -
  assume a: "ascii s" "ascii t"
  have m: "map lowerRune (map of_char u) = (map of_char (map lowerChar u) :: nat list)" for u
    by (simp add: lowerRune_char)
  have "inj (of_char :: char \<Rightarrow> nat)" by (rule inj_of_char)
  then show ?thesis by (simp only: equalASCIIFold_def foldLoop_runes runes_ascii a m inj_map_eq_map)
qed

text \<open>Two strings that are not UTF-8 are equal to equalASCIIFold although no byte of them is: every byte
  that starts no character is read as U+FFFD.\<close>

lemma fold_confuses_bytes:
  assumes "of_char c \<ge> (0xF5 :: nat)" and "of_char d \<ge> (0xF5 :: nat)"
  shows "equalASCIIFold [c] [d]"
proof -
  have "decodeRune (bytes_of_string [c]) = (runeError, 1)" "decodeRune (bytes_of_string [d]) = (runeError, 1)"
    using assms by (simp_all add: decodeRune_def bytes_of_string_def Let_def)
  moreover have "bytes_of_string [c] \<noteq> []" "bytes_of_string [d] \<noteq> []" by (simp_all add: bytes_of_string_def)
  ultimately show ?thesis
    by (simp add: equalASCIIFold_def foldLoop_runes runes_step)
qed

lemma fold_confuses_bytes_sample: "equalASCIIFold [CHR 0xFE] [CHR 0xFF] \<and> CHR 0xFE \<noteq> CHR 0xFF"
  using fold_confuses_bytes [of "CHR 0xFE" "CHR 0xFF"] by simp

section \<open>The grammar\<close>

definition white :: "string \<Rightarrow> bool" where
  "white w \<longleftrightarrow> list_all (\<lambda>b. b = CHR '' '' \<or> b = CHR 0x09) w"

definition token :: "string \<Rightarrow> bool" where
  "token t \<longleftrightarrow> t \<noteq> [] \<and> list_all isTokenOctet t"

text \<open>A text at which a token and white space end.\<close>

definition stops :: "string \<Rightarrow> bool" where
  "stops s \<longleftrightarrow> (case s of [] \<Rightarrow> True | b # _ \<Rightarrow> b \<in> {CHR '','', CHR '';'', CHR ''='', CHR 0x22})"

lemma separators [simp]:
  "\<not> isTokenOctet CHR '',''" "\<not> isTokenOctet CHR '';''" "\<not> isTokenOctet CHR ''=''" "\<not> isTokenOctet CHR 0x22"
  "\<not> isTokenOctet CHR '' ''" "\<not> isTokenOctet CHR 0x09"
  by (simp_all add: isTokenOctet_def tokenOctets_def)

lemma skipSpace_white [simp]: "white w \<Longrightarrow> skipSpace (w @ s) = skipSpace s"
  by (induction w) (auto simp: white_def)

lemma skipSpace_only [simp]: "white w \<Longrightarrow> skipSpace w = []"
  using skipSpace_white [of w "[]"] by simp

lemma skipSpace_stops [simp]: "stops s \<Longrightarrow> skipSpace s = s"
  by (cases s) (auto simp: stops_def)

lemma skipSpace_token [simp]: "token t \<Longrightarrow> skipSpace (t @ s) = t @ s"
  by (cases t) (auto simp: token_def)

lemma nextToken_octets: "list_all isTokenOctet t \<Longrightarrow> s = [] \<or> \<not> isTokenOctet (hd s) \<Longrightarrow> nextToken (t @ s) = (t, s)"
proof (induction t)
  case Nil
  then show ?case by (cases s) auto
qed simp

lemma token_ends: "white w \<Longrightarrow> stops s \<Longrightarrow> w @ s = [] \<or> \<not> isTokenOctet (hd (w @ s))"
  by (cases w; cases s) (auto simp: white_def stops_def)

lemma nextToken_token [simp]: "token t \<Longrightarrow> white w \<Longrightarrow> stops s \<Longrightarrow> nextToken (t @ w @ s) = (t, w @ s)"
  using nextToken_octets [OF _ token_ends] by (simp add: token_def)

lemma stops_simps [simp]: "stops []" "stops (CHR '','' # s)" "stops (CHR '';'' # s)" "stops (CHR ''='' # s)" "stops (CHR 0x22 # s)"
  by (simp_all add: stops_def)

lemma token_ne [simp]: "\<not> token []"
  by (simp add: token_def)

section \<open>Lists of tokens\<close>

text \<open>A list of tokens, each with the white space before and after it.\<close>

fun token_list :: "(string \<times> string \<times> string) list \<Rightarrow> string" where
  "token_list [] = ''''"
| "token_list [(a, t, b)] = a @ t @ b"
| "token_list ((a, t, b) # r) = a @ t @ b @ '','' @ token_list r"

definition token_item :: "string \<times> string \<times> string \<Rightarrow> bool" where
  "token_item x \<longleftrightarrow> (case x of (a, t, b) \<Rightarrow> white a \<and> token t \<and> white b)"

lemma tokenLoop_Nil [simp]: "\<not> tokenLoop v []"
  by (subst tokenLoop.simps) simp

lemma tokenLoop_list: "list_all token_item items \<Longrightarrow>
    tokenLoop v (token_list items) \<longleftrightarrow> list_ex (\<lambda>(a, t, b). equalASCIIFold t v) items"
proof (induction items rule: token_list.induct)
  case (2 a t b)
  then have n: "nextToken (t @ b) = (t, b)" using nextToken_token [of t b "[]"] by (simp add: token_item_def)
  from 2 show ?case by (subst tokenLoop.simps) (auto simp: token_item_def n)
next
  case (3 a t b x r)
  then have n: "nextToken (t @ b @ '','' @ token_list (x # r)) = (t, b @ '','' @ token_list (x # r))"
    by (intro nextToken_token) (simp_all add: token_item_def)
  from 3 have w: "white a" "token t" "white b" by (simp_all add: token_item_def)
  have s: "skipSpace (b @ '','' @ token_list (x # r)) = '','' @ token_list (x # r)" using w by simp
  have "tokenLoop v (token_list ((a, t, b) # x # r)) \<longleftrightarrow> equalASCIIFold t v \<or> tokenLoop v (token_list (x # r))"
    by (subst tokenLoop.simps, simp only: token_list.simps skipSpace_white [OF w(1)] skipSpace_token [OF w(2)] n Let_def s)
      (use w in auto)
  with 3 show ?case by simp
qed simp

text \<open>On a header whose values are lists of tokens, with white space wherever the grammar allows it,
  tokenListContainsValue finds a value exactly when it is one of the tokens, up to the case of ASCII
  letters.\<close>

lemma token_list_search:
  assumes "hIndex h name = map token_list ls" and "list_all (list_all token_item) ls"
  shows "tokenListContainsValue h name v \<longleftrightarrow> (\<exists>items \<in> set ls. \<exists>(a, t, b) \<in> set items. equalASCIIFold t v)"
proof -
  have "tokenListContainsValue h name v \<longleftrightarrow> list_ex (tokenLoop v \<circ> token_list) ls"
    by (simp add: tokenListContainsValue_def assms(1) list_ex_iff)
  also have "\<dots> \<longleftrightarrow> (\<exists>items \<in> set ls. list_ex (\<lambda>(a, t, b). equalASCIIFold t v) items)"
    using assms(2) tokenLoop_list by (auto simp: list_ex_iff list_all_iff)
  finally show ?thesis by (simp add: list_ex_iff)
qed

text \<open>The header of a browser.\<close>

section \<open>Quoted strings\<close>

text \<open>A quoted string with a backslash before every quote and backslash.\<close>

fun escaped :: "string \<Rightarrow> string" where
  "escaped [] = []"
| "escaped (c # s) = (if c = CHR 0x22 \<or> c = CHR 0x5C then [CHR 0x5C, c] else [c]) @ escaped s"

lemma quotedEscaped_escaped: "quotedEscaped False p (escaped v @ CHR 0x22 # s) = (p @ v, s)"
  by (induction v arbitrary: p) simp_all

lemma quotedScan_escaped: "quotedScan p (escaped v @ CHR 0x22 # s) = (p @ v, s)"
  by (induction v arbitrary: p) (simp_all add: quotedEscaped_escaped)

section \<open>Extensions\<close>

text \<open>The value of a parameter: none, a token, or a quoted string.\<close>

datatype param_value = NoValue | Plain string string string | Quoted string string string

fun the_value :: "param_value \<Rightarrow> string" where
  "the_value NoValue = ''''" | "the_value (Plain a v b) = v" | "the_value (Quoted a v b) = v"

fun value_ok :: "param_value \<Rightarrow> bool" where
  "value_ok NoValue = True"
| "value_ok (Plain a v b) = (white a \<and> token v \<and> white b)"
| "value_ok (Quoted a v b) = (white a \<and> white b)"

fun value_text :: "param_value \<Rightarrow> string" where
  "value_text NoValue = ''''"
| "value_text (Plain a v b) = ''='' @ a @ v @ b"
| "value_text (Quoted a v b) = ''='' @ a @ CHR 0x22 # escaped v @ CHR 0x22 # b"

text \<open>A parameter, with white space of its own around each of its parts, and an extension.\<close>

type_synonym param = "string \<times> string \<times> string \<times> param_value"

fun param_text :: "param \<Rightarrow> string" where
  "param_text (a, k, b, v) = '';'' @ a @ k @ b @ value_text v"

fun param_ok :: "param \<Rightarrow> bool" where
  "param_ok (a, k, b, v) = (white a \<and> token k \<and> white b \<and> value_ok v)"

fun add_param :: "param \<Rightarrow> extension \<Rightarrow> extension" where
  "add_param (a, k, b, v) e = AList.update k (the_value v) e"

fun ext_text :: "string \<times> string \<times> string \<times> param list \<Rightarrow> string" where
  "ext_text (a, n, b, ps) = a @ n @ b @ concat (map param_text ps)"

fun ext_ok :: "string \<times> string \<times> string \<times> param list \<Rightarrow> bool" where
  "ext_ok (a, n, b, ps) = (white a \<and> token n \<and> white b \<and> list_all param_ok ps)"

fun ext_map :: "string \<times> string \<times> string \<times> param list \<Rightarrow> extension" where
  "ext_map (a, n, b, ps) = fold add_param ps [('''', n)]"

fun exts_text :: "(string \<times> string \<times> string \<times> param list) list \<Rightarrow> string" where
  "exts_text [] = ''''"
| "exts_text [e] = ext_text e"
| "exts_text (e # r) = ext_text e @ '','' @ exts_text r"

lemma paramValue_text:
  assumes "value_ok v" and "stops s" and "s \<noteq> [] \<Longrightarrow> hd s \<noteq> CHR ''=''"
  shows "paramValue (value_text v @ s) = (the_value v, s)"
proof (cases v)
  case NoValue
  then show ?thesis using assms(3) by (cases s) (auto simp: paramValue_def)
next
  case (Plain a t b)
  then have t: "white a" "token t" "white b" using assms(1) by simp_all
  then obtain c r where cr: "t = c # r" "isTokenOctet c" by (cases t) (auto simp: token_def)
  then have "c \<noteq> CHR 0x22" by auto
  then have "nextTokenOrQuoted (t @ b @ s) = nextToken (t @ b @ s)" by (simp add: nextTokenOrQuoted_def cr(1))
  also have "\<dots> = (t, b @ s)" using t assms(2) by simp
  finally show ?thesis using Plain t assms(2) by (simp add: paramValue_def)
next
  case (Quoted a t b)
  have "nextTokenOrQuoted (CHR 0x22 # escaped t @ CHR 0x22 # b @ s) = (t, b @ s)"
    by (simp add: nextTokenOrQuoted_def quotedScan_escaped)
  then show ?thesis using Quoted assms(1,2) by (simp add: paramValue_def)
qed

lemma paramLoop_end: "stops s \<Longrightarrow> s = [] \<or> hd s = CHR '','' \<Longrightarrow> white w \<Longrightarrow> paramLoop e (w @ s) = Some (e, s)"
  by (subst paramLoop.simps) auto

lemma stops_value: "stops s \<Longrightarrow> stops (value_text v @ s)"
  by (cases v) simp_all

lemma paramLoop_step:
  assumes "param_ok p" and "stops s" and "s = [] \<or> hd s = CHR '','' \<or> hd s = CHR '';''"
  shows "paramLoop e (param_text p @ s) = paramLoop (add_param p e) s"
proof -
  obtain a k b v where p: "p = (a, k, b, v)" by (cases p)
  then have ok: "white a" "token k" "white b" "value_ok v" using assms(1) by simp_all
  have n: "nextToken (k @ b @ value_text v @ s) = (k, b @ value_text v @ s)"
    using ok stops_value [OF assms(2)] by simp
  have pv: "paramValue (value_text v @ s) = (the_value v, s)"
    using ok assms(2,3) by (intro paramValue_text) auto
  have sp: "skipSpace (b @ value_text v @ s) = value_text v @ s" using ok stops_value [OF assms(2)] by simp
  show ?thesis using assms(3) ok by (subst paramLoop.simps) (auto simp: p n sp pv)
qed

lemma paramLoop_params:
  "list_all param_ok ps \<Longrightarrow> stops s \<Longrightarrow> s = [] \<or> hd s = CHR '','' \<Longrightarrow>
     paramLoop e (concat (map param_text ps) @ s) = Some (fold add_param ps e, s)"
proof (induction ps arbitrary: e)
  case Nil
  then show ?case using paramLoop_end [of s "[]"] by (simp add: white_def)
next
  case (Cons p ps)
  let ?r = "concat (map param_text ps) @ s"
  have "?r = [] \<or> hd ?r = CHR '','' \<or> hd ?r = CHR '';''" "stops ?r"
    using Cons.prems(2,3) by (cases ps; auto)+
  then have "paramLoop e (param_text p @ ?r) = paramLoop (add_param p e) ?r"
    using Cons.prems(1) by (intro paramLoop_step) simp_all
  with Cons show ?case by simp
qed

lemma paramLoop_white: "white w \<Longrightarrow> paramLoop e (w @ s) = paramLoop e s"
  by (subst (1 2) paramLoop.simps) simp

lemma extLoop_step:
  assumes "ext_ok e" and "s = [] \<or> (\<exists>r. s = CHR '','' # r)"
  shows "extLoop (ext_text e @ s) = ext_map e # (if s = [] then [] else extLoop (tl s))"
proof -
  obtain a n b ps where e: "e = (a, n, b, ps)" by (cases e)
  then have ok: "white a" "token n" "white b" "list_all param_ok ps" using assms(1) by simp_all
  let ?r = "concat (map param_text ps) @ s"
  have st: "stops s" "s = [] \<or> hd s = CHR '',''" using assms(2) by auto
  have "stops ?r" using st by (cases ps; auto)
  then have nt: "nextToken (n @ b @ ?r) = (n, b @ ?r)" using ok by simp
  have pl: "paramLoop [('''', n)] (b @ ?r) = Some (ext_map e, s)"
    using ok st by (simp add: paramLoop_white paramLoop_params e)
  have ne: "n \<noteq> ''''" using ok by auto
  show ?thesis using st(2) ok by (subst extLoop.simps) (auto simp: e nt pl [unfolded e] ne)
qed

lemma extLoop_exts: "list_all ext_ok es \<Longrightarrow> extLoop (exts_text es) = map ext_map es"
proof (induction es rule: exts_text.induct)
  case 1
  show ?case by (subst extLoop.simps) simp
next
  case (2 e)
  then show ?case using extLoop_step [of e "[]"] by simp
next
  case (3 e x r)
  then show ?case using extLoop_step [of e "'','' @ exts_text (x # r)"] by simp
qed

text \<open>C34: parseExtensions inverts the grammar. Of a header whose values are lists of extensions, each with
  parameters without a value, with a token or with a quoted string, and with white space wherever
  the grammar allows it, the result is the extensions in order, each as the map from the empty name
  to its name and from each parameter to its value, the later one of two with the same name.\<close>

theorem parse_extensions_text:
  assumes "hIndex h ''Sec-Websocket-Extensions'' = map exts_text ls" and "list_all (list_all ext_ok) ls"
  shows "parseExtensions h = map ext_map (concat ls)"
proof -
  have "map (extLoop \<circ> exts_text) ls = map (map ext_map) ls"
    using assms(2) extLoop_exts by (auto simp: list_all_iff)
  then show ?thesis by (simp only: parseExtensions_def assms(1) map_map map_concat)
qed

text \<open>The example of RFC 6455, with a quoted value that holds a backslash.\<close>

lemma parse_extensions_text_witness:
  "parseExtensions [(''Sec-Websocket-Extensions'',
      [''foo, bar; baz='' @ [CHR 0x22, CHR ''a'', CHR 0x5C, CHR 0x5C, CHR 0x22]])] =
     [[('''', ''foo'')], [('''', ''bar''), (''baz'', ''a'' @ [CHR 0x5C])]]"
proof -
  let ?es = "[('''', ''foo'', '''', [] :: param list),
      ('' '', ''bar'', '''', [('' '', ''baz'', '''', Quoted '''' (''a'' @ [CHR 0x5C]) '''')])]"
  have "parseExtensions [(''Sec-Websocket-Extensions'', [exts_text ?es])] = map ext_map (concat [?es])"
    by (rule parse_extensions_text)
      (simp_all add: hIndex_def white_def token_def isTokenOctet_def tokenOctets_def)
  then show ?thesis by simp
qed

end
