(* ===== verification/Negotiation.thy ===== *)
theory Negotiation
  imports TokenText ConnBase
begin

text \<open>
  The negotiation of permessage-deflate: the modes and the parameters of src/compression.go, the
  server's choice among the client's offers (src/server.go, src/h2.go) and the client's reading of
  the answer (src/client.go, src/h2.go). The main result: both sides end with the same contexts.
\<close>

section \<open>Modes and parameters\<close>

definition CompressionModeDefault :: int where "CompressionModeDefault = 0"
definition CompressionModeDisabled :: int where "CompressionModeDisabled = 1"
definition CompressionModeNoContextTakeover :: int where "CompressionModeNoContextTakeover = 2"
definition CompressionModeContextTakeover :: int where "CompressionModeContextTakeover = 3"

lemmas compression_modes =
  CompressionModeDefault_def CompressionModeDisabled_def CompressionModeNoContextTakeover_def
  CompressionModeContextTakeover_def

lemma modes_distinct [simp]:
  "CompressionModeDefault \<noteq> CompressionModeDisabled" "CompressionModeDisabled \<noteq> CompressionModeDefault"
  "CompressionModeDefault \<noteq> CompressionModeNoContextTakeover" "CompressionModeNoContextTakeover \<noteq> CompressionModeDefault"
  "CompressionModeDefault \<noteq> CompressionModeContextTakeover" "CompressionModeContextTakeover \<noteq> CompressionModeDefault"
  "CompressionModeDisabled \<noteq> CompressionModeNoContextTakeover" "CompressionModeNoContextTakeover \<noteq> CompressionModeDisabled"
  "CompressionModeDisabled \<noteq> CompressionModeContextTakeover" "CompressionModeContextTakeover \<noteq> CompressionModeDisabled"
  "CompressionModeNoContextTakeover \<noteq> CompressionModeContextTakeover"
  "CompressionModeContextTakeover \<noteq> CompressionModeNoContextTakeover"
  by (simp_all add: compression_modes)

definition effectiveCompressionMode :: "int \<Rightarrow> bool \<Rightarrow> int" where
  "effectiveCompressionMode m enable =
     (if m \<noteq> CompressionModeDefault then m
      else if enable then CompressionModeNoContextTakeover
      else CompressionModeDisabled)"

definition compressionOfferHeader :: "int \<Rightarrow> string" where
  "compressionOfferHeader mode =
     (if mode = CompressionModeNoContextTakeover
      then ''permessage-deflate; server_no_context_takeover; client_no_context_takeover''
      else if mode = CompressionModeContextTakeover then ''permessage-deflate''
      else '''')"

record pmdeflateParams =
  serverNoContextTakeover :: bool
  clientNoContextTakeover :: bool
  windowBitsValid :: bool

text \<open>The body of the loop, for one entry of the map.\<close>

definition pmdeflateParam :: "string \<times> string \<Rightarrow> pmdeflateParams \<Rightarrow> pmdeflateParams" where
  "pmdeflateParam kv p =
     (case kv of (k, v) \<Rightarrow>
       if k = '''' then p
       else if k = ''server_no_context_takeover'' then p\<lparr>serverNoContextTakeover := True\<rparr>
       else if k = ''client_no_context_takeover'' then p\<lparr>clientNoContextTakeover := True\<rparr>
       else if k = ''server_max_window_bits''
         then (if v \<noteq> '''' \<and> v \<noteq> ''15'' then p\<lparr>windowBitsValid := False\<rparr> else p)
       else if k = ''client_max_window_bits''
         then (if v \<noteq> '''' \<and> v \<noteq> ''15'' then p\<lparr>windowBitsValid := False\<rparr> else p)
       else p)"

definition parsePMDeflate :: "extension \<Rightarrow> pmdeflateParams" where
  "parsePMDeflate ext =
     fold pmdeflateParam ext
       \<lparr>serverNoContextTakeover = False, clientNoContextTakeover = False, windowBitsValid = True\<rparr>"

text \<open>\<open>ext[""]\<close>\<close>

definition extName :: "extension \<Rightarrow> string" where
  "extName ext = (case map_of ext '''' of None \<Rightarrow> '''' | Some n \<Rightarrow> n)"

text \<open>The order in which the loop visits the entries does not matter.\<close>

definition bad_bits :: "extension \<Rightarrow> bool" where
  "bad_bits ext \<longleftrightarrow>
     (\<exists>(k, v) \<in> set ext. k \<in> {''server_max_window_bits'', ''client_max_window_bits''} \<and> v \<noteq> '''' \<and> v \<noteq> ''15'')"

lemma bad_bits_simps [simp]:
  "\<not> bad_bits []"
  "bad_bits ((k, v) # ext) \<longleftrightarrow>
     k \<in> {''server_max_window_bits'', ''client_max_window_bits''} \<and> v \<noteq> '''' \<and> v \<noteq> ''15'' \<or> bad_bits ext"
  by (simp_all add: bad_bits_def)

lemma pmdeflateParam_fields [simp]:
  "serverNoContextTakeover (pmdeflateParam (k, v) p) \<longleftrightarrow> serverNoContextTakeover p \<or> k = ''server_no_context_takeover''"
  "clientNoContextTakeover (pmdeflateParam (k, v) p) \<longleftrightarrow> clientNoContextTakeover p \<or> k = ''client_no_context_takeover''"
  "windowBitsValid (pmdeflateParam (k, v) p) \<longleftrightarrow> windowBitsValid p \<and> \<not> bad_bits [(k, v)]"
  by (auto simp: pmdeflateParam_def)

lemma parsePMDeflate_fold:
  "fold pmdeflateParam ext p =
     \<lparr>serverNoContextTakeover = (serverNoContextTakeover p \<or> ''server_no_context_takeover'' \<in> fst ` set ext),
      clientNoContextTakeover = (clientNoContextTakeover p \<or> ''client_no_context_takeover'' \<in> fst ` set ext),
      windowBitsValid = (windowBitsValid p \<and> \<not> bad_bits ext)\<rparr>"
proof (induction ext arbitrary: p)
  case (Cons kv ext)
  obtain k v where kv: "kv = (k, v)" by (cases kv)
  have "fold pmdeflateParam (kv # ext) p = fold pmdeflateParam ext (pmdeflateParam (k, v) p)" by (simp add: kv)
  also note Cons.IH
  finally show ?case by (auto simp: kv)
qed simp

lemma parsePMDeflate_params:
  "parsePMDeflate ext =
     \<lparr>serverNoContextTakeover = (''server_no_context_takeover'' \<in> fst ` set ext),
      clientNoContextTakeover = (''client_no_context_takeover'' \<in> fst ` set ext),
      windowBitsValid = (\<not> bad_bits ext)\<rparr>"
  by (simp add: parsePMDeflate_def parsePMDeflate_fold)

section \<open>The server's choice\<close>

text \<open>Whether to compress, and whether the server's and the client's writes keep their context.\<close>

type_synonym takeover = "bool \<times> bool \<times> bool"

fun offerLoop :: "int \<Rightarrow> extension list \<Rightarrow> takeover" where
  "offerLoop mode [] = (False, False, False)"
| "offerLoop mode (ext # exts) =
     (if extName ext \<noteq> ''permessage-deflate'' then offerLoop mode exts
      else let p = parsePMDeflate ext in
        if \<not> windowBitsValid p then (False, False, False)
        else if mode = CompressionModeContextTakeover
        then (True, \<not> serverNoContextTakeover p, \<not> clientNoContextTakeover p)
        else (True, False, False))"

definition negotiateOffer :: "int \<Rightarrow> header \<Rightarrow> takeover" where
  "negotiateOffer mode h =
     (if mode \<noteq> CompressionModeDisabled then offerLoop mode (parseExtensions h) else (False, False, False))"

text \<open>The value of Sec-WebSocket-Extensions in the answer.\<close>

definition extensionResponse :: "takeover \<Rightarrow> string" where
  "extensionResponse t =
     (case t of (compress, serverWriteTakeover, clientWriteTakeover) \<Rightarrow>
       ''permessage-deflate'' @
       (if \<not> serverWriteTakeover then ''; server_no_context_takeover'' else '''') @
       (if \<not> clientWriteTakeover then ''; client_no_context_takeover'' else ''''))"

definition serverCompression :: "takeover \<Rightarrow> 'a conn_scheme \<Rightarrow> 'a conn_scheme" where
  "serverCompression t c =
     (case t of (compress, serverWriteTakeover, clientWriteTakeover) \<Rightarrow>
       if compress then
         c\<lparr>newCompressionWriter := (if serverWriteTakeover then TakeoverFn else NoTakeoverFn),
           newDecompressionReader := (if clientWriteTakeover then TakeoverFn else NoTakeoverFn)\<rparr>
       else c)"

section \<open>The client's reading of the answer\<close>

definition errInvalidCompression :: gerror where
  "errInvalidCompression = ErrNew ''websocket: invalid compression negotiation''"

text \<open>Whether to compress, and whether the client's reads and writes keep their context.\<close>

fun responseLoop :: "int \<Rightarrow> extension list \<Rightarrow> gerror + takeover" where
  "responseLoop mode [] = Inr (False, False, False)"
| "responseLoop mode (ext # exts) =
     (if extName ext \<noteq> ''permessage-deflate'' then responseLoop mode exts
      else let p = parsePMDeflate ext;
          readTakeover = (mode = CompressionModeContextTakeover \<and> \<not> serverNoContextTakeover p);
          writeTakeover = (mode = CompressionModeContextTakeover \<and> \<not> clientNoContextTakeover p) in
        if \<not> windowBitsValid p then Inl errInvalidCompression
        else if mode = CompressionModeNoContextTakeover \<and>
            (\<not> serverNoContextTakeover p \<or> \<not> clientNoContextTakeover p) then Inl errInvalidCompression
        else Inr (True, readTakeover, writeTakeover))"

text \<open>Over HTTP/1.1 the answer is read whatever was offered, over HTTP/2 only if something was.\<close>

definition negotiateAnswer :: "int \<Rightarrow> header \<Rightarrow> gerror + takeover" where
  "negotiateAnswer mode h = responseLoop mode (parseExtensions h)"

definition negotiateAnswerH2 :: "int \<Rightarrow> header \<Rightarrow> gerror + takeover" where
  "negotiateAnswerH2 mode h =
     (if mode \<noteq> CompressionModeDisabled then responseLoop mode (parseExtensions h) else Inr (False, False, False))"

definition clientCompression :: "takeover \<Rightarrow> 'a conn_scheme \<Rightarrow> 'a conn_scheme" where
  "clientCompression t c =
     (case t of (compress, readTakeover, writeTakeover) \<Rightarrow>
       if compress then
         c\<lparr>newCompressionWriter := (if writeTakeover then TakeoverFn else NoTakeoverFn),
           newDecompressionReader := (if readTakeover then TakeoverFn else NoTakeoverFn)\<rparr>
       else c)"

section \<open>Agreement\<close>

abbreviation bare :: "string \<Rightarrow> param" where
  "bare k \<equiv> ('' '', k, '''', NoValue)"

lemma tokens_of_deflate [simp]:
  "token ''permessage-deflate''" "token ''server_no_context_takeover''" "token ''client_no_context_takeover''"
  by (simp_all add: token_def isTokenOctet_def tokenOctets_def)

text \<open>What the parser makes of the texts both sides write.\<close>

lemma parse_response:
  assumes "hIndex h ''Sec-Websocket-Extensions'' = [extensionResponse (compress, s, c)]"
  shows "parseExtensions h =
    [[('''', ''permessage-deflate'')] @ (if s then [] else [(''server_no_context_takeover'', '''')]) @
      (if c then [] else [(''client_no_context_takeover'', '''')])]"
proof -
  let ?e = "('''', ''permessage-deflate'', '''',
      (if s then [] else [bare ''server_no_context_takeover'']) @ (if c then [] else [bare ''client_no_context_takeover'']))"
  have "hIndex h ''Sec-Websocket-Extensions'' = map exts_text [[?e]]"
    by (simp add: assms extensionResponse_def)
  then have "parseExtensions h = map ext_map (concat [[?e]])"
    unfolding parseExtensions_def by (simp only: map_map) (simp add: extLoop_exts white_def del: exts_text.simps ext_text.simps)
  then show ?thesis by simp
qed

lemma offer_text:
  assumes "hIndex h ''Sec-Websocket-Extensions'' = (if offer = '''' then [] else [offer])" and "offer = compressionOfferHeader m"
  shows "parseExtensions h =
    (if m = CompressionModeNoContextTakeover
     then [[('''', ''permessage-deflate''), (''server_no_context_takeover'', ''''), (''client_no_context_takeover'', '''')]]
     else if m = CompressionModeContextTakeover then [[('''', ''permessage-deflate'')]] else [])"
proof -
  consider "m = CompressionModeNoContextTakeover" | "m = CompressionModeContextTakeover" |
    "m \<noteq> CompressionModeNoContextTakeover" "m \<noteq> CompressionModeContextTakeover" by blast
  then show ?thesis
  proof cases
    case 1
    then have "hIndex h ''Sec-Websocket-Extensions'' = [extensionResponse (True, False, False)]"
      using assms by (simp add: compressionOfferHeader_def extensionResponse_def)
    with 1 show ?thesis by (simp add: parse_response)
  next
    case 2
    then have "hIndex h ''Sec-Websocket-Extensions'' = [extensionResponse (True, True, True)]"
      using assms by (simp add: compressionOfferHeader_def extensionResponse_def)
    with 2 show ?thesis by (simp add: parse_response)
  next
    case 3
    with assms show ?thesis by (simp add: compressionOfferHeader_def parseExtensions_def)
  qed
qed

lemma compression_agreement:
  assumes "hIndex request ''Sec-Websocket-Extensions'' =
      (if compressionOfferHeader mc = '''' then [] else [compressionOfferHeader mc])"
    and "negotiateOffer ms request = (compress, sw, cw)"
    and "hIndex answer ''Sec-Websocket-Extensions'' = (if compress then [extensionResponse (compress, sw, cw)] else [])"
  shows "negotiateAnswer mc answer = Inr (compress, sw, cw) \<and> negotiateAnswerH2 mc answer = Inr (compress, sw, cw) \<and>
    (compress = (compressionOfferHeader mc \<noteq> '''' \<and> ms \<noteq> CompressionModeDisabled)) \<and>
    (sw = (mc = CompressionModeContextTakeover \<and> ms = CompressionModeContextTakeover)) \<and> cw = sw"
proof -
  have offered: "negotiateOffer ms request =
      (if ms = CompressionModeDisabled \<or> compressionOfferHeader mc = '''' then (False, False, False)
       else if ms = CompressionModeContextTakeover \<and> mc = CompressionModeContextTakeover then (True, True, True)
       else (True, False, False))"
    unfolding negotiateOffer_def offer_text [OF assms(1) refl]
    by (simp add: compressionOfferHeader_def parsePMDeflate_params extName_def Let_def)
  have eqs: "compress = (compressionOfferHeader mc \<noteq> '''' \<and> ms \<noteq> CompressionModeDisabled)"
    "sw = (mc = CompressionModeContextTakeover \<and> ms = CompressionModeContextTakeover)" "cw = sw"
    using offered assms(2)
    by (auto split: if_splits simp: compressionOfferHeader_def)
  have "negotiateAnswer mc answer = Inr (compress, sw, cw) \<and> negotiateAnswerH2 mc answer = Inr (compress, sw, cw)"
  proof (cases compress)
    case True
    then have "parseExtensions answer =
        [[('''', ''permessage-deflate'')] @ (if sw then [] else [(''server_no_context_takeover'', '''')]) @
          (if cw then [] else [(''client_no_context_takeover'', '''')])]"
      using parse_response [of answer compress sw cw] assms(3) by simp
    moreover have "mc = CompressionModeContextTakeover \<or> mc = CompressionModeNoContextTakeover"
      using eqs(1) True by (auto simp: compressionOfferHeader_def split: if_splits)
    ultimately show ?thesis using eqs True
      by (auto simp: negotiateAnswer_def negotiateAnswerH2_def parsePMDeflate_params extName_def Let_def)
  next
    case False
    then have "parseExtensions answer = []" using assms(3) by (simp add: parseExtensions_def)
    moreover have "\<not> sw" "\<not> cw" using False eqs by (auto simp: compressionOfferHeader_def)
    ultimately show ?thesis using False by (simp add: negotiateAnswer_def negotiateAnswerH2_def)
  qed
  with eqs show ?thesis by blast
qed

text \<open>C29: client and server agree on compression. Whatever the modes of the two sides, when the client's offer
  reaches the server and the server's answer the client, the client accepts the answer, both sides
  compress or neither does, each direction keeps its context on both sides or on neither, and this is
  so exactly if both were set to context takeover.\<close>

theorem compression_agrees:
  assumes "hIndex request ''Sec-Websocket-Extensions'' =
      (if compressionOfferHeader mc = '''' then [] else [compressionOfferHeader mc])"
    and "negotiateOffer ms request = (compress, sw, cw)"
    and "hIndex answer ''Sec-Websocket-Extensions'' = (if compress then [extensionResponse (compress, sw, cw)] else [])"
  shows "negotiateAnswer mc answer = Inr (compress, sw, cw) \<and> negotiateAnswerH2 mc answer = Inr (compress, sw, cw) \<and>
    (compress = (compressionOfferHeader mc \<noteq> '''' \<and> ms \<noteq> CompressionModeDisabled)) \<and>
    (sw = (mc = CompressionModeContextTakeover \<and> ms = CompressionModeContextTakeover)) \<and> cw = sw"
  using assms by (rule compression_agreement)

text \<open>A client set to context takeover, and a server that only compresses without it.\<close>

lemma compression_agrees_witness:
  "negotiateAnswer CompressionModeContextTakeover
     [(''Sec-Websocket-Extensions'', [extensionResponse (True, False, False)])] = Inr (True, False, False)"
proof -
  let ?r = "[(''Sec-Websocket-Extensions'', [''permessage-deflate''])]"
  have r: "hIndex ?r ''Sec-Websocket-Extensions'' =
      (if compressionOfferHeader CompressionModeContextTakeover = '''' then []
       else [compressionOfferHeader CompressionModeContextTakeover])"
    by (simp add: hIndex_def compressionOfferHeader_def)
  have n: "negotiateOffer CompressionModeNoContextTakeover ?r = (True, False, False)"
    unfolding negotiateOffer_def offer_text [OF r refl]
    by (simp add: parsePMDeflate_params extName_def Let_def)
  show ?thesis
    using compression_agrees [OF r n, of "[(''Sec-Websocket-Extensions'', [extensionResponse (True, False, False)])]"]
    by (simp add: hIndex_def)
qed

text \<open>Over HTTP/1.1 a client that offered nothing accepts permessage-deflate from the server and
  compresses from then on; over HTTP/2 it ignores it.\<close>

lemma unsolicited_compression:
  assumes "parseExtensions answer = ext # exts" and "extName ext = ''permessage-deflate''" and "\<not> bad_bits ext"
  shows "compressionOfferHeader CompressionModeDisabled = '''' \<and>
    negotiateAnswer CompressionModeDisabled answer = Inr (True, False, False) \<and>
    negotiateAnswerH2 CompressionModeDisabled answer = Inr (False, False, False)"
  using assms by (simp add: compressionOfferHeader_def negotiateAnswer_def negotiateAnswerH2_def
      parsePMDeflate_params)

lemma unsolicited_compression_sample:
  "negotiateAnswer CompressionModeDisabled [(''Sec-Websocket-Extensions'', [''permessage-deflate''])] =
     Inr (True, False, False)"
proof -
  let ?a = "[(''Sec-Websocket-Extensions'', [''permessage-deflate''])]"
  have "parseExtensions ?a = [[('''', ''permessage-deflate'')]]"
    using parse_response [of ?a True True True] by (simp add: hIndex_def extensionResponse_def)
  then show ?thesis using unsolicited_compression [of ?a] by (simp add: extName_def)
qed

text \<open>An offer of another window size ends the negotiation: the first offer of permessage-deflate
  decides, and a later one that could be accepted is not looked at.\<close>

lemma first_offer_decides:
  assumes "parseExtensions h = others @ ext # exts" and "list_all (\<lambda>e. extName e \<noteq> ''permessage-deflate'') others"
    and "extName ext = ''permessage-deflate''"
  shows "negotiateOffer mode h =
    (if mode = CompressionModeDisabled \<or> bad_bits ext then (False, False, False)
     else if mode = CompressionModeContextTakeover
     then (True, ''server_no_context_takeover'' \<notin> fst ` set ext, ''client_no_context_takeover'' \<notin> fst ` set ext)
     else (True, False, False))"
proof -
  have "offerLoop mode (others @ ext # exts) = offerLoop mode (ext # exts)"
    using assms(2) by (induction others) auto
  then show ?thesis
    using assms(1,3) by (cases "mode = CompressionModeContextTakeover")
      (auto simp: negotiateOffer_def parsePMDeflate_params Let_def)
qed

lemma first_offer_decides_sample:
  "negotiateOffer CompressionModeContextTakeover
     [(''Sec-Websocket-Extensions'', [''permessage-deflate; server_max_window_bits=10, permessage-deflate''])] =
     (False, False, False)"
proof -
  let ?h = "[(''Sec-Websocket-Extensions'', [''permessage-deflate; server_max_window_bits=10, permessage-deflate''])]"
  let ?e = "[('''', ''permessage-deflate'', '''', [('' '', ''server_max_window_bits'', '''', Plain '''' ''10'' '''')]),
    ('' '', ''permessage-deflate'', '''', [])]"
  have "hIndex ?h ''Sec-Websocket-Extensions'' = map exts_text [?e]" by (simp add: hIndex_def)
  then have "parseExtensions ?h = map ext_map ?e"
    unfolding parseExtensions_def
    by (simp only: map_map) (simp add: extLoop_exts white_def token_def isTokenOctet_def tokenOctets_def
        del: exts_text.simps ext_text.simps)
  then show ?thesis
    using first_offer_decides [of ?h "[]" "[('''', ''permessage-deflate''), (''server_max_window_bits'', ''10'')]"
        "[[('''', ''permessage-deflate'')]]" CompressionModeContextTakeover]
    by (simp add: extName_def)
qed

end
