(* ===== verification/Crypto.thy ===== *)
theory Crypto
  imports Prelude
begin

text \<open>
  The parts of the standard library the opening handshake computes with: package encoding/base64
  (StdEncoding) and package crypto/sha1, both on byte sequences, and the challenge and accept keys
  of src/util.go made from them.
\<close>

section \<open>Base64\<close>

text \<open>The digits: capitals, small letters, decimal digits, plus and slash.\<close>

definition b64_char :: "nat \<Rightarrow> char" where
  "b64_char n =
     char_of (if n < 26 then n + 65 else if n < 52 then n + 71 else if n < 62 then n - 4
              else if n = 62 then 43 else (47 :: nat))"

text \<open>The value of a digit: a range of characters each for the letters and the decimal digits.\<close>

definition b64_value :: "char \<Rightarrow> nat option" where
  "b64_value c =
     (let n = of_char c in
      if 65 \<le> n \<and> n \<le> 90 then Some (n - 65)
      else if 97 \<le> n \<and> n \<le> 122 then Some (n - 71)
      else if 48 \<le> n \<and> n \<le> 57 then Some (n + 4)
      else if n = 43 then Some 62
      else if n = 47 then Some 63
      else None)"

fun b64_encode :: "nat list \<Rightarrow> string" where
  "b64_encode [] = ''''"
| "b64_encode [a] = [b64_char (a div 4), b64_char (a mod 4 * 16), CHR ''='', CHR ''='']"
| "b64_encode [a, b] =
     [b64_char (a div 4), b64_char (a mod 4 * 16 + b div 16), b64_char (b mod 16 * 4), CHR ''='']"
| "b64_encode (a # b # c # r) =
     b64_char (a div 4) # b64_char (a mod 4 * 16 + b div 16) #
     b64_char (b mod 16 * 4 + c div 64) # b64_char (c mod 64) # b64_encode r"

definition b64_EncodeToString :: "bytes \<Rightarrow> string" where
  "b64_EncodeToString p = b64_encode (map unat p)"

text \<open>
  The decoder takes four characters at a time; padding ends the text, and the bits below it are
  not looked at. Line breaks are skipped wherever they stand.
\<close>

fun b64_quanta :: "string \<Rightarrow> nat list option" where
  "b64_quanta [] = Some []"
| "b64_quanta (a # b # c # d # r) =
     (case (b64_value a, b64_value b) of
        (Some x, Some y) \<Rightarrow>
          if c = CHR ''='' then (if d = CHR ''='' \<and> r = [] then Some [x * 4 + y div 16] else None)
          else (case b64_value c of
              None \<Rightarrow> None
            | Some z \<Rightarrow>
                if d = CHR ''=''
                then (if r = [] then Some [x * 4 + y div 16, y mod 16 * 16 + z div 4] else None)
                else (case b64_value d of
                    None \<Rightarrow> None
                  | Some w \<Rightarrow> (case b64_quanta r of
                        None \<Rightarrow> None
                      | Some bs \<Rightarrow> Some ((x * 4 + y div 16) # (y mod 16 * 16 + z div 4) # (z mod 4 * 64 + w) # bs))))
      | _ \<Rightarrow> None)"
| "b64_quanta _ = None"

definition b64_DecodeString :: "string \<Rightarrow> bytes option" where
  "b64_DecodeString s =
     map_option (map of_nat) (b64_quanta (filter (\<lambda>c. c \<noteq> CHR 0x0A \<and> c \<noteq> CHR 0x0D) s))"

lemma b64_char_code: "n < 64 \<Longrightarrow> of_char (b64_char n) =
    (if n < 26 then n + 65 else if n < 52 then n + 71 else if n < 62 then n - 4 else if n = 62 then 43 else (47 :: nat))"
  by (simp add: b64_char_def)

lemma b64_char_simps [simp]:
  assumes "n < 64"
  shows "b64_value (b64_char n) = Some n" "b64_char n \<noteq> CHR ''=''"
    "b64_char n \<noteq> CHR 0x0A" "b64_char n \<noteq> CHR 0x0D"
proof -
  show "b64_value (b64_char n) = Some n"
    using assms by (simp add: b64_value_def b64_char_code Let_def) arith
  have "c \<noteq> b64_char n" if "of_char c \<noteq> (of_char (b64_char n) :: nat)" for c
    using that by blast
  then show "b64_char n \<noteq> CHR ''=''" "b64_char n \<noteq> CHR 0x0A" "b64_char n \<noteq> CHR 0x0D"
    using b64_char_code [OF assms] assms by (fastforce split: if_splits)+
qed

lemma b64_eq_value [simp]: "b64_value (CHR ''='') = None"
  by code_simp



lemma b64_digits_lt [simp]:
  fixes a b c :: nat
  shows "a < 256 \<Longrightarrow> a div 4 < 64" "b < 256 \<Longrightarrow> a mod 4 * 16 + b div 16 < 64" "a mod 4 * 16 < 64"
    "c < 256 \<Longrightarrow> b mod 16 * 4 + c div 64 < 64" "b mod 16 * 4 < 64" "c mod 64 < 64"
proof -
  have m: "a mod 4 \<le> 3" "b mod 16 \<le> 15" using mod_less_divisor [of 4 a] mod_less_divisor [of 16 b] by linarith+
  show "a < 256 \<Longrightarrow> a div 4 < 64" by (simp add: div_less_iff_less_mult)
  show "a mod 4 * 16 < 64" "b mod 16 * 4 < 64" "c mod 64 < 64" using m by simp_all
  show "a mod 4 * 16 + b div 16 < 64" if "b < 256"
    using m(1) that less_mult_imp_div_less [of b 16 16] by simp
  show "b mod 16 * 4 + c div 64 < 64" if "c < 256"
    using m(2) that less_mult_imp_div_less [of c 4 64] by simp
qed

lemma b64_bytes [simp]:
  fixes b c :: nat
  shows "b < 256 \<Longrightarrow> b div 16 div 16 = 0" "b < 256 \<Longrightarrow> b div 16 mod 16 * 16 + b mod 16 = b"
    "c < 256 \<Longrightarrow> c div 64 div 4 = 0" "c < 256 \<Longrightarrow> c div 64 mod 4 * 64 + c mod 64 = c"
  by (simp_all add: div_mult2_eq [symmetric] div_mult_mod_eq less_mult_imp_div_less)

lemma b64_quanta_encode: "list_all (\<lambda>n. n < 256) ns \<Longrightarrow> b64_quanta (b64_encode ns) = Some ns"
  by (induction ns rule: b64_encode.induct) simp_all

lemma b64_encode_lines:
  "list_all (\<lambda>n. n < 256) ns \<Longrightarrow> filter (\<lambda>c. c \<noteq> CHR 0x0A \<and> c \<noteq> CHR 0x0D) (b64_encode ns) = b64_encode ns"
  by (induction ns rule: b64_encode.induct) simp_all

lemma b64_decode_encode [simp]: "b64_DecodeString (b64_EncodeToString p) = Some p"
proof -
  have "list_all (\<lambda>n. n < 256) (map unat p)" by (simp add: list_all_iff)
  then show ?thesis
    by (simp add: b64_DecodeString_def b64_EncodeToString_def b64_encode_lines b64_quanta_encode comp_def)
qed

lemma b64_encode_Nil_iff [simp]: "b64_EncodeToString p = [] \<longleftrightarrow> p = []"
  by (cases "map unat p" rule: b64_encode.cases) (auto simp: b64_EncodeToString_def)

section \<open>SHA-1\<close>

text \<open>The message is padded to whole blocks of 64 bytes, with its length in bits at the end.\<close>

definition word_bytes :: "'a :: len word \<Rightarrow> bytes" where
  "word_bytes w = map (\<lambda>i. ucast (drop_bit (8 * i) w)) (rev [0..<LENGTH('a) div 8])"

definition sha1_pad :: "bytes \<Rightarrow> bytes" where
  "sha1_pad m =
     m @ [0x80] @ replicate ((119 - length m mod 64) mod 64) 0 @
     word_bytes (push_bit 3 (of_nat (length m) :: 64 word))"

fun sha1_words :: "bytes \<Rightarrow> 32 word list" where
  "sha1_words (a # b # c # d # r) =
     (push_bit 24 (ucast a) OR push_bit 16 (ucast b) OR push_bit 8 (ucast c) OR ucast d) # sha1_words r"
| "sha1_words _ = []"

text \<open>The schedule of 80 words, the last one first.\<close>

fun sha1_expand :: "nat \<Rightarrow> 32 word list \<Rightarrow> 32 word list" where
  "sha1_expand 0 ws = ws"
| "sha1_expand (Suc n) ws =
     sha1_expand n (word_rotl 1 (ws ! 2 XOR ws ! 7 XOR ws ! 13 XOR ws ! 15) # ws)"

type_synonym sha1_state = "32 word \<times> 32 word \<times> 32 word \<times> 32 word \<times> 32 word"

definition sha1_init :: sha1_state where
  "sha1_init = (0x67452301, 0xEFCDAB89, 0x98BADCFE, 0x10325476, 0xC3D2E1F0)"

definition sha1_f :: "nat \<Rightarrow> 32 word \<Rightarrow> 32 word \<Rightarrow> 32 word \<Rightarrow> 32 word" where
  "sha1_f t b c d =
     (if t < 20 then (b AND c) OR (NOT b AND d)
      else if 40 \<le> t \<and> t < 60 then (b AND c) OR (b AND d) OR (c AND d)
      else b XOR c XOR d)"

definition sha1_k :: "nat \<Rightarrow> 32 word" where
  "sha1_k t = (if t < 20 then 0x5A827999 else if t < 40 then 0x6ED9EBA1
               else if t < 60 then 0x8F1BBCDC else 0xCA62C1D6)"

fun sha1_rounds :: "nat \<Rightarrow> 32 word list \<Rightarrow> sha1_state \<Rightarrow> sha1_state" where
  "sha1_rounds t [] s = s"
| "sha1_rounds t (w # ws) (a, b, c, d, e) =
     sha1_rounds (t + 1) ws
       (word_rotl 5 a + sha1_f t b c d + e + w + sha1_k t, a, word_rotl 30 b, c, d)"

definition sha1_block :: "bytes \<Rightarrow> sha1_state \<Rightarrow> sha1_state" where
  "sha1_block p s =
     (case s of (h0, h1, h2, h3, h4) \<Rightarrow>
      case sha1_rounds 0 (rev (sha1_expand 64 (rev (sha1_words p)))) s of (a, b, c, d, e) \<Rightarrow>
        (h0 + a, h1 + b, h2 + c, h3 + d, h4 + e))"

function sha1_blocks :: "bytes \<Rightarrow> sha1_state \<Rightarrow> sha1_state" where
  "sha1_blocks p s = (if p = [] then s else sha1_blocks (drop 64 p) (sha1_block (take 64 p) s))"
  by pat_completeness auto
termination by (relation "measure (\<lambda>(p, s). length p)") auto

declare sha1_blocks.simps [simp del]

definition sha1_sum :: "bytes \<Rightarrow> bytes" where
  "sha1_sum m =
     (case sha1_blocks (sha1_pad m) sha1_init of (h0, h1, h2, h3, h4) \<Rightarrow>
        concat (map word_bytes [h0, h1, h2, h3, h4]))"

lemma length_sha1_sum: "length (sha1_sum m) = 20"
  by (simp add: sha1_sum_def word_bytes_def split: prod.splits)

section \<open>Challenge and accept keys\<close>

definition keyGUID :: string where
  "keyGUID = ''258EAFA5-E914-47DA-95CA-C5AB0DC85B11''"

definition computeAcceptKey :: "string \<Rightarrow> string" where
  "computeAcceptKey challengeKey =
     b64_EncodeToString (sha1_sum (bytes_of_string challengeKey @ bytes_of_string keyGUID))"

text \<open>The 16 bytes \<open>io.ReadFull(rand.Reader, p)\<close> delivers, or its error.\<close>

definition generateChallengeKey :: "'e + bytes \<Rightarrow> 'e + string" where
  "generateChallengeKey rand = (case rand of Inl err \<Rightarrow> Inl err | Inr p \<Rightarrow> Inr (b64_EncodeToString p))"

definition isValidChallengeKey :: "string \<Rightarrow> bool" where
  "isValidChallengeKey s =
     (if s = '''' then False
      else (case b64_DecodeString s of None \<Rightarrow> False | Some decoded \<Rightarrow> length decoded = 16))"

lemma generated_key_valid:
  "length p = 16 \<Longrightarrow> generateChallengeKey (Inr p) = Inr (b64_EncodeToString p) \<and> isValidChallengeKey (b64_EncodeToString p)"
  by (auto simp: generateChallengeKey_def isValidChallengeKey_def)

end
