(* ===== verification/Handshake.thy ===== *)
theory Handshake
  imports Negotiation Crypto ConnWrite
begin

text \<open>
  What the server's handshakes over HTTP/1.1 (src/server.go) and HTTP/2 (src/h2.go) share: requests
  and responses, the Upgrader, error replies, the origin check and the choice of a subprotocol.
\<close>

section \<open>Strings (package strings)\<close>

fun splitAt :: "char \<Rightarrow> string \<Rightarrow> string list" where
  "splitAt c [] = ['''']"
| "splitAt c (x # s) = (if x = c then '''' # splitAt c s else (case splitAt c s of [] \<Rightarrow> [[x]] | p # ps \<Rightarrow> (x # p) # ps))"

fun joinWith :: "string \<Rightarrow> string list \<Rightarrow> string" where
  "joinWith sep [] = ''''"
| "joinWith sep [s] = s"
| "joinWith sep (s # ss) = s @ sep @ joinWith sep ss"

text \<open>The characters of \<open>unicode.IsSpace\<close>, encoded in UTF-8.\<close>

definition spaceTexts :: "string list" where
  "spaceTexts =
     [[CHR 0x09], [CHR 0x0A], [CHR 0x0B], [CHR 0x0C], [CHR 0x0D], [CHR 0x20],
      [CHR 0xC2, CHR 0x85], [CHR 0xC2, CHR 0xA0], [CHR 0xE1, CHR 0x9A, CHR 0x80],
      [CHR 0xE2, CHR 0x80, CHR 0x80], [CHR 0xE2, CHR 0x80, CHR 0x81], [CHR 0xE2, CHR 0x80, CHR 0x82],
      [CHR 0xE2, CHR 0x80, CHR 0x83], [CHR 0xE2, CHR 0x80, CHR 0x84], [CHR 0xE2, CHR 0x80, CHR 0x85],
      [CHR 0xE2, CHR 0x80, CHR 0x86], [CHR 0xE2, CHR 0x80, CHR 0x87], [CHR 0xE2, CHR 0x80, CHR 0x88],
      [CHR 0xE2, CHR 0x80, CHR 0x89], [CHR 0xE2, CHR 0x80, CHR 0x8A], [CHR 0xE2, CHR 0x80, CHR 0xA8],
      [CHR 0xE2, CHR 0x80, CHR 0xA9], [CHR 0xE2, CHR 0x80, CHR 0xAF], [CHR 0xE2, CHR 0x81, CHR 0x9F],
      [CHR 0xE3, CHR 0x80, CHR 0x80]]"

function trimPrefixes :: "string list \<Rightarrow> string \<Rightarrow> string" where
  "trimPrefixes ws s =
     (case find (\<lambda>w. w \<noteq> [] \<and> take (length w) s = w) ws of
        None \<Rightarrow> s | Some w \<Rightarrow> trimPrefixes ws (drop (length w) s))"
  by pat_completeness auto
termination
proof (relation "measure (\<lambda>(ws, s). length s)", goal_cases)
  case (2 ws s w)
  then have "w \<noteq> []" "take (length w) s = w" by (auto simp: find_Some_iff)
  then have "length (drop (length w) s) < length s" by (cases s) auto
  then show ?case by simp
qed simp

declare trimPrefixes.simps [simp del]

definition TrimSpace :: "string \<Rightarrow> string" where
  "TrimSpace s = rev (trimPrefixes (map rev spaceTexts) (rev (trimPrefixes spaceTexts s)))"

section \<open>Requests, responses and the Upgrader\<close>

record request =
  rqProtoMajor :: int
  rqMethod :: string
  rqHeader :: header
  rqHost :: string
  rqRemoteAddr :: string

record responseWriter =
  rwHeader :: header
  rwStatus :: "int option"
  rwBody :: string

text \<open>The parts of a URL the code looks at; \<open>url.Parse\<close> is a parameter of the model.\<close>

record url =
  urlScheme :: string
  urlHost :: string
  urlUser :: "(string \<times> string) option"

type_synonym url_parser = "string \<Rightarrow> gerror + url"

text \<open>
  The Upgrader. A nil function or list is None; a buffer pool is present or not. The Error hook is
  given the reason's text.
\<close>

record upgrader =
  uHandshakeTimeout :: int
  uReadBufferSize :: int
  uWriteBufferSize :: int
  uWriteBufferPool :: bool
  uSubprotocols :: "string list option"
  uIsValidChallengeKey :: "(string \<Rightarrow> bool) option"
  uNegotiateSubprotocol :: "(request \<Rightarrow> string list \<Rightarrow> string) option"
  uError :: "(responseWriter \<Rightarrow> request \<Rightarrow> int \<Rightarrow> string \<Rightarrow> responseWriter) option"
  uCheckOrigin :: "(request \<Rightarrow> bool) option"
  uEnableCompression :: bool
  uCompressionMode :: int
  uSkipUTF8Validation :: bool

text \<open>The errors Upgrade returns: a HandshakeError, or an error of the network.\<close>

datatype upgrade_error = HandshakeError string | UpgradeFailed gerror

section \<open>Error replies\<close>

text \<open>\<open>http.Error\<close>\<close>

definition httpError :: "string \<Rightarrow> int \<Rightarrow> responseWriter \<Rightarrow> responseWriter" where
  "httpError text code w =
     w\<lparr>rwHeader := hSet ''X-Content-Type-Options'' ''nosniff''
         (hSet ''Content-Type'' ''text/plain; charset=utf-8'' (hDel ''Content-Length'' (rwHeader w))),
       rwStatus := Some code, rwBody := rwBody w @ text @ [CHR 0x0A]\<rparr>"

definition returnError ::
  "upgrader \<Rightarrow> responseWriter \<Rightarrow> request \<Rightarrow> int \<Rightarrow> string \<Rightarrow> upgrade_error \<times> responseWriter" where
  "returnError u w r status reason =
     (HandshakeError reason,
      (case uError u of
         Some f \<Rightarrow> f w r status reason
       | None \<Rightarrow> httpError (StatusText status) status (w\<lparr>rwHeader := hSet ''Sec-Websocket-Version'' ''13'' (rwHeader w)\<rparr>)))"

section \<open>Origin and subprotocol\<close>

definition checkSameOrigin :: "url_parser \<Rightarrow> request \<Rightarrow> bool" where
  "checkSameOrigin parseURL r =
     (case hIndex (rqHeader r) ''Origin'' of
        [] \<Rightarrow> True
      | o1 # _ \<Rightarrow> (case parseURL o1 of
            Inl err \<Rightarrow> False
          | Inr u \<Rightarrow> equalASCIIFold (urlHost u) (rqHost r)))"

definition originAllowed :: "url_parser \<Rightarrow> upgrader \<Rightarrow> request \<Rightarrow> bool" where
  "originAllowed parseURL u r =
     (case uCheckOrigin u of Some f \<Rightarrow> f r | None \<Rightarrow> checkSameOrigin parseURL r)"

definition Subprotocols :: "request \<Rightarrow> string list" where
  "Subprotocols r =
     (let h = TrimSpace (hGet (rqHeader r) ''Sec-Websocket-Protocol'') in
      if h = '''' then [] else map TrimSpace (splitAt CHR '','' h))"

definition selectSubprotocol :: "upgrader \<Rightarrow> request \<Rightarrow> header \<Rightarrow> string" where
  "selectSubprotocol u r responseHeader =
     (case uNegotiateSubprotocol u of
        Some f \<Rightarrow> f r (Subprotocols r)
      | None \<Rightarrow> (case uSubprotocols u of
            Some protocols \<Rightarrow>
              (case find (\<lambda>clientProtocol. list_ex (\<lambda>serverProtocol. clientProtocol = serverProtocol) protocols)
                  (Subprotocols r) of
                 Some p \<Rightarrow> p
               | None \<Rightarrow> '''')
          | None \<Rightarrow> hGet responseHeader ''Sec-Websocket-Protocol''))"

definition IsWebSocketUpgrade :: "request \<Rightarrow> bool" where
  "IsWebSocketUpgrade r =
     (tokenListContainsValue (rqHeader r) ''Connection'' ''upgrade'' \<and>
      tokenListContainsValue (rqHeader r) ''Upgrade'' ''websocket'')"

definition serverTakeover :: "upgrader \<Rightarrow> request \<Rightarrow> takeover" where
  "serverTakeover u r =
     negotiateOffer (effectiveCompressionMode (uCompressionMode u) (uEnableCompression u)) (rqHeader r)"

text \<open>The loop that replaces control characters of a header value, to prevent response splitting.\<close>

definition sanitizeHeaderValue :: "string \<Rightarrow> string" where
  "sanitizeHeaderValue v = map (\<lambda>c. if of_char c \<le> (31 :: nat) then CHR '' '' else c) v"

end
