(* ===== verification/Dialing.thy ===== *)
theory Dialing
  imports Handshake
begin

text \<open>
  How a Dialer gets its network connection (src/client.go and src/proxy.go): the dial functions it
  composes, as values that are then run, the tunnel through an HTTP proxy, TLS and deadlines; and the
  small text functions of src/h2.go. Sockets, TLS and what a proxy answers are parameters.
\<close>

section \<open>Hosts and ports\<close>

fun lastIndex :: "char \<Rightarrow> string \<Rightarrow> int" where
  "lastIndex c [] = -1"
| "lastIndex c (x # s) = (let i = lastIndex c s in if i \<ge> 0 then i + 1 else if x = c then 0 else -1)"

definition hostPortNoPort :: "url \<Rightarrow> string \<times> string" where
  "hostPortNoPort u =
     (let i = lastIndex CHR '':'' (urlHost u) in
      if i > lastIndex CHR '']'' (urlHost u) then (urlHost u, take (nat i) (urlHost u))
      else (urlHost u @
             (if urlScheme u = ''wss'' then '':443'' else if urlScheme u = ''https'' then '':443'' else '':80''),
            urlHost u))"

definition HasSuffix :: "string \<Rightarrow> string \<Rightarrow> bool" where
  "HasSuffix s t \<longleftrightarrow> length t \<le> length s \<and> drop (length s - length t) s = t"

fun contains :: "string \<Rightarrow> string \<Rightarrow> bool" where
  "contains [] t = (t = [])"
| "contains (c # s) t = (take (length t) (c # s) = t \<or> contains s t)"

definition stripPort :: "string \<Rightarrow> string" where
  "stripPort host =
     (let i = lastIndex CHR '':'' host in
      if i \<ge> 0 \<and> (\<not> HasSuffix (take (nat i) host) '']'' \<or> contains host '']'') then take (nat i) host
      else host)"

definition containsString :: "string list \<Rightarrow> string \<Rightarrow> bool" where
  "containsString ss s = list_ex (\<lambda>v. v = s) ss"

text \<open>An IPv6 address without a port loses its end.\<close>

lemma stripPort_cuts_address: "stripPort ''[::1]'' = ''[:''"
  by (simp add: stripPort_def Let_def)

section \<open>TLS\<close>

record tlsConfig =
  tcServerName :: string
  tcNextProtos :: "string list"
  tcInsecureSkipVerify :: bool

definition cloneTLSConfig :: "tlsConfig option \<Rightarrow> tlsConfig" where
  "cloneTLSConfig cfg =
     (case cfg of None \<Rightarrow> \<lparr>tcServerName = '''', tcNextProtos = [], tcInsecureSkipVerify = False\<rparr> | Some c \<Rightarrow> c)"

text \<open>A network connection: its environment for newConn, its deadline, and the TLS handshakes made on it, each
  with the server name and whether the peer's name was verified.\<close>

record netConn =
  ncEnv :: environment
  ncDeadline :: time
  ncTLS :: "(string \<times> bool) list"

section \<open>Dialers\<close>

text \<open>The fields of a Dialer. Of the dial functions only their presence matters here: what they return is
  part of the world.\<close>

record dialer =
  dNetDial :: bool
  dNetDialContext :: bool
  dNetDialTLSContext :: bool
  dProxy :: "(request \<Rightarrow> gerror + url option) option"
  dProxyConnectHeader :: header
  dTLSClientConfig :: "tlsConfig option"
  dHandshakeTimeout :: int
  dReadBufferSize :: int
  dWriteBufferSize :: int
  dWriteBufferPool :: bool
  dSubprotocols :: "string list"
  dEnableCompression :: bool
  dCompressionMode :: int
  dJar :: bool
  dMaxErrorBodySize :: int
  dHTTP2 :: int
  dDisableClientMask :: bool
  dSkipUTF8Validation :: bool

text \<open>A dial function, as the code composes it.\<close>

datatype dialFn =
    UserDialContext | UserDial | NetDialer | UserDialTLS
  | WithTLS dialFn "tlsConfig option" url
  | WithDeadline dialFn int
  | HttpProxy url dialFn header
  | OtherProxy url dialFn

text \<open>
  What answers: the base dial functions and the third-party proxy dialers, TLS handshakes and the
  check of the peer's name, deadlines, and for a proxy the write of the CONNECT request and the
  response, a status code and a status text.
\<close>

record network =
  wDial :: "dialFn \<Rightarrow> string \<Rightarrow> gerror + netConn"
  wProxyFromURL :: "url \<Rightarrow> dialFn \<Rightarrow> gerror option"
  wHandshake :: "string \<Rightarrow> gerror option"
  wVerify :: "string \<Rightarrow> gerror option"
  wSetDeadline :: "gerror option"
  wConnectWrite :: "request \<Rightarrow> gerror option"
  wConnectResponse :: "request \<Rightarrow> gerror + int \<times> string"

definition doHandshake :: "network \<Rightarrow> tlsConfig \<Rightarrow> netConn \<Rightarrow> gerror + netConn" where
  "doHandshake w cfg c =
     (case wHandshake w (tcServerName cfg) of
        Some err \<Rightarrow> Inl err
      | None \<Rightarrow>
          (case (if \<not> tcInsecureSkipVerify cfg then wVerify w (tcServerName cfg) else None) of
             Some err \<Rightarrow> Inl err
           | None \<Rightarrow> Inr (c\<lparr>ncTLS := ncTLS c @ [(tcServerName cfg, \<not> tcInsecureSkipVerify cfg)]\<rparr>)))"

text \<open>TLS with the server name of the configuration, or else the host of the URL.\<close>

definition tlsClient :: "network \<Rightarrow> tlsConfig option \<Rightarrow> url \<Rightarrow> netConn \<Rightarrow> gerror + netConn" where
  "tlsClient w config u c =
     (let cfg = cloneTLSConfig config;
          cfg' = (if tcServerName cfg = '''' then cfg\<lparr>tcServerName := snd (hostPortNoPort u)\<rparr> else cfg)
      in doHandshake w cfg' c)"

definition netDialFromURL :: "dialer \<Rightarrow> url \<Rightarrow> dialFn" where
  "netDialFromURL d u =
     (let netDial = (if dNetDialContext d then UserDialContext else if dNetDial d then UserDial else NetDialer) in
      if urlScheme u = ''https'' then
        (if dNetDialTLSContext d then UserDialTLS else WithTLS netDial (dTLSClientConfig d) u)
      else netDial)"

definition proxyFromURL :: "network \<Rightarrow> url \<Rightarrow> dialFn \<Rightarrow> header \<Rightarrow> gerror + dialFn" where
  "proxyFromURL w proxyURL forwardDial extraConnectHeader =
     (if urlScheme proxyURL = ''http'' \<or> urlScheme proxyURL = ''https'' then
        Inr (HttpProxy proxyURL forwardDial extraConnectHeader)
      else (case wProxyFromURL w proxyURL forwardDial of
          Some err \<Rightarrow> Inl err
        | None \<Rightarrow> Inr (OtherProxy proxyURL forwardDial)))"

definition netDialFn :: "network \<Rightarrow> dialer \<Rightarrow> time \<Rightarrow> url option \<Rightarrow> url \<Rightarrow> gerror + dialFn" where
  "netDialFn w d deadline proxyURL backendURL =
     (let f = netDialFromURL d (case proxyURL of Some p \<Rightarrow> p | None \<Rightarrow> backendURL);
          f' = (case deadline of Some t \<Rightarrow> WithDeadline f t | None \<Rightarrow> f)
      in case proxyURL of
           Some p \<Rightarrow> proxyFromURL w p f' (dProxyConnectHeader d)
         | None \<Rightarrow> Inr f')"

section \<open>The CONNECT request\<close>

definition connectHeader :: "url \<Rightarrow> header \<Rightarrow> header" where
  "connectHeader proxyURL extra =
     (case urlUser proxyURL of
        None \<Rightarrow> extra
      | Some (user, password) \<Rightarrow>
          hSet ''Proxy-Authorization''
            (''Basic '' @ b64_EncodeToString (bytes_of_string (user @ '':'' @ password))) extra)"

definition connectRequest :: "url \<Rightarrow> header \<Rightarrow> string \<Rightarrow> request" where
  "connectRequest proxyURL extra addr =
     \<lparr>rqProtoMajor = 1, rqMethod = ''CONNECT'', rqHeader = connectHeader proxyURL extra,
      rqHost = addr, rqRemoteAddr = ''''\<rparr>"

fun afterSpace :: "string \<Rightarrow> string option" where
  "afterSpace [] = None"
| "afterSpace (c # s) = (if c = CHR '' '' then Some s else afterSpace s)"

text \<open>\<open>f := strings.SplitN(resp.Status, " ", 2)\<close> and \<open>f[1]\<close>: None is the panic of a status with no text.\<close>

definition httpProxyConnect :: "network \<Rightarrow> url \<Rightarrow> header \<Rightarrow> string \<Rightarrow> netConn \<Rightarrow> (gerror + netConn) option" where
  "httpProxyConnect w proxyURL extra addr c =
     (let req = connectRequest proxyURL extra addr in
      case wConnectWrite w req of
        Some err \<Rightarrow> Some (Inl err)
      | None \<Rightarrow>
          (case wConnectResponse w req of
             Inl err \<Rightarrow> Some (Inl err)
           | Inr (code, status) \<Rightarrow>
               if code \<noteq> 200 then map_option (\<lambda>text. Inl (ErrNew text)) (afterSpace status)
               else Some (Inr c)))"

section \<open>Running a dial function\<close>

text \<open>None is a panic.\<close>

fun runDial :: "network \<Rightarrow> dialFn \<Rightarrow> string \<Rightarrow> (gerror + netConn) option" where
  "runDial w (WithTLS f config u) addr =
     (case runDial w f addr of
        Some (Inr c) \<Rightarrow> Some (tlsClient w config u c)
      | r \<Rightarrow> r)"
| "runDial w (WithDeadline f t) addr =
     (case runDial w f addr of
        Some (Inr c) \<Rightarrow>
          (case wSetDeadline w of Some err \<Rightarrow> Some (Inl err) | None \<Rightarrow> Some (Inr (c\<lparr>ncDeadline := Some t\<rparr>)))
      | r \<Rightarrow> r)"
| "runDial w (HttpProxy p f extra) addr =
     (case runDial w f (fst (hostPortNoPort p)) of
        Some (Inr c) \<Rightarrow> httpProxyConnect w p extra addr c
      | r \<Rightarrow> r)"
| "runDial w f addr = Some (wDial w f addr)"

lemma proxy_status_panics:
  assumes "wConnectWrite w (connectRequest p extra addr) = None"
    and "wConnectResponse w (connectRequest p extra addr) = Inr (403, ''403'')"
  shows "httpProxyConnect w p extra addr c = None"
  using assms by (simp add: httpProxyConnect_def)

end
