(* ===== verification/Upgrade.thy ===== *)
theory Upgrade
  imports Handshake
begin

text \<open>
  The server's handshakes: Upgrader.Upgrade of src/server.go, guard by guard, with the hijacked
  connection, the choice of buffers and the response text, and upgradeHTTP2 of src/h2.go.
\<close>

section \<open>A hijacked connection\<close>

text \<open>
  What \<open>Hijack\<close> hands over: the size and the buffered input of the buffered reader, and the free
  buffer of the buffered writer. The network connection is an environment of newConn.
\<close>

record hijacked =
  hjReaderSize :: nat
  hjBuffered :: bytes
  hjAvailable :: bytes

text \<open>The wrapper that reads the buffered data first.\<close>

record brNetConn =
  brBuffered :: "bytes option"    \<comment> \<open>\<open>br\<close>: None once it is empty\<close>
  brConn :: source

definition brNetConn_Read :: "nat \<Rightarrow> brNetConn \<Rightarrow> bytes \<times> gerror option \<times> brNetConn" where
  "brNetConn_Read n b =
     (case brBuffered b of
        Some buf \<Rightarrow>
          (let p = (if n > length buf then length buf else n);
               rest = drop p buf
           in (take p buf, None, b\<lparr>brBuffered := (if rest = [] then None else Some rest)\<rparr>))
      | None \<Rightarrow> (let (d, e, s) = srcRead n (brConn b) in (d, e, b\<lparr>brConn := s\<rparr>)))"

text \<open>The input it stands for: the buffered bytes in front of the network's.\<close>

definition brNetConn_input :: "brNetConn \<Rightarrow> source" where
  "brNetConn_input b = (case brBuffered b of Some buf \<Rightarrow> (buf, None) # brConn b | None \<Rightarrow> brConn b)"

lemma brNetConn_reads:
  "brNetConn_Read n b = (d, e, b') \<Longrightarrow> srcRead n (brNetConn_input b) = (d, e, brNetConn_input b')"
  by (cases "brBuffered b")
    (auto simp: brNetConn_Read_def brNetConn_input_def Let_def split: if_splits prod.splits)

section \<open>The connection of a server\<close>

definition upgradeReader :: "upgrader \<Rightarrow> hijacked \<Rightarrow> (nat \<times> bytes) option" where
  "upgradeReader u hj =
     (if uReadBufferSize u = 0 \<and> hjReaderSize hj > 256 then Some (hjReaderSize hj, hjBuffered hj) else None)"

definition upgradeInput :: "upgrader \<Rightarrow> hijacked \<Rightarrow> environment \<Rightarrow> environment" where
  "upgradeInput u hj env =
     (if uReadBufferSize u = 0 \<and> hjReaderSize hj > 256 then env
      else if length (hjBuffered hj) > 0
      then env\<lparr>envIn := brNetConn_input \<lparr>brBuffered = Some (hjBuffered hj), brConn = envIn env\<rparr>\<rparr>
      else env)"

definition upgradeWriteBuf :: "upgrader \<Rightarrow> hijacked \<Rightarrow> bytes option" where
  "upgradeWriteBuf u hj =
     (if \<not> uWriteBufferPool u \<and> uWriteBufferSize u = 0 \<and> length (hjAvailable hj) \<ge> maxFrameHeaderSize + 256
      then Some (hjAvailable hj) else None)"

definition upgradeConn :: "upgrader \<Rightarrow> takeover \<Rightarrow> string \<Rightarrow> hijacked \<Rightarrow> environment \<Rightarrow> conn" where
  "upgradeConn u t protocol hj env =
     (let c = newConn True (uReadBufferSize u) (uWriteBufferSize u) (uWriteBufferPool u)
                (upgradeReader u hj) (upgradeWriteBuf u hj) (upgradeInput u hj env)
      in serverCompression t (c\<lparr>subprotocol := protocol, skipUTF8Validation := uSkipUTF8Validation u\<rparr>))"

section \<open>The response\<close>

definition crlf :: string where
  "crlf = [CHR 0x0D, CHR 0x0A]"

definition headerLine :: "string \<Rightarrow> string \<Rightarrow> string" where
  "headerLine k v = k @ '': '' @ sanitizeHeaderValue v @ crlf"

definition applicationHeaders :: "header \<Rightarrow> string" where
  "applicationHeaders responseHeader =
     concat (map (\<lambda>(k, vs). if k = ''Sec-Websocket-Protocol'' then '''' else concat (map (headerLine k) vs))
       responseHeader)"

definition upgradeResponse :: "string \<Rightarrow> string \<Rightarrow> takeover \<Rightarrow> header \<Rightarrow> string" where
  "upgradeResponse challengeKey protocol t responseHeader =
     ''HTTP/1.1 101 Switching Protocols'' @ crlf @ ''Upgrade: websocket'' @ crlf @
     ''Connection: Upgrade'' @ crlf @ ''Sec-WebSocket-Accept: '' @ computeAcceptKey challengeKey @ crlf @
     (if protocol \<noteq> '''' then ''Sec-WebSocket-Protocol: '' @ protocol @ crlf else '''') @
     (if fst t then ''Sec-WebSocket-Extensions: '' @ extensionResponse t @ crlf else '''') @
     applicationHeaders responseHeader @ crlf"

definition netSetDeadline :: "time \<Rightarrow> 'a conn_scheme \<Rightarrow> gerror option \<times> 'a conn_scheme" where
  "netSetDeadline t c =
     (case netSetWriteDeadline t c of
        (Some e, c1) \<Rightarrow> (Some e, c1)
      | (None, c1) \<Rightarrow> (None, c1\<lparr>netReadDeadline := t\<rparr>))"

definition sendResponse :: "int \<Rightarrow> string \<Rightarrow> conn \<Rightarrow> gerror option \<times> conn" where
  "sendResponse timeout p c =
     (case (if timeout > 0 then netSetWriteDeadline (Some (now c + timeout)) c else netSetDeadline None c) of
        (Some err, c1) \<Rightarrow> (Some err, c1)
      | (None, c1) \<Rightarrow> (case netWrite (bytes_of_string p) c1 of
            (Some err, c2) \<Rightarrow> (Some err, c2)
          | (None, c2) \<Rightarrow> if timeout > 0 then netSetWriteDeadline None c2 else (None, c2)))"

text \<open>
  The result of an upgrade, the response writer it leaves, and the network connection when it has
  been taken over but is closed again by the deferred function.
\<close>

type_synonym upgrade_result = "(upgrade_error + conn) \<times> responseWriter \<times> conn option"

definition refuse :: "upgrade_error \<times> responseWriter \<Rightarrow> upgrade_result" where
  "refuse ew = (Inl (fst ew), snd ew, None)"

section \<open>HTTP/2\<close>

definition upgradeHeaders :: "string \<Rightarrow> takeover \<Rightarrow> header \<Rightarrow> header \<Rightarrow> header" where
  "upgradeHeaders protocol t responseHeader respH =
     fold (\<lambda>(k, vs) h. if k = ''Sec-Websocket-Protocol'' then h
                       else fold (\<lambda>v. hAdd k (sanitizeHeaderValue v)) vs h)
       responseHeader
       ((if fst t then hSet ''Sec-WebSocket-Extensions'' (extensionResponse t) else (\<lambda>h. h))
         ((if protocol \<noteq> '''' then hSet ''Sec-WebSocket-Protocol'' protocol else (\<lambda>h. h)) respH))"

text \<open>\<open>flushed\<close> is the result of the flush after the status has been written.\<close>

definition upgradeHTTP2 ::
  "url_parser \<Rightarrow> upgrader \<Rightarrow> gerror option \<Rightarrow> environment \<Rightarrow> responseWriter \<Rightarrow> request \<Rightarrow> header \<Rightarrow> upgrade_result" where
  "upgradeHTTP2 parseURL u flushed env w r responseHeader =
     (if hGet (rqHeader r) ''Sec-Websocket-Version'' \<noteq> ''13'' then
        refuse (returnError u w r 400
          ''websocket: unsupported version: 13 not found in 'Sec-Websocket-Version' header'')
      else if hHas responseHeader ''Sec-Websocket-Extensions'' then
        refuse (returnError u w r 500
          ''websocket: application specific 'Sec-WebSocket-Extensions' headers are unsupported'')
      else if \<not> originAllowed parseURL u r then
        refuse (returnError u w r 403 ''websocket: request origin not allowed by Upgrader.CheckOrigin'')
      else
        let protocol = selectSubprotocol u r responseHeader;
            t = serverTakeover u r;
            w1 = w\<lparr>rwHeader := upgradeHeaders protocol t responseHeader (rwHeader w), rwStatus := Some 200\<rparr>
        in case flushed of
             Some err \<Rightarrow> (Inl (UpgradeFailed err), w1, None)
           | None \<Rightarrow>
               (let c = newConn True (uReadBufferSize u) (uWriteBufferSize u) (uWriteBufferPool u) None None env
                in (Inr (serverCompression t (c\<lparr>subprotocol := protocol, skipUTF8Validation := uSkipUTF8Validation u\<rparr>)),
                    w1, None)))"

section \<open>HTTP/1.1\<close>

definition badHandshake :: string where
  "badHandshake = ''websocket: the client is not using the websocket protocol: ''"

text \<open>After the checks: take over the connection, answer, and close it again on an error.\<close>

definition upgradeHijacked ::
  "upgrader \<Rightarrow> gerror + hijacked \<Rightarrow> environment \<Rightarrow> responseWriter \<Rightarrow> request \<Rightarrow> header \<Rightarrow> string \<Rightarrow> upgrade_result" where
  "upgradeHijacked u hijack env w r responseHeader challengeKey =
     (let protocol = selectSubprotocol u r responseHeader;
          t = serverTakeover u r
      in case hijack of
           Inl err \<Rightarrow> refuse (returnError u w r 500 (''websocket: hijack: '' @ Error err))
         | Inr hj \<Rightarrow>
             (case sendResponse (uHandshakeTimeout u) (upgradeResponse challengeKey protocol t responseHeader)
                  (upgradeConn u t protocol hj env) of
                (Some err, c1) \<Rightarrow> (Inl (UpgradeFailed err), w, Some (c1\<lparr>netClosed := True\<rparr>))
              | (None, c1) \<Rightarrow> (Inr c1, w, None)))"

text \<open>The guards of \<open>Upgrade\<close> in their order.\<close>

definition Upgrade ::
  "url_parser \<Rightarrow> upgrader \<Rightarrow> gerror + hijacked \<Rightarrow> gerror option \<Rightarrow> environment \<Rightarrow> responseWriter \<Rightarrow> request \<Rightarrow> header \<Rightarrow>
   upgrade_result" where
  "Upgrade parseURL u hijack flushed env w r responseHeader =
     (if rqProtoMajor r = 2 \<and> rqMethod r = ''CONNECT'' \<and> hGet (rqHeader r) '':protocol'' = ''websocket'' then
        upgradeHTTP2 parseURL u flushed env w r responseHeader
      else if \<not> tokenListContainsValue (rqHeader r) ''Connection'' ''upgrade'' then
        refuse (returnError u w r 400 (badHandshake @ '''upgrade' token not found in 'Connection' header''))
      else if \<not> tokenListContainsValue (rqHeader r) ''Upgrade'' ''websocket'' then
        refuse (returnError u (w\<lparr>rwHeader := hSet ''Upgrade'' ''websocket'' (rwHeader w)\<rparr>) r 426
          (badHandshake @ '''websocket' token not found in 'Upgrade' header''))
      else if rqMethod r \<noteq> ''GET'' then
        refuse (returnError u w r 405 (badHandshake @ ''request method is not GET''))
      else if \<not> tokenListContainsValue (rqHeader r) ''Sec-Websocket-Version'' ''13'' then
        refuse (returnError u w r 400
          ''websocket: unsupported version: 13 not found in 'Sec-Websocket-Version' header'')
      else if hHas responseHeader ''Sec-Websocket-Extensions'' then
        refuse (returnError u w r 500
          ''websocket: application specific 'Sec-WebSocket-Extensions' headers are unsupported'')
      else if \<not> originAllowed parseURL u r then
        refuse (returnError u w r 403 ''websocket: request origin not allowed by Upgrader.CheckOrigin'')
      else
        let challengeKey = hGet (rqHeader r) ''Sec-Websocket-Key'';
            validChallengeKey = (case uIsValidChallengeKey u of Some f \<Rightarrow> f | None \<Rightarrow> isValidChallengeKey)
        in if \<not> validChallengeKey challengeKey then
          refuse (returnError u w r 400
            ''websocket: not a websocket handshake: 'Sec-WebSocket-Key' header must be Base64 encoded value of 16-byte in length'')
        else upgradeHijacked u hijack env w r responseHeader challengeKey)"

text \<open>The deprecated function of the same name: no error replies, every origin allowed.\<close>

definition UpgradeFunction ::
  "url_parser \<Rightarrow> int \<Rightarrow> int \<Rightarrow> gerror + hijacked \<Rightarrow> gerror option \<Rightarrow> environment \<Rightarrow> responseWriter \<Rightarrow> request \<Rightarrow> header \<Rightarrow>
   upgrade_result" where
  "UpgradeFunction parseURL readSize writeSize =
     Upgrade parseURL
       \<lparr>uHandshakeTimeout = 0, uReadBufferSize = readSize, uWriteBufferSize = writeSize,
        uWriteBufferPool = False, uSubprotocols = None, uIsValidChallengeKey = None,
        uNegotiateSubprotocol = None, uError = Some (\<lambda>w r status reason. w),
        uCheckOrigin = Some (\<lambda>r. True), uEnableCompression = False,
        uCompressionMode = CompressionModeDefault, uSkipUTF8Validation = False\<rparr>"

end
