(* ===== verification/Client.thy ===== *)
theory Client
  imports Dialing Upgrade
begin

text \<open>
  The client's handshakes: Dialer.DialContext of src/client.go over HTTP/1.1, and dialHTTP2 of
  src/h2.go with the fall back between them. What the peer answers is a parameter: the handshake
  response with the input left in the connection's reader, and over HTTP/2 the result of RoundTrip.
  The callbacks of a httptrace are not modelled.
\<close>

section \<open>Requests\<close>

text \<open>The entries of the request header have the names the code writes, not the canonical ones.\<close>

definition handshakeHeader :: "dialer \<Rightarrow> string \<Rightarrow> header" where
  "handshakeHeader d challengeKey =
     [(''Upgrade'', [''websocket'']), (''Connection'', [''Upgrade'']),
      (''Sec-WebSocket-Key'', [challengeKey]), (''Sec-WebSocket-Version'', [''13''])] @
     (if dSubprotocols d \<noteq> [] then [(''Sec-WebSocket-Protocol'', [joinWith '', '' (dSubprotocols d)])] else [])"

fun copyHeaders :: "bool \<Rightarrow> header \<Rightarrow> request \<Rightarrow> gerror + request" where
  "copyHeaders subs [] req = Inr req"
| "copyHeaders subs ((k, vs) # h) req =
     (if k = ''Host'' then copyHeaders subs h (case vs of [] \<Rightarrow> req | v # _ \<Rightarrow> req\<lparr>rqHost := v\<rparr>)
      else if k = ''Upgrade'' \<or> k = ''Connection'' \<or> k = ''Sec-Websocket-Key'' \<or> k = ''Sec-Websocket-Version'' \<or>
          k = ''Sec-Websocket-Extensions'' \<or> (k = ''Sec-Websocket-Protocol'' \<and> subs)
      then Inl (ErrNew (''websocket: duplicate header not allowed: '' @ k))
      else if k = ''Sec-Websocket-Protocol''
      then copyHeaders subs h (req\<lparr>rqHeader := AList.update ''Sec-WebSocket-Protocol'' vs (rqHeader req)\<rparr>)
      else copyHeaders subs h (req\<lparr>rqHeader := AList.update k vs (rqHeader req)\<rparr>))"

text \<open>\<open>AddCookie\<close>, for a cookie already written as text.\<close>

definition addCookie :: "string \<Rightarrow> request \<Rightarrow> request" where
  "addCookie s req =
     req\<lparr>rqHeader := hSet ''Cookie''
       (if hGet (rqHeader req) ''Cookie'' \<noteq> '''' then hGet (rqHeader req) ''Cookie'' @ ''; '' @ s else s) (rqHeader req)\<rparr>"

definition addCookies :: "dialer \<Rightarrow> string list \<Rightarrow> request \<Rightarrow> request" where
  "addCookies d cookies req = (if dJar d then fold addCookie cookies req else req)"

definition dialMode :: "dialer \<Rightarrow> int" where
  "dialMode d = effectiveCompressionMode (dCompressionMode d) (dEnableCompression d)"

definition addOffer :: "dialer \<Rightarrow> request \<Rightarrow> request" where
  "addOffer d req =
     (if compressionOfferHeader (dialMode d) \<noteq> ''''
      then req\<lparr>rqHeader := AList.update ''Sec-WebSocket-Extensions'' [compressionOfferHeader (dialMode d)] (rqHeader req)\<rparr>
      else req)"

definition dialRequest :: "dialer \<Rightarrow> url \<Rightarrow> string \<Rightarrow> header \<Rightarrow> string list \<Rightarrow> gerror + request" where
  "dialRequest d u challengeKey requestHeader cookies =
     (case copyHeaders (dSubprotocols d \<noteq> []) requestHeader
        \<lparr>rqProtoMajor = 1, rqMethod = ''GET'', rqHeader = handshakeHeader d challengeKey,
         rqHost = urlHost u, rqRemoteAddr = ''''\<rparr> of
        Inl err \<Rightarrow> Inl err
      | Inr req \<Rightarrow> Inr (addOffer d (addCookies d cookies req)))"

section \<open>Responses\<close>

record response =
  rsStatusCode :: int
  rsHeader :: header
  rsBody :: bytes

definition errorBody :: "dialer \<Rightarrow> response \<Rightarrow> response" where
  "errorBody d resp =
     (let limit = (if dMaxErrorBodySize d \<le> 0 then 1024 else dMaxErrorBodySize d) in
      resp\<lparr>rsBody := take (nat limit) (rsBody resp)\<rparr>)"

definition ErrBadHandshake :: gerror where
  "ErrBadHandshake = ErrNew ''websocket: bad handshake''"

definition errMalformedURL :: gerror where
  "errMalformedURL = ErrNew ''malformed ws or wss URL''"

definition responseAccepted :: "string \<Rightarrow> response \<Rightarrow> bool" where
  "responseAccepted challengeKey resp \<longleftrightarrow>
     \<not> (rsStatusCode resp \<noteq> 101 \<or>
        \<not> tokenListContainsValue (rsHeader resp) ''Upgrade'' ''websocket'' \<or>
        \<not> tokenListContainsValue (rsHeader resp) ''Connection'' ''upgrade'' \<or>
        hGet (rsHeader resp) ''Sec-Websocket-Accept'' \<noteq> computeAcceptKey challengeKey)"

section \<open>The world of a dial\<close>

text \<open>
  An error of the HTTP/2 transport: the error, and the texts of the errors it wraps. The response of
  ReadResponse comes with the reader's buffer and the input behind it.
\<close>

datatype h2_error = H2Error gerror "string list"

record world = network +
  wRandom :: "gerror + bytes"
  wParseURL :: url_parser
  wCookies :: "string list"
  wDeadline :: time
  wNow :: int
  wRequestWrite :: "request \<Rightarrow> gerror option"
  wReadResponse :: "request \<Rightarrow> gerror + (response \<times> bytes \<times> source)"
  wQuote :: "string \<Rightarrow> string"
  wNewRequest :: "gerror option"
  wRoundTrip :: "tlsConfig \<Rightarrow> request \<Rightarrow> h2_error + (response \<times> environment)"
  wNoCachedConn :: "h2_error \<Rightarrow> bool"

text \<open>The result: the connection or the error, the response, and whether a network connection (over HTTP/2
  a stream) that was opened has been closed again.\<close>

type_synonym dial_result = "(gerror + conn) \<times> response option \<times> bool"

section \<open>HTTP/1.1, once the connection is there\<close>

text \<open>The error of a response that cannot be read: a hint if the TLS configuration offers other protocols.\<close>

definition readError :: "'a world_scheme \<Rightarrow> dialer \<Rightarrow> gerror \<Rightarrow> gerror" where
  "readError w d err =
     (case dTLSClientConfig d of
        None \<Rightarrow> err
      | Some cfg \<Rightarrow>
          (case find (\<lambda>proto. proto \<noteq> ''http/1.1'') (tcNextProtos cfg) of
             None \<Rightarrow> err
           | Some proto \<Rightarrow> ErrNew (''websocket: protocol '' @ wQuote w proto @ '' was given but is not supported;'' @
               ''sharing tls.Config with net/http Transport can cause this error: '' @ Error err)))"

definition clientConn :: "dialer \<Rightarrow> environment \<Rightarrow> conn" where
  "clientConn d env =
     (newConn False (dReadBufferSize d) (dWriteBufferSize d) (dWriteBufferPool d) None None env)
       \<lparr>disableMask := dDisableClientMask d, skipUTF8Validation := dSkipUTF8Validation d\<rparr>"

definition dialHandshake ::
  "'a world_scheme \<Rightarrow> dialer \<Rightarrow> string \<Rightarrow> request \<Rightarrow> netConn \<Rightarrow> dial_result" where
  "dialHandshake w d challengeKey req nc =
     (let c0 = (clientConn d (ncEnv nc))\<lparr>netReadDeadline := ncDeadline nc, netWriteDeadline := ncDeadline nc\<rparr> in
      case wRequestWrite w req of
        Some err \<Rightarrow> (Inl err, None, True)
      | None \<Rightarrow>
          (case wReadResponse w req of
             Inl err \<Rightarrow> (Inl (readError w d err), None, True)
           | Inr (resp, buffered, input) \<Rightarrow>
               (let c1 = c0\<lparr>rbuf := buffered, rin := input\<rparr> in
                if \<not> responseAccepted challengeKey resp then (Inl ErrBadHandshake, Some (errorBody d resp), True)
                else
                  (case negotiateAnswer (dialMode d) (rsHeader resp) of
                     Inl err \<Rightarrow> (Inl err, Some resp, True)
                   | Inr t \<Rightarrow>
                       (let c2 = (clientCompression t c1)\<lparr>subprotocol := hGet (rsHeader resp) ''Sec-Websocket-Protocol''\<rparr>;
                            resp' = resp\<lparr>rsBody := []\<rparr>
                        in case netSetDeadline None c2 of
                             (Some err, c3) \<Rightarrow> (Inl err, Some resp', True)
                           | (None, c3) \<Rightarrow> (Inr c3, Some resp', False))))))"

text \<open>The network connection of a dial: proxy or not, deadline, and TLS to the server through a proxy; an
  error says whether a connection has been closed again.\<close>

definition dialDeadline :: "'a world_scheme \<Rightarrow> dialer \<Rightarrow> time" where
  "dialDeadline w d =
     (if dHandshakeTimeout d \<noteq> 0 then
        (case wDeadline w of
           None \<Rightarrow> Some (wNow w + dHandshakeTimeout d)
         | Some t \<Rightarrow> Some (min t (wNow w + dHandshakeTimeout d)))
      else wDeadline w)"

definition dialNetConn ::
  "'a world_scheme \<Rightarrow> dialer \<Rightarrow> url \<Rightarrow> request \<Rightarrow> ((gerror \<times> bool) + netConn) option" where
  "dialNetConn w d u req =
     (case (case dProxy d of None \<Rightarrow> Inr None | Some f \<Rightarrow> f req) of
        Inl err \<Rightarrow> Some (Inl (err, False))
      | Inr proxyURL \<Rightarrow>
          (case netDialFn (network.truncate w) d (dialDeadline w d) proxyURL u of
             Inl err \<Rightarrow> Some (Inl (err, False))
           | Inr f \<Rightarrow>
               (case runDial (network.truncate w) f (fst (hostPortNoPort u)) of
                  None \<Rightarrow> None
                | Some (Inl err) \<Rightarrow> Some (Inl (err, False))
                | Some (Inr nc) \<Rightarrow>
                    if proxyURL \<noteq> None \<and> urlScheme u = ''https''
                    then (case tlsClient (network.truncate w) (dTLSClientConfig d) u nc of
                        Inl err \<Rightarrow> Some (Inl (err, True))
                      | Inr tlsConn \<Rightarrow> Some (Inr tlsConn))
                    else Some (Inr nc))))"

definition dialHTTP1 ::
  "'a world_scheme \<Rightarrow> dialer \<Rightarrow> url \<Rightarrow> string \<Rightarrow> header \<Rightarrow> dial_result option" where
  "dialHTTP1 w d u challengeKey requestHeader =
     (case dialRequest d u challengeKey requestHeader (wCookies w) of
        Inl err \<Rightarrow> Some (Inl err, None, False)
      | Inr req \<Rightarrow>
          (case dialNetConn w d u req of
             None \<Rightarrow> None
           | Some (Inl (err, closed)) \<Rightarrow> Some (Inl err, None, closed)
           | Some (Inr nc) \<Rightarrow> Some (dialHandshake w d challengeKey req nc)))"

section \<open>HTTP/2\<close>

definition ErrHTTP2NotSupported :: gerror where
  "ErrHTTP2NotSupported = ErrNew ''websocket: HTTP/2 Extended CONNECT not supported by peer''"

definition errHTTP2RequiresHTTPS :: gerror where
  "errHTTP2RequiresHTTPS = ErrNew ''websocket: HTTP/2 requires an https:// URL''"

definition errHTTP2ProxyUnsupported :: gerror where
  "errHTTP2ProxyUnsupported =
     ErrNew ''websocket: Dialer.Proxy is not supported with HTTP/2 (set HTTP2 = HTTP2Disabled)''"

definition h2ExtendedConnectNotSupportedMsg :: string where
  "h2ExtendedConnectNotSupportedMsg = ''net/http: extended connect not supported by peer''"

text \<open>The loop over the chain of wrapped errors.\<close>

fun isExtendedConnectNotSupported :: "h2_error \<Rightarrow> bool" where
  "isExtendedConnectNotSupported (H2Error err wrapped) =
     list_ex (\<lambda>text. text = h2ExtendedConnectNotSupportedMsg) (Error err # wrapped)"

fun isH2NotAvailable :: "h2_error \<Rightarrow> bool" where
  "isH2NotAvailable (H2Error err wrapped) =
     (isExtendedConnectNotSupported (H2Error err wrapped) \<or>
      contains (Error err) ''no application protocol'' \<or>
      contains (Error err) ''unsupported application protocol'')"

fun copyHeadersH2 :: "bool \<Rightarrow> header \<Rightarrow> request \<Rightarrow> gerror + request" where
  "copyHeadersH2 subs [] req = Inr req"
| "copyHeadersH2 subs ((k, vs) # h) req =
     (if k = ''Host'' then copyHeadersH2 subs h (case vs of [] \<Rightarrow> req | v # _ \<Rightarrow> req\<lparr>rqHost := v\<rparr>)
      else if k = ''Upgrade'' \<or> k = ''Connection'' \<or> k = ''Sec-Websocket-Key''
      then Inl (ErrNew (''websocket: header not allowed over HTTP/2: '' @ k))
      else if k = ''Sec-Websocket-Version'' \<or> k = ''Sec-Websocket-Extensions'' \<or>
          (k = ''Sec-Websocket-Protocol'' \<and> subs)
      then Inl (ErrNew (''websocket: duplicate header not allowed: '' @ k))
      else if k = ''Sec-Websocket-Protocol''
      then copyHeadersH2 subs h (req\<lparr>rqHeader := AList.update ''Sec-WebSocket-Protocol'' vs (rqHeader req)\<rparr>)
      else copyHeadersH2 subs h (req\<lparr>rqHeader := AList.update k vs (rqHeader req)\<rparr>))"

definition h2Request :: "dialer \<Rightarrow> url \<Rightarrow> header \<Rightarrow> string list \<Rightarrow> gerror + request" where
  "h2Request d u requestHeader cookies =
     (case copyHeadersH2 (dSubprotocols d \<noteq> []) requestHeader
        (addOffer d
          \<lparr>rqProtoMajor = 1, rqMethod = ''CONNECT'',
           rqHeader = [('':protocol'', [''websocket'']), (''Sec-WebSocket-Version'', [''13''])] @
             (if dSubprotocols d \<noteq> [] then [(''Sec-WebSocket-Protocol'', [joinWith '', '' (dSubprotocols d)])] else []),
           rqHost = urlHost u, rqRemoteAddr = ''''\<rparr>) of
        Inl err \<Rightarrow> Inl err
      | Inr req \<Rightarrow> Inr (addCookies d cookies req))"

text \<open>The TLS configuration of the transport: h2 among the protocols it offers.\<close>

definition h2TLSConfig :: "dialer \<Rightarrow> url \<Rightarrow> tlsConfig" where
  "h2TLSConfig d u =
     (let tlsCfg = cloneTLSConfig (dTLSClientConfig d);
          named = (if tcServerName tlsCfg = '''' then tlsCfg\<lparr>tcServerName := stripPort (urlHost u)\<rparr> else tlsCfg)
      in if \<not> containsString (tcNextProtos named) ''h2''
         then named\<lparr>tcNextProtos := ''h2'' # tcNextProtos named\<rparr> else named)"

text \<open>The result of dialHTTP2: the connection or the error with what it wraps, the response, and whether the
  stream that was opened has been cancelled again.\<close>

definition dialHTTP2 ::
  "'a world_scheme \<Rightarrow> dialer \<Rightarrow> url \<Rightarrow> header \<Rightarrow> (h2_error + conn) \<times> response option \<times> bool" where
  "dialHTTP2 w d u requestHeader =
     (if urlScheme u \<noteq> ''https'' then (Inl (H2Error errHTTP2RequiresHTTPS []), None, False)
      else if dProxy d \<noteq> None then (Inl (H2Error errHTTP2ProxyUnsupported []), None, False)
      else
        (case wNewRequest w of
           Some err \<Rightarrow> (Inl (H2Error err []), None, True)
         | None \<Rightarrow>
             (case h2Request d u requestHeader (wCookies w) of
                Inl err \<Rightarrow> (Inl (H2Error err []), None, True)
              | Inr req \<Rightarrow>
                  (case wRoundTrip w (h2TLSConfig d u) req of
                     Inl err \<Rightarrow>
                       if wNoCachedConn w err then (Inl err, None, True)
                       else if isExtendedConnectNotSupported err then (Inl (H2Error ErrHTTP2NotSupported []), None, True)
                       else (Inl err, None, True)
                   | Inr (resp, env) \<Rightarrow>
                       if rsStatusCode resp \<noteq> 200 then (Inl (H2Error ErrBadHandshake []), Some (errorBody d resp), True)
                       else
                         let selected = hGet (rsHeader resp) ''Sec-WebSocket-Protocol'' in
                         if selected \<noteq> '''' \<and> \<not> containsString (dSubprotocols d) selected
                         then (Inl (H2Error ErrBadHandshake []), Some resp, True)
                         else
                           (case negotiateAnswerH2 (dialMode d) (rsHeader resp) of
                              Inl err \<Rightarrow> (Inl (H2Error err []), Some resp, True)
                            | Inr t \<Rightarrow>
                                (Inr (clientCompression t ((clientConn d env)\<lparr>subprotocol := selected\<rparr>)),
                                 Some (resp\<lparr>rsBody := []\<rparr>), False))))))"

definition HTTP2Disabled :: int where "HTTP2Disabled = 0"
definition HTTP2Auto :: int where "HTTP2Auto = 1"
definition HTTP2Required :: int where "HTTP2Required = 2"

fun h2_gerror :: "h2_error \<Rightarrow> gerror" where
  "h2_gerror (H2Error err wrapped) = err"

section \<open>DialContext\<close>

text \<open>None is a panic, in a proxy dialer.\<close>

definition DialContext :: "'a world_scheme \<Rightarrow> dialer \<Rightarrow> string \<Rightarrow> header \<Rightarrow> dial_result option" where
  "DialContext w d urlStr requestHeader =
     (case generateChallengeKey (wRandom w) of
        Inl err \<Rightarrow> Some (Inl err, None, False)
      | Inr challengeKey \<Rightarrow>
          (case wParseURL w urlStr of
             Inl err \<Rightarrow> Some (Inl err, None, False)
           | Inr u0 \<Rightarrow>
               if urlScheme u0 \<noteq> ''ws'' \<and> urlScheme u0 \<noteq> ''wss'' then Some (Inl errMalformedURL, None, False)
               else if urlUser u0 \<noteq> None then Some (Inl errMalformedURL, None, False)
               else
                 let u = u0\<lparr>urlScheme := (if urlScheme u0 = ''ws'' then ''http'' else ''https'')\<rparr> in
                 if dHTTP2 d \<noteq> HTTP2Disabled then
                   (case dialHTTP2 w d u requestHeader of
                      (Inr c, resp, cancelled) \<Rightarrow> Some (Inr c, resp, cancelled)
                    | (Inl err, resp, cancelled) \<Rightarrow>
                        if dHTTP2 d = HTTP2Required then Some (Inl (h2_gerror err), resp, cancelled)
                        else if \<not> isH2NotAvailable err \<and> h2_gerror err \<noteq> errHTTP2RequiresHTTPS
                        then Some (Inl (h2_gerror err), resp, cancelled)
                        else dialHTTP1 w d u challengeKey requestHeader)
                 else dialHTTP1 w d u challengeKey requestHeader))"

end
