(* ===== verification/ReadLimits.thy ===== *)
theory ReadLimits
  imports ReadErrors
begin

text \<open>
  The read limit and the 64-bit length, close frames from the peer and the closing handshake, and
  what goes wrong with errors of the network and with readers kept too long.
\<close>

section \<open>The read limit\<close>

text \<open>What the frame reader does with a data frame that takes the message over the limit.\<close>

lemma over_limit:
  fixes c :: "'d rconn"
  assumes "can_read c" and "avail c = encode_frame f @ r"
    and "frame_for c f" and "in_turn (readFinal c) f" and "\<not> isControl (opcode f)"
    and "readLength c = of_nat n" and "n < 2 ^ 63"
    and "n + length (payload f) \<ge> 2 ^ 63 \<or>
      0 < sint (readLimit c) \<and> sint (readLimit c) < int (n + length (payload f))"
  shows "\<exists>c' k. readFrame h c = Some ((noFrame, Some ErrReadLimit), c') \<and> avail c' = raw_payload f @ r \<and>
    (k \<noteq> None) = maskFrames c \<and>
    wire c' = (if n + length (payload f) \<ge> 2 ^ 63 then wire c
      else wire c @ encode_frame \<lparr>fin = True, rsv1 = False, opcode = CloseMessage, mkey = k,
        payload = FormatCloseMessage CloseMessageTooBig ''''\<rparr>)"
proof -
  obtain c1 where hr: "header_read f r c c1" and rf: "readFrame h c = dataFrame (opcode f) c1"
    using readFrame_header [OF assms(3,4) _ _ assms(2), of h] assms(1,5) by (auto simp: can_read_def)
  let ?l = "length (payload f)"
  have c1: "readLength c1 = of_nat n" "readRemaining c1 = of_nat ?l" "readLimit c1 = readLimit c" "avail c1 = raw_payload f @ r"
    "net_ok c1" "wire c1 = wire c" "maskFrames c1 = maskFrames c"
    using hr assms(1,6) by (simp_all add: header_read_def kept_def can_read_def maskFrames_def)
  have len: "?l < 2 ^ 63" using assms(3) by (simp add: frame_for_def)
  define c2 where "c2 = c1\<lparr>readLength := of_nat (n + ?l)\<rparr>"
  have c2: "net_ok c2" "wire c2 = wire c" "maskFrames c2 = maskFrames c" "avail c2 = raw_payload f @ r"
    "readLimit c2 = readLimit c"
    using c1 by (simp_all add: c2_def net_ok_def maskFrames_def)
  have c2l: "readLength c2 = of_nat (n + ?l)" by (simp add: c2_def)
  have s: "readLength c1 + readRemaining c1 = of_nat (n + ?l)" using c1 by simp
  let ?k = "if maskFrames c2 then Some (maskRand c2 (maskIdx c2)) else None"
  have k: "(?k \<noteq> None) = maskFrames c" using c2(3) by (simp del: not_None_eq)
  show ?thesis
  proof (cases "n + ?l \<ge> 2 ^ 63")
    case True
    have "sint (of_nat (n + ?l) :: int64) = int (n + ?l) - 2 ^ 64"
    proof -
      have "(of_nat (n + ?l) :: int64) = of_int (int (n + ?l) - 2 ^ 64)" by simp
      moreover have "- (2 ^ 63) \<le> int (n + ?l) - 2 ^ 64" "int (n + ?l) - 2 ^ 64 < 2 ^ 63" using True len assms(7) by simp_all
      ultimately show ?thesis by (simp only: signed_of_int) (simp add: signed_take_bit_int_eq_self)
    qed
    then have "(of_nat (n + ?l) :: int64) <s 0" using len assms(7) by (simp add: word_sless_alt)
    then have "readFrame h c = Some ((noFrame, Some ErrReadLimit), c2)"
      unfolding rf dataFrame_def Let_def s by (simp add: c2_def failWith_def)
    then show ?thesis using c2 k True by (intro exI [of _ c2] exI [of _ ?k]) simp
  next
    case False
    then have m: "n + ?l < 2 ^ 63" by simp
    have over: "0 <s readLimit c" "readLimit c <s (of_nat (n + ?l) :: int64)"
      using assms(8) False int64_of_nat(1) [OF m] by (auto simp: word_sless_alt)
    let ?p = "FormatCloseMessage CloseMessageTooBig ''''"
    let ?c3 = "after_control CloseMessage ?p (Some (now c2 + writeWait)) c2"
    have "length ?p \<le> maxControlFramePayloadSize"
      by (simp add: FormatCloseMessage_def close_codes maxControlFramePayloadSize_def bytes_of_string_def)
    then have "WriteControl CloseMessage ?p (Some (now c2 + writeWait)) c2 = Some (None, ?c3)"
      by (rule close_sent [OF c2(1)])
    then have "readFrame h c = Some ((noFrame, Some ErrReadLimit), ?c3)"
      unfolding rf dataFrame_def Let_def s c2_def [symmetric]
      using over int64_of_nat(4) [OF m] c2l by (simp add: c2(5) failWith_def)
    moreover have "wire ?c3 = wire c @ encode_frame \<lparr>fin = True, rsv1 = False, opcode = CloseMessage, mkey = ?k, payload = ?p\<rparr>"
      using c2 by (simp add: close_wire control_frame_def single_frame_def)
    moreover have "avail ?c3 = raw_payload f @ r" using control_sent(1) [OF c2(1)] c2(4) by simp
    ultimately show ?thesis using k False by (intro exI [of _ ?c3] exI [of _ ?k]) simp
  qed
qed


text \<open>What is left of a message the application gives up counts against the limit of the next one: the
  count is set to zero before the rest of the old message is skipped, not when the new one begins. Here
  the last frame \<open>f\<close> of the old message and the frame \<open>g\<close> are each within the limit, and together over it.\<close>

lemma given_up_bytes_count:
  fixes c :: "'d rconn"
  assumes c: "can_read c" "readErr c = None" "readRemaining c = 0" "\<not> readFinal c" "avail c = encode_frame f @ encode_frame g @ r"
    and f: "frame_for c f" "opcode f = continuationFrame" "fin f" "limit_ok c (length (payload f))"
    and g: "frame_for c g" "isData (opcode g)"
    and l: "0 < sint (readLimit c)" "sint (readLimit c) < int (length (payload f) + length (payload g))"
  shows "\<exists>res c'. NextReader ops h c = Some (res, c') \<and> readErr c' = Some ErrReadLimit"
proof -
  obtain rs where fc: "fresh c = c\<lparr>readers := rs, reader := None, messageReader := None, readLength := 0\<rparr>"
    using fresh_fields by blast
  have fr: "can_read (fresh c)" "avail (fresh c) = avail c" "frame_for (fresh c) f" "readErr (fresh c) = None"
    "limit_ok (fresh c) (0 + length (payload f))" "readLength (fresh c) = of_nat 0" "readRemaining (fresh c) = 0"
    "in_turn (readFinal (fresh c)) f" "\<not> isControl (opcode f)"
    using c(1-4) f by (simp_all add: fc can_read_def input_ok_def net_ok_def avail_def frame_for_def limit_ok_def in_turn_def
        message_types isData_def isControl_def)
  obtain c1 where adv: "advanceFrame h (fresh c) = Some ((opcode f, None), c1)"
    and hr: "header_read f (encode_frame g @ r) (fresh c) (c1\<lparr>readLength := readLength (fresh c)\<rparr>)"
    and rl: "readLength c1 = of_nat (0 + length (payload f))"
    by (rule advance_data [OF fr(3,8,9,1,7) _ fr(6,5)]) (use c(5) fr(2) in simp)
  define c2 where "c2 = c1\<lparr>readErrCount := 0\<rparr>"
  have n: "nextLoop ops h (fresh c) = nextLoop ops h c2"
    using adv fr(4) f(2) by (subst nextLoop.simps) (simp add: c2_def message_types isData_def)
  have k2: "kept (fresh c) c2" using hr by (simp add: header_read_def c2_def)
  have i2: "input_ok c2" "avail c2 = raw_payload f @ encode_frame g @ r" "readRemaining c2 = of_nat (length (payload f))"
    "readFinal c2" "readLength c2 = of_nat (length (payload f))"
    using hr rl f(3) fr(9) by (simp_all add: header_read_def c2_def final_after_def)
  have cr2: "can_read c2" by (rule kept_can_read [OF k2 i2(1) fr(1)])
  have p: "length (payload f) < 2 ^ 63" using f(4) by (simp add: limit_ok_def)
  obtain c3 where c3: "skips c2 c3" "avail c3 = encode_frame g @ r" "input_ok c3"
    by (rule skips_payload [OF i2(1), of "raw_payload f"]) (use i2(2,3) p length_raw in simp_all)
  have r3: "can_read c3" "readFinal c3" "readLength c3 = of_nat (length (payload f))" "readLimit c3 = readLimit c" "frame_for c3 g"
  proof -
    obtain b e s where u: "c3 = c2\<lparr>rbuf := b, rerr := e, rin := s\<rparr>" using c3(1) by (auto simp: skips_def same_but_input_def)
    show "can_read c3" using cr2 c3(3) u by (simp add: can_read_def net_ok_def)
    show "readFinal c3" "readLength c3 = of_nat (length (payload f))" using u i2(4,5) by simp_all
    show "readLimit c3 = readLimit c" using u k2 by (simp add: kept_def fc)
    have "frame_for (fresh c) g" using g(1) by (simp add: fc frame_for_def)
    then show "frame_for c3 g" using skips_fields(1) [OF c3(1)] kept_frame_for [OF k2] by simp
  qed
  have "in_turn (readFinal c3) g" "\<not> isControl (opcode g)" using g(2) r3(2) not_both(1) [of "opcode g"] by (auto simp: in_turn_def)
  then obtain c4 where "readFrame h c3 = Some ((noFrame, Some ErrReadLimit), c4)"
    using over_limit [OF r3(1) c3(2) r3(5) _ _ r3(3) p, of h] l r3(4) by auto
  then have a: "advanceFrame h c2 = Some ((noFrame, Some ErrReadLimit), c4)" using c3(1) by (simp add: skips_def)
  have "readErr c2 = None" using k2 fr(4) by (simp add: kept_def)
  with a have "nextLoop ops h c2 = Some (failedRead ErrReadLimit (c4\<lparr>readErr := Some ErrReadLimit\<rparr>))"
    by (subst nextLoop.simps) simp
  then show ?thesis using n NextReader_fresh [of ops h c] by (simp add: failedRead_def)
qed

text \<open>A server whose limit is 3, and a frame of 4 bytes.\<close>

definition limited_reader :: "bytes \<Rightarrow> unit rconn" where
  "limited_reader p = SetReadLimit 3 (reader_of False p)"

lemma limited_reader_simps [simp]:
  "between_messages (limited_reader p)" "avail (limited_reader p) = p" "isServer (limited_reader p) = False"
  "readLimit (limited_reader p) = 3" "newDecompressionReader (limited_reader p) = NilFn"
  "readLength (limited_reader p) = 0" "readErrCount (limited_reader p) = 0"
proof -
  show "between_messages (limited_reader p)"
    using reader_of_simps(1) [of False p]
    by (simp add: limited_reader_def SetReadLimit_def between_messages_def can_read_def input_ok_def net_ok_def)
  have "avail (limited_reader p) = avail (reader_of False p)"
    by (simp add: limited_reader_def SetReadLimit_def avail_def)
  then show "avail (limited_reader p) = p" by simp
  show "isServer (limited_reader p) = False" "readLimit (limited_reader p) = 3"
    "newDecompressionReader (limited_reader p) = NilFn" "readLength (limited_reader p) = 0"
    "readErrCount (limited_reader p) = 0"
    by (simp_all add: limited_reader_def SetReadLimit_def) (simp_all add: reader_of_def new_rconn_defs)
qed




section \<open>The 64-bit length\<close>

text \<open>A frame whose 64-bit length has its top bit set is refused with ErrReadLimit, without reading
  its mask key or payload and without touching the write side.\<close>

lemma huge_length_refused:
  fixes c :: "'d rconn"
  assumes "can_read c" and "readRemaining c = 0" and "avail c = [b0, b1] @ be_bytes 8 n @ r"
    and "fst (checkHeader (parseHeader b0 b1) c) = []" and "b1 AND 0x7f = 127"
    and "2 ^ 63 \<le> n" and "n < 2 ^ 64"
  shows "\<exists>c'. advanceFrame h c = Some ((noFrame, Some ErrReadLimit), c') \<and> avail c' = r \<and>
    wire c' = wire c \<and> writeErr c' = writeErr c"
proof -
  have i: "input_ok c" "2 \<le> rbufSize c" "8 \<le> rbufSize c"
    using assms(1) by (simp_all add: can_read_def maxControlFramePayloadSize_def)
  obtain c1 where r1: "conn_read 2 c = (([b0, b1], None), c1)" and a1: "avail c1 = be_bytes 8 n @ r" and i1: "input_ok c1"
    and k1: "kept c c1" and s1: "same_frame c c1" and w1: "wire c1 = wire c"
    by (rule conn_read_ok [OF i(1) assms(3)]) (use i in \<open>auto simp: numeral_2_eq_2\<close>)
  obtain x y z where c2': "snd (checkHeader (parseHeader b0 b1) c1) = c1\<lparr>readRemaining := x, readDecompress := y, readFinal := z\<rparr>"
    using checkHeader_fields by blast
  define c2 where "c2 = c1\<lparr>readRemaining := x, readDecompress := y, readFinal := z\<rparr>"
  have "fst (checkHeader (parseHeader b0 b1) c1) = []"
    using checkHeader_cong [of c1 c] k1 s1 assms(4) by (simp add: kept_def same_frame_def)
  then have ch: "checkHeader (parseHeader b0 b1) c1 = ([], c2)" using c2' by (simp add: c2_def prod_eq_iff)
  have h: "hLen (parseHeader b0 b1) = 127" using assms(5) by (simp add: parseHeader_def)
  have "\<not> (127 :: int64) <s 0" by (simp add: word_sless_alt)
  then have "readRemaining (snd (checkHeader (parseHeader b0 b1) c1)) = 127"
    by (simp add: checkHeader_def setReadRemaining_def h Let_def split_beta)
  then have rr: "readRemaining c2 = 127" using ch by simp
  have i2: "input_ok c2" "avail c2 = be_bytes 8 n @ r" "rbufSize c2 = rbufSize c" "wire c2 = wire c" "net_ok c2"
    using i1 a1 k1 w1 assms(1) by (simp_all add: c2_def kept_def can_read_def net_ok_def)
  obtain c3 where r3: "conn_read 8 c2 = ((be_bytes 8 n, None), c3)" and a3: "avail c3 = r" and k3: "kept c2 c3" and w3: "wire c3 = wire c2"
    by (rule conn_read_ok [OF i2(1,2), unfolded length_be_bytes]) (use i i2 in auto)
  have bv: "be_val (be_bytes 8 n) = n" using assms(7) by (simp add: be_val_be_bytes)
  have "sint (of_nat n :: int64) = int n - 2 ^ 64"
  proof -
    have "(of_nat n :: int64) = of_int (int n - 2 ^ 64)" by simp
    moreover have "- (2 ^ 63) \<le> int n - 2 ^ 64" "int n - 2 ^ 64 < 2 ^ 63" using assms(6,7) by simp_all
    ultimately show ?thesis by (simp only: signed_of_int) (simp add: signed_take_bit_int_eq_self)
  qed
  then have neg: "(of_nat n :: int64) <s 0" using assms(7) by (simp add: word_sless_alt)
  have "advanceFrame h c = Some ((noFrame, Some ErrReadLimit), c3)"
    using assms(2) r1 ch rr r3 bv neg
    by (simp add: advanceFrame_def readFrame_def readLengthField_def readExtended_def setReadRemaining_def failWith_def)
  moreover have "writeErr c3 = writeErr c" using k3 i2(5) assms(1) by (simp add: kept_def net_ok_def can_read_def)
  ultimately show ?thesis using a3 w3 i2(4) by auto
qed

end
