(* ===== verification/Upgraded.thy ===== *)
theory Upgraded
  imports Upgrade ReadLimits
begin

text \<open>
  What the server's handshake guarantees: which requests are upgraded, what a refusal leaves, that
  the upgraded connection is ready for the message layer with nothing lost of the input, that the
  response cannot be split by application headers, and which subprotocol is chosen.
\<close>

section \<open>Accepted requests\<close>

definition keyAccepted :: "upgrader \<Rightarrow> string \<Rightarrow> bool" where
  "keyAccepted u key = (case uIsValidChallengeKey u of Some f \<Rightarrow> f key | None \<Rightarrow> isValidChallengeKey key)"

text \<open>The requests RFC 6455, section 4.2.1, and the settings allow: a GET with the tokens upgrade, websocket
  and 13, from an origin the hook allows, or without a hook from none or one with the host of the
  request, and with a key the hook allows, or without a hook the base64 text of 16 bytes. The
  application must not set the extensions itself.\<close>

definition origin_fits :: "url_parser \<Rightarrow> upgrader \<Rightarrow> request \<Rightarrow> bool" where
  "origin_fits parseURL u r \<longleftrightarrow>
     (case uCheckOrigin u of
        Some f \<Rightarrow> f r
      | None \<Rightarrow>
          hIndex (rqHeader r) ''Origin'' = [] \<or>
          (\<exists>url. parseURL (hd (hIndex (rqHeader r) ''Origin'')) = Inr url \<and> equalASCIIFold (urlHost url) (rqHost r)))"

definition key_fits :: "upgrader \<Rightarrow> string \<Rightarrow> bool" where
  "key_fits u key \<longleftrightarrow>
     (case uIsValidChallengeKey u of
        Some f \<Rightarrow> f key
      | None \<Rightarrow> (\<exists>p. b64_DecodeString key = Some p \<and> length p = 16))"

definition acceptable :: "url_parser \<Rightarrow> upgrader \<Rightarrow> request \<Rightarrow> header \<Rightarrow> bool" where
  "acceptable parseURL u r responseHeader \<longleftrightarrow>
     rqMethod r = ''GET'' \<and>
     tokenListContainsValue (rqHeader r) ''Connection'' ''upgrade'' \<and>
     tokenListContainsValue (rqHeader r) ''Upgrade'' ''websocket'' \<and>
     tokenListContainsValue (rqHeader r) ''Sec-Websocket-Version'' ''13'' \<and>
     \<not> hHas responseHeader ''Sec-Websocket-Extensions'' \<and> origin_fits parseURL u r \<and>
     key_fits u (hGet (rqHeader r) ''Sec-Websocket-Key'')"

lemma origin_code: "origin_fits parseURL u r = originAllowed parseURL u r"
  by (simp add: origin_fits_def originAllowed_def checkSameOrigin_def split: option.split list.split sum.split)

lemma key_code: "key_fits u key = keyAccepted u key"
proof -
  have "b64_DecodeString '''' = Some []" by (simp add: b64_DecodeString_def)
  then show ?thesis by (auto simp: key_fits_def keyAccepted_def isValidChallengeKey_def split: option.split)
qed

text \<open>As the code has it.\<close>

lemma acceptable_code:
  "acceptable parseURL u r responseHeader \<longleftrightarrow>
     IsWebSocketUpgrade r \<and> rqMethod r = ''GET'' \<and>
     tokenListContainsValue (rqHeader r) ''Sec-Websocket-Version'' ''13'' \<and>
     \<not> hHas responseHeader ''Sec-Websocket-Extensions'' \<and> originAllowed parseURL u r \<and>
     keyAccepted u (hGet (rqHeader r) ''Sec-Websocket-Key'')"
  by (auto simp: acceptable_def IsWebSocketUpgrade_def origin_code key_code)

definition not_h2 :: "request \<Rightarrow> bool" where
  "not_h2 r \<longleftrightarrow> \<not> (rqProtoMajor r = 2 \<and> rqMethod r = ''CONNECT'' \<and> hGet (rqHeader r) '':protocol'' = ''websocket'')"

lemma upgrade_acceptable:
  assumes "not_h2 r" and "acceptable parseURL u r rh"
  shows "Upgrade parseURL u hijack flushed env w r rh =
    upgradeHijacked u hijack env w r rh (hGet (rqHeader r) ''Sec-Websocket-Key'')"
  using assms
  by (auto simp: Upgrade_def acceptable_code not_h2_def IsWebSocketUpgrade_def keyAccepted_def Let_def split: option.splits)

text \<open>A refusal: an error reply and nothing else.\<close>

definition refused :: "upgrader \<Rightarrow> request \<Rightarrow> upgrade_result \<Rightarrow> bool" where
  "refused u r res \<longleftrightarrow>
     (\<exists>w status reason. res = refuse (returnError u w r status reason) \<and> status \<in> {400, 403, 405, 426, 500})"

lemma refused_intros:
  "refused u r (refuse (returnError u w r 400 reason))" "refused u r (refuse (returnError u w r 403 reason))"
  "refused u r (refuse (returnError u w r 405 reason))" "refused u r (refuse (returnError u w r 426 reason))"
  "refused u r (refuse (returnError u w r 500 reason))"
  unfolding refused_def by blast+

lemma refused_if: "(b \<Longrightarrow> refused u r x) \<Longrightarrow> (\<not> b \<Longrightarrow> refused u r y) \<Longrightarrow> refused u r (if b then x else y)"
  by simp

lemma upgrade_not_acceptable:
  assumes "not_h2 r" and "\<not> acceptable parseURL u r rh"
  shows "refused u r (Upgrade parseURL u hijack flushed env w r rh)"
  unfolding Upgrade_def Let_def
  apply (rule refused_if, use assms(1) in \<open>simp add: not_h2_def\<close>)
  apply (rule refused_if, rule refused_intros)+
  apply (use assms(2) in \<open>cases "uIsValidChallengeKey u"; simp add: acceptable_code IsWebSocketUpgrade_def keyAccepted_def\<close>)
  done

lemma refused_result:
  assumes "refused u r (res, w', n)"
  shows "n = None \<and> (\<exists>reason. res = Inl (HandshakeError reason))"
    and "uError u = None \<Longrightarrow> (\<exists>status \<in> {400, 403, 405, 426, 500}. rwStatus w' = Some status) \<and>
      hGet (rwHeader w') ''Sec-Websocket-Version'' = ''13''"
proof -
  obtain w status reason where r: "(res, w', n) = refuse (returnError u w r status reason)" "status \<in> {400, 403, 405, 426, 500}"
    using assms by (auto simp: refused_def)
  then show "n = None \<and> (\<exists>reason. res = Inl (HandshakeError reason))" by (simp add: refuse_def returnError_def)
  show "(\<exists>status \<in> {400, 403, 405, 426, 500}. rwStatus w' = Some status) \<and>
      hGet (rwHeader w') ''Sec-Websocket-Version'' = ''13''" if "uError u = None"
  proof -
    have "w' = httpError (StatusText status) status (w\<lparr>rwHeader := hSet ''Sec-Websocket-Version'' ''13'' (rwHeader w)\<rparr>)"
      using r(1) that by (simp add: refuse_def returnError_def)
    then show ?thesis using r(2) by (simp add: httpError_def hGet_def hSet_def hDel_def hIndex_delete)
  qed
qed

section \<open>The upgraded connection\<close>

lemma sendResponse_works:
  assumes "netScript c = []"
  shows "sendResponse timeout p c =
    (None, c\<lparr>wire := wire c @ bytes_of_string p, netWriteDeadline := None,
      netReadDeadline := (if timeout > 0 then netReadDeadline c else None)\<rparr>)"
  using assms by (simp add: sendResponse_def netSetDeadline_def netSetWriteDeadline_def netWrite_def)

lemma serverCompression_fields [simp]:
  "netScript (serverCompression t c) = netScript c" "wire (serverCompression t c) = wire c"
  "isServer (serverCompression t c) = isServer c" "subprotocol (serverCompression t c) = subprotocol c"
  "skipUTF8Validation (serverCompression t c) = skipUTF8Validation c"
  "disableMask (serverCompression t c) = disableMask c"
  "netReadDeadline (serverCompression t c) = netReadDeadline c"
  "writeMu (serverCompression t c) = writeMu c" "mu (serverCompression t c) = mu c"
  "writer (serverCompression t c) = writer c" "writeErr (serverCompression t c) = writeErr c"
  "writeDeadline (serverCompression t c) = writeDeadline c" "now (serverCompression t c) = now c"
  "writeBuf (serverCompression t c) = writeBuf c" "writePool (serverCompression t c) = writePool c"
  "writeBufSize (serverCompression t c) = writeBufSize c" "poolScript (serverCompression t c) = poolScript c"
  "readErr (serverCompression t c) = readErr c" "readRemaining (serverCompression t c) = readRemaining c"
  "readFinal (serverCompression t c) = readFinal c" "rbuf (serverCompression t c) = rbuf c"
  "rbufSize (serverCompression t c) = rbufSize c" "rerr (serverCompression t c) = rerr c"
  "rin (serverCompression t c) = rin c" "readLimit (serverCompression t c) = readLimit c"
  by (simp_all add: serverCompression_def split: prod.splits)

text \<open>After the checks the connection is taken over, and an error closes it again.\<close>

lemma hijacked_result:
  assumes "upgradeHijacked u (Inr hj) env w r rh key = (res, w', n)"
  shows "w' = w \<and> ((\<exists>c. res = Inr c \<and> n = None) \<or> (\<exists>err c. res = Inl (UpgradeFailed err) \<and> n = Some c \<and> netClosed c))"
proof -
  obtain e c1 where s: "sendResponse (uHandshakeTimeout u) (upgradeResponse key (selectSubprotocol u r rh) (serverTakeover u r) rh)
      (upgradeConn u (serverTakeover u r) (selectSubprotocol u r rh) hj env) = (e, c1)" by fastforce
  show ?thesis using assms unfolding upgradeHijacked_def Let_def by (cases e) (auto simp: s)
qed

lemma hijacked_works:
  assumes "envNet env = []"
  shows "\<exists>c. upgradeHijacked u (Inr hj) env w r rh key = (Inr c, w, None)"
proof -
  have "netScript (upgradeConn u t p hj env) = []" for t p
    using assms by (cases t) (auto simp: upgradeConn_def upgradeInput_def newConn_def serverCompression_def Let_def)
  then show ?thesis by (simp add: upgradeHijacked_def Let_def sendResponse_works)
qed

text \<open>C31: what Upgrade makes of a request over HTTP/1.1. It refuses exactly the requests that are not
  acceptable (a GET with the tokens, the origin and the key RFC 6455 and the settings ask for), and
  those whose connection the HTTP server does not hand over: the result is a HandshakeError, the
  connection is not taken over, and without an Error hook the reply has one of the five error
  statuses and names the version 13. For every other request nothing is written to the HTTP reply and the
  result is a connection, or an error of the network, with the network connection closed; and it is
  a connection when the network does not fail.\<close>

theorem upgrade_refuses:
  assumes "not_h2 r" and "Upgrade parseURL u hijack flushed env w r rh = (res, w', n)"
  shows "((\<exists>reason. res = Inl (HandshakeError reason)) \<longleftrightarrow> \<not> acceptable parseURL u r rh \<or> (\<exists>err. hijack = Inl err)) \<and>
    (case res of
       Inl (HandshakeError reason) \<Rightarrow> n = None \<and>
         (uError u = None \<longrightarrow> (\<exists>status \<in> {400, 403, 405, 426, 500}. rwStatus w' = Some status) \<and>
           hGet (rwHeader w') ''Sec-Websocket-Version'' = ''13'')
     | Inl (UpgradeFailed err) \<Rightarrow> w' = w \<and> envNet env \<noteq> [] \<and> (\<exists>c. n = Some c \<and> netClosed c)
     | Inr c \<Rightarrow> w' = w \<and> n = None)"
proof (cases "acceptable parseURL u r rh")
  case False
  have "refused u r (res, w', n)" using upgrade_not_acceptable [OF assms(1) False] assms(2) by metis
  from refused_result [OF this] False show ?thesis by auto
next
  case True
  note up = assms(2) [unfolded upgrade_acceptable [OF assms(1) True]]
  show ?thesis
  proof (cases hijack)
    case (Inl err)
    have "refused u r (upgradeHijacked u hijack env w r rh (hGet (rqHeader r) ''Sec-Websocket-Key''))"
      unfolding Inl upgradeHijacked_def Let_def sum.case by (rule refused_intros(5))
    then have "refused u r (res, w', n)" unfolding up .
    from refused_result [OF this] Inl show ?thesis by auto
  next
    case (Inr hj)
    have "\<exists>c. res = Inr c" if "envNet env = []"
      using hijacked_works [OF that, of u hj w r rh "hGet (rqHeader r) ''Sec-Websocket-Key''"] up unfolding Inr by auto
    with hijacked_result [OF up [unfolded Inr]] True Inr show ?thesis by auto
  qed
qed

text \<open>The connection as the message layers see it: no writers and no readers yet.\<close>

definition with_writers :: "conn \<Rightarrow> 'z wconn" where
  "with_writers c = conn.extend c (wconn.fields [] None)"

definition with_readers :: "conn \<Rightarrow> 'd rconn" where
  "with_readers c = conn.extend c (rconn.fields [] None [])"

lemma with_writers_idle: "idle (with_writers c) \<longleftrightarrow> idle c"
  by (simp add: with_writers_def conn.extend_def wconn.fields_def idle_def net_ok_def deadline_ok_def buffers_ok_def
      split: option.splits)

lemma idle_fields:
  "netScript c' = netScript c \<Longrightarrow> writeErr c' = writeErr c \<Longrightarrow> mu c' = mu c \<Longrightarrow> writeMu c' = writeMu c \<Longrightarrow>
   writer c' = writer c \<Longrightarrow> writeDeadline c' = writeDeadline c \<Longrightarrow> now c' = now c \<Longrightarrow> writeBuf c' = writeBuf c \<Longrightarrow>
   writePool c' = writePool c \<Longrightarrow> writeBufSize c' = writeBufSize c \<Longrightarrow> poolScript c' = poolScript c \<Longrightarrow>
   idle c' \<longleftrightarrow> idle c"
  by (simp add: idle_def net_ok_def deadline_ok_def buffers_ok_def split: option.splits)

lemma with_readers_between:
  "between_messages (with_readers c) \<longleftrightarrow>
     live (rin c) \<and> 0 < rbufSize c \<and> length (rbuf c) \<le> rbufSize c \<and> maxControlFramePayloadSize \<le> rbufSize c \<and>
     netScript c = [] \<and> writeErr c = None \<and> mu c \<and> readErr c = None \<and> readRemaining c = 0 \<and> readFinal c"
  by (auto simp: with_readers_def conn.extend_def rconn.fields_def between_messages_def can_read_def input_ok_def net_ok_def)

lemma with_readers_avail: "avail (with_readers c) = avail c"
  by (simp add: with_readers_def conn.extend_def rconn.fields_def avail_def)

lemma newConn_fields:
  "netScript (newConn s rs ws pool br wb env) = envNet env" "writeErr (newConn s rs ws pool br wb env) = None"
  "mu (newConn s rs ws pool br wb env)" "readErr (newConn s rs ws pool br wb env) = None"
  "readRemaining (newConn s rs ws pool br wb env) = 0" "readFinal (newConn s rs ws pool br wb env)"
  "rin (newConn s rs ws pool br wb env) = envIn env" "rerr (newConn s rs ws pool br wb env) = None"
  "rbuf (newConn s rs ws pool br wb env) = (case br of Some (n, b) \<Rightarrow> b | None \<Rightarrow> [])"
  "isServer (newConn s rs ws pool br wb env) = s" "wire (newConn s rs ws pool br wb env) = []"
  "newCompressionWriter (newConn s rs ws pool br wb env) = NilFn"
  "newDecompressionReader (newConn s rs ws pool br wb env) = NilFn"
  by (simp_all add: newConn_def Let_def)

lemma newConn_bufSize:
  "rbufSize (newConn s rs ws pool (Some (n, b)) wb env) = n"
  "maxControlFramePayloadSize \<le> rbufSize (newConn s rs ws pool None wb env)"
  by (simp_all add: newConn_def Let_def maxControlFramePayloadSize_def defaultReadBufferSize_def le_nat_iff)

lemma upgrade_input:
  fixes u :: upgrader and hj :: hijacked and env :: environment
  defines "c \<equiv> newConn True (uReadBufferSize u) (uWriteBufferSize u) (uWriteBufferPool u)
    (upgradeReader u hj) (upgradeWriteBuf u hj) (upgradeInput u hj env)"
  assumes "live (envIn env)" and "length (hjBuffered hj) \<le> hjReaderSize hj"
  shows "live (rin c)" "length (rbuf c) \<le> rbufSize c" "maxControlFramePayloadSize \<le> rbufSize c"
    "avail c = hjBuffered hj @ upto_err (envIn env)"
proof -
  have m: "0 < maxControlFramePayloadSize" "maxControlFramePayloadSize \<le> 256" by (simp_all add: maxControlFramePayloadSize_def)
  show "live (rin c)" "length (rbuf c) \<le> rbufSize c" "maxControlFramePayloadSize \<le> rbufSize c"
    "avail c = hjBuffered hj @ upto_err (envIn env)"
    using assms(2,3) m newConn_bufSize
    by (auto simp: c_def newConn_fields upgradeReader_def upgradeInput_def brNetConn_input_def live_def avail_def newConn_bufSize)
qed

text \<open>What the hijacked connection must be: a network that works, a pool of real buffers.\<close>

definition healthy :: "hijacked \<Rightarrow> environment \<Rightarrow> bool" where
  "healthy hj env \<longleftrightarrow>
     envNet env = [] \<and> live (envIn env) \<and> length (hjBuffered hj) \<le> hjReaderSize hj \<and>
     list_all (\<lambda>b. case b of None \<Rightarrow> True | Some b \<Rightarrow> maxFrameHeaderSize < length b) (envPool env)"

text \<open>The input the peer has sent behind its request.\<close>

definition early_input :: "hijacked \<Rightarrow> environment \<Rightarrow> bytes" where
  "early_input hj env = hjBuffered hj @ upto_err (envIn env)"

lemma accepted_upgrade:
  assumes "not_h2 r" and "acceptable parseURL u r rh" and "healthy hj env"
  shows "\<exists>c. Upgrade parseURL u (Inr hj) flushed env w r rh = (Inr c, w, None) \<and>
    wire c = bytes_of_string (upgradeResponse (hGet (rqHeader r) ''Sec-Websocket-Key'') (selectSubprotocol u r rh)
      (serverTakeover u r) rh) \<and>
    isServer c \<and> subprotocol c = selectSubprotocol u r rh \<and> skipUTF8Validation c = uSkipUTF8Validation u \<and>
    (case serverTakeover u r of (z, sw, cw) \<Rightarrow>
      newCompressionWriter c = (if \<not> z then NilFn else if sw then TakeoverFn else NoTakeoverFn) \<and>
      newDecompressionReader c = (if \<not> z then NilFn else if cw then TakeoverFn else NoTakeoverFn)) \<and>
    idle (with_writers c :: 'z wconn) \<and> between_messages (with_readers c :: 'd rconn) \<and>
    avail (with_readers c :: 'd rconn) = early_input hj env"
proof -
  let ?p = "selectSubprotocol u r rh" and ?t = "serverTakeover u r"
  let ?resp = "upgradeResponse (hGet (rqHeader r) ''Sec-Websocket-Key'') ?p ?t rh"
  define c0 where "c0 = newConn True (uReadBufferSize u) (uWriteBufferSize u) (uWriteBufferPool u)
    (upgradeReader u hj) (upgradeWriteBuf u hj) (upgradeInput u hj env)"
  define c where "c = serverCompression ?t (c0\<lparr>subprotocol := ?p, skipUTF8Validation := uSkipUTF8Validation u\<rparr>)"
  define c' where "c' = c\<lparr>wire := wire c @ bytes_of_string ?resp, netWriteDeadline := None,
      netReadDeadline := (if uHandshakeTimeout u > 0 then netReadDeadline c else None)\<rparr>"
  have "upgradeConn u ?t ?p hj env = c" by (simp add: upgradeConn_def c_def c0_def)
  moreover have "netScript c = []"
    using assms(3) by (simp add: c_def c0_def newConn_def Let_def upgradeInput_def healthy_def)
  ultimately have "Upgrade parseURL u (Inr hj) flushed env w r rh = (Inr c', w, None)"
    using sendResponse_works [of c] by (simp add: upgrade_acceptable [OF assms(1,2)] upgradeHijacked_def Let_def c'_def)
  moreover have "wire c' = bytes_of_string ?resp" "isServer c'" "subprotocol c' = ?p"
    "skipUTF8Validation c' = uSkipUTF8Validation u"
    by (simp_all add: c'_def c_def) (simp_all add: c0_def newConn_def Let_def)
  moreover have "case ?t of (z, sw, cw) \<Rightarrow>
      newCompressionWriter c' = (if \<not> z then NilFn else if sw then TakeoverFn else NoTakeoverFn) \<and>
      newDecompressionReader c' = (if \<not> z then NilFn else if cw then TakeoverFn else NoTakeoverFn)"
    by (cases ?t) (simp add: c'_def c_def serverCompression_def c0_def newConn_def Let_def)
  moreover have "idle (with_writers c' :: 'z wconn)"
  proof -
    have "envNet (upgradeInput u hj env) = envNet env" "envPool (upgradeInput u hj env) = envPool env"
      by (simp_all add: upgradeInput_def)
    moreover have "maxFrameHeaderSize < length b" if "upgradeWriteBuf u hj = Some b" for b
      using that by (auto simp: upgradeWriteBuf_def split: if_splits)
    moreover have "(with_writers c0 :: 'z wconn) = newWConn True (uReadBufferSize u) (uWriteBufferSize u) (uWriteBufferPool u)
        (upgradeReader u hj) (upgradeWriteBuf u hj) (upgradeInput u hj env)"
      by (simp add: with_writers_def newWConn_def c0_def)
    ultimately have "idle (with_writers c0 :: 'z wconn)"
      using new_idle(1) assms(3) by (metis healthy_def)
    then have "idle c0" by (simp add: with_writers_idle)
    moreover have "idle c' \<longleftrightarrow> idle c0" by (rule idle_fields) (simp_all add: c'_def c_def)
    ultimately show ?thesis by (simp add: with_writers_idle)
  qed
  moreover have "between_messages (with_readers c' :: 'd rconn)"
  proof -
    have i: "live (rin c0)" "length (rbuf c0) \<le> rbufSize c0" "maxControlFramePayloadSize \<le> rbufSize c0"
      using assms(3) upgrade_input(1-3) unfolding healthy_def c0_def by blast+
    have "envNet (upgradeInput u hj env) = []" using assms(3) by (simp add: upgradeInput_def healthy_def)
    then have f: "netScript c0 = []" "writeErr c0 = None" "mu c0" "readErr c0 = None" "readRemaining c0 = 0" "readFinal c0"
      by (simp_all add: c0_def newConn_fields)
    have "0 < rbufSize c0" using i(3) by (simp add: maxControlFramePayloadSize_def)
    moreover have "rin c' = rin c0" "rbuf c' = rbuf c0" "rbufSize c' = rbufSize c0" "netScript c' = netScript c0"
      "writeErr c' = writeErr c0" "mu c' = mu c0" "readErr c' = readErr c0" "readRemaining c' = readRemaining c0"
      "readFinal c' = readFinal c0"
      by (simp_all add: c'_def c_def)
    ultimately show ?thesis using i f by (simp only: with_readers_between simp_thms)
  qed
  moreover have "avail (with_readers c' :: 'd rconn) = early_input hj env"
  proof -
    have "rin c' = rin c0" "rbuf c' = rbuf c0" "rerr c' = rerr c0" by (simp_all add: c'_def c_def)
    then have "avail c' = avail c0" by (simp add: avail_def)
    also have "\<dots> = early_input hj env"
      using assms(3) upgrade_input(4) unfolding healthy_def c0_def early_input_def by blast
    finally show ?thesis by (simp add: with_readers_avail)
  qed
  ultimately show ?thesis by - (rule exI [of _ c'], intro conjI; assumption)
qed

text \<open>C30: the connection an accepted request gets. The response is what upgradeResponse composes and the
  only thing sent; the connection has the role, the subprotocol and the compression that were
  negotiated; it is idle and between messages, so that the theorems on writing and reading messages
  apply to it; and what the peer sent early, in the server's buffer or on the network, is its input,
  byte by byte.\<close>

theorem upgraded_connection:
  assumes "not_h2 r" and "acceptable parseURL u r rh" and "healthy hj env"
  shows "\<exists>c. Upgrade parseURL u (Inr hj) flushed env w r rh = (Inr c, w, None) \<and>
    wire c = bytes_of_string (upgradeResponse (hGet (rqHeader r) ''Sec-Websocket-Key'') (selectSubprotocol u r rh)
      (serverTakeover u r) rh) \<and>
    isServer c \<and> subprotocol c = selectSubprotocol u r rh \<and> skipUTF8Validation c = uSkipUTF8Validation u \<and>
    (case serverTakeover u r of (z, sw, cw) \<Rightarrow>
      newCompressionWriter c = (if \<not> z then NilFn else if sw then TakeoverFn else NoTakeoverFn) \<and>
      newDecompressionReader c = (if \<not> z then NilFn else if cw then TakeoverFn else NoTakeoverFn)) \<and>
    idle (with_writers c :: 'z wconn) \<and> between_messages (with_readers c :: 'd rconn) \<and>
    avail (with_readers c :: 'd rconn) = early_input hj env"
  using assms by (rule accepted_upgrade)

section \<open>Sample requests\<close>

text \<open>The request of RFC 6455, and an Upgrader with its default settings.\<close>

definition sample_upgrader :: upgrader where
  "sample_upgrader =
     \<lparr>uHandshakeTimeout = 0, uReadBufferSize = 0, uWriteBufferSize = 0, uWriteBufferPool = False,
      uSubprotocols = None, uIsValidChallengeKey = None, uNegotiateSubprotocol = None, uError = None,
      uCheckOrigin = None, uEnableCompression = True, uCompressionMode = CompressionModeDefault,
      uSkipUTF8Validation = False\<rparr>"

definition sample_request :: request where
  "sample_request =
     \<lparr>rqProtoMajor = 1, rqMethod = ''GET'',
      rqHeader = [(''Connection'', [''Upgrade'']), (''Upgrade'', [''websocket'']),
        (''Sec-Websocket-Version'', [''13'']), (''Sec-Websocket-Key'', [''dGhlIHNhbXBsZSBub25jZQ==''])],
      rqHost = ''server.example.com'', rqRemoteAddr = ''''\<rparr>"

definition sample_hijacked :: hijacked where
  "sample_hijacked = \<lparr>hjReaderSize = 4096, hjBuffered = [0x81], hjAvailable = []\<rparr>"

definition no_writer :: responseWriter where
  "no_writer = \<lparr>rwHeader = [], rwStatus = None, rwBody = ''''\<rparr>"

lemma single_token: "token t \<Longrightarrow> tokenLoop v t \<longleftrightarrow> equalASCIIFold t v"
  using tokenLoop_list [of "[('''', t, '''')]" v] by (simp add: token_item_def white_def)

lemma sample_tokens:
  "tokenLoop ''upgrade'' ''Upgrade''" "tokenLoop ''websocket'' ''websocket''" "tokenLoop ''13'' ''13''"
proof -
  have t: "token ''Upgrade''" "token ''websocket''" "token ''13''"
    by (simp_all add: token_def isTokenOctet_def tokenOctets_def)
  have "map lowerChar ''Upgrade'' = map lowerChar ''upgrade''" by code_simp
  then show "tokenLoop ''upgrade'' ''Upgrade''"
    by (simp only: single_token [OF t(1)]) (subst equalASCIIFold_ascii; simp add: ascii_def)
  show "tokenLoop ''websocket'' ''websocket''" "tokenLoop ''13'' ''13''"
    by (simp_all only: single_token t) (subst equalASCIIFold_ascii; simp add: ascii_def)+
qed

lemma sample_key: "isValidChallengeKey ''dGhlIHNhbXBsZSBub25jZQ==''"
  by (simp add: isValidChallengeKey_def b64_DecodeString_def b64_value_def)

lemma sample_acceptable: "not_h2 sample_request" "acceptable parseURL sample_upgrader sample_request []"
  by (simp_all add: not_h2_def acceptable_code sample_request_def sample_upgrader_def IsWebSocketUpgrade_def
      tokenListContainsValue_def hIndex_def hHas_def hGet_def sample_tokens originAllowed_def checkSameOrigin_def
      keyAccepted_def sample_key)

lemma sample_healthy: "healthy sample_hijacked quiet"
  by (simp add: healthy_def sample_hijacked_def quiet_def live_def)

lemma upgraded_connection_witness:
  "\<exists>c. Upgrade (\<lambda>s. Inl IoEOF) sample_upgrader (Inr sample_hijacked) None quiet no_writer sample_request [] =
      (Inr c, no_writer, None) \<and> idle (with_writers c :: unit wconn) \<and>
      avail (with_readers c :: unit rconn) = [0x81]"
proof -
  obtain c where "Upgrade (\<lambda>s. Inl IoEOF) sample_upgrader (Inr sample_hijacked) None quiet no_writer sample_request [] =
      (Inr c, no_writer, None)" "idle (with_writers c :: unit wconn)"
    "avail (with_readers c :: unit rconn) = early_input sample_hijacked quiet"
    using upgraded_connection [OF sample_acceptable sample_healthy, of "\<lambda>s. Inl IoEOF" None no_writer] by blast
  then show ?thesis by (auto simp: early_input_def sample_hijacked_def quiet_def)
qed

lemma upgrade_refuses_witness:
  "(\<exists>reason. fst (Upgrade (\<lambda>s. Inl IoEOF) sample_upgrader (Inr sample_hijacked) None quiet no_writer
      (sample_request\<lparr>rqMethod := ''POST''\<rparr>) []) = Inl (HandshakeError reason)) \<and>
   (\<exists>c. Upgrade (\<lambda>s. Inl IoEOF) sample_upgrader (Inr sample_hijacked) None quiet no_writer sample_request [] =
      (Inr c, no_writer, None))"
proof -
  let ?r = "sample_request\<lparr>rqMethod := ''POST''\<rparr>"
  obtain res w' n where u: "Upgrade (\<lambda>s. Inl IoEOF) sample_upgrader (Inr sample_hijacked) None quiet no_writer ?r [] = (res, w', n)"
    by (metis prod_cases3)
  have "not_h2 ?r" "\<not> acceptable (\<lambda>s. Inl IoEOF) sample_upgrader ?r []"
    by (simp_all add: not_h2_def acceptable_def sample_request_def)
  with upgrade_refuses [OF _ u] have 1: "\<exists>reason. res = Inl (HandshakeError reason)" by simp
  obtain res2 w2 n2 where u2: "Upgrade (\<lambda>s. Inl IoEOF) sample_upgrader (Inr sample_hijacked) None quiet no_writer sample_request [] =
      (res2, w2, n2)" by (metis prod_cases3)
  have "envNet quiet = []" by (simp add: quiet_def)
  with upgrade_refuses [OF sample_acceptable(1) u2] sample_acceptable(2) have "\<exists>c. res2 = Inr c \<and> w2 = no_writer \<and> n2 = None"
    by (auto split: sum.splits upgrade_error.splits)
  with 1 u u2 show ?thesis by simp
qed

section \<open>Response splitting\<close>

definition printable :: "string \<Rightarrow> bool" where
  "printable s \<longleftrightarrow> list_all (\<lambda>c. (31 :: nat) < of_char c) s"

definition lines :: "string list \<Rightarrow> string" where
  "lines ls = concat (map (\<lambda>l. l @ crlf) ls)"

lemma lines_Nil [simp]: "lines [] = []"
  by (simp add: lines_def)

lemma lines_append: "lines (as @ bs) = lines as @ lines bs"
  by (simp add: lines_def)

lemma printable_append [simp]: "printable (a @ b) \<longleftrightarrow> printable a \<and> printable b"
  by (simp add: printable_def)

lemma printable_sanitized [simp]: "printable (sanitizeHeaderValue v)"
  by (auto simp: printable_def sanitizeHeaderValue_def list_all_iff)

lemma printable_Cons [simp]: "printable []" "printable (c # s) \<longleftrightarrow> (31 :: nat) < of_char c \<and> printable s"
  by (simp_all add: printable_def)

lemma printable_b64 [simp]: "printable (b64_EncodeToString p)"
proof -
  have c: "(31 :: nat) < of_char (b64_char n)" if "n < 64" for n
    using that by (simp add: b64_char_code) arith
  have "printable (b64_encode ns)" if "list_all (\<lambda>n. n < 256) ns" for ns
    using that by (induction ns rule: b64_encode.induct) (simp_all add: c)
  then show ?thesis by (simp add: b64_EncodeToString_def list_all_iff)
qed

fun app_lines :: "header \<Rightarrow> string list" where
  "app_lines [] = []"
| "app_lines ((k, vs) # h) =
     (if k = ''Sec-Websocket-Protocol'' then [] else map (\<lambda>v. k @ '': '' @ sanitizeHeaderValue v) vs) @ app_lines h"

lemma applicationHeaders_lines: "applicationHeaders h = lines (app_lines h)"
proof (induction h rule: app_lines.induct)
  case (2 k vs h)
  have "concat (map (headerLine k) vs) = lines (map (\<lambda>v. k @ '': '' @ sanitizeHeaderValue v) vs)"
    by (induction vs) (simp_all add: lines_def headerLine_def)
  with 2 show ?case by (simp add: applicationHeaders_def lines_append)
qed (simp add: applicationHeaders_def lines_def)

definition response_lines :: "string \<Rightarrow> string \<Rightarrow> takeover \<Rightarrow> header \<Rightarrow> string list" where
  "response_lines key protocol t rh =
     [''HTTP/1.1 101 Switching Protocols'', ''Upgrade: websocket'', ''Connection: Upgrade'',
      ''Sec-WebSocket-Accept: '' @ computeAcceptKey key] @
     (if protocol \<noteq> '''' then [''Sec-WebSocket-Protocol: '' @ protocol] else []) @
     (if fst t then [''Sec-WebSocket-Extensions: '' @ extensionResponse t] else []) @ app_lines rh"

text \<open>C32: the response is made of the lines it is meant to have. When the subprotocol and the names of the
  application's headers have no control characters, whatever is in the header values, the response
  is the status line, the lines of the handshake, one line for each value of an application header
  but Sec-WebSocket-Protocol, and an empty line, with no control character inside a line.\<close>

theorem response_not_split:
  assumes "printable protocol" and "list_all (\<lambda>(k, vs). printable k) rh"
  shows "upgradeResponse key protocol t rh = lines (response_lines key protocol t rh) @ crlf \<and>
    list_all printable (response_lines key protocol t rh)"
proof
  show "upgradeResponse key protocol t rh = lines (response_lines key protocol t rh) @ crlf"
    by (simp add: upgradeResponse_def response_lines_def applicationHeaders_lines lines_append) (simp add: lines_def)
  have "list_all printable (app_lines rh)"
    using assms(2) by (induction rh rule: app_lines.induct) (auto simp: list_all_iff)
  moreover have "printable (extensionResponse t)"
    by (cases t) (simp add: extensionResponse_def)
  ultimately show "list_all printable (response_lines key protocol t rh)"
    using assms(1) by (simp add: response_lines_def computeAcceptKey_def)
qed

lemma response_not_split_witness:
  "upgradeResponse ''k'' '''' (False, False, False) [(''X'', [''a'' @ crlf @ ''Set-Cookie: b''])] =
     lines (response_lines ''k'' '''' (False, False, False) [(''X'', [''a'' @ crlf @ ''Set-Cookie: b''])]) @ crlf"
  using response_not_split [of "''''" "[(''X'', [''a'' @ crlf @ ''Set-Cookie: b''])]" "''k''" "(False, False, False)"] by simp

text \<open>The subprotocol an application names in its response header is not looked at: it reaches the response
  as it is, line breaks included.\<close>

lemma subprotocol_splits_response:
  assumes "uNegotiateSubprotocol u = None" and "uSubprotocols u = None"
    and "hIndex rh ''Sec-Websocket-Protocol'' = [''chat'' @ crlf @ ''Set-Cookie: a=b'']"
  shows "\<exists>before after. upgradeResponse key (selectSubprotocol u r rh) t rh =
    before @ crlf @ ''Set-Cookie: a=b'' @ crlf @ after"
proof -
  have "selectSubprotocol u r rh = ''chat'' @ crlf @ ''Set-Cookie: a=b''"
    using assms by (simp add: selectSubprotocol_def hGet_def)
  then have "upgradeResponse key (selectSubprotocol u r rh) t rh =
      (''HTTP/1.1 101 Switching Protocols'' @ crlf @ ''Upgrade: websocket'' @ crlf @ ''Connection: Upgrade'' @ crlf @
       ''Sec-WebSocket-Accept: '' @ computeAcceptKey key @ crlf @ ''Sec-WebSocket-Protocol: chat'') @
      crlf @ ''Set-Cookie: a=b'' @ crlf @
      ((if fst t then ''Sec-WebSocket-Extensions: '' @ extensionResponse t @ crlf else '''') @ applicationHeaders rh @ crlf)"
    by (simp add: upgradeResponse_def)
  then show ?thesis by blast
qed

section \<open>Subprotocols\<close>

lemma splitAt_piece: "c \<notin> set p \<Longrightarrow> splitAt c (p @ c # s) = p # splitAt c s"
  by (induction p) auto

lemma splitAt_last: "c \<notin> set p \<Longrightarrow> splitAt c p = [p]"
  by (induction p) auto

lemma trimPrefixes_none: "list_all (\<lambda>w. w = [] \<or> s = [] \<or> hd w \<noteq> hd s) ws \<Longrightarrow> trimPrefixes ws s = s"
proof -
  assume h: "list_all (\<lambda>w. w = [] \<or> s = [] \<or> hd w \<noteq> hd s) ws"
  have "find (\<lambda>w. w \<noteq> [] \<and> take (length w) s = w) ws = None"
  proof (rule ccontr)
    assume "find (\<lambda>w. w \<noteq> [] \<and> take (length w) s = w) ws \<noteq> None"
    then obtain w where "w \<in> set ws" "w \<noteq> []" "take (length w) s = w" by (auto simp: find_None_iff)
    moreover from this have "s \<noteq> []" "hd w = hd s" by (fastforce, metis hd_take length_greater_0_conv)
    ultimately show False using h by (auto simp: list_all_iff)
  qed
  then show ?thesis by (simp add: trimPrefixes.simps)
qed

text \<open>Token octets begin and end no white space.\<close>

definition solid :: "string \<Rightarrow> bool" where
  "solid s \<longleftrightarrow> s \<noteq> [] \<and> isTokenOctet (hd s) \<and> isTokenOctet (last s)"

lemma spaces_no_octets: "list_all (\<lambda>w. \<not> isTokenOctet (hd w) \<and> \<not> isTokenOctet (last w) \<and> w \<noteq> []) spaceTexts"
  by (simp add: spaceTexts_def isTokenOctet_def tokenOctets_def)

lemma octets_solid: "isTokenOctet c \<Longrightarrow> list_all (\<lambda>w. hd w \<noteq> c \<and> last w \<noteq> c \<and> w \<noteq> []) spaceTexts"
  using spaces_no_octets by (auto simp: list_all_iff)

lemma TrimSpace_solid: "solid s \<Longrightarrow> TrimSpace s = s"
proof -
  assume s: "solid s"
  have "trimPrefixes spaceTexts s = s"
    by (rule trimPrefixes_none) (use s octets_solid [of "hd s"] in \<open>auto simp: solid_def list_all_iff\<close>)
  moreover have "trimPrefixes (map rev spaceTexts) (rev s) = rev s"
    by (rule trimPrefixes_none)
      (use s octets_solid [of "last s"] in \<open>auto simp: solid_def list_all_iff hd_rev\<close>)
  ultimately show ?thesis by (simp add: TrimSpace_def)
qed

lemma TrimSpace_blank: "solid s \<Longrightarrow> TrimSpace (CHR '' '' # s) = s"
proof -
  assume s: "solid s"
  have f: "find (\<lambda>w. w \<noteq> [] \<and> take (length w) (CHR '' '' # s) = w) spaceTexts = Some '' ''"
    by (simp add: spaceTexts_def)
  have "trimPrefixes spaceTexts (CHR '' '' # s) = trimPrefixes spaceTexts s"
    by (subst trimPrefixes.simps) (simp add: f)
  then show ?thesis using TrimSpace_solid [OF s] by (simp add: TrimSpace_def)
qed

lemma token_solid: "token t \<Longrightarrow> solid t"
  by (cases t) (auto simp: token_def solid_def list_all_iff)

lemma token_comma: "token t \<Longrightarrow> CHR '','' \<notin> set t"
  by (auto simp: token_def list_all_iff)

lemma joined_solid: "ps \<noteq> [] \<Longrightarrow> list_all token ps \<Longrightarrow> solid (joinWith '', '' ps)"
proof (induction "'', ''" ps rule: joinWith.induct)
  case (3 s t ss)
  then have "solid s" "solid (joinWith '', '' (t # ss))" by (simp_all add: token_solid)
  then show ?case by (simp add: solid_def)
qed (simp_all add: token_solid)

lemma split_joined: "ps \<noteq> [] \<Longrightarrow> list_all token ps \<Longrightarrow>
    splitAt CHR '','' (joinWith '', '' ps) = hd ps # map (\<lambda>p. CHR '' '' # p) (tl ps)"
proof (induction "'', ''" ps rule: joinWith.induct)
  case (2 s)
  then show ?case by (simp add: splitAt_last token_comma)
next
  case (3 s t ss)
  have "splitAt CHR '','' (CHR '' '' # joinWith '', '' (t # ss)) = (CHR '' '' # t) # map (\<lambda>p. CHR '' '' # p) ss"
    using 3 by simp
  then show ?case using 3(3) by (simp add: splitAt_piece token_comma del: joinWith.simps) (simp add: splitAt_piece token_comma)
qed simp

lemma Subprotocols_joined:
  assumes "hGet (rqHeader r) ''Sec-Websocket-Protocol'' = joinWith '', '' ps" and "ps \<noteq> []" and "list_all token ps"
  shows "Subprotocols r = ps"
proof -
  have s: "solid (joinWith '', '' ps)" using assms(2,3) by (rule joined_solid)
  then have "joinWith '', '' ps \<noteq> ''''" by (simp add: solid_def)
  moreover have "map TrimSpace (hd ps # map (\<lambda>p. CHR '' '' # p) (tl ps)) = ps"
    using assms(2,3) by (cases ps) (auto simp: TrimSpace_solid TrimSpace_blank token_solid list_all_iff intro: map_idI)
  ultimately show ?thesis
    using split_joined [OF assms(2,3)] by (simp add: Subprotocols_def assms(1) TrimSpace_solid [OF s] Let_def)
qed

text \<open>The subprotocol the two sides agree on. Of the list a client sends (the join a Dialer writes), the
  server takes the first one that is in its own list, so the order of the client decides; when there
  is none in common, none is chosen.\<close>

lemma subprotocol_agreed:
  assumes "hGet (rqHeader r) ''Sec-Websocket-Protocol'' = joinWith '', '' ps" and "ps \<noteq> []" and "list_all token ps"
    and "uNegotiateSubprotocol u = None" and "uSubprotocols u = Some qs"
  shows "(\<exists>as p bs. ps = as @ p # bs \<and> p \<in> set qs \<and> set as \<inter> set qs = {} \<and> selectSubprotocol u r rh = p) \<or>
    set ps \<inter> set qs = {} \<and> selectSubprotocol u r rh = ''''"
proof -
  have sel: "selectSubprotocol u r rh = (case find (\<lambda>p. p \<in> set qs) ps of Some p \<Rightarrow> p | None \<Rightarrow> '''')"
    using assms(4,5) by (simp add: selectSubprotocol_def Subprotocols_joined [OF assms(1-3)] list_ex_iff)
  show ?thesis
  proof (cases "find (\<lambda>p. p \<in> set qs) ps")
    case None
    then have "set ps \<inter> set qs = {}" by (auto simp: find_None_iff)
    moreover have "selectSubprotocol u r rh = ''''" using sel None by simp
    ultimately show ?thesis by blast
  next
    case (Some p)
    then obtain i where i: "i < length ps" "p = ps ! i" "p \<in> set qs" "\<And>j. j < i \<Longrightarrow> ps ! j \<notin> set qs"
      by (auto simp: find_Some_iff)
    have "ps = take i ps @ p # drop (Suc i) ps" using i(1,2) by (simp add: id_take_nth_drop)
    moreover have "set (take i ps) \<inter> set qs = {}" using i(1,4) by (auto simp: in_set_conv_nth)
    moreover have "selectSubprotocol u r rh = p" using sel Some by simp
    ultimately show ?thesis using i(3) by blast
  qed
qed

end
