(* ===== verification/Dialed.thy ===== *)
theory Dialed
  imports Client Upgraded
begin

text \<open>
  What a dial guarantees: which responses it accepts and the connection it then returns, that a
  connection it gives up is closed, that a wss URL is never dialled without TLS to the server, and
  the handshake of a Dialer with an Upgrader, request and response as the lines of the wire.
\<close>

section \<open>Up to the response\<close>

definition secured :: "url \<Rightarrow> url" where
  "secured u0 = u0\<lparr>urlScheme := (if urlScheme u0 = ''ws'' then ''http'' else ''https'')\<rparr>"

text \<open>A dial over HTTP/1.1 that has its key, its request and its network connection, has written the
  request, and reads the response.\<close>

definition opened ::
  "'a world_scheme \<Rightarrow> dialer \<Rightarrow> string \<Rightarrow> header \<Rightarrow> string \<Rightarrow> request \<Rightarrow> netConn \<Rightarrow> bool" where
  "opened w d urlStr requestHeader key req nc \<longleftrightarrow>
     generateChallengeKey (wRandom w) = Inr key \<and> dHTTP2 d = HTTP2Disabled \<and>
     (\<exists>u0. wParseURL w urlStr = Inr u0 \<and> (urlScheme u0 = ''ws'' \<or> urlScheme u0 = ''wss'') \<and> urlUser u0 = None \<and>
       dialRequest d (secured u0) key requestHeader (wCookies w) = Inr req \<and>
       dialNetConn w d (secured u0) req = Some (Inr nc)) \<and>
     wRequestWrite w req = None"

lemma opened_dial: "opened w d s rh key req nc \<Longrightarrow> DialContext w d s rh = Some (dialHandshake w d key req nc)"
  by (auto simp: opened_def DialContext_def dialHTTP1_def secured_def Let_def)

section \<open>The connection of a client\<close>

lemma clientCompression_fields [simp]:
  "netScript (clientCompression t c) = netScript c" "wire (clientCompression t c) = wire c"
  "isServer (clientCompression t c) = isServer c" "subprotocol (clientCompression t c) = subprotocol c"
  "skipUTF8Validation (clientCompression t c) = skipUTF8Validation c"
  "disableMask (clientCompression t c) = disableMask c"
  "netReadDeadline (clientCompression t c) = netReadDeadline c"
  "writeMu (clientCompression t c) = writeMu c" "mu (clientCompression t c) = mu c"
  "writer (clientCompression t c) = writer c" "writeErr (clientCompression t c) = writeErr c"
  "writeDeadline (clientCompression t c) = writeDeadline c" "now (clientCompression t c) = now c"
  "writeBuf (clientCompression t c) = writeBuf c" "writePool (clientCompression t c) = writePool c"
  "writeBufSize (clientCompression t c) = writeBufSize c" "poolScript (clientCompression t c) = poolScript c"
  "readErr (clientCompression t c) = readErr c" "readRemaining (clientCompression t c) = readRemaining c"
  "readFinal (clientCompression t c) = readFinal c" "rbuf (clientCompression t c) = rbuf c"
  "rbufSize (clientCompression t c) = rbufSize c" "rerr (clientCompression t c) = rerr c"
  "rin (clientCompression t c) = rin c" "readLimit (clientCompression t c) = readLimit c"
  by (simp_all add: clientCompression_def split: prod.splits)

text \<open>What the network connection and what is read behind the response must be.\<close>

definition sound :: "dialer \<Rightarrow> netConn \<Rightarrow> bytes \<Rightarrow> source \<Rightarrow> bool" where
  "sound d nc buffered input \<longleftrightarrow>
     envNet (ncEnv nc) = [] \<and> live input \<and> length buffered \<le> rbufSize (clientConn d (ncEnv nc)) \<and>
     list_all (\<lambda>b. case b of None \<Rightarrow> True | Some b \<Rightarrow> maxFrameHeaderSize < length b) (envPool (ncEnv nc))"

text \<open>What a client's connection has: the role and the settings, the compression and the subprotocol of the
  answer, and the state in which messages are written and read.\<close>

definition established :: "dialer \<Rightarrow> takeover \<Rightarrow> string \<Rightarrow> bytes \<Rightarrow> conn \<Rightarrow> bool" where
  "established d t protocol early c \<longleftrightarrow>
     \<not> isServer c \<and> disableMask c = dDisableClientMask d \<and> skipUTF8Validation c = dSkipUTF8Validation d \<and>
     subprotocol c = protocol \<and>
     (case t of (z, rt, wt) \<Rightarrow>
       newCompressionWriter c = (if \<not> z then NilFn else if wt then TakeoverFn else NoTakeoverFn) \<and>
       newDecompressionReader c = (if \<not> z then NilFn else if rt then TakeoverFn else NoTakeoverFn)) \<and>
     netReadDeadline c = None \<and> netWriteDeadline c = None \<and>
     idle (with_writers c :: unit wconn) \<and> between_messages (with_readers c :: unit rconn) \<and> avail c = early"

lemma clientConn_established:
  assumes "sound d nc buffered input"
  shows "established d t protocol (buffered @ upto_err input)
    ((clientCompression t ((clientConn d (ncEnv nc))\<lparr>rbuf := buffered, rin := input\<rparr>))
       \<lparr>subprotocol := protocol, netReadDeadline := None, netWriteDeadline := None\<rparr>)"
    (is "established d t protocol _ ?c")
proof -
  define c0 where "c0 = newConn False (dReadBufferSize d) (dWriteBufferSize d) (dWriteBufferPool d) None None (ncEnv nc)"
  have cc: "clientConn d (ncEnv nc) = c0\<lparr>disableMask := dDisableClientMask d, skipUTF8Validation := dSkipUTF8Validation d\<rparr>"
    by (simp add: clientConn_def c0_def)
  have "(with_writers c0 :: unit wconn) = newWConn False (dReadBufferSize d) (dWriteBufferSize d) (dWriteBufferPool d)
      None None (ncEnv nc)"
    by (simp add: with_writers_def newWConn_def c0_def)
  then have "idle (with_writers c0 :: unit wconn)" using new_idle(1) assms by (metis sound_def option.distinct(1))
  then have "idle c0" by (simp add: with_writers_idle)
  moreover have "idle ?c \<longleftrightarrow> idle c0" by (rule idle_fields) (simp_all add: cc)
  ultimately have "idle (with_writers ?c :: unit wconn)" by (simp add: with_writers_idle)
  moreover have "between_messages (with_readers ?c :: unit rconn)"
  proof -
    have m: "maxControlFramePayloadSize \<le> rbufSize c0" unfolding c0_def by (rule newConn_bufSize)
    then have "0 < rbufSize c0" by (simp add: maxControlFramePayloadSize_def)
    moreover have "live input" "length buffered \<le> rbufSize c0" "netScript c0 = []"
      using assms by (simp_all add: sound_def cc c0_def newConn_fields)
    moreover have "writeErr c0 = None" "mu c0" "readErr c0 = None" "readRemaining c0 = 0" "readFinal c0"
      by (simp_all add: c0_def newConn_fields)
    ultimately show ?thesis using m by (simp add: with_readers_between cc)
  qed
  moreover have "avail ?c = buffered @ upto_err input"
    by (simp add: avail_def cc c0_def newConn_fields)
  ultimately show ?thesis
    by (cases t) (simp add: established_def cc c0_def newConn_fields clientCompression_def)
qed

lemma netSetDeadline_none: "netScript c = [] \<Longrightarrow>
    netSetDeadline None c = (None, c\<lparr>netWriteDeadline := None, netReadDeadline := None\<rparr>)"
  by (simp add: netSetDeadline_def netSetWriteDeadline_def)

lemma dialHandshake_accepted:
  assumes "sound d nc buffered input" and "wRequestWrite w req = None"
    and "wReadResponse w req = Inr (resp, buffered, input)" and "responseAccepted key resp"
    and "negotiateAnswer (dialMode d) (rsHeader resp) = Inr t"
  shows "\<exists>c. dialHandshake w d key req nc = (Inr c, Some (resp\<lparr>rsBody := []\<rparr>), False) \<and>
    established d t (hGet (rsHeader resp) ''Sec-Websocket-Protocol'') (buffered @ upto_err input) c"
proof -
  let ?p = "hGet (rsHeader resp) ''Sec-Websocket-Protocol''"
  define c where "c = (clientCompression t ((clientConn d (ncEnv nc))\<lparr>rbuf := buffered, rin := input\<rparr>))
      \<lparr>subprotocol := ?p, netReadDeadline := None, netWriteDeadline := None\<rparr>"
  have "netScript (clientConn d (ncEnv nc)) = []"
    using assms(1) by (simp add: sound_def clientConn_def newConn_fields)
  then have "dialHandshake w d key req nc = (Inr c, Some (resp\<lparr>rsBody := []\<rparr>), False)"
    using assms(2-5)
    by (cases t) (simp add: dialHandshake_def Let_def netSetDeadline_none c_def clientCompression_def)
  with clientConn_established [OF assms(1)] show ?thesis by (auto simp: c_def)
qed

text \<open>RFC 6455, section 4.1: the response to a challenge is a 101 with the tokens websocket and upgrade, and
  with the base64 text of the SHA-1 sum of the challenge and the protocol's GUID.\<close>

definition answers_challenge :: "string \<Rightarrow> response \<Rightarrow> bool" where
  "answers_challenge key resp \<longleftrightarrow>
     rsStatusCode resp = 101 \<and>
     tokenListContainsValue (rsHeader resp) ''Upgrade'' ''websocket'' \<and>
     tokenListContainsValue (rsHeader resp) ''Connection'' ''upgrade'' \<and>
     hGet (rsHeader resp) ''Sec-Websocket-Accept'' =
       b64_EncodeToString (sha1_sum (bytes_of_string (key @ ''258EAFA5-E914-47DA-95CA-C5AB0DC85B11'')))"

lemma accepted_answers: "responseAccepted key resp = answers_challenge key resp"
  by (auto simp: responseAccepted_def answers_challenge_def computeAcceptKey_def keyGUID_def bytes_of_string_def)

text \<open>C35: what a dial makes of a response. With a network that works, it returns a connection exactly if the
  response is a 101 that upgrades to websocket, carries the accept key of the challenge (the SHA-1 sum
  RFC 6455 prescribes) and a compression answer that fits: the connection has the role, the settings and what was negotiated, it
  is ready to write and read messages, and what the server sent right behind its response is its
  input. Every other response is an error that comes with the response, and the network connection is
  closed.\<close>

theorem dial_decides:
  assumes "opened w d urlStr rh key req nc" and "sound d nc buffered input"
    and "wReadResponse w req = Inr (resp, buffered, input)"
  shows "(case (answers_challenge key resp, negotiateAnswer (dialMode d) (rsHeader resp)) of
      (True, Inr t) \<Rightarrow>
        \<exists>c. DialContext w d urlStr rh = Some (Inr c, Some (resp\<lparr>rsBody := []\<rparr>), False) \<and>
          established d t (hGet (rsHeader resp) ''Sec-Websocket-Protocol'') (buffered @ upto_err input) c
    | (True, Inl err) \<Rightarrow> DialContext w d urlStr rh = Some (Inl err, Some resp, True)
    | (False, _) \<Rightarrow> DialContext w d urlStr rh = Some (Inl ErrBadHandshake, Some (errorBody d resp), True))"
proof -
  have w: "wRequestWrite w req = None" using assms(1) by (simp add: opened_def)
  note d = opened_dial [OF assms(1)]
  show ?thesis
  proof (cases "answers_challenge key resp")
    case False
    with w assms(3) show ?thesis by (simp add: d dialHandshake_def accepted_answers Let_def)
  next
    case True
    show ?thesis
    proof (cases "negotiateAnswer (dialMode d) (rsHeader resp)")
      case (Inl err)
      with True w assms(3) show ?thesis by (simp add: d dialHandshake_def accepted_answers Let_def)
    next
      case (Inr t)
      with dialHandshake_accepted [OF assms(2) w assms(3) _ Inr] True show ?thesis by (simp add: d accepted_answers)
    qed
  qed
qed

section \<open>Sample dials\<close>

definition sample_dialer :: dialer where
  "sample_dialer =
     \<lparr>dNetDial = False, dNetDialContext = False, dNetDialTLSContext = False, dProxy = None,
      dProxyConnectHeader = [], dTLSClientConfig = None, dHandshakeTimeout = 0, dReadBufferSize = 0,
      dWriteBufferSize = 0, dWriteBufferPool = False, dSubprotocols = [''chat''], dEnableCompression = True,
      dCompressionMode = CompressionModeDefault, dJar = False, dMaxErrorBodySize = 0, dHTTP2 = HTTP2Disabled,
      dDisableClientMask = False, dSkipUTF8Validation = False\<rparr>"

definition sample_conn :: netConn where
  "sample_conn = \<lparr>ncEnv = quiet, ncDeadline = None, ncTLS = []\<rparr>"

definition sample_url :: url where
  "sample_url = \<lparr>urlScheme = ''ws'', urlHost = ''server.example.com'', urlUser = None\<rparr>"

definition sample_nonce :: bytes where
  "sample_nonce = bytes_of_string ''the sample nonce''"

text \<open>A network where everything works, whose server answers with a given response.\<close>

definition sample_world :: "(request \<Rightarrow> response) \<Rightarrow> bytes \<Rightarrow> world" where
  "sample_world respond early =
     \<lparr>wDial = (\<lambda>f addr. Inr sample_conn), wProxyFromURL = (\<lambda>u f. None), wHandshake = (\<lambda>s. None),
      wVerify = (\<lambda>s. None), wSetDeadline = None, wConnectWrite = (\<lambda>r. None),
      wConnectResponse = (\<lambda>r. Inr (200, ''200 OK'')), wRandom = Inr sample_nonce,
      wParseURL = (\<lambda>s. Inr sample_url), wCookies = [], wDeadline = None, wNow = 0,
      wRequestWrite = (\<lambda>r. None), wReadResponse = (\<lambda>r. Inr (respond r, early, [])),
      wQuote = (\<lambda>s. s), wNewRequest = None,
      wRoundTrip = (\<lambda>cfg r. Inl (H2Error (ErrNew h2ExtendedConnectNotSupportedMsg) [])), wNoCachedConn = (\<lambda>e. False)\<rparr>"

abbreviation sample_key64 :: string where
  "sample_key64 \<equiv> b64_EncodeToString sample_nonce"

definition sample_dial_request :: request where
  "sample_dial_request = addOffer sample_dialer
     \<lparr>rqProtoMajor = 1, rqMethod = ''GET'', rqHeader = handshakeHeader sample_dialer sample_key64,
      rqHost = ''server.example.com'', rqRemoteAddr = ''''\<rparr>"

lemma sample_dial: "dialRequest sample_dialer (secured sample_url) sample_key64 [] [] = Inr sample_dial_request"
  by (simp add: dialRequest_def sample_dial_request_def addCookies_def sample_dialer_def secured_def sample_url_def)

lemma sample_opened: "opened (sample_world respond early) sample_dialer s [] sample_key64 sample_dial_request sample_conn"
proof -
  have "dialNetConn (sample_world respond early) sample_dialer (secured sample_url) sample_dial_request = Some (Inr sample_conn)"
    by (simp add: dialNetConn_def sample_dialer_def netDialFn_def dialDeadline_def sample_world_def netDialFromURL_def
        secured_def sample_url_def network.truncate_def Let_def)
  then show ?thesis
    by (simp add: opened_def sample_dial sample_world_def generateChallengeKey_def)
      (simp add: sample_dialer_def sample_url_def)
qed

lemma sample_sound: "length early \<le> 4096 \<Longrightarrow> sound sample_dialer sample_conn early []"
  by (simp add: sound_def sample_conn_def quiet_def live_def clientConn_def newConn_def sample_dialer_def
      defaultReadBufferSize_def Let_def)

definition sample_response :: response where
  "sample_response =
     \<lparr>rsStatusCode = 101, rsHeader = [(''Upgrade'', [''websocket'']), (''Connection'', [''Upgrade'']),
        (''Sec-Websocket-Accept'', [computeAcceptKey sample_key64]), (''Sec-Websocket-Protocol'', [''chat''])],
      rsBody = []\<rparr>"

lemma sample_response_accepted:
  "responseAccepted sample_key64 sample_response"
  "negotiateAnswer m (rsHeader sample_response) = Inr (False, False, False)"
  by (simp_all add: responseAccepted_def sample_response_def tokenListContainsValue_def hIndex_Cons sample_tokens
      hGet_def negotiateAnswer_def parseExtensions_def)

text \<open>A response with one early byte behind it.\<close>

lemma dial_decides_witness:
  "\<exists>c. DialContext (sample_world (\<lambda>r. sample_response) [0x81]) sample_dialer ''ws://server.example.com/'' [] =
      Some (Inr c, Some sample_response, False) \<and>
    established sample_dialer (False, False, False) ''chat'' [0x81] c"
proof -
  have "wReadResponse (sample_world (\<lambda>r. sample_response) [0x81]) sample_dial_request = Inr (sample_response, [0x81], [])"
    by (simp add: sample_world_def)
  from dial_decides [OF sample_opened sample_sound this] show ?thesis
    by (simp add: accepted_answers [symmetric] sample_response_accepted)
      (simp add: sample_response_def hGet_def hIndex_Cons)
qed

section \<open>TLS\<close>

text \<open>The name a TLS handshake with the server is made for, and whether the peer has to prove it.\<close>

definition serverName :: "dialer \<Rightarrow> url \<Rightarrow> string" where
  "serverName d u =
     (let name = tcServerName (cloneTLSConfig (dTLSClientConfig d)) in
      if name = '''' then snd (hostPortNoPort u) else name)"

definition verifies :: "dialer \<Rightarrow> bool" where
  "verifies d \<longleftrightarrow> \<not> tcInsecureSkipVerify (cloneTLSConfig (dTLSClientConfig d))"

definition encrypted :: "'a world_scheme \<Rightarrow> dialer \<Rightarrow> url \<Rightarrow> netConn \<Rightarrow> bool" where
  "encrypted w d u nc \<longleftrightarrow>
     ncTLS nc \<noteq> [] \<and> last (ncTLS nc) = (serverName d u, verifies d) \<and> wHandshake w (serverName d u) = None \<and>
     (verifies d \<longrightarrow> wVerify w (serverName d u) = None)"

lemma tlsClient_encrypts: "tlsClient (network.truncate w) (dTLSClientConfig d) u c = Inr nc \<Longrightarrow> encrypted w d u nc"
  by (auto simp: tlsClient_def doHandshake_def encrypted_def serverName_def verifies_def network.truncate_def Let_def
      split: option.splits if_splits)

lemma runDial_TLS:
  "runDial (network.truncate w) (WithTLS f (dTLSClientConfig d) u) addr = Some (Inr nc) \<Longrightarrow> encrypted w d u nc"
  by (auto split: option.splits sum.splits intro: tlsClient_encrypts)

lemma runDial_deadline:
  assumes "runDial w (case t of Some t \<Rightarrow> WithDeadline f t | None \<Rightarrow> f) addr = Some (Inr nc)"
  shows "\<exists>nc'. runDial w f addr = Some (Inr nc') \<and> ncTLS nc = ncTLS nc'"
  using assms by (cases t) (auto split: option.splits sum.splits)

definition direct :: "dialer \<Rightarrow> request \<Rightarrow> bool" where
  "direct d req \<longleftrightarrow> (case dProxy d of None \<Rightarrow> True | Some f \<Rightarrow> f req = Inr None)"

lemma dialNetConn_encrypted:
  assumes "urlScheme u = ''https''" and "dialNetConn w d u req = Some (Inr nc)"
  shows "encrypted w d u nc \<or> direct d req \<and> dNetDialTLSContext d"
proof -
  obtain proxy f where p: "(case dProxy d of None \<Rightarrow> Inr None | Some f \<Rightarrow> f req) = (Inr proxy :: gerror + url option)"
      "netDialFn (network.truncate w) d (dialDeadline w d) proxy u = Inr f"
    using assms(2) by (auto simp: dialNetConn_def split: sum.splits)
  from p(2) assms(2) obtain nc' where r: "runDial (network.truncate w) f (fst (hostPortNoPort u)) = Some (Inr nc')"
      "(if proxy \<noteq> None then tlsClient (network.truncate w) (dTLSClientConfig d) u nc' else Inr nc') = Inr nc"
    using assms(1) by (auto simp: dialNetConn_def p(1) split: option.splits sum.splits if_splits)
  show ?thesis
  proof (cases proxy)
    case (Some q)
    with r(2) show ?thesis using tlsClient_encrypts [of w d u nc' nc] by simp
  next
    case None
    have "direct d req" using p(1) None by (auto simp: direct_def split: option.splits)
    moreover have "encrypted w d u nc" if "\<not> dNetDialTLSContext d"
    proof -
      have "netDialFromURL d u = WithTLS
          (if dNetDialContext d then UserDialContext else if dNetDial d then UserDial else NetDialer) (dTLSClientConfig d) u"
        using assms(1) that by (simp add: netDialFromURL_def Let_def)
      then obtain g where g: "netDialFromURL d u = WithTLS g (dTLSClientConfig d) u" by blast
      have "f = (case dialDeadline w d of Some t \<Rightarrow> WithDeadline (WithTLS g (dTLSClientConfig d) u) t
          | None \<Rightarrow> WithTLS g (dTLSClientConfig d) u)"
        using p(2) None by (simp add: netDialFn_def Let_def g)
      with r None obtain nc2 where "runDial (network.truncate w) (WithTLS g (dTLSClientConfig d) u)
          (fst (hostPortNoPort u)) = Some (Inr nc2)" "ncTLS nc = ncTLS nc2"
        using runDial_deadline by force
      then show ?thesis using runDial_TLS [of w g d u _ nc2] by (simp add: encrypted_def)
    qed
    ultimately show ?thesis by blast
  qed
qed

text \<open>C37: a wss URL is dialled over TLS. When the request of a dial of a wss URL is written, the last TLS
  handshake on its connection succeeded with the server: the configured server name or the host of the URL,
  whose name has been verified unless the configuration turns that off. The only exception is a
  direct dial by the application's own NetDialTLSContext. A proxy on the way, a deadline or an
  application's NetDial do not change this.\<close>

theorem wss_is_encrypted:
  assumes "opened w d urlStr rh key req nc" and "wParseURL w urlStr = Inr u0" and "urlScheme u0 = ''wss''"
  shows "encrypted w d (secured u0) nc \<or> direct d req \<and> dNetDialTLSContext d"
proof (rule dialNetConn_encrypted)
  show "urlScheme (secured u0) = ''https''" using assms(3) by (simp add: secured_def)
  show "dialNetConn w d (secured u0) req = Some (Inr nc)" using assms(1,2) by (auto simp: opened_def)
qed

lemma wss_is_encrypted_witness:
  "\<exists>nc. opened (sample_world (\<lambda>r. sample_response) [] \<lparr>wParseURL := (\<lambda>s. Inr (sample_url\<lparr>urlScheme := ''wss''\<rparr>))\<rparr>)
      sample_dialer ''wss://server.example.com/'' [] sample_key64 sample_dial_request nc \<and>
    last (ncTLS nc) = (''server.example.com'', True)"
proof -
  let ?u = "sample_url\<lparr>urlScheme := ''wss''\<rparr>"
  let ?w = "sample_world (\<lambda>r. sample_response) [] \<lparr>wParseURL := (\<lambda>s. Inr ?u)\<rparr>"
  let ?nc = "sample_conn\<lparr>ncTLS := [(''server.example.com'', True)]\<rparr>"
  have n: "snd (hostPortNoPort (secured ?u)) = ''server.example.com''"
    by (simp add: hostPortNoPort_def secured_def sample_url_def Let_def)
  then have "dialNetConn ?w sample_dialer (secured ?u) sample_dial_request = Some (Inr ?nc)"
    by (simp add: dialNetConn_def sample_dialer_def netDialFn_def dialDeadline_def sample_world_def netDialFromURL_def
        network.truncate_def Let_def tlsClient_def cloneTLSConfig_def doHandshake_def sample_conn_def)
      (simp add: secured_def sample_url_def)
  moreover have "dialRequest sample_dialer (secured ?u) sample_key64 [] [] = Inr sample_dial_request"
    by (simp add: dialRequest_def sample_dial_request_def addCookies_def sample_dialer_def secured_def sample_url_def)
  ultimately have o: "opened ?w sample_dialer ''wss://server.example.com/'' [] sample_key64 sample_dial_request ?nc"
    by (simp add: opened_def sample_world_def generateChallengeKey_def)
      (simp add: sample_dialer_def sample_url_def)
  have "wParseURL ?w ''wss://server.example.com/'' = Inr ?u" "urlScheme ?u = ''wss''" by simp_all
  from wss_is_encrypted [OF o this] have "encrypted ?w sample_dialer (secured ?u) ?nc"
    by (auto simp: sample_dialer_def)
  then have "last (ncTLS ?nc) = (''server.example.com'', True)"
    by (simp add: encrypted_def serverName_def verifies_def n sample_dialer_def cloneTLSConfig_def)
  with o show ?thesis by blast
qed

section \<open>Falling back from HTTP/2\<close>

definition reaches_h2 :: "'a world_scheme \<Rightarrow> dialer \<Rightarrow> string \<Rightarrow> header \<Rightarrow> url \<Rightarrow> string \<Rightarrow> h2_error \<Rightarrow> bool" where
  "reaches_h2 w d urlStr rh u0 key err \<longleftrightarrow>
     dHTTP2 d = HTTP2Auto \<and> generateChallengeKey (wRandom w) = Inr key \<and> wParseURL w urlStr = Inr u0 \<and>
     urlScheme u0 = ''wss'' \<and> urlUser u0 = None \<and> dProxy d = None \<and> wNewRequest w = None \<and>
     (\<exists>req. h2Request d (secured u0) rh (wCookies w) = Inr req \<and> wRoundTrip w (h2TLSConfig d (secured u0)) req = Inl err) \<and>
     \<not> wNoCachedConn w err \<and> h2_gerror err \<noteq> errHTTP2RequiresHTTPS"

lemma not_supported_not_available: "\<not> isH2NotAvailable (H2Error ErrHTTP2NotSupported [])"
  by (simp add: ErrHTTP2NotSupported_def h2ExtendedConnectNotSupportedMsg_def)

lemma dialHTTP2_fails:
  assumes "reaches_h2 w d urlStr rh u0 key err"
  shows "dialHTTP2 w d (secured u0) rh =
    (Inl (if isExtendedConnectNotSupported err then H2Error ErrHTTP2NotSupported [] else err), None, True)"
  using assms by (auto simp: reaches_h2_def dialHTTP2_def secured_def)

text \<open>A dial with HTTP2Auto of a peer without extended CONNECT. The transport's error is turned into
  ErrHTTP2NotSupported before DialContext looks at it, and isH2NotAvailable does not know that error:
  the dial ends with it instead of falling back to HTTP/1.1. Only an error of the TLS negotiation makes
  DialContext fall back, and then the result is that of the HTTP/1.1 dial.\<close>

lemma auto_does_not_fall_back:
  assumes "reaches_h2 w d urlStr rh u0 key err"
  shows "DialContext w d urlStr rh =
    (if isExtendedConnectNotSupported err then Some (Inl ErrHTTP2NotSupported, None, True)
     else if isH2NotAvailable err then dialHTTP1 w d (secured u0) key rh
     else Some (Inl (h2_gerror err), None, True))"
proof -
  have "ErrHTTP2NotSupported \<noteq> errHTTP2RequiresHTTPS" by (simp add: ErrHTTP2NotSupported_def errHTTP2RequiresHTTPS_def)
  moreover have "u0\<lparr>urlScheme := ''https''\<rparr> = secured u0" using assms by (simp add: reaches_h2_def secured_def)
  moreover have "dHTTP2 d \<noteq> HTTP2Disabled" "dHTTP2 d \<noteq> HTTP2Required"
    using assms by (simp_all add: reaches_h2_def HTTP2Auto_def HTTP2Disabled_def HTTP2Required_def)
  moreover have "isExtendedConnectNotSupported err \<Longrightarrow> isH2NotAvailable err" by (cases err) auto
  ultimately show ?thesis
    using assms dialHTTP2_fails [OF assms] not_supported_not_available
    by (auto simp: reaches_h2_def DialContext_def Let_def
        simp del: isH2NotAvailable.simps isExtendedConnectNotSupported.simps)
qed

section \<open>Names in another form\<close>

text \<open>The check for headers a caller may not set looks for their canonical names; the request has them as
  RFC 6455 writes them, so a caller's header of that name replaces the challenge key, and the answer
  to it is refused.\<close>

lemma raw_name_replaces_key:
  "copyHeaders subs [(''Sec-WebSocket-Key'', [v])] (req\<lparr>rqHeader := handshakeHeader d key\<rparr>) =
     Inr (req\<lparr>rqHeader := AList.update ''Sec-WebSocket-Key'' [v] (handshakeHeader d key)\<rparr>)"
  by simp

end
