(* ===== verification/EndToEnd.thy ===== *)
theory EndToEnd
  imports Dialed
begin

text \<open>
  The handshake of a Dialer with an Upgrader: the header of the client's request and the server's
  response go over the wire as the lines package net/http writes and reads, and both sides end with
  connections that fit together.
\<close>

section \<open>Header lines (packages net/http and net/textproto)\<close>

definition blank :: "char \<Rightarrow> bool" where
  "blank c \<longleftrightarrow> c = CHR '' '' \<or> c = CHR 0x09"

definition trimBlanks :: "string \<Rightarrow> string" where
  "trimBlanks s = rev (dropWhile blank (rev (dropWhile blank s)))"

definition newlineToSpace :: "char \<Rightarrow> char" where
  "newlineToSpace c = (if c = CHR 0x0A \<or> c = CHR 0x0D then CHR '' '' else c)"

definition validName :: "string \<Rightarrow> bool" where
  "validName k \<longleftrightarrow> k \<noteq> [] \<and> list_all validHeaderFieldByte k"

definition entryLine :: "string \<times> string \<Rightarrow> string" where
  "entryLine e = fst e @ '': '' @ snd e"

text \<open>Writing leaves out entries with invalid names; reading gathers the values of a name under its
  canonical form.\<close>

definition writeHeader :: "header \<Rightarrow> string list" where
  "writeHeader h =
     concat (map (\<lambda>(k, vs). map (\<lambda>v. entryLine (k, trimBlanks (map newlineToSpace v))) vs)
       (filter (\<lambda>(k, vs). validName k) h))"

definition readEntry :: "string \<Rightarrow> string \<times> string" where
  "readEntry l = (takeWhile (\<lambda>c. c \<noteq> CHR '':'') l, trimBlanks (tl (dropWhile (\<lambda>c. c \<noteq> CHR '':'') l)))"

definition readHeader :: "string list \<Rightarrow> header" where
  "readHeader ls = fold (\<lambda>l. hAdd (fst (readEntry l)) (snd (readEntry l))) ls []"

definition stripCR :: "string \<Rightarrow> string" where
  "stripCR l = (if l \<noteq> [] \<and> last l = CHR 0x0D then butlast l else l)"

definition textLines :: "string \<Rightarrow> string list" where
  "textLines s = takeWhile (\<lambda>l. l \<noteq> []) (map stripCR (splitAt CHR 0x0A s))"

definition decimal :: "string \<Rightarrow> int" where
  "decimal s = foldl (\<lambda>n c. n * 10 + (of_char c - 48)) 0 s"

definition readResponse :: "string \<Rightarrow> response" where
  "readResponse s =
     (let ls = textLines s in
      \<lparr>rsStatusCode = decimal (splitAt CHR '' '' (hd ls) ! 1), rsHeader = readHeader (tl ls), rsBody = []\<rparr>)"

text \<open>The request as the server gets it.\<close>

definition requestRead :: "request \<Rightarrow> request" where
  "requestRead req = req\<lparr>rqHeader := readHeader (writeHeader (rqHeader req))\<rparr>"

lemma hIndex_hAdd: "hIndex (hAdd k v h) n = (if n = CanonicalMIMEHeaderKey k then hIndex h n @ [v] else hIndex h n)"
  by (simp add: hAdd_def)

lemma valid_no_colon: "validName k \<Longrightarrow> CHR '':'' \<notin> set k"
proof
  assume "validName k" "CHR '':'' \<in> set k"
  then have "validHeaderFieldByte CHR '':''" by (auto simp: validName_def list_all_iff)
  then show False by (simp add: validHeaderFieldByte_def)
qed

lemma readEntry_line: "validName k \<Longrightarrow> readEntry (entryLine (k, v)) = (k, trimBlanks v)"
proof -
  assume "validName k"
  then have "\<forall>c \<in> set k. c \<noteq> CHR '':''" using valid_no_colon by blast
  then have "takeWhile (\<lambda>c. c \<noteq> CHR '':'') (entryLine (k, v)) = k"
    "dropWhile (\<lambda>c. c \<noteq> CHR '':'') (entryLine (k, v)) = '': '' @ v"
    by (simp_all add: entryLine_def takeWhile_append2 dropWhile_append2)
  then show ?thesis by (simp add: readEntry_def trimBlanks_def blank_def)
qed

lemma readHeader_lines:
  assumes "list_all (\<lambda>e. validName (fst e)) es"
  shows "hIndex (readHeader (map entryLine es)) n =
    map (\<lambda>e. trimBlanks (snd e)) (filter (\<lambda>e. CanonicalMIMEHeaderKey (fst e) = n) es)"
proof -
  have "hIndex (fold (\<lambda>l. hAdd (fst (readEntry l)) (snd (readEntry l))) (map entryLine es) h) n =
      hIndex h n @ map (\<lambda>e. trimBlanks (snd e)) (filter (\<lambda>e. CanonicalMIMEHeaderKey (fst e) = n) es)" for h
    using assms
  proof (induction es arbitrary: h)
    case (Cons e es)
    have "readEntry (entryLine e) = (fst e, trimBlanks (snd e))"
      using Cons.prems by (cases e) (simp add: readEntry_line)
    with Cons show ?case by (simp add: hIndex_hAdd)
  qed simp
  then show ?thesis by (simp add: readHeader_def)
qed

text \<open>The entries of a header whose name has a canonical form.\<close>

definition named :: "string \<Rightarrow> header \<Rightarrow> header" where
  "named n h = filter (\<lambda>(k, vs). CanonicalMIMEHeaderKey k = n) h"

lemma named_update:
  "named n (AList.update k vs h) = (if CanonicalMIMEHeaderKey k = n then AList.update k vs (named n h) else named n h)"
  by (induction h) (auto simp: named_def)

definition sentValue :: "string \<Rightarrow> string" where
  "sentValue v = trimBlanks (trimBlanks (map newlineToSpace v))"

lemma sent_header:
  assumes "list_all (\<lambda>(k, vs). validName k) (named n h)"
  shows "hIndex (readHeader (writeHeader h)) n = map sentValue (concat (map snd (named n h)))"
proof -
  define f where "f v = trimBlanks (map newlineToSpace v)" for v
  define es where "es = concat (map (\<lambda>(k, vs). map (\<lambda>v. (k, f v)) vs) (filter (\<lambda>(k, vs). validName k) h))"
  have w: "writeHeader h = map entryLine es"
    unfolding writeHeader_def es_def f_def by (induction h) auto
  have "list_all (\<lambda>e. validName (fst e)) es" by (auto simp: es_def list_all_iff)
  then have "hIndex (readHeader (writeHeader h)) n =
      map (\<lambda>e. trimBlanks (snd e)) (filter (\<lambda>e. CanonicalMIMEHeaderKey (fst e) = n) es)"
    unfolding w by (rule readHeader_lines)
  also have "\<dots> = map sentValue (concat (map snd (named n h)))"
    using assms unfolding es_def
  proof (induction h)
    case (Cons e h)
    obtain k vs where e: "e = (k, vs)" by fastforce
    have ih: "list_all (\<lambda>(k, vs). validName k) (named n h)" using Cons.prems by (simp add: named_def split: if_splits)
    have f: "filter (\<lambda>e. CanonicalMIMEHeaderKey (fst e) = n) (map (\<lambda>v. (k, f v)) vs) =
        (if CanonicalMIMEHeaderKey k = n then map (\<lambda>v. (k, f v)) vs else [])"
      by (induction vs) auto
    show ?case
      using Cons.IH [OF ih] Cons.prems f by (simp add: e named_def sentValue_def f_def split: if_splits)
  qed (simp add: named_def)
  finally show ?thesis .
qed

section \<open>The client's request\<close>

text \<open>The names a caller may not set.\<close>

definition reserved :: "string set" where
  "reserved = {''Upgrade'', ''Connection'', ''Sec-Websocket-Key'', ''Sec-Websocket-Version'', ''Sec-Websocket-Extensions''}"

lemma reserved_names [simp]:
  "''Host'' \<notin> reserved" "''Sec-Websocket-Protocol'' \<notin> reserved" "''Cookie'' \<notin> reserved"
  by (simp_all add: reserved_def)

lemma copyHeaders_Cons:
  "copyHeaders subs ((k, vs) # h) req =
     (if k = ''Host'' then copyHeaders subs h (case vs of [] \<Rightarrow> req | v # _ \<Rightarrow> req\<lparr>rqHost := v\<rparr>)
      else if k \<in> reserved \<or> k = ''Sec-Websocket-Protocol'' \<and> subs
      then Inl (ErrNew (''websocket: duplicate header not allowed: '' @ k))
      else copyHeaders subs h
        (req\<lparr>rqHeader := AList.update (if k = ''Sec-Websocket-Protocol'' then ''Sec-WebSocket-Protocol'' else k) vs
          (rqHeader req)\<rparr>))"
proof (cases "k = ''Sec-Websocket-Protocol''")
  case False
  then show ?thesis
    by (simp only: copyHeaders.simps reserved_def insert_iff empty_iff disj_assoc simp_thms if_False)
qed simp

declare copyHeaders.simps(2) [simp del]

definition canonicalNames :: "header \<Rightarrow> bool" where
  "canonicalNames h \<longleftrightarrow> list_all (\<lambda>(k, vs). CanonicalMIMEHeaderKey k = k) h"

lemma copied_header:
  assumes "copyHeaders subs h req = Inr req'" and "canonicalNames h" and "n \<in> reserved"
  shows "named n (rqHeader req') = named n (rqHeader req)"
  using assms(1,2)
proof (induction h arbitrary: req)
  case (Cons e h)
  obtain k vs where e: "e = (k, vs)" by fastforce
  have k: "CanonicalMIMEHeaderKey k = k" and h: "canonicalNames h" using Cons.prems(2) by (simp_all add: e canonicalNames_def)
  have n: "n \<noteq> ''Sec-Websocket-Protocol''" using assms(3) reserved_names by metis
  obtain req1 where r: "copyHeaders subs h req1 = Inr req'" "named n (rqHeader req1) = named n (rqHeader req)"
  proof (cases "k = ''Host''")
    case True
    then show ?thesis
      using Cons.prems(1) that [of "case vs of [] \<Rightarrow> req | v # _ \<Rightarrow> req\<lparr>rqHost := v\<rparr>"]
      by (simp only: e copyHeaders_Cons if_True) (simp split: list.split)
  next
    case False
    then have c: "\<not> (k \<in> reserved \<or> k = ''Sec-Websocket-Protocol'' \<and> subs)"
      using Cons.prems(1) by (auto simp only: e copyHeaders_Cons if_True if_False split: if_splits)
    with False have "copyHeaders subs h (req\<lparr>rqHeader := AList.update
        (if k = ''Sec-Websocket-Protocol'' then ''Sec-WebSocket-Protocol'' else k) vs (rqHeader req)\<rparr>) = Inr req'"
      using Cons.prems(1) by (simp only: e copyHeaders_Cons if_False)
    moreover have "CanonicalMIMEHeaderKey (if k = ''Sec-Websocket-Protocol'' then ''Sec-WebSocket-Protocol'' else k) \<noteq> n"
      using n k c assms(3) by auto
    ultimately show ?thesis using that by (simp add: named_update)
  qed
  from Cons.IH [OF r(1) h] r(2) show ?case by simp
qed simp

lemma copied_fields:
  "copyHeaders subs h req = Inr req' \<Longrightarrow> rqMethod req' = rqMethod req \<and> rqProtoMajor req' = rqProtoMajor req"
proof (induction h arbitrary: req)
  case (Cons e h)
  obtain k vs where e: "e = (k, vs)" by fastforce
  obtain req1 where "copyHeaders subs h req1 = Inr req'" "rqMethod req1 = rqMethod req" "rqProtoMajor req1 = rqProtoMajor req"
  proof (cases "k = ''Host''")
    case True
    then show ?thesis
      using Cons.prems(1) that [of "case vs of [] \<Rightarrow> req | v # _ \<Rightarrow> req\<lparr>rqHost := v\<rparr>"]
      by (simp only: e copyHeaders_Cons if_True) (simp split: list.split)
  next
    case False
    with Cons.prems show ?thesis
      by (intro that [of "req\<lparr>rqHeader := AList.update
          (if k = ''Sec-Websocket-Protocol'' then ''Sec-WebSocket-Protocol'' else k) vs (rqHeader req)\<rparr>"])
        (simp_all add: e copyHeaders_Cons split: if_splits)
  qed
  from Cons.IH [OF this(1)] this(2,3) show ?case by simp
qed simp

lemma named_addCookie: "n \<noteq> ''Cookie'' \<Longrightarrow> named n (rqHeader (addCookie s req)) = named n (rqHeader req)"
  by (simp add: addCookie_def hSet_def named_update)

lemma named_addCookies: "n \<noteq> ''Cookie'' \<Longrightarrow> named n (rqHeader (addCookies d cs req)) = named n (rqHeader req)"
proof -
  assume n: "n \<noteq> ''Cookie''"
  have "named n (rqHeader (fold addCookie cs req)) = named n (rqHeader req)"
    by (induction cs arbitrary: req) (simp_all add: named_addCookie [OF n])
  then show ?thesis by (simp add: addCookies_def)
qed

lemma addCookies_fields:
  "rqMethod (addCookies d cs req) = rqMethod req \<and> rqProtoMajor (addCookies d cs req) = rqProtoMajor req"
proof -
  have "rqMethod (fold addCookie cs req) = rqMethod req \<and> rqProtoMajor (fold addCookie cs req) = rqProtoMajor req"
    by (induction cs arbitrary: req) (simp_all add: addCookie_def)
  then show ?thesis by (simp add: addCookies_def)
qed

lemma named_handshakeHeader:
  "named ''Upgrade'' (handshakeHeader d key) = [(''Upgrade'', [''websocket''])]"
  "named ''Connection'' (handshakeHeader d key) = [(''Connection'', [''Upgrade''])]"
  "named ''Sec-Websocket-Key'' (handshakeHeader d key) = [(''Sec-WebSocket-Key'', [key])]"
  "named ''Sec-Websocket-Version'' (handshakeHeader d key) = [(''Sec-WebSocket-Version'', [''13''])]"
  "named ''Sec-Websocket-Extensions'' (handshakeHeader d key) = []"
  by (simp_all add: named_def handshakeHeader_def)

section \<open>Values that survive\<close>

text \<open>Text with no blank at its ends and no line break in it is sent as it is.\<close>

definition compact :: "string \<Rightarrow> bool" where
  "compact v \<longleftrightarrow> v = [] \<or> \<not> blank (hd v) \<and> \<not> blank (last v) \<and> CHR 0x0A \<notin> set v \<and> CHR 0x0D \<notin> set v"

lemma trim_compact: "compact v \<Longrightarrow> trimBlanks v = v"
proof -
  have d: "dropWhile blank s = s" if "s = [] \<or> \<not> blank (hd s)" for s using that by (cases s) auto
  assume "compact v"
  then have "dropWhile blank v = v" "dropWhile blank (rev v) = rev v"
    by (auto simp: compact_def hd_rev intro!: d)
  then show ?thesis by (simp add: trimBlanks_def)
qed

lemma sent_compact: "compact v \<Longrightarrow> sentValue v = v"
proof -
  assume c: "compact v"
  then have "map newlineToSpace v = v" by (auto simp: compact_def newlineToSpace_def intro!: map_idI)
  with c show ?thesis by (simp add: sentValue_def trim_compact)
qed

lemma compact_dense: "list_all (\<lambda>c. (32 :: nat) < of_char c) v \<Longrightarrow> compact v"
proof (cases "v = []")
  case False
  assume d: "list_all (\<lambda>c. (32 :: nat) < of_char c) v"
  have "(32 :: nat) < of_char c" if "c \<in> set v" for c using d that by (simp add: list_all_iff)
  from this [of "hd v"] this [of "last v"] this [of "CHR 0x0A"] this [of "CHR 0x0D"] False
  show ?thesis by (auto simp: compact_def blank_def)
qed (simp add: compact_def)

lemma dense_b64: "list_all (\<lambda>c. (32 :: nat) < of_char c) (b64_EncodeToString p)"
proof -
  have c: "(32 :: nat) < of_char (b64_char n)" if "n < 64" for n
    using that by (simp add: b64_char_code) arith
  have "list_all (\<lambda>c. (32 :: nat) < of_char c) (b64_encode ns)" if "list_all (\<lambda>n. n < 256) ns" for ns
    using that by (induction ns rule: b64_encode.induct) (simp_all add: c)
  from this [of "map unat p"] show ?thesis by (simp add: b64_EncodeToString_def list_all_iff)
qed

lemma octet_not_blank: "isTokenOctet c \<Longrightarrow> \<not> blank c \<and> c \<noteq> CHR 0x0A \<and> c \<noteq> CHR 0x0D"
  by (auto simp: blank_def isTokenOctet_def tokenOctets_def)

lemma compact_token: "token v \<Longrightarrow> compact v"
proof -
  assume "token v"
  then have v: "v \<noteq> []" and o: "isTokenOctet c" if "c \<in> set v" for c using that by (auto simp: token_def list_all_iff)
  have "\<not> blank c \<and> c \<noteq> CHR 0x0A \<and> c \<noteq> CHR 0x0D" if "c \<in> set v" for c using octet_not_blank [OF o [OF that]] .
  moreover have "hd v \<in> set v" "last v \<in> set v" using \<open>token v\<close> by (simp_all add: token_def)
  ultimately show ?thesis unfolding compact_def by blast
qed

lemma compact_b64: "compact (b64_EncodeToString p)"
  by (rule compact_dense [OF dense_b64])

lemma compact_words:
  "compact ''websocket''" "compact ''Upgrade''" "compact ''13''" "compact (compressionOfferHeader m)"
  "compact (extensionResponse t)"
  by (simp_all add: compact_def blank_def compressionOfferHeader_def)
    (cases t; simp add: extensionResponse_def blank_def compact_def)

lemma valid_names [simp]:
  "validName ''Upgrade''" "validName ''Connection''" "validName ''Sec-WebSocket-Key''" "validName ''Sec-WebSocket-Version''"
  "validName ''Sec-WebSocket-Extensions''" "validName ''Sec-WebSocket-Accept''" "validName ''Sec-WebSocket-Protocol''"
  by (simp_all add: validName_def validHeaderFieldByte_def)

section \<open>The request at the server\<close>

lemma named_dialRequest:
  assumes "dialRequest d u key h cookies = Inr req" and "canonicalNames h"
  shows "named ''Upgrade'' (rqHeader req) = [(''Upgrade'', [''websocket''])]"
    and "named ''Connection'' (rqHeader req) = [(''Connection'', [''Upgrade''])]"
    and "named ''Sec-Websocket-Key'' (rqHeader req) = [(''Sec-WebSocket-Key'', [key])]"
    and "named ''Sec-Websocket-Version'' (rqHeader req) = [(''Sec-WebSocket-Version'', [''13''])]"
    and "named ''Sec-Websocket-Extensions'' (rqHeader req) =
      (if compressionOfferHeader (dialMode d) = '''' then []
       else [(''Sec-WebSocket-Extensions'', [compressionOfferHeader (dialMode d)])])"
    and "rqMethod req = ''GET''" and "rqProtoMajor req = 1"
proof -
  let ?r = "\<lparr>rqProtoMajor = 1, rqMethod = ''GET'', rqHeader = handshakeHeader d key, rqHost = urlHost u, rqRemoteAddr = ''''\<rparr>"
  obtain r1 where r1: "copyHeaders (dSubprotocols d \<noteq> []) h ?r = Inr r1" and req: "req = addOffer d (addCookies d cookies r1)"
    using assms(1) by (auto simp: dialRequest_def split: sum.splits)
  have b: "named n (rqHeader (addCookies d cookies r1)) = named n (handshakeHeader d key)" if "n \<in> reserved" for n
  proof -
    have "n \<noteq> ''Cookie''" using that reserved_names by metis
    then show ?thesis using copied_header [OF r1 assms(2) that] by (simp add: named_addCookies)
  qed
  have "named n (rqHeader req) = named n (handshakeHeader d key)" if "n \<in> reserved" "n \<noteq> ''Sec-Websocket-Extensions''" for n
    using b [OF that(1)] that(2) by (simp add: req addOffer_def named_update)
  note o = this
  show "named ''Upgrade'' (rqHeader req) = [(''Upgrade'', [''websocket''])]"
    "named ''Connection'' (rqHeader req) = [(''Connection'', [''Upgrade''])]"
    "named ''Sec-Websocket-Key'' (rqHeader req) = [(''Sec-WebSocket-Key'', [key])]"
    "named ''Sec-Websocket-Version'' (rqHeader req) = [(''Sec-WebSocket-Version'', [''13''])]"
    by (subst o; simp add: reserved_def named_handshakeHeader)+
  show "named ''Sec-Websocket-Extensions'' (rqHeader req) =
      (if compressionOfferHeader (dialMode d) = '''' then []
       else [(''Sec-WebSocket-Extensions'', [compressionOfferHeader (dialMode d)])])"
    using b [of "''Sec-Websocket-Extensions''"]
    by (simp add: req addOffer_def named_update reserved_def named_handshakeHeader)
  show "rqMethod req = ''GET''" "rqProtoMajor req = 1"
    using copied_fields [OF r1] addCookies_fields [of d cookies r1] by (simp_all add: req addOffer_def)
qed

lemma request_seen:
  assumes "dialRequest d u (b64_EncodeToString nonce) h cookies = Inr req" and "canonicalNames h"
  shows "hIndex (rqHeader (requestRead req)) ''Upgrade'' = [''websocket'']"
    and "hIndex (rqHeader (requestRead req)) ''Connection'' = [''Upgrade'']"
    and "hIndex (rqHeader (requestRead req)) ''Sec-Websocket-Key'' = [b64_EncodeToString nonce]"
    and "hIndex (rqHeader (requestRead req)) ''Sec-Websocket-Version'' = [''13'']"
    and "hIndex (rqHeader (requestRead req)) ''Sec-Websocket-Extensions'' =
      (if compressionOfferHeader (dialMode d) = '''' then [] else [compressionOfferHeader (dialMode d)])"
  using named_dialRequest [OF assms]
  by (simp_all add: requestRead_def sent_header sent_compact compact_words compact_b64)

lemma request_acceptable:
  assumes "dialRequest d u (b64_EncodeToString nonce) h cookies = Inr req" and "canonicalNames h" and "length nonce = 16"
    and "originAllowed parseURL up (requestRead req)" and "uIsValidChallengeKey up = None"
    and "\<not> hHas rh ''Sec-Websocket-Extensions''"
  shows "not_h2 (requestRead req)" and "acceptable parseURL up (requestRead req) rh"
proof -
  have "rqMethod (requestRead req) = ''GET''" "rqProtoMajor (requestRead req) = 1"
    using named_dialRequest(6,7) [OF assms(1,2)] by (simp_all add: requestRead_def)
  moreover have "isValidChallengeKey (b64_EncodeToString nonce)" using generated_key_valid [OF assms(3)] by blast
  ultimately show "not_h2 (requestRead req)" "acceptable parseURL up (requestRead req) rh"
    using assms(4-6) request_seen [OF assms(1,2)]
    by (simp_all add: not_h2_def acceptable_code IsWebSocketUpgrade_def tokenListContainsValue_def sample_tokens
        keyAccepted_def hGet_def)
qed

section \<open>The response at the client\<close>

lemma splitAt_lines:
  "list_all (\<lambda>l. CHR 0x0A \<notin> set l) ls \<Longrightarrow>
   splitAt CHR 0x0A (lines ls @ crlf) = map (\<lambda>l. l @ [CHR 0x0D]) ls @ [[CHR 0x0D], []]"
proof (induction ls)
  case (Cons l ls)
  have "lines (l # ls) @ crlf = (l @ [CHR 0x0D]) @ CHR 0x0A # (lines ls @ crlf)"
    by (simp add: lines_def crlf_def)
  moreover have "CHR 0x0A \<notin> set (l @ [CHR 0x0D])" using Cons.prems by simp
  ultimately have "splitAt CHR 0x0A (lines (l # ls) @ crlf) = (l @ [CHR 0x0D]) # splitAt CHR 0x0A (lines ls @ crlf)"
    using splitAt_piece by metis
  with Cons show ?case by simp
qed (simp add: crlf_def)

lemma textLines_lines:
  assumes "list_all (\<lambda>l. l \<noteq> [] \<and> CHR 0x0A \<notin> set l) ls"
  shows "textLines (lines ls @ crlf) = ls"
proof -
  have "map stripCR (splitAt CHR 0x0A (lines ls @ crlf)) = ls @ [[], []]"
    using assms by (subst splitAt_lines) (auto simp: list_all_iff stripCR_def intro: map_idI)
  moreover have "takeWhile (\<lambda>l. l \<noteq> []) (ls @ [[], []]) = ls"
    using assms by (subst takeWhile_append2) (auto simp: list_all_iff)
  ultimately show ?thesis by (simp add: textLines_def)
qed

text \<open>Application headers: valid names, none of them a name of the handshake but for the subprotocol.\<close>

definition answerNames :: "string set" where
  "answerNames = {''Upgrade'', ''Connection'', ''Sec-Websocket-Accept'', ''Sec-Websocket-Protocol'', ''Sec-Websocket-Extensions''}"

definition application_header :: "header \<Rightarrow> bool" where
  "application_header rh \<longleftrightarrow>
     list_all (\<lambda>(k, vs). k = ''Sec-Websocket-Protocol'' \<or> validName k \<and> CanonicalMIMEHeaderKey k \<notin> answerNames) rh"

fun app_entries :: "header \<Rightarrow> (string \<times> string) list" where
  "app_entries [] = []"
| "app_entries ((k, vs) # h) =
     (if k = ''Sec-Websocket-Protocol'' then [] else map (\<lambda>v. (k, sanitizeHeaderValue v)) vs) @ app_entries h"

lemma app_lines_entries: "app_lines h = map entryLine (app_entries h)"
  by (induction h rule: app_entries.induct) (simp_all add: entryLine_def)

lemma app_entries_names: "application_header h \<Longrightarrow>
    list_all (\<lambda>e. validName (fst e) \<and> CanonicalMIMEHeaderKey (fst e) \<notin> answerNames) (app_entries h)"
  by (induction h rule: app_entries.induct) (auto simp: application_header_def list_all_iff)

definition answer_entries :: "string \<Rightarrow> string \<Rightarrow> takeover \<Rightarrow> (string \<times> string) list" where
  "answer_entries key protocol t =
     [(''Upgrade'', ''websocket''), (''Connection'', ''Upgrade''), (''Sec-WebSocket-Accept'', computeAcceptKey key)] @
     (if protocol \<noteq> '''' then [(''Sec-WebSocket-Protocol'', protocol)] else []) @
     (if fst t then [(''Sec-WebSocket-Extensions'', extensionResponse t)] else [])"

lemma response_entries:
  "response_lines key protocol t rh =
     ''HTTP/1.1 101 Switching Protocols'' # map entryLine (answer_entries key protocol t @ app_entries rh)"
  by (simp add: response_lines_def answer_entries_def app_lines_entries) (simp add: entryLine_def)

lemma printable_no_newline: "printable l \<Longrightarrow> CHR 0x0A \<notin> set l"
  by (auto simp: printable_def list_all_iff)

lemma entryLine_clean: "printable (fst e) \<and> printable (snd e) \<Longrightarrow> entryLine e \<noteq> [] \<and> CHR 0x0A \<notin> set (entryLine e)"
  using printable_no_newline by (auto simp: entryLine_def)

lemma validName_printable: "validName k \<Longrightarrow> printable k"
proof -
  have "list_all (\<lambda>c. (31 :: nat) < of_char c)
      (''!#$%&*+-.0123456789ABCDEFGHIJKLMNOPQRSTUVWXYZ^_abcdefghijklmnopqrstuvwxyz|~'' @ [CHR 0x27, CHR 0x60])"
    by simp
  then have "(31 :: nat) < of_char c" if "validHeaderFieldByte c" for c
    using that unfolding validHeaderFieldByte_def list_all_iff by auto
  moreover assume "validName k"
  ultimately show ?thesis by (simp add: validName_def printable_def list_all_iff)
qed

lemma token_printable: "token v \<Longrightarrow> printable v"
proof -
  have "list_all (\<lambda>c. (31 :: nat) < of_char c) tokenOctets" by (simp add: tokenOctets_def)
  then have "(31 :: nat) < of_char c" if "isTokenOctet c" for c
    using that by (simp add: isTokenOctet_def list_all_iff)
  moreover assume "token v"
  ultimately show ?thesis by (simp add: token_def printable_def list_all_iff)
qed

lemma response_text:
  assumes "application_header rh" and "protocol = '''' \<or> token protocol"
  shows "textLines (upgradeResponse key protocol t rh) = response_lines key protocol t rh"
proof -
  have p: "printable protocol" using assms(2) token_printable by (auto simp: printable_def)
  have e: "printable (extensionResponse t)" by (cases t) (simp add: extensionResponse_def)
  have a: "list_all (\<lambda>e. printable (fst e) \<and> printable (snd e)) (app_entries rh)"
    using assms(1) by (induction rh rule: app_entries.induct)
      (auto simp: application_header_def list_all_iff validName_printable)
  have "list_all (\<lambda>e. printable (fst e) \<and> printable (snd e)) (answer_entries key protocol t @ app_entries rh)"
    using a p e by (simp add: answer_entries_def computeAcceptKey_def)
  then have "list_all (\<lambda>l. l \<noteq> [] \<and> CHR 0x0A \<notin> set l) (response_lines key protocol t rh)"
    unfolding response_entries list_all_iff list.set set_map set_append using entryLine_clean by auto
  moreover have "upgradeResponse key protocol t rh = lines (response_lines key protocol t rh) @ crlf"
    by (simp add: upgradeResponse_def response_lines_def applicationHeaders_lines lines_append) (simp add: lines_def)
  ultimately show ?thesis by (simp add: textLines_lines)
qed

lemma response_seen:
  fixes key :: string and t :: takeover
  assumes "application_header rh" and "protocol = '''' \<or> token protocol"
  defines "resp \<equiv> readResponse (upgradeResponse key protocol t rh)"
  shows "rsStatusCode resp = 101" and "rsBody resp = []"
    and "hIndex (rsHeader resp) ''Upgrade'' = [''websocket'']"
    and "hIndex (rsHeader resp) ''Connection'' = [''Upgrade'']"
    and "hIndex (rsHeader resp) ''Sec-Websocket-Accept'' = [computeAcceptKey key]"
    and "hIndex (rsHeader resp) ''Sec-Websocket-Protocol'' = (if protocol = '''' then [] else [protocol])"
    and "hIndex (rsHeader resp) ''Sec-Websocket-Extensions'' = (if fst t then [extensionResponse t] else [])"
proof -
  have l: "textLines (upgradeResponse key protocol t rh) =
      ''HTTP/1.1 101 Switching Protocols'' # map entryLine (answer_entries key protocol t @ app_entries rh)"
    using response_text [OF assms(1,2)] response_entries by simp
  show "rsStatusCode resp = 101" "rsBody resp = []"
    by (simp_all add: resp_def readResponse_def l decimal_def)
  note a = app_entries_names [OF assms(1)]
  have none: "filter (\<lambda>e. CanonicalMIMEHeaderKey (fst e) = n) (app_entries rh) = []" if "n \<in> answerNames" for n
    using a that by (auto simp: filter_empty_conv list_all_iff)
  have "list_all (\<lambda>e. validName (fst e)) (answer_entries key protocol t @ app_entries rh)"
    using a by (auto simp: answer_entries_def list_all_iff)
  then have h: "hIndex (rsHeader resp) n = map (\<lambda>e. trimBlanks (snd e))
      (filter (\<lambda>e. CanonicalMIMEHeaderKey (fst e) = n) (answer_entries key protocol t @ app_entries rh))" for n
    unfolding resp_def readResponse_def l Let_def by (simp add: readHeader_lines del: map_append)
  have c: "trimBlanks (computeAcceptKey key) = computeAcceptKey key" "trimBlanks (extensionResponse t) = extensionResponse t"
      "trimBlanks ''websocket'' = ''websocket''" "trimBlanks ''Upgrade'' = ''Upgrade''"
      "protocol \<noteq> '''' \<Longrightarrow> trimBlanks protocol = protocol"
    using assms(2) by (auto simp: computeAcceptKey_def trim_compact compact_b64 compact_words compact_token)
  show "hIndex (rsHeader resp) ''Upgrade'' = [''websocket'']"
    "hIndex (rsHeader resp) ''Connection'' = [''Upgrade'']"
    "hIndex (rsHeader resp) ''Sec-Websocket-Accept'' = [computeAcceptKey key]"
    "hIndex (rsHeader resp) ''Sec-Websocket-Protocol'' = (if protocol = '''' then [] else [protocol])"
    "hIndex (rsHeader resp) ''Sec-Websocket-Extensions'' = (if fst t then [extensionResponse t] else [])"
    using none by (simp_all add: h answer_entries_def answerNames_def c)
qed

section \<open>The handshake\<close>

text \<open>C36: the handshake of a Dialer with an Upgrader. Whatever the settings, cookies and headers of the
  two sides (the caller's names in canonical form, the server's application headers no names of the
  handshake, the origin allowed, the subprotocol none or a token), the server accepts the request it
  reads and the client accepts the response it reads; both return a connection, of opposite roles and
  the same subprotocol, where each side decompresses as the other compresses, ready to write and read
  messages, with the bytes the other side sent early as its input.\<close>

theorem handshake_end_to_end:
  assumes "dialRequest d u (b64_EncodeToString nonce) requestHeader cookies = Inr req" and "length nonce = 16"
    and "canonicalNames requestHeader" and "originAllowed parseURL up (requestRead req)"
    and "uIsValidChallengeKey up = None" and "application_header rh"
    and "selectSubprotocol up (requestRead req) rh = protocol" and "protocol = '''' \<or> token protocol"
    and "healthy hj env" and "sound d nc buffered input" and "wRequestWrite w req = None"
    and "\<And>s. fst (Upgrade parseURL up (Inr hj) flushed env rw (requestRead req) rh) = Inr s \<Longrightarrow>
      wReadResponse w req = Inr (readResponse (string_of_bytes (wire s)), buffered, input)"
  shows "\<exists>s c resp t.
    Upgrade parseURL up (Inr hj) flushed env rw (requestRead req) rh = (Inr s, rw, None) \<and>
    dialHandshake w d (b64_EncodeToString nonce) req nc = (Inr c, Some resp, False) \<and>
    isServer s \<and> subprotocol s = protocol \<and> established d t protocol (buffered @ upto_err input) c \<and>
    newCompressionWriter c = newDecompressionReader s \<and> newDecompressionReader c = newCompressionWriter s \<and>
    idle (with_writers s :: unit wconn) \<and> between_messages (with_readers s :: unit rconn) \<and>
    avail (with_readers s :: unit rconn) = early_input hj env"
proof -
  let ?r = "requestRead req" and ?key = "b64_EncodeToString nonce"
  obtain z sw cw where t: "serverTakeover up ?r = (z, sw, cw)" by (metis prod_cases3)
  have "\<not> hHas rh ''Sec-Websocket-Extensions''"
  proof
    assume "hHas rh ''Sec-Websocket-Extensions''"
    then obtain vs where "(''Sec-Websocket-Extensions'', vs) \<in> set rh" by (auto simp: hHas_def dest: map_of_SomeD)
    then have "CanonicalMIMEHeaderKey ''Sec-Websocket-Extensions'' \<notin> answerNames"
      using assms(6) unfolding application_header_def list_all_iff by fastforce
    moreover have "CanonicalMIMEHeaderKey ''Sec-Websocket-Extensions'' = ''Sec-Websocket-Extensions''"
      by (simp add: CanonicalMIMEHeaderKey_def validHeaderFieldByte_def upperChar_def lowerChar_def)
    ultimately show False by (simp add: answerNames_def)
  qed
  note ok = request_acceptable [OF assms(1,3,2,4,5) this]
  have key: "hGet (rqHeader ?r) ''Sec-Websocket-Key'' = ?key" using request_seen [OF assms(1,3)] by (simp add: hGet_def)
  obtain s where s: "Upgrade parseURL up (Inr hj) flushed env rw ?r rh = (Inr s, rw, None)"
    "wire s = bytes_of_string (upgradeResponse ?key protocol (z, sw, cw) rh)" "isServer s" "subprotocol s = protocol"
    "newCompressionWriter s = (if \<not> z then NilFn else if sw then TakeoverFn else NoTakeoverFn)"
    "newDecompressionReader s = (if \<not> z then NilFn else if cw then TakeoverFn else NoTakeoverFn)"
    "idle (with_writers s :: unit wconn)" "between_messages (with_readers s :: unit rconn)"
    "avail (with_readers s :: unit rconn) = early_input hj env"
    using accepted_upgrade [OF ok assms(9), of flushed rw] by (auto simp: t key assms(7))
  define resp where "resp = readResponse (upgradeResponse ?key protocol (z, sw, cw) rh)"
  have read: "wReadResponse w req = Inr (resp, buffered, input)" using assms(12) s(1,2) by (simp add: resp_def)
  note seen = response_seen [OF assms(6,8), of ?key "(z, sw, cw)", folded resp_def]
  have "responseAccepted ?key resp"
    using seen by (simp add: responseAccepted_def tokenListContainsValue_def sample_tokens hGet_def)
  moreover have "negotiateAnswer (dialMode d) (rsHeader resp) = Inr (z, sw, cw)"
    using compression_agreement [OF request_seen(5) [OF assms(1,3)] t [unfolded serverTakeover_def], of "rsHeader resp"] seen(7)
    by simp
  ultimately obtain c where c: "dialHandshake w d ?key req nc = (Inr c, Some (resp\<lparr>rsBody := []\<rparr>), False)"
    "established d (z, sw, cw) (hGet (rsHeader resp) ''Sec-Websocket-Protocol'') (buffered @ upto_err input) c"
    using dialHandshake_accepted [OF assms(10,11) read] by blast
  have "hGet (rsHeader resp) ''Sec-Websocket-Protocol'' = protocol" using seen(6) by (simp add: hGet_def)
  with c(2) have e: "established d (z, sw, cw) protocol (buffered @ upto_err input) c" by simp
  then have "newCompressionWriter c = newDecompressionReader s" "newDecompressionReader c = newCompressionWriter s"
    using s(5,6) by (simp_all add: established_def)
  with s c(1) e show ?thesis by blast
qed

text \<open>The sample dialer and the sample upgrader, both with compression.\<close>

definition sample_headers :: header where
  "sample_headers = [(''X-Sample'', [''1''])]"

lemma handshake_end_to_end_witness:
  "\<exists>s c. newCompressionWriter c = newDecompressionReader s \<and> subprotocol (c :: conn) = ''chat'' \<and>
    fst (Upgrade (\<lambda>s. Inl IoEOF) (sample_upgrader\<lparr>uSubprotocols := Some [''chat'']\<rparr>) (Inr sample_hijacked) None quiet
      no_writer (requestRead sample_dial_request) sample_headers) = Inr s"
proof -
  let ?up = "sample_upgrader\<lparr>uSubprotocols := Some [''chat'']\<rparr>"
  let ?s = "Upgrade (\<lambda>s. Inl IoEOF) ?up (Inr sample_hijacked) None quiet no_writer (requestRead sample_dial_request) sample_headers"
  let ?w = "sample_world (\<lambda>r. case fst ?s of Inr s \<Rightarrow> readResponse (string_of_bytes (wire s)) | Inl e \<Rightarrow> sample_response) []"
  have sent: "named n (rqHeader sample_dial_request) =
      (if n = ''Sec-Websocket-Extensions''
       then [(''Sec-WebSocket-Extensions'', [compressionOfferHeader CompressionModeNoContextTakeover])]
       else named n (handshakeHeader sample_dialer sample_key64))" for n
    by (simp add: sample_dial_request_def addOffer_def named_update sample_dialer_def dialMode_def
        effectiveCompressionMode_def compressionOfferHeader_def) (simp add: named_def handshakeHeader_def)
  have "named ''Sec-Websocket-Protocol'' (rqHeader sample_dial_request) = [(''Sec-WebSocket-Protocol'', [''chat''])]"
    "named ''Origin'' (rqHeader sample_dial_request) = []"
    by (simp_all add: sent) (simp_all add: named_def handshakeHeader_def sample_dialer_def)
  then have p: "hIndex (rqHeader (requestRead sample_dial_request)) ''Sec-Websocket-Protocol'' = [''chat'']"
    "hIndex (rqHeader (requestRead sample_dial_request)) ''Origin'' = []"
    by (simp_all add: requestRead_def sent_header sent_compact compact_def blank_def)
  have chat: "token ''chat''" by (simp add: token_def isTokenOctet_def tokenOctets_def)
  have sub: "selectSubprotocol ?up (requestRead sample_dial_request) sample_headers = ''chat''"
    using Subprotocols_joined [of "requestRead sample_dial_request" "[''chat'']"] p(1) chat
    by (simp add: selectSubprotocol_def sample_upgrader_def hGet_def)
  have o: "originAllowed (\<lambda>s. Inl IoEOF) ?up (requestRead sample_dial_request)"
    by (simp add: originAllowed_def sample_upgrader_def checkSameOrigin_def p(2))
  have h: "application_header sample_headers"
    by (simp add: application_header_def sample_headers_def validName_def validHeaderFieldByte_def)
      (simp add: CanonicalMIMEHeaderKey_def validHeaderFieldByte_def upperChar_def lowerChar_def answerNames_def)
  have "\<exists>s c resp t. ?s = (Inr s, no_writer, None) \<and>
    dialHandshake ?w sample_dialer sample_key64 sample_dial_request sample_conn = (Inr c, Some resp, False) \<and>
    isServer s \<and> subprotocol s = ''chat'' \<and> established sample_dialer t ''chat'' ([] @ upto_err []) c \<and>
    newCompressionWriter c = newDecompressionReader s \<and> newDecompressionReader c = newCompressionWriter s \<and>
    idle (with_writers s :: unit wconn) \<and> between_messages (with_readers s :: unit rconn) \<and>
    avail (with_readers s :: unit rconn) = early_input sample_hijacked quiet"
  proof (rule handshake_end_to_end [OF sample_dial _ _ o _ h sub _ sample_healthy])
    show "length sample_nonce = 16" by (simp add: sample_nonce_def)
    show "sound sample_dialer sample_conn [] []" by (rule sample_sound) simp
    show "wReadResponse ?w sample_dial_request = Inr (readResponse (string_of_bytes (wire s)), [], [])"
      if "fst ?s = Inr s" for s using that by (simp add: sample_world_def)
  qed (simp_all add: canonicalNames_def sample_upgrader_def chat sample_world_def)
  then obtain s c t where "?s = (Inr s, no_writer, None)" "newCompressionWriter c = newDecompressionReader s"
    "established sample_dialer t ''chat'' ([] @ upto_err []) c" by blast
  then show ?thesis by (intro exI [of _ s] exI [of _ c]) (simp add: established_def)
qed

end
