(* ===== verification/H2Stream.thy ===== *)
theory H2Stream
  imports ConnBase
begin

text \<open>
  The net.Conn that src/h2.go makes of an HTTP/2 stream: reads and writes passed on, deadlines as
  timers that end the stream, and Close. What the reader, the writer and the flush hook return is
  an argument of the operations; a timer that has expired is a goroutine that may run fireDeadline
  at any later moment, also after the timer has been stopped.
\<close>

record h2StreamConn =
  h2Flush :: bool                    \<comment> \<open>there is a flush hook\<close>
  h2Cancel :: bool                   \<comment> \<open>there is a cancel function\<close>
  h2Closer :: "gerror option option" \<comment> \<open>there is a closer, and what it returns\<close>
  h2ReadDeadline :: "int option"     \<comment> \<open>the time a running timer expires\<close>
  h2WriteDeadline :: "int option"
  deadlineExceeded :: bool
  h2Closed :: bool                   \<comment> \<open>closeOnce has run\<close>
  closeErr :: "gerror option"
  \<comment> \<open>the environment\<close>
  h2Now :: int
  h2Expired :: nat                   \<comment> \<open>expired timers whose goroutines have not run\<close>
  closerCalls :: nat
  cancelCalls :: nat

definition newH2StreamConn :: "bool \<Rightarrow> bool \<Rightarrow> gerror option option \<Rightarrow> int \<Rightarrow> h2StreamConn" where
  "newH2StreamConn flushFn cancel closer t =
     \<lparr>h2Flush = flushFn, h2Cancel = cancel, h2Closer = closer, h2ReadDeadline = None, h2WriteDeadline = None,
      deadlineExceeded = False, h2Closed = False, closeErr = None, h2Now = t, h2Expired = 0,
      closerCalls = 0, cancelCalls = 0\<rparr>"

section \<open>Operations\<close>

text \<open>\<open>os.ErrDeadlineExceeded\<close>\<close>

definition ErrDeadlineExceeded :: gerror where
  "ErrDeadlineExceeded = NetError ''i/o timeout'' True True"

definition didDeadlineFire :: "h2StreamConn \<Rightarrow> bool" where
  "didDeadlineFire c = deadlineExceeded c"

definition h2_Read :: "bytes \<times> gerror option \<Rightarrow> h2StreamConn \<Rightarrow> bytes \<times> gerror option" where
  "h2_Read result c =
     (case result of (p, err) \<Rightarrow>
       if err \<noteq> None \<and> didDeadlineFire c then (p, Some ErrDeadlineExceeded) else (p, err))"

definition h2_Write :: "nat \<times> gerror option \<Rightarrow> gerror option \<Rightarrow> h2StreamConn \<Rightarrow> nat \<times> gerror option" where
  "h2_Write result flushed c =
     (case result of
        (n, Some err) \<Rightarrow> if didDeadlineFire c then (n, Some ErrDeadlineExceeded) else (n, Some err)
      | (n, None) \<Rightarrow>
          if h2Flush c then
            (case flushed of
               Some ferr \<Rightarrow> if didDeadlineFire c then (n, Some ErrDeadlineExceeded) else (n, Some ferr)
             | None \<Rightarrow> (n, None))
          else (n, None))"

definition callCloser :: "h2StreamConn \<Rightarrow> h2StreamConn" where
  "callCloser c = (if h2Closer c \<noteq> None then c\<lparr>closerCalls := closerCalls c + 1\<rparr> else c)"

definition callCancel :: "h2StreamConn \<Rightarrow> h2StreamConn" where
  "callCancel c = (if h2Cancel c then c\<lparr>cancelCalls := cancelCalls c + 1\<rparr> else c)"

definition h2_Close :: "h2StreamConn \<Rightarrow> gerror option \<times> h2StreamConn" where
  "h2_Close c =
     (let c' = (if h2Closed c then c
                else callCancel
                  ((case h2Closer c of None \<Rightarrow> (\<lambda>d. d) | Some e \<Rightarrow> (\<lambda>d. d\<lparr>closeErr := e\<rparr>))
                    (callCloser (c\<lparr>h2Closed := True, h2ReadDeadline := None, h2WriteDeadline := None\<rparr>))))
      in (closeErr c', c'))"

text \<open>The new timer, and the connection: a deadline that has passed ends the stream at once. The old timer
  is stopped, which is what forgetting it means here.\<close>

definition armDeadline :: "time \<Rightarrow> h2StreamConn \<Rightarrow> int option \<times> h2StreamConn" where
  "armDeadline t c =
     (case t of
        None \<Rightarrow> (None, c)
      | Some d \<Rightarrow>
          if d - h2Now c \<le> 0 then (None, callCancel (c\<lparr>deadlineExceeded := True\<rparr>))
          else (Some d, c))"

definition h2_SetReadDeadline :: "time \<Rightarrow> h2StreamConn \<Rightarrow> h2StreamConn" where
  "h2_SetReadDeadline t c = (let (timer, c') = armDeadline t c in c'\<lparr>h2ReadDeadline := timer\<rparr>)"

definition h2_SetWriteDeadline :: "time \<Rightarrow> h2StreamConn \<Rightarrow> h2StreamConn" where
  "h2_SetWriteDeadline t c = (let (timer, c') = armDeadline t c in c'\<lparr>h2WriteDeadline := timer\<rparr>)"

definition h2_SetDeadline :: "time \<Rightarrow> h2StreamConn \<Rightarrow> h2StreamConn" where
  "h2_SetDeadline t c = h2_SetWriteDeadline t (h2_SetReadDeadline t c)"

definition fireDeadline :: "h2StreamConn \<Rightarrow> h2StreamConn" where
  "fireDeadline c = callCancel (callCloser (c\<lparr>deadlineExceeded := True\<rparr>))"

section \<open>Steps\<close>

text \<open>What can happen: calls of the methods that change the state, time that passes, timers that expire, and
  the goroutines they start.\<close>

datatype h2_event = SetRead time | SetWrite time | CloseCall | Tick int | ReadExpires | WriteExpires | Fire

inductive h2_step :: "h2StreamConn \<Rightarrow> h2_event \<Rightarrow> h2StreamConn \<Rightarrow> bool" where
  set_read: "h2_step c (SetRead t) (h2_SetReadDeadline t c)"
| set_write: "h2_step c (SetWrite t) (h2_SetWriteDeadline t c)"
| close: "h2_step c CloseCall (snd (h2_Close c))"
| tick: "h2Now c \<le> t \<Longrightarrow> h2_step c (Tick t) (c\<lparr>h2Now := t\<rparr>)"
| read_expires: "h2ReadDeadline c = Some t \<Longrightarrow> t \<le> h2Now c \<Longrightarrow>
    h2_step c ReadExpires (c\<lparr>h2ReadDeadline := None, h2Expired := h2Expired c + 1\<rparr>)"
| write_expires: "h2WriteDeadline c = Some t \<Longrightarrow> t \<le> h2Now c \<Longrightarrow>
    h2_step c WriteExpires (c\<lparr>h2WriteDeadline := None, h2Expired := h2Expired c + 1\<rparr>)"
| fire: "0 < h2Expired c \<Longrightarrow> h2_step c Fire (fireDeadline (c\<lparr>h2Expired := h2Expired c - 1\<rparr>))"

inductive_cases h2_stepE: "h2_step c e c'"

inductive h2_steps :: "h2StreamConn \<Rightarrow> h2_event list \<Rightarrow> h2StreamConn \<Rightarrow> bool" where
  none: "h2_steps c [] c"
| more: "h2_steps c es c1 \<Longrightarrow> h2_step c1 e c2 \<Longrightarrow> h2_steps c (es @ [e]) c2"

lemma call_fields [simp]:
  "deadlineExceeded (callCloser c) = deadlineExceeded c" "deadlineExceeded (callCancel c) = deadlineExceeded c"
  "h2Now (callCloser c) = h2Now c" "h2Now (callCancel c) = h2Now c"
  "h2ReadDeadline (callCloser c) = h2ReadDeadline c" "h2ReadDeadline (callCancel c) = h2ReadDeadline c"
  "h2WriteDeadline (callCloser c) = h2WriteDeadline c" "h2WriteDeadline (callCancel c) = h2WriteDeadline c"
  "h2Expired (callCloser c) = h2Expired c" "h2Expired (callCancel c) = h2Expired c"
  by (simp_all add: callCloser_def callCancel_def)

lemma step_fields [simp]:
  "deadlineExceeded (snd (h2_Close c)) = deadlineExceeded c" "h2Now (snd (h2_Close c)) = h2Now c"
  "h2ReadDeadline (snd (h2_Close c)) = (if h2Closed c then h2ReadDeadline c else None)"
  "h2WriteDeadline (snd (h2_Close c)) = (if h2Closed c then h2WriteDeadline c else None)"
  "h2Expired (snd (h2_Close c)) = h2Expired c"
  "deadlineExceeded (fireDeadline c)" "h2Now (fireDeadline c) = h2Now c"
  "h2ReadDeadline (fireDeadline c) = h2ReadDeadline c" "h2WriteDeadline (fireDeadline c) = h2WriteDeadline c"
  "h2Expired (fireDeadline c) = h2Expired c"
  by (simp_all add: h2_Close_def fireDeadline_def Let_def split: option.split)

lemma h2_set_fields [simp]:
  "h2Now (h2_SetReadDeadline t c) = h2Now c" "h2Now (h2_SetWriteDeadline t c) = h2Now c"
  "h2Expired (h2_SetReadDeadline t c) = h2Expired c" "h2Expired (h2_SetWriteDeadline t c) = h2Expired c"
  "h2WriteDeadline (h2_SetReadDeadline t c) = h2WriteDeadline c"
  "h2ReadDeadline (h2_SetWriteDeadline t c) = h2ReadDeadline c"
  "h2ReadDeadline (h2_SetReadDeadline t c) = (case t of Some d \<Rightarrow> if d \<le> h2Now c then None else Some d | None \<Rightarrow> None)"
  "h2WriteDeadline (h2_SetWriteDeadline t c) = (case t of Some d \<Rightarrow> if d \<le> h2Now c then None else Some d | None \<Rightarrow> None)"
  "deadlineExceeded (h2_SetReadDeadline t c) \<longleftrightarrow> deadlineExceeded c \<or> (\<exists>d. t = Some d \<and> d \<le> h2Now c)"
  "deadlineExceeded (h2_SetWriteDeadline t c) \<longleftrightarrow> deadlineExceeded c \<or> (\<exists>d. t = Some d \<and> d \<le> h2Now c)"
  by (auto simp: h2_SetReadDeadline_def h2_SetWriteDeadline_def armDeadline_def split: option.split)

section \<open>Deadlines\<close>

text \<open>The deadlines that have been set.\<close>

definition deadlines :: "h2_event list \<Rightarrow> int set" where
  "deadlines es = {d. SetRead (Some d) \<in> set es \<or> SetWrite (Some d) \<in> set es}"

lemma deadlines_simps [simp]:
  "deadlines [] = {}" "deadlines (es @ [e]) = deadlines es \<union> {d. e = SetRead (Some d) \<or> e = SetWrite (Some d)}"
  by (auto simp: deadlines_def)

text \<open>Timers run for deadlines that were set, and only those that have passed have expired or ended the
  stream.\<close>

definition timers_ok :: "int set \<Rightarrow> h2StreamConn \<Rightarrow> bool" where
  "timers_ok D c \<longleftrightarrow>
     (\<forall>t. h2ReadDeadline c = Some t \<longrightarrow> t \<in> D) \<and> (\<forall>t. h2WriteDeadline c = Some t \<longrightarrow> t \<in> D) \<and>
     (0 < h2Expired c \<or> deadlineExceeded c \<longrightarrow> (\<exists>d\<in>D. d \<le> h2Now c))"

lemma timers_kept:
  assumes "h2_step c e c'" and "timers_ok D c"
  shows "timers_ok (D \<union> {d. e = SetRead (Some d) \<or> e = SetWrite (Some d)}) c'"
  using assms by (cases rule: h2_step.cases) (auto simp: timers_ok_def split: option.splits if_splits intro: order_trans)

lemma timers_reachable: "h2_steps c es c' \<Longrightarrow> timers_ok {} c \<Longrightarrow> timers_ok (deadlines es) c'"
  by (induction rule: h2_steps.induct) (use timers_kept in \<open>fastforce+\<close>)

lemma exceeded_kept: "h2_step c e c' \<Longrightarrow> deadlineExceeded c \<Longrightarrow> deadlineExceeded c'"
  by (cases rule: h2_step.cases) auto

lemma exceeded_reachable: "h2_steps c es c' \<Longrightarrow> deadlineExceeded c \<Longrightarrow> deadlineExceeded c'"
  by (induction rule: h2_steps.induct) (auto dest: exceeded_kept)

text \<open>What makes a deadline fire: the goroutine of an expired timer has run, or the deadline had passed when
  it was set.\<close>

lemma step_fires:
  assumes "h2_step c e c'" and "t \<le> h2Now c"
  shows "t \<le> h2Now c' \<and>
    (e = Fire \<or> (\<exists>d\<le>t. e = SetRead (Some d) \<or> e = SetWrite (Some d)) \<longrightarrow> deadlineExceeded c')"
  using assms by (cases rule: h2_step.cases) auto

lemma steps_fire:
  "h2_steps c es c' \<Longrightarrow> h2Now c = t \<Longrightarrow>
    t \<le> h2Now c' \<and> (Fire \<in> set es \<or> (\<exists>d \<in> deadlines es. d \<le> t) \<longrightarrow> deadlineExceeded c')"
proof (induction rule: h2_steps.induct)
  case (more c es c1 e c2)
  then have i: "t \<le> h2Now c1" "Fire \<in> set es \<or> (\<exists>d \<in> deadlines es. d \<le> t) \<Longrightarrow> deadlineExceeded c1" by simp_all
  show ?case using step_fires [OF more.hyps(2) i(1)] i(2) exceeded_kept [OF more.hyps(2)] by auto
qed simp

text \<open>C38: a stream reports a timeout only after a deadline that was set has passed, and then for ever. On
  every state reached from a new stream, by any interleaving of calls, of timers that expire and of
  their goroutines: as long as none of the deadlines that were set has passed, Read, Write and the
  flush after it report exactly what the stream reports; and once a deadline has fired (the goroutine of
  a timer has run, or a deadline was set that lay before the stream was made) every
  failing Read, Write or flush is reported as a timeout in every later state, whatever deadlines are
  set in between, with the same data and count, while what succeeds is never turned into an error.\<close>

theorem h2_timeouts:
  assumes "h2_steps (newH2StreamConn flushFn cancel closer t) es c" and "h2_steps c es' c'"
  shows "((\<forall>d \<in> deadlines es. h2Now c < d) \<longrightarrow>
      h2_Read (p, err) c = (p, err) \<and>
      h2_Write (n, Some e) flushed c = (n, Some e) \<and>
      h2_Write (n, None) flushed c = (n, if h2Flush c then flushed else None)) \<and>
    (didDeadlineFire c \<or> Fire \<in> set es \<or> (\<exists>d \<in> deadlines es. d \<le> t) \<longrightarrow>
      h2_Read (p, Some e) c' = (p, Some ErrDeadlineExceeded) \<and>
      h2_Write (n, Some e) flushed c' = (n, Some ErrDeadlineExceeded) \<and>
      (h2Flush c' \<longrightarrow> h2_Write (n, None) (Some e) c' = (n, Some ErrDeadlineExceeded))) \<and>
    h2_Read (p, None) c' = (p, None) \<and> h2_Write (n, None) None c' = (n, None)"
proof -
  have "timers_ok {} (newH2StreamConn flushFn cancel closer t)" by (simp add: timers_ok_def newH2StreamConn_def)
  then have ok: "timers_ok (deadlines es) c" by (rule timers_reachable [OF assms(1)])
  have "\<not> didDeadlineFire c" if "\<forall>d \<in> deadlines es. h2Now c < d"
    using ok that unfolding timers_ok_def didDeadlineFire_def by (meson not_less)
  moreover have "didDeadlineFire c'" if "didDeadlineFire c \<or> Fire \<in> set es \<or> (\<exists>d \<in> deadlines es. d \<le> t)"
    using that steps_fire [OF assms(1), of t] exceeded_reachable [OF assms(2)]
    by (auto simp: didDeadlineFire_def newH2StreamConn_def)
  ultimately show ?thesis by (auto simp: h2_Read_def h2_Write_def split: option.split)
qed

text \<open>A read deadline at 5, which passes and is then lifted.\<close>

lemma h2_timeouts_witness:
  "\<exists>c. h2_steps (newH2StreamConn True True (Some None) 0) [SetRead (Some 5), Tick 7, ReadExpires, Fire] c \<and>
    h2_Write (3, Some IoEOF) None (h2_SetReadDeadline (Some 5) (newH2StreamConn True True (Some None) 0)) = (3, Some IoEOF) \<and> h2_Read ([], Some IoEOF) (h2_SetReadDeadline None c) = ([], Some ErrDeadlineExceeded)"
proof -
  let ?c0 = "newH2StreamConn True True (Some None) 0"
  let ?c1 = "h2_SetReadDeadline (Some 5) ?c0"
  let ?c2 = "?c1\<lparr>h2Now := 7\<rparr>"
  let ?c3 = "?c2\<lparr>h2ReadDeadline := None, h2Expired := h2Expired ?c2 + 1\<rparr>"
  let ?c4 = "fireDeadline (?c3\<lparr>h2Expired := h2Expired ?c3 - 1\<rparr>)"
  have z: "h2Now ?c0 = 0" "h2Expired ?c0 = 0" by (simp_all add: newH2StreamConn_def)
  have s: "h2_steps ?c0 ([] @ [SetRead (Some 5)]) ?c1" by (rule h2_steps.more [OF h2_steps.none h2_step.set_read])
  then have "h2_steps ?c0 (([] @ [SetRead (Some 5)]) @ [Tick 7]) ?c2"
    by (rule h2_steps.more) (simp add: h2_step.tick z)
  then have "h2_steps ?c0 ((([] @ [SetRead (Some 5)]) @ [Tick 7]) @ [ReadExpires]) ?c3"
    by (rule h2_steps.more) (rule h2_step.read_expires [of _ 5]; simp add: z)
  then have "h2_steps ?c0 (((([] @ [SetRead (Some 5)]) @ [Tick 7]) @ [ReadExpires]) @ [Fire]) ?c4"
    by (rule h2_steps.more) (rule h2_step.fire; simp)
  then have r: "h2_steps ?c0 [SetRead (Some 5), Tick 7, ReadExpires, Fire] ?c4" by simp
  have "h2_steps ?c4 ([] @ [SetRead None]) (h2_SetReadDeadline None ?c4)"
    by (rule h2_steps.more [OF h2_steps.none h2_step.set_read])
  from h2_timeouts [OF r this, of "[]" None 0 IoEOF None]
  have "h2_Read ([], Some IoEOF) (h2_SetReadDeadline None ?c4) = ([], Some ErrDeadlineExceeded)"
    by (simp add: didDeadlineFire_def)
  moreover have "h2_Write (3, Some IoEOF) None ?c1 = (3, Some IoEOF)"
    using h2_timeouts [OF s h2_steps.none, of "[]" None 3 IoEOF None] by (simp add: z deadlines_def)
  ultimately show ?thesis using r by blast
qed

section \<open>The closer\<close>

text \<open>A deadline that fires calls the closer, and so does Close after it: the closer does not run exactly
  once, as the comment on its field says.\<close>

lemma closer_runs_twice:
  assumes "h2Closer c = Some e" and "\<not> h2Closed c" and "closerCalls c = 0"
  shows "closerCalls (snd (h2_Close (fireDeadline c))) = 2"
  using assms by (simp add: h2_Close_def fireDeadline_def callCloser_def callCancel_def)

end
