(* ===== verification/Spec2Isabelle.thy ===== *)
theory Spec2Isabelle
  imports Echo Chat WriterClose ReadContext Join Json Conversation EndToEnd H2Stream
begin

text \<open>
  A verification library for the WebSocket package under src/ (RFC 6455, with permessage-deflate of
  RFC 7692 and the extended CONNECT of RFC 8441).

  THE PROGRAM. A connection (\<open>Conn\<close>, src/conn.go) sits on a network connection. Its write side builds
  frames in a buffer: a message writer, a compressor above it and a UTF-8 validator above that form
  the writer the application gets; control frames go straight to the network between them. Its read
  side parses frame headers (\<open>advanceFrame\<close>), answers control frames and hands out a reader per
  message: the message reader, a decompressor above it and a UTF-8 validator above that. Connections
  come from a handshake: \<open>Upgrader.Upgrade\<close> on the server (src/server.go) and \<open>Dialer.DialContext\<close> on the
  client (src/client.go, with src/proxy.go for tunnels), or their HTTP/2 variants (src/h2.go). Prepared
  messages (src/prepared.go), joined messages (src/join.go) and JSON (src/json.go) use a connection
  from outside.

  STATE AND EFFECTS. The record \<open>conn\<close> of ConnBase has the fields of the Go struct, under their names,
  followed by the environment the connection talks to: what the network makes of each write and read,
  the bytes written (\<open>wire\<close>), the random mask keys, the buffer pool and the clock. Writers and readers
  extend it (\<open>wconn\<close> in ConnMessage, \<open>rconn\<close> in ConnReader) and are named by their index. An operation
  takes the state and returns a result with the new state; an error is a value of \<open>gerror\<close>. An
  operation that may block for ever or loop for ever returns an option, and \<open>None\<close> means that it does
  not return. A lock is a Boolean: taking a lock that is held, with no deadline, is \<open>None\<close>. What
  concurrent calls do is what their sequences of whole steps do; \<open>app_step\<close> of WriteSafety has every
  operation of the write side as a step, with any error of the network, and \<open>conn_step\<close> of Duplex has those
  and the operations of the read side on one connection, whose two sides share the lock of the network,
  the write error and the wire.

  THEORIES, in the order of their imports.
  Prelude: bytes, big-endian numbers, buffers, the lemma collections.
  Mask, Utf8Dfa: src/mask.go and src/utf8_dfa.go. The word-wise mask is the mask of RFC 6455; the
  automaton with its table accepts the UTF-8 strings, and nothing is read out of the table.
  ConnBase, ConnWrite, ConnMessage, FlateWriter: the write side of src/conn.go and src/compression.go.
  Frame states the wire format abstractly; FrameWrite, MsgWriter, Streaming and WriteMessages show that
  every write puts the frames of one message on the wire, compressed or not, from \<open>WriteMessage\<close>, from
  chunks of any sizes or from a reader; WriteSafety has the invariants over all sequences of operations.
  Sides groups the fields that only one side changes, so that each side's lemmas say that the other's stay.
  Bufio, IoReader, ConnRead, ConnReader: the read side, with package bufio over an input that arrives in
  any pieces. ReadFrames, ReadMessages, TextReader, Reading: frames are taken off the wire as they were
  put there, messages are returned whole, and text is checked. Inflate and Compressed: the same above
  a decompressor; Conversation: compressed messages written and read. A message the
  application gives up is skipped, and the next one is returned whole. ReadErrors, ReadLimits, ReadContext: what is refused,
  limits, close frames, timeouts; Closing: the peer's close frame is answered. ReadReturns: every read
  returns. ReadSafety: what no read does to the write side, whatever its handlers are, and that the read
  side's values stay in range; Duplex: the
  invariants of both sides over every interleaving of their calls, with whatever the handshake has settled
  (\<open>agreed\<close>), and what latches the write error; WriterClose: the layers above the current message writer are
  open and have seen no error (\<open>whole\<close>), so closing it, compressed or not, gives the write lock back. MessageReads, Join, Json: readers of
  single messages, src/join.go and src/json.go. Prepared: src/prepared.go.
  Echo: the loops of src/examples/echo and src/examples/autobahn, from the first message to the end of the closing
  handshake, with any compression that has been negotiated. Hub and Chat: src/examples/chat, the first with its goroutines and channels as the steps of
  \<open>chat_step\<close>, the second with the text of its messages on a connection.
  HttpHeader, Tokens, TokenText, Negotiation: header values, src/util.go, the extension negotiation.
  Crypto: base64, SHA-1 and the accept key. Handshake, Upgrade, Upgraded: src/server.go. Dialing,
  Client, Dialed: src/client.go, src/proxy.go and \<open>dialHTTP2\<close>. What the server
  accepts (\<open>acceptable\<close>) and what answers the client's challenge (\<open>answers_challenge\<close>) are stated beside the
  code's checks and proved equal to them. EndToEnd: a dial meets an upgrade.
  H2Stream: the stream connection of src/h2.go with its deadlines.

  INTERFACES. \<open>byte_sink\<close> (no write fails), \<open>failing_sink\<close> (any may) and \<open>stepping_sink\<close> are the writers below a
  compressor, interpreted on the message writer; \<open>byte_reader\<close> is what \<open>io.ReadAll\<close>, the joined reader and the JSON decoder use of a
  reader, interpreted on the message reader, on the decompressors and on the validators above both;
  \<open>text_source\<close> is what the UTF-8 reader uses of the reader below it, interpreted on the message reader
  and on the decompressor; \<open>frame_mask\<close> is a mask that can be applied in pieces; \<open>read_relation\<close> is a relation between states that
  every read respects when the control frames it sends do, interpreted on the write lock, the wire and the range of the read state;
  \<open>replier\<close> is a reply of an echo server, interpreted on the four replies of the two programs.

  PARAMETERS. Code outside src/ is an argument: the compressor (\<open>flate_ops\<close>, of which it is assumed that
  a flush ends with a sync marker) and the decompressor (\<open>inflate_ops\<close>, \<open>inflating\<close>); the JSON encoder
  and decoder; url.Parse, Hijack, ReadResponse, RoundTrip, dialing, TLS and the cookie jar; the growth
  of the buffer of \<open>io.ReadAll\<close> (only that it grows). A stored-block compressor and decompressor and
  other concrete functions are the instances of the witnesses. Sizes are natural numbers where the
  code cannot overflow, 64-bit words where it tests for it (\<open>readRemaining\<close>, \<open>readLength\<close>).

  FUEL. \<open>fill\<close> has the 100 tries of bufio; \<open>peekFill\<close> ends with the input. Loops that depend on the peer
  are partial functions; \<open>reading_returns\<close> shows that they return on every input that ends, with any
  decompressor that gets on (\<open>paced\<close>), and the theorems on messages have the return in their conclusion.

  NOT MODELLED. The callbacks of net/http/httptrace, which only observe; accessors that return a
  field (LocalAddr, NetConn and the like) and the deprecated functions that call a method; goroutines
  as such (a watchdog of a context is one of the outcomes of the network, a timer of h2.go a step that
  may come at any time); the internals of the packages named above; debug output; of the programs under
  src/examples, which show the use of the package, those that run a command and watch a file, the
  echo through \<open>io.Copy\<close>, the pages and the flags; src/doc.go, which is a comment.

  OPEN. For a compressed stream that is not the compressor's, \<open>ReadMessage\<close> is shown to return, with
  what error is the decompressor's matter.
\<close>

end
